(* ===== verification/Hi_prelude.thy ===== *)
theory Hi_prelude
  imports Main "HOL-Library.Word" "HOL-Library.Monad_Syntax" "HOL-Library.Multiset"
begin

text \<open>
  What the theories of the development share: the machine types of the C code, guarded reads of
  arrays (an index out of range is undefined behaviour in C, here the value \<open>None\<close>), the
  little-endian views of memory that the hash and comparison functions take, and the list and
  option lemmas of the engine proofs. The platform is LP64, little-endian, as on x86-64.
\<close>

unbundle bit_operations_syntax

section \<open>Machine types\<close>

type_synonym byte = "8 word"
type_synonym u16 = "16 word"
type_synonym u32 = "32 word"
type_synonym u64 = "64 word"

text \<open>
  An opaque \<open>void *\<close> of the user (the data of an entry): its address. The library stores and
  returns such pointers and never follows them.
\<close>

type_synonym ptr = nat

text \<open>
  A key is passed as a pointer and a length in bytes. The model passes the bytes themselves, so
  the length is the length of the list; a \<open>uint32_t\<close> length is \<open>word_of_nat (length key)\<close>.
\<close>

type_synonym key = "byte list"

named_theorems hi_defs \<open>constants and enumerations of the headers\<close>
named_theorems bind_simps \<open>evaluation of the undefined-behaviour option monad\<close>

section \<open>Guarded array access\<close>

definition rd :: "'a list \<Rightarrow> nat \<Rightarrow> 'a option" where
  "rd xs i = (if i < length xs then Some (xs ! i) else None)"

lemma rd_Some [bind_simps]: "i < length xs \<Longrightarrow> rd xs i = Some (xs ! i)"
  by (simp add: rd_def)

lemma rd_None [bind_simps]: "length xs \<le> i \<Longrightarrow> rd xs i = None"
  by (simp add: rd_def)

lemma rd_eq_Some: "rd xs i = Some x \<longleftrightarrow> i < length xs \<and> xs ! i = x"
  by (auto simp: rd_def)

lemma rd_update: "rd (xs[i := x]) j = (if i = j \<and> j < length xs then Some x else rd xs j)"
  by (auto simp: rd_def)

lemma bind_Some_iff: "Option.bind m f = Some y \<longleftrightarrow> (\<exists>x. m = Some x \<and> f x = Some y)"
  by (cases m) auto

lemma unat_eq_word: "unat w = n \<Longrightarrow> w = word_of_nat n"
  by auto

lemma unat_u32_less: "unat (w :: u32) < 2 ^ 32"
  using unsigned_less [of w] by simp

lemma unat_of_nat_u32 [simp]: "n < 2 ^ 32 \<Longrightarrow> unat (word_of_nat n :: u32) = n"
  by (simp add: unat_of_nat take_bit_nat_eq_self)

lemma unat_minus_one_u32: "w \<noteq> 0 \<Longrightarrow> unat (w - 1 :: u32) = unat w - 1"
  by (simp add: unat_minus_one)

lemma unat_plus_one_u32: "unat w < 2 ^ 32 - 1 \<Longrightarrow> unat (w + 1 :: u32) = unat w + 1"
  by (simp add: unat_word_ariths)

lemma ucast_u32_u64: "unat (w :: u32) = n \<Longrightarrow> ucast w = (word_of_nat n :: u64)"
  by (metis of_nat_unat)

text \<open>\<open>memcpy\<close> into a buffer at an offset; \<open>None\<close> past its end.\<close>

definition buffer_write :: "byte list \<Rightarrow> nat \<Rightarrow> byte list \<Rightarrow> byte list option" where
  "buffer_write buffer off bs =
     (if off + length bs \<le> length buffer then Some (take off buffer @ bs @ drop (off + length bs) buffer)
      else None)"

text \<open>A length in bits computed in 32 bits.\<close>

lemma length_in_bits: "unat (word_of_nat n * 8 :: u32) = 8 * (n mod 2 ^ 29)"
proof -
  have "unat (word_of_nat n * 8 :: u32) = (n mod 2 ^ 32) * 8 mod 2 ^ 32"
    by (simp add: unat_word_ariths unat_of_nat take_bit_eq_mod)
  also have "\<dots> = n * 8 mod (2 ^ 29 * 8)"
    by (simp add: mod_mult_left_eq)
  also have "\<dots> = 8 * (n mod 2 ^ 29)"
    using mult_mod_left [of n "2 ^ 29" 8] by (simp add: mult.commute)
  finally show ?thesis .
qed

text \<open>\<open>strlen\<close> of the memory from a pointer on.\<close>

definition strlen :: "byte list \<Rightarrow> nat option" where
  "strlen m = (if 0 \<in> set m then Some (length (takeWhile (\<lambda>b. b \<noteq> 0) m)) else None)"

section \<open>Sums over an updated list\<close>

lemma sum_list_map_update:
  fixes f :: "'a \<Rightarrow> nat"
  assumes "i < length xs"
  shows "sum_list (map f (xs[i := y])) + f (xs ! i) = sum_list (map f xs) + f y"
  using assms
proof (induction xs arbitrary: i)
  case Nil
  then show ?case by simp
next
  case (Cons x xs)
  then show ?case by (cases i) (auto simp: algebra_simps)
qed

lemma sum_list_ge_nth:
  fixes f :: "'a \<Rightarrow> nat"
  assumes "i < length xs"
  shows "f (xs ! i) \<le> sum_list (map f xs)"
  using assms by (induction xs arbitrary: i) (auto simp: nth_Cons' trans_le_add2)

lemma all_nth_update:
  assumes "\<forall>i < length xs. P i (xs ! i)" and "j < length xs \<Longrightarrow> P j y"
  shows "\<forall>i < length (xs[j := y]). P i (xs[j := y] ! i)"
proof (intro allI impI)
  fix i
  assume "i < length (xs[j := y])"
  then show "P i (xs[j := y] ! i)"
    using assms by (cases "i = j") auto
qed

section \<open>Little-endian views of memory\<close>

definition le16 :: "byte \<Rightarrow> byte \<Rightarrow> u16" where
  "le16 b0 b1 = ucast b0 OR push_bit 8 (ucast b1)"

definition le32 :: "byte \<Rightarrow> byte \<Rightarrow> byte \<Rightarrow> byte \<Rightarrow> u32" where
  "le32 b0 b1 b2 b3 =
     ucast b0 OR push_bit 8 (ucast b1) OR push_bit 16 (ucast b2) OR push_bit 24 (ucast b3)"

definition bytes16 :: "u16 \<Rightarrow> byte list" where
  "bytes16 w = [ucast w, ucast (drop_bit 8 w)]"

definition bytes32 :: "u32 \<Rightarrow> byte list" where
  "bytes32 w = [ucast w, ucast (drop_bit 8 w), ucast (drop_bit 16 w), ucast (drop_bit 24 w)]"

lemma le16_bytes16: "le16 (ucast w) (ucast (drop_bit 8 w)) = w"
  unfolding le16_def by (rule bit_word_eqI) (auto simp: bit_simps)

lemma le32_bytes32:
  "le32 (ucast w) (ucast (drop_bit 8 w)) (ucast (drop_bit 16 w)) (ucast (drop_bit 24 w)) = w"
  unfolding le32_def
proof (rule bit_word_eqI)
  fix n :: nat
  consider "n < 8" | "8 \<le> n \<and> n < 16" | "16 \<le> n \<and> n < 24" | "24 \<le> n" by linarith
  then show "bit (ucast (ucast w :: byte) OR push_bit 8 (ucast (ucast (drop_bit 8 w) :: byte)) OR
      push_bit 16 (ucast (ucast (drop_bit 16 w) :: byte)) OR
      push_bit 24 (ucast (ucast (drop_bit 24 w) :: byte)) :: u32) n = bit w n"
    if "n < LENGTH(32)"
    using that by cases (auto simp: bit_simps)
qed

lemma bit_byte_ge [simp]: "8 \<le> n \<Longrightarrow> \<not> bit (b :: byte) n"
  using bit_imp_le_length [of b n] by auto

lemma bytes16_le16: "bytes16 (le16 b0 b1) = [b0, b1]"
  unfolding bytes16_def le16_def
  by (auto intro!: bit_word_eqI simp: bit_simps)

lemma bytes32_le32: "bytes32 (le32 b0 b1 b2 b3) = [b0, b1, b2, b3]"
  unfolding bytes32_def le32_def
  by (auto intro!: bit_word_eqI simp: bit_simps)

end
