(* ===== verification/Hi_heap.thy ===== *)
theory Hi_heap
  imports Hi_prelude
begin

text \<open>
  The allocator, the error codes and the helpers of \<open>lib/xutils.c\<close>. The C heap is reduced to what
  the library can observe of it: whether an allocation succeeds, the indeterminate contents of a
  fresh block, and how many blocks are live. The outcome of the n-th allocation is an arbitrary
  function, so a theorem about all heaps covers every pattern of failures.
\<close>

section \<open>Return codes\<close>

text \<open>\<open>include/libhashish.h\<close> and \<open>include/privlibhashish.h\<close>.\<close>

definition HI_ERR_SYSTEM :: int where [hi_defs]: "HI_ERR_SYSTEM = -1"
definition HI_ERR_NODATA :: int where [hi_defs]: "HI_ERR_NODATA = -2"
definition HI_ERR_INTERNAL :: int where [hi_defs]: "HI_ERR_INTERNAL = -3"
definition HI_ERR_NOKEY :: int where [hi_defs]: "HI_ERR_NOKEY = -4"
definition HI_ERR_DUPKEY :: int where [hi_defs]: "HI_ERR_DUPKEY = -5"
definition HI_ERR_NOTIMPL :: int where [hi_defs]: "HI_ERR_NOTIMPL = -6"
definition HI_ERR_RANGE :: int where [hi_defs]: "HI_ERR_RANGE = -7"
definition HI_ERR_NOFUNC :: int where [hi_defs]: "HI_ERR_NOFUNC = -8"
definition SUCCESS :: int where [hi_defs]: "SUCCESS = 0"
definition FAILURE :: int where [hi_defs]: "FAILURE = -1"

text \<open>The value \<open>posix_memalign\<close> returns when memory is exhausted (\<open>errno.h\<close>).\<close>

definition ENOMEM :: int where [hi_defs]: "ENOMEM = 12"

definition lhi_error_values :: "(int \<times> string) list" where
  "lhi_error_values = [
     (HI_ERR_SYSTEM, ''System error''),
     (HI_ERR_NODATA, ''The given data (argument) is insufficient or wrong - check the arguments!''),
     (HI_ERR_INTERNAL, ''Internal library error, send a bug report''),
     (HI_ERR_NOKEY, ''The given key isn't in the data structure''),
     (HI_ERR_DUPKEY, ''The given key is already in the data structure''),
     (HI_ERR_NOTIMPL, ''The given functionality isn't implemented in this version''),
     (HI_ERR_RANGE, ''The given argument is out of range for this function''),
     (HI_ERR_NOFUNC, ''Functionality not supported'')]"

fun strerror_loop :: "(int \<times> string) list \<Rightarrow> int \<Rightarrow> string" where
  "strerror_loop [] code = ''Unknown error''"
| "strerror_loop ((c, msg) # rest) code = (if c = code then msg else strerror_loop rest code)"

definition hi_strerror :: "int \<Rightarrow> string" where
  "hi_strerror code = strerror_loop lhi_error_values code"

section \<open>The allocator\<close>

datatype malloc_result = Malloc_fail | Malloc_block u32

text \<open>
  \<open>outcome n\<close> is the result of the n-th allocation: failure, or a block whose uninitialised words
  read as the given value. \<open>live\<close> counts the blocks allocated and not yet freed, and
  \<open>have_posix_memalign\<close> is the build switch of \<open>xalloc_align\<close>.
\<close>

record heap =
  outcome :: "nat \<Rightarrow> malloc_result"
  tick :: nat
  live :: int
  have_posix_memalign :: bool

definition malloc :: "heap \<Rightarrow> u32 option \<times> heap" where
  "malloc hp = (let hp' = hp\<lparr>tick := tick hp + 1\<rparr>
     in case outcome hp (tick hp) of
          Malloc_fail \<Rightarrow> (None, hp')
        | Malloc_block junk \<Rightarrow> (Some junk, hp'\<lparr>live := live hp + 1\<rparr>))"

definition free :: "heap \<Rightarrow> heap" where
  "free hp = hp\<lparr>live := live hp - 1\<rparr>"

text \<open>
  \<open>xalloc_align\<close>: the return code, the contents of the block where there is one, and the heap.
  Alignment and size do not change what the caller sees.
\<close>

definition xalloc_align :: "heap \<Rightarrow> int \<times> u32 \<times> heap" where
  "xalloc_align hp =
     (case malloc hp of
        (Some junk, hp') \<Rightarrow> (0, junk, hp')
      | (None, hp') \<Rightarrow> (if have_posix_memalign hp then ENOMEM else -1, 0, hp'))"

text \<open>The allocator never fails: the hypothesis of the theorems on successful operation.\<close>

definition no_oom :: "heap \<Rightarrow> bool" where
  "no_oom hp \<longleftrightarrow> (\<forall>n. outcome hp n \<noteq> Malloc_fail)"

lemma xalloc_no_oom:
  assumes "no_oom hp"
  obtains junk hp' where "xalloc_align hp = (0, junk, hp')" and "no_oom hp'"
    and "live hp' = live hp + 1"
proof -
  have "outcome hp (tick hp) \<noteq> Malloc_fail"
    using assms by (simp add: no_oom_def)
  then obtain junk where "outcome hp (tick hp) = Malloc_block junk"
    by (cases "outcome hp (tick hp)") auto
  then show ?thesis
    using assms that by (auto simp: xalloc_align_def malloc_def no_oom_def)
qed

lemma malloc_no_oom:
  assumes "no_oom hp"
  obtains junk hp' where "malloc hp = (Some junk, hp')" and "no_oom hp'"
    and "live hp' = live hp + 1"
proof -
  have "outcome hp (tick hp) \<noteq> Malloc_fail"
    using assms by (simp add: no_oom_def)
  then obtain junk where "outcome hp (tick hp) = Malloc_block junk"
    by (cases "outcome hp (tick hp)") auto
  then show ?thesis
    using assms that by (auto simp: malloc_def no_oom_def)
qed

lemma free_simps [simp]:
  "no_oom (free hp) = no_oom hp" "live (free hp) = live hp - 1"
  by (simp_all add: no_oom_def free_def)

lemma xalloc_cases:
  obtains (ok) junk hp' where "xalloc_align hp = (0, junk, hp')" and "live hp' = live hp + 1"
  | (fail) e hp' where "xalloc_align hp = (e, 0, hp')" and "e \<noteq> 0" and "live hp' = live hp"
  by (cases "outcome hp (tick hp)")
    (auto simp: xalloc_align_def malloc_def ENOMEM_def split: if_splits)

section \<open>String copy\<close>

text \<open>
  \<open>strlcpy\<close> on a destination buffer and a source string of nonzero bytes; the terminator of the
  source is implicit. Writing past the end of the destination is undefined.
\<close>

definition strlcpy :: "byte list \<Rightarrow> byte list \<Rightarrow> nat \<Rightarrow> (nat \<times> byte list) option" where
  "strlcpy dest src sz =
     (let ret = length src
      in if sz \<noteq> 0 then
           (let len = (if sz \<le> ret then sz - 1 else ret)
            in if len < length dest then Some (ret, take len src @ [0] @ drop (len + 1) dest)
               else None)
         else Some (ret, dest))"

text \<open>
  \<open>strlcpy\<close> into a buffer of at least \<open>sz\<close> bytes is defined, keeps the length of the buffer,
  terminates the copy inside the first \<open>sz\<close> bytes and leaves the bytes from \<open>sz\<close> on alone;
  the return value tells whether the copy was truncated.
\<close>

lemma strlcpy_bounded:
  assumes "0 < sz" and "sz \<le> length dest" and "0 \<notin> set src"
  shows "\<exists>dest'. strlcpy dest src sz = Some (length src, dest') \<and> length dest' = length dest \<and>
    drop sz dest' = drop sz dest \<and>
    takeWhile (\<lambda>b. b \<noteq> 0) dest' = take (sz - 1) src \<and>
    (length src < sz \<longrightarrow> takeWhile (\<lambda>b. b \<noteq> 0) dest' = src)"
proof -
  define len where "len = (if sz \<le> length src then sz - 1 else length src)"
  have len: "len < sz" "len \<le> length src"
    using assms(1) by (auto simp: len_def)
  define d where "d = take len src @ [0] @ drop (len + 1) dest"
  have "\<forall>b \<in> set (take len src). b \<noteq> 0"
    using assms(3) by (auto dest: in_set_takeD)
  then have tw: "takeWhile (\<lambda>b. b \<noteq> 0) d = take len src"
    unfolding d_def by (subst takeWhile_append2) auto
  have eq: "take len src = take (sz - 1) src" "length src < sz \<Longrightarrow> take len src = src"
    using assms(1) by (auto simp: len_def)
  have "strlcpy dest src sz = Some (length src, d)"
    using assms(1,2) len(1) by (simp add: strlcpy_def Let_def len_def [symmetric] d_def)
  moreover have "length d = length dest" and "drop sz d = drop sz dest"
    using assms(2) len
    by (auto simp: d_def min_absorb2 drop_Cons split: nat.split
        intro: arg_cong [of _ _ "\<lambda>n. drop n dest"])
  ultimately show ?thesis
    using tw eq by auto
qed

end
