(* ===== verification/Cmp_funcs.thy ===== *)
theory Cmp_funcs
  imports Hi_heap
begin

text \<open>
  The key compare functions of \<open>lib/cmp_funcs.c\<close>. They take two pointers and no length: reading
  past the end of a key is undefined, here \<open>None\<close>, and so is a signed difference that does not
  fit an \<open>int\<close>. The locale at the end states what the table needs of a compare function.
\<close>

text \<open>
  \<open>strcmp\<close> of the C library on two memory blocks: bytes compare as \<open>unsigned char\<close>. The standard
  fixes the sign of the result only, which is all the library uses; the model returns the
  difference of the first differing bytes.
\<close>

fun strcmp :: "byte list \<Rightarrow> byte list \<Rightarrow> int option" where
  "strcmp (a # as) (b # bs) =
     (if a \<noteq> b then Some (uint a - uint b) else if a = 0 then Some 0 else strcmp as bs)"
| "strcmp _ _ = None"

definition hi_cmp_str :: "key \<Rightarrow> key \<Rightarrow> int option" where
  "hi_cmp_str key1 key2 = strcmp key1 key2"

text \<open>Reading a word through a cast pointer.\<close>

fun deref16 :: "key \<Rightarrow> u16 option" where
  "deref16 (b0 # b1 # _) = Some (le16 b0 b1)"
| "deref16 _ = None"

fun deref32 :: "key \<Rightarrow> u32 option" where
  "deref32 (b0 # b1 # b2 # b3 # _) = Some (le32 b0 b1 b2 b3)"
| "deref32 _ = None"

text \<open>An \<open>int\<close> expression: out of range is undefined.\<close>

definition int_range :: "int \<Rightarrow> int option" where
  "int_range i = (if - (2 ^ 31) \<le> i \<and> i < 2 ^ 31 then Some i else None)"

definition hi_cmp_int32_t :: "key \<Rightarrow> key \<Rightarrow> int option" where
  "hi_cmp_int32_t key1 key2 = do {
     a \<leftarrow> deref32 key1;
     b \<leftarrow> deref32 key2;
     int_range (sint a - sint b)
   }"

text \<open>The unsigned difference wraps and is converted to \<open>int\<close>.\<close>

definition hi_cmp_uint32_t :: "key \<Rightarrow> key \<Rightarrow> int option" where
  "hi_cmp_uint32_t key1 key2 = do {
     a \<leftarrow> deref32 key1;
     b \<leftarrow> deref32 key2;
     Some (sint (a - b))
   }"

text \<open>16-bit operands are promoted to \<open>int\<close> before they are subtracted.\<close>

definition hi_cmp_int16_t :: "key \<Rightarrow> key \<Rightarrow> int option" where
  "hi_cmp_int16_t key1 key2 = do {
     a \<leftarrow> deref16 key1;
     b \<leftarrow> deref16 key2;
     int_range (sint a - sint b)
   }"

definition hi_cmp_uint16_t :: "key \<Rightarrow> key \<Rightarrow> int option" where
  "hi_cmp_uint16_t key1 key2 = do {
     a \<leftarrow> deref16 key1;
     b \<leftarrow> deref16 key2;
     int_range (uint a - uint b)
   }"

section \<open>What the table needs of a compare function\<close>

text \<open>
  On the keys the client uses, the compare function is defined and returns zero exactly on equal
  keys. The list and array engines need no more. Lengths fit the \<open>uint32_t\<close> of the interface.
\<close>

locale key_domain =
  fixes V :: "key \<Rightarrow> bool" and cmp :: "key \<Rightarrow> key \<Rightarrow> int option"
  assumes cmp_eq: "V a \<Longrightarrow> V b \<Longrightarrow> \<exists>d. cmp a b = Some d \<and> (d = 0 \<longleftrightarrow> a = b)"
    and key_length: "V a \<Longrightarrow> length a < 2 ^ 32"
begin

lemma cmp_cases:
  assumes "V a" and "V b"
  obtains (eq) "a = b" "cmp a b = Some 0" | (neq) d where "a \<noteq> b" "cmp a b = Some d" "d \<noteq> 0"
  using cmp_eq [OF assms] by auto

end

text \<open>The red-black tree engine also needs the sign of the result to be a linear order.\<close>

locale key_order = key_domain +
  assumes cmp_flip: "V a \<Longrightarrow> V b \<Longrightarrow> cmp a b = Some d \<Longrightarrow> d < 0 \<Longrightarrow> \<exists>e > 0. cmp b a = Some e"
    and cmp_trans: "V a \<Longrightarrow> V b \<Longrightarrow> V c \<Longrightarrow> cmp a b = Some d \<Longrightarrow> d < 0 \<Longrightarrow>
      cmp b c = Some e \<Longrightarrow> e < 0 \<Longrightarrow> \<exists>f < 0. cmp a c = Some f"
    and cmp_flip': "V a \<Longrightarrow> V b \<Longrightarrow> cmp a b = Some d \<Longrightarrow> 0 < d \<Longrightarrow> \<exists>e < 0. cmp b a = Some e"

section \<open>The compare functions meet it\<close>

text \<open>A C string as the string functions pass it: its bytes with the terminator, and nothing after.\<close>

definition str_key :: "key \<Rightarrow> bool" where
  "str_key k \<longleftrightarrow> (\<exists>s. k = s @ [0] \<and> 0 \<notin> set s) \<and> length k < 2 ^ 32"

lemma strcmp_str:
  assumes "0 \<notin> set s" and "0 \<notin> set t"
  shows "\<exists>d. strcmp (s @ [0]) (t @ [0]) = Some d \<and> (d = 0 \<longleftrightarrow> s = t) \<and>
    (d < 0 \<longleftrightarrow> (map uint s, map uint t) \<in> lexord {(x, y). x < y})"
  using assms
proof (induction s arbitrary: t)
  case Nil
  then show ?case by (cases t) (auto simp: uint_0_iff word_gt_0_no less_le)
next
  case (Cons a s)
  then show ?case
  proof (cases t)
    case Nil
    then show ?thesis using Cons.prems by (auto simp: uint_0_iff)
  next
    case (Cons b t')
    then show ?thesis
      using Cons.IH [of t'] Cons.prems by (auto simp: word_uint_eq_iff)
  qed
qed

lemma lexord_less_linear:
  fixes xs ys :: "int list"
  shows "(xs, ys) \<in> lexord {(x, y). x < y} \<or> xs = ys \<or> (ys, xs) \<in> lexord {(x, y). x < y}"
  by (rule lexord_linear) auto

lemma lexord_less_irrefl: "(xs :: int list, xs) \<notin> lexord {(x, y). x < y}"
  by (rule lexord_irreflexive) auto

lemma lexord_less_trans:
  fixes xs ys zs :: "int list"
  shows "(xs, ys) \<in> lexord {(x, y). x < y} \<Longrightarrow> (ys, zs) \<in> lexord {(x, y). x < y} \<Longrightarrow>
    (xs, zs) \<in> lexord {(x, y). x < y}"
  by (rule lexord_trans) (auto simp: trans_def)

lemma str_key_cmp:
  assumes "str_key a" and "str_key b"
  obtains d where "hi_cmp_str a b = Some d" and "d = 0 \<longleftrightarrow> a = b"
    and "d < 0 \<longleftrightarrow> (map uint (butlast a), map uint (butlast b)) \<in> lexord {(x, y). x < y}"
proof -
  obtain s t where "a = s @ [0]" "0 \<notin> set s" "b = t @ [0]" "0 \<notin> set t"
    using assms by (auto simp: str_key_def)
  then show ?thesis
    using strcmp_str [of s t] that by (auto simp: hi_cmp_str_def)
qed

lemma str_key_lexord_neq:
  assumes "str_key a" and "str_key b" and "a \<noteq> b"
  shows "map uint (butlast a) \<noteq> map uint (butlast b)"
proof -
  obtain s t where "a = s @ [0]" "b = t @ [0]"
    using assms by (auto simp: str_key_def)
  moreover have "inj (uint :: byte \<Rightarrow> int)"
    by (auto simp: inj_def word_uint_eq_iff)
  ultimately show ?thesis
    using assms(3) by (auto dest: map_injective)
qed

interpretation str_keys: key_order str_key hi_cmp_str
proof
  fix a b :: key
  assume ab: "str_key a" "str_key b"
  obtain d where d: "hi_cmp_str a b = Some d" "d = 0 \<longleftrightarrow> a = b"
    "d < 0 \<longleftrightarrow> (map uint (butlast a), map uint (butlast b)) \<in> lexord {(x, y). x < y}"
    by (rule str_key_cmp [OF ab])
  obtain e where e: "hi_cmp_str b a = Some e" "e = 0 \<longleftrightarrow> b = a"
    "e < 0 \<longleftrightarrow> (map uint (butlast b), map uint (butlast a)) \<in> lexord {(x, y). x < y}"
    by (rule str_key_cmp [OF ab(2,1)])
  show "\<exists>d. hi_cmp_str a b = Some d \<and> (d = 0 \<longleftrightarrow> a = b)"
    using d by blast
  note lin = lexord_less_linear [of "map uint (butlast a)" "map uint (butlast b)"]
  note asym = lexord_less_trans lexord_less_irrefl
  show "\<exists>e > 0. hi_cmp_str b a = Some e" if "hi_cmp_str a b = Some i" "i < 0" for i
    using that d e asym by (metis linorder_less_linear option.inject)
  show "\<exists>e < 0. hi_cmp_str b a = Some e" if "hi_cmp_str a b = Some i" "0 < i" for i
  proof -
    have "d > 0" and "a \<noteq> b"
      using that d by auto
    then have "e < 0"
      using d(3) e(3) lin str_key_lexord_neq [OF ab] by auto
    then show ?thesis using e(1) by blast
  qed
next
  fix a b c :: key and d e
  assume abc: "str_key a" "str_key b" "str_key c"
    and d: "hi_cmp_str a b = Some d" "d < 0" and e: "hi_cmp_str b c = Some e" "e < 0"
  have "(map uint (butlast a), map uint (butlast b)) \<in> lexord {(x, y). x < y}"
    by (rule str_key_cmp [OF abc(1,2)]) (use d in auto)
  moreover have "(map uint (butlast b), map uint (butlast c)) \<in> lexord {(x, y). x < y}"
    by (rule str_key_cmp [OF abc(2,3)]) (use e in auto)
  ultimately have less: "(map uint (butlast a), map uint (butlast c)) \<in> lexord {(x, y). x < y}"
    by (rule lexord_less_trans)
  show "\<exists>f < 0. hi_cmp_str a c = Some f"
    by (rule str_key_cmp [OF abc(1,3)]) (use less in auto)
qed (simp add: str_key_def)

text \<open>Keys of the integer wrappers: exactly the bytes of the integer.\<close>

definition key16 :: "key \<Rightarrow> bool" where
  "key16 k \<longleftrightarrow> length k = 2"

definition key32 :: "key \<Rightarrow> bool" where
  "key32 k \<longleftrightarrow> length k = 4"

lemma key16_bytes: "key16 k \<Longrightarrow> \<exists>w. k = bytes16 w \<and> deref16 k = Some w"
  by (auto simp: key16_def length_Suc_conv numeral_2_eq_2 bytes16_le16)

lemma key32_bytes: "key32 k \<Longrightarrow> \<exists>w. k = bytes32 w \<and> deref32 k = Some w"
  by (auto simp: key32_def length_Suc_conv numeral_eq_Suc bytes32_le32)

lemma deref_bytes [bind_simps]:
  "deref16 (bytes16 v) = Some v" "deref32 (bytes32 w) = Some w"
  by (simp_all add: bytes16_def bytes32_def le16_bytes16 le32_bytes32)

lemma key_bytes [simp]: "key16 (bytes16 v)" "key32 (bytes32 w)"
  by (simp_all add: key16_def key32_def bytes16_def bytes32_def)

lemma bytes_inj [simp]:
  "bytes16 v = bytes16 v' \<longleftrightarrow> v = v'" "bytes32 w = bytes32 w' \<longleftrightarrow> w = w'"
  by (metis deref_bytes option.inject)+

text \<open>A compare function that returns the difference of integer values is a linear order.\<close>

lemma difference_key_order:
  assumes "\<And>a. V a \<Longrightarrow> length a < 2 ^ 32" and "inj_on val {a. V a}"
    and "\<And>a b. V a \<Longrightarrow> V b \<Longrightarrow> cmp a b = Some (val a - val b :: int)"
  shows "key_order V cmp"
  using assms by unfold_locales (auto simp: inj_on_def)

text \<open>The integer value of a key of two bytes.\<close>

definition key16_val :: "(u16 \<Rightarrow> int) \<Rightarrow> key \<Rightarrow> int" where
  "key16_val f k = f (the (deref16 k))"

lemma int16_cmp:
  assumes "key16 a" and "key16 b"
  shows "hi_cmp_int16_t a b = Some (key16_val sint a - key16_val sint b)"
    and "hi_cmp_uint16_t a b = Some (key16_val uint a - key16_val uint b)"
proof -
  obtain v w where "deref16 a = Some v" "deref16 b = Some w"
    using assms key16_bytes by blast
  moreover have "- (2 ^ 15) \<le> sint v" "sint v < 2 ^ 15" "- (2 ^ 15) \<le> sint w" "sint w < 2 ^ 15"
    using sint_range_size [of v] sint_range_size [of w] by (simp_all add: word_size)
  moreover have "uint v < 65536" "uint w < 65536"
    using uint_range_size [of v] uint_range_size [of w] by (simp_all add: word_size)
  moreover have "- 2147483648 \<le> uint v - uint w" "uint v - uint w < 2147483648"
    using calculation(7,8) uint_nonnegative [of v] uint_nonnegative [of w] by linarith+
  ultimately show "hi_cmp_int16_t a b = Some (key16_val sint a - key16_val sint b)"
    and "hi_cmp_uint16_t a b = Some (key16_val uint a - key16_val uint b)"
    by (simp_all add: hi_cmp_int16_t_def hi_cmp_uint16_t_def int_range_def key16_val_def)
qed

lemma key16_val_inj: "inj f \<Longrightarrow> inj_on (key16_val f) {k. key16 k}"
  by (auto simp: inj_on_def key16_val_def dest!: key16_bytes)

lemma inj_sint: "inj (sint :: 'a::len word \<Rightarrow> int)"
  by (simp add: inj_def signed_word_eqI)

lemma inj_uint: "inj (uint :: 'a::len word \<Rightarrow> int)"
  by (simp add: inj_def word_uint_eq_iff)

interpretation int16_keys: key_order key16 hi_cmp_int16_t
  by (rule difference_key_order [of _ "key16_val sint"])
    (simp_all add: int16_cmp key16_val_inj inj_sint, simp add: key16_def)

interpretation uint16_keys: key_order key16 hi_cmp_uint16_t
  by (rule difference_key_order [of _ "key16_val uint"])
    (simp_all add: int16_cmp key16_val_inj inj_uint, simp add: key16_def)

text \<open>
  The unsigned 32-bit difference is zero exactly on equal keys, which serves the list and array
  engines; its sign is not an order, which the tree engine would need.
\<close>

lemma sint_eq_0: "sint (a - b :: u32) = 0 \<Longrightarrow> a = b"
  by (metis right_minus_eq signed_0 signed_word_eqI)

interpretation uint32_keys: key_domain key32 hi_cmp_uint32_t
proof
  fix a b
  assume "key32 a" "key32 b"
  then obtain v w where "a = bytes32 v" "b = bytes32 w"
    using key32_bytes by blast
  then show "\<exists>d. hi_cmp_uint32_t a b = Some d \<and> (d = 0 \<longleftrightarrow> a = b)"
    by (auto simp: hi_cmp_uint32_t_def bind_simps dest: sint_eq_0)
qed (simp add: key32_def)

text \<open>
  The signed 32-bit difference is defined only while it fits an \<open>int\<close>: on the keys of one half of
  the range it is a linear order.
\<close>

definition key32_half :: "key \<Rightarrow> bool" where
  "key32_half k \<longleftrightarrow> key32 k \<and>
     (case deref32 k of Some w \<Rightarrow> - (2 ^ 30) \<le> sint w \<and> sint w < 2 ^ 30 | None \<Rightarrow> False)"

interpretation int32_keys: key_order key32_half hi_cmp_int32_t
proof (rule difference_key_order [of _ "\<lambda>k. sint (the (deref32 k))"])
  show "inj_on (\<lambda>k. sint (the (deref32 k))) {k. key32_half k}"
    by (auto simp: inj_on_def key32_half_def dest!: key32_bytes signed_word_eqI)
  show "hi_cmp_int32_t a b = Some (sint (the (deref32 a)) - sint (the (deref32 b)))"
    if "key32_half a" "key32_half b" for a b
    using that
    by (auto simp: key32_half_def hi_cmp_int32_t_def int_range_def split: option.splits)
qed (simp add: key32_half_def key32_def)

text \<open>
  \<open>hi_cmp_int32_t\<close> is undefined, by signed overflow, exactly on keys whose difference does
  not fit an \<open>int\<close>; elsewhere it returns the difference.
\<close>

lemma int32_cmp_overflow:
  "hi_cmp_int32_t (bytes32 v) (bytes32 w) =
     (if - (2 ^ 31) \<le> sint v - sint w \<and> sint v - sint w < 2 ^ 31 then Some (sint v - sint w)
      else None)"
  by (simp add: hi_cmp_int32_t_def int_range_def bind_simps)

text \<open>
  The sign of \<open>hi_cmp_uint32_t\<close> is not an order: there are three keys each of which compares
  less than the next, cyclically.
\<close>

lemma uint32_cmp_cyclic:
  "\<exists>a b c d e f. hi_cmp_uint32_t (bytes32 a) (bytes32 b) = Some d \<and> d < 0 \<and>
     hi_cmp_uint32_t (bytes32 b) (bytes32 c) = Some e \<and> e < 0 \<and>
     hi_cmp_uint32_t (bytes32 c) (bytes32 a) = Some f \<and> f < 0"
proof -
  have "sint (0 - 1431655765 :: u32) < 0" "sint (1431655765 - 2863311530 :: u32) < 0"
    "sint (2863311530 - 0 :: u32) < 0"
    by code_simp+
  then show ?thesis
    unfolding hi_cmp_uint32_t_def
    by (intro exI [of _ 0] exI [of _ 1431655765] exI [of _ 2863311530] exI conjI)
      (simp only: bind_simps bind.bind_lunit | assumption)+
qed

end
