(* ===== verification/Hi_types.thy ===== *)
theory Hi_types
  imports Cmp_funcs Complex_Main
begin

text \<open>
  The data structures of \<open>include/libhashish.h\<close>: the collision engines, the settings a table is
  created from, and the handle with the data of every engine. Operations on a handle return an
  \<open>option\<close>: \<open>None\<close> stands for undefined behaviour of the C code (a null or dangling pointer, an
  index out of range, a division by zero, an indeterminate value), errors of the library are
  values. The lock pointers of the THREADSAFE build are left out: the default build compiles every
  lock operation to a function that returns 0, and the theory \<open>Hi_locking\<close> models the other build.
\<close>

section \<open>Function pointers\<close>

text \<open>Function pointers compare by address and are called by contents; \<open>None\<close> is the null pointer.\<close>

datatype 'f fptr = Fptr (fp_addr: nat) (fp_fun: 'f)

definition fp_call :: "'f fptr option \<Rightarrow> 'f option" where
  "fp_call p = map_option fp_fun p"

definition fp_same :: "'f fptr option \<Rightarrow> 'f fptr option \<Rightarrow> bool" where
  "fp_same p q \<longleftrightarrow> map_option fp_addr p = map_option fp_addr q"

lemma fp_call_simps [bind_simps, simp]:
  "fp_call None = None" "fp_call (Some p) = Some (fp_fun p)"
  by (simp_all add: fp_call_def)

type_synonym hash_fn = "key \<Rightarrow> u32"
type_synonym cmp_fn = "key \<Rightarrow> key \<Rightarrow> int option"

section \<open>Settings and handle\<close>

text \<open>
  \<open>enum coll_eng\<close>. A variable of the type can also hold a number that names no engine, in
  particular the 0 that \<open>memset\<close> leaves in a fresh \<open>hi_init_set\<close>.
\<close>

datatype coll_eng =
    COLL_ENG_LIST | COLL_ENG_LIST_HASH | COLL_ENG_LIST_MTF | COLL_ENG_LIST_MTF_HASH
  | COLL_ENG_ARRAY | COLL_ENG_ARRAY_HASH | COLL_ENG_ARRAY_DYN | COLL_ENG_ARRAY_DYN_HASH
  | COLL_ENG_RBTREE | COLL_ENG_OTHER u32

definition coll_eng_of :: "u32 \<Rightarrow> coll_eng" where
  "coll_eng_of n =
     (if n = 1 then COLL_ENG_LIST else if n = 2 then COLL_ENG_LIST_HASH
      else if n = 3 then COLL_ENG_LIST_MTF else if n = 4 then COLL_ENG_LIST_MTF_HASH
      else if n = 5 then COLL_ENG_ARRAY else if n = 6 then COLL_ENG_ARRAY_HASH
      else if n = 7 then COLL_ENG_ARRAY_DYN else if n = 8 then COLL_ENG_ARRAY_DYN_HASH
      else if n = 9 then COLL_ENG_RBTREE else COLL_ENG_OTHER n)"

text \<open>The engines by the case labels the code groups them under.\<close>

definition list_eng :: "coll_eng \<Rightarrow> bool" where
  "list_eng e \<longleftrightarrow>
     e \<in> {COLL_ENG_LIST, COLL_ENG_LIST_HASH, COLL_ENG_LIST_MTF, COLL_ENG_LIST_MTF_HASH}"

definition array_eng :: "coll_eng \<Rightarrow> bool" where
  "array_eng e \<longleftrightarrow>
     e \<in> {COLL_ENG_ARRAY, COLL_ENG_ARRAY_HASH, COLL_ENG_ARRAY_DYN, COLL_ENG_ARRAY_DYN_HASH}"

lemma eng_groups [simp]:
  "list_eng COLL_ENG_LIST" "list_eng COLL_ENG_LIST_HASH" "list_eng COLL_ENG_LIST_MTF"
  "list_eng COLL_ENG_LIST_MTF_HASH" "\<not> list_eng COLL_ENG_ARRAY" "\<not> list_eng COLL_ENG_ARRAY_HASH"
  "\<not> list_eng COLL_ENG_ARRAY_DYN" "\<not> list_eng COLL_ENG_ARRAY_DYN_HASH"
  "\<not> list_eng COLL_ENG_RBTREE" "\<not> list_eng (COLL_ENG_OTHER n)"
  "array_eng COLL_ENG_ARRAY" "array_eng COLL_ENG_ARRAY_HASH" "array_eng COLL_ENG_ARRAY_DYN"
  "array_eng COLL_ENG_ARRAY_DYN_HASH" "\<not> array_eng COLL_ENG_LIST" "\<not> array_eng COLL_ENG_LIST_HASH"
  "\<not> array_eng COLL_ENG_LIST_MTF" "\<not> array_eng COLL_ENG_LIST_MTF_HASH"
  "\<not> array_eng COLL_ENG_RBTREE" "\<not> array_eng (COLL_ENG_OTHER n)"
  by (simp_all add: list_eng_def array_eng_def)

text \<open>
  \<open>struct hi_init_set\<close>. The \<open>float\<close> threshold is a rational; the only arithmetic the code does on
  it is a comparison. (NaN and infinities are not modelled.)
\<close>

record hi_init_set =
  set_table_size :: u32
  set_rehash_auto :: int
  set_rehash_threshold :: rat
  set_coll_eng_array_size :: u32
  set_coll_eng :: coll_eng
  set_hash_func :: "hash_fn fptr option"
  set_hash2_func :: "hash_fn fptr option"
  set_key_cmp :: "cmp_fn fptr option"

text \<open>
  A node of a chain, \<open>hi_bucket_obj_t\<close> and its extension \<open>hi_bucket_hl_obj_t\<close>. The chain itself,
  the \<open>next\<close> pointers, is the list of the nodes in order.
\<close>

record bucket_obj =
  key_len :: u32
  obj_key :: key
  obj_data :: ptr
  key_hash :: u32

text \<open>
  A slot of a bucket array, \<open>hi_bucket_a_obj_t\<close>: \<open>None\<close> is \<open>BA_NOT_ALLOCATED\<close> (the other fields
  of such a slot are never read). \<open>key_hash\<close> of an array slot is neither written nor read.
\<close>

record a_obj =
  a_key_len :: u32
  a_key :: key
  a_data :: ptr

text \<open>\<open>struct lhi_rb_entry\<close>, and a tree of them; the colour is the low bit of \<open>rb_parent_color\<close>.\<close>

record rb_entry =
  rb_keylen :: u32
  rb_key :: key
  rb_data :: ptr

datatype rb_color = RB_RED | RB_BLACK

datatype rb_tree = RB_NULL | RB_NODE rb_color rb_tree rb_entry rb_tree

text \<open>
  \<open>hi_handle_t\<close>. The union \<open>eng\<close> is the fields from \<open>bucket_table\<close> on, of which an engine uses its
  own. A null array pointer, which \<open>memset\<close> leaves in a vanilla handle, is the empty list: every
  access through it is out of range. A bucket array whose \<open>realloc\<close> failed is \<open>None\<close>.
\<close>

record hi_handle =
  table_size :: u32
  coll_eng :: coll_eng
  rehash_auto :: int
  rehash_threshold :: rat
  coll_eng_array_size :: u32
  hash_func :: "hash_fn fptr option"
  hash2_func :: "hash_fn fptr option"
  key_cmp :: "cmp_fn fptr option"
  bucket_size :: "u32 list"
  no_objects :: u32
  bucket_table :: "bucket_obj list list"
  bucket_array :: "a_obj option list option list"
  slot_size :: "u32 list"
  slot_max :: "u32 list"
  trees :: "rb_tree list"

text \<open>\<open>hi_handle->hash_func(key, keylen) % hi_handle->table_size\<close>, the first step of every operation.\<close>

definition hash_bucket :: "hi_handle \<Rightarrow> key \<Rightarrow> nat option" where
  "hash_bucket h k = do {
     f \<leftarrow> fp_call (hash_func h);
     if table_size h = 0 then None else Some (unat (f k mod table_size h))
   }"

section \<open>Entries in buckets\<close>

text \<open>
  What all engines have in common: a table is a list of buckets, each with a list of entries; an
  entry is in the bucket its hash selects and a bucket has no key twice. The engine theories say
  which entries a chain, an array or a tree has; the lemmas here turn a change of one bucket into
  a change of the map that the whole table stands for.
\<close>

type_synonym entries = "(key \<times> ptr) list"

definition placed :: "(key \<Rightarrow> bool) \<Rightarrow> (key \<Rightarrow> nat) \<Rightarrow> entries list \<Rightarrow> bool" where
  "placed V slot xss \<longleftrightarrow>
     (\<forall>i < length xss. distinct (map fst (xss ! i)) \<and>
        (\<forall>k \<in> fst ` set (xss ! i). V k \<and> slot k = i))"

definition map_of_table :: "entries list \<Rightarrow> key \<Rightarrow> ptr option" where
  "map_of_table xss = map_of (concat xss)"

definition entry_count :: "entries list \<Rightarrow> nat" where
  "entry_count xss = sum_list (map length xss)"

lemma placedD:
  assumes "placed V slot xss" and "i < length xss"
  shows "distinct (map fst (xss ! i))" and "(k, v) \<in> set (xss ! i) \<Longrightarrow> V k \<and> slot k = i"
  using assms by (force simp: placed_def)+

lemma map_of_concat_None:
  "\<forall>xs \<in> set xss. k \<notin> fst ` set xs \<Longrightarrow> map_of (concat xss) k = None"
  by (auto simp: map_of_eq_None_iff)

lemma in_set_take_drop:
  assumes "x \<in> set (take i xs) \<union> set (drop (Suc i) xs)"
  shows "\<exists>j < length xs. j \<noteq> i \<and> x = xs ! j"
  using assms
proof
  assume "x \<in> set (take i xs)"
  then obtain j where "j < i" "j < length xs" "x = xs ! j"
    by (auto simp: in_set_conv_nth)
  then show ?thesis by (intro exI [of _ j]) auto
next
  assume "x \<in> set (drop (Suc i) xs)"
  then obtain j where "j < length (drop (Suc i) xs)" "x = drop (Suc i) xs ! j"
    by (metis in_set_conv_nth)
  then show ?thesis by (intro exI [of _ "Suc i + j"]) auto
qed

lemma map_of_table_slot:
  assumes "placed V slot xss" and "slot k < length xss"
  shows "map_of_table xss k = map_of (xss ! slot k) k"
proof -
  let ?i = "slot k"
  have split: "xss = take ?i xss @ xss ! ?i # drop (Suc ?i) xss"
    using assms(2) by (rule id_take_nth_drop)
  have other: "k \<notin> fst ` set xs" if xs: "xs \<in> set (take ?i xss) \<union> set (drop (Suc ?i) xss)" for xs
  proof
    assume k: "k \<in> fst ` set xs"
    obtain j where "j < length xss" "j \<noteq> ?i" "xs = xss ! j"
      using in_set_take_drop [OF xs] by blast
    then show False
      using k assms(1) by (auto simp: placed_def)
  qed
  have "map_of (concat (take ?i xss)) k = None" "map_of (concat (drop (Suc ?i) xss)) k = None"
    using other by (auto intro!: map_of_concat_None)
  moreover have "map_of_table xss k =
      map_of (concat (take ?i xss) @ xss ! ?i @ concat (drop (Suc ?i) xss)) k"
    unfolding map_of_table_def by (subst split) simp
  ultimately show ?thesis
    by (simp add: map_add_def split: option.split)
qed

lemma placed_update:
  assumes "placed V slot xss" and "distinct (map fst ys)"
    and "\<And>k. k \<in> fst ` set ys \<Longrightarrow> V k \<and> slot k = j"
  shows "placed V slot (xss[j := ys])"
  unfolding placed_def
proof (intro allI impI)
  fix i
  assume "i < length (xss[j := ys])"
  then show "distinct (map fst (xss[j := ys] ! i)) \<and>
      (\<forall>k \<in> fst ` set (xss[j := ys] ! i). V k \<and> slot k = i)"
    using assms by (cases "i = j") (auto simp: placed_def)
qed

text \<open>
  Replacing the entries of the bucket of \<open>k\<close> by entries that agree with them except at \<open>k\<close>
  updates the table at \<open>k\<close> alone. (Every key has its slot in the table.)
\<close>

lemma map_of_table_update:
  assumes "placed V slot xss" and "placed V slot (xss[slot k := ys])"
    and "\<And>k'. slot k' < length xss"
    and "map_of ys = (map_of (xss ! slot k))(k := r)"
  shows "map_of_table (xss[slot k := ys]) = (map_of_table xss)(k := r)"
proof
  fix k'
  show "map_of_table (xss[slot k := ys]) k' = ((map_of_table xss)(k := r)) k'"
  proof (cases "slot k' = slot k")
    case True
    then show ?thesis
      using assms map_of_table_slot [OF assms(2), of k'] map_of_table_slot [OF assms(1), of k']
      by simp
  next
    case False
    then have "k' \<noteq> k" by auto
    then show ?thesis
      using False assms map_of_table_slot [OF assms(2), of k'] map_of_table_slot [OF assms(1), of k']
      by simp
  qed
qed

lemma entry_count_update:
  assumes "j < length xss"
  shows "entry_count (xss[j := ys]) + length (xss ! j) = entry_count xss + length ys"
  using sum_list_map_update [OF assms, of length] by (simp add: entry_count_def)

lemma entry_count_ge: "j < length xss \<Longrightarrow> length (xss ! j) \<le> entry_count xss"
  using sum_list_ge_nth [of j xss length] by (simp add: entry_count_def)

lemma entry_count_concat: "entry_count xss = length (concat xss)"
  by (simp add: entry_count_def length_concat)

section \<open>A handle and its entries\<close>

text \<open>
  What every engine keeps of the common part of the handle: it has a hash and a compare function,
  a nonzero table size, one bucket of entries per table slot, and \<open>no_objects\<close> counts them.
\<close>

definition slot_of :: "hi_handle \<Rightarrow> key \<Rightarrow> nat" where
  "slot_of h k = unat (fp_fun (the (hash_func h)) k mod table_size h)"

definition handle_ok :: "(key \<Rightarrow> bool) \<Rightarrow> cmp_fn \<Rightarrow> hi_handle \<Rightarrow> entries list \<Rightarrow> bool" where
  "handle_ok V cmp h xss \<longleftrightarrow>
     hash_func h \<noteq> None \<and> fp_call (key_cmp h) = Some cmp \<and> table_size h \<noteq> 0 \<and>
     length xss = unat (table_size h) \<and> placed V (slot_of h) xss \<and>
     unat (no_objects h) = entry_count xss"

text \<open>The fields a table keeps from its creation on, and the buckets do not touch.\<close>

definition same_settings :: "hi_handle \<Rightarrow> hi_handle \<Rightarrow> bool" where
  "same_settings h h' \<longleftrightarrow>
     table_size h' = table_size h \<and> coll_eng h' = coll_eng h \<and> rehash_auto h' = rehash_auto h \<and>
     rehash_threshold h' = rehash_threshold h \<and>
     coll_eng_array_size h' = coll_eng_array_size h \<and>
     hash_func h' = hash_func h \<and> hash2_func h' = hash2_func h \<and> key_cmp h' = key_cmp h"

lemma same_settings_refl [simp]: "same_settings h h"
  by (simp add: same_settings_def)

lemma same_settings_trans:
  "same_settings h h' \<Longrightarrow> same_settings h' h'' \<Longrightarrow> same_settings h h''"
  by (simp add: same_settings_def)

lemma same_settings_slot: "same_settings h h' \<Longrightarrow> slot_of h' = slot_of h"
  by (rule ext) (simp add: same_settings_def slot_of_def)

lemma handle_ok_slot:
  assumes "handle_ok V cmp h xss"
  shows "hash_bucket h k = Some (slot_of h k)" and "slot_of h k < length xss"
    and "fp_call (key_cmp h) = Some cmp"
proof -
  obtain f where "hash_func h = Some f" "table_size h \<noteq> 0"
    using assms by (auto simp: handle_ok_def)
  then show "hash_bucket h k = Some (slot_of h k)"
    by (simp add: hash_bucket_def slot_of_def)
  show "fp_call (key_cmp h) = Some cmp"
    using assms by (simp add: handle_ok_def)
  have "0 < unat (table_size h)"
    using \<open>table_size h \<noteq> 0\<close> by (simp add: unat_gt_0)
  then show "slot_of h k < length xss"
    using assms by (simp add: handle_ok_def slot_of_def unat_mod)
qed

lemma handle_ok_get:
  assumes "handle_ok V cmp h xss"
  shows "map_of_table xss k = map_of (xss ! slot_of h k) k"
proof (rule map_of_table_slot)
  show "placed V (slot_of h) xss"
    using assms by (simp add: handle_ok_def)
qed (rule handle_ok_slot [OF assms])

lemma handle_ok_update:
  assumes ok: "handle_ok V cmp h xss" and "V k"
    and ys: "distinct (map fst ys)" "map_of ys = (map_of (xss ! slot_of h k))(k := r)"
    and h': "same_settings h h'" "unat (no_objects h') = entry_count (xss[slot_of h k := ys])"
  shows "handle_ok V cmp h' (xss[slot_of h k := ys])"
    and "map_of_table (xss[slot_of h k := ys]) = (map_of_table xss)(k := r)"
proof -
  have p: "placed V (slot_of h) xss" and slot: "\<And>k. slot_of h k < length xss"
    using ok handle_ok_slot [OF ok] by (auto simp: handle_ok_def)
  have "dom (map_of ys) \<subseteq> insert k (dom (map_of (xss ! slot_of h k)))"
    unfolding ys(2) by auto
  then have "fst ` set ys \<subseteq> insert k (fst ` set (xss ! slot_of h k))"
    by (simp add: dom_map_of_conv_image_fst)
  then have "V k' \<and> slot_of h k' = slot_of h k" if "k' \<in> fst ` set ys" for k'
    using that p slot [of k] \<open>V k\<close> by (fastforce simp: placed_def)
  then have p': "placed V (slot_of h) (xss[slot_of h k := ys])"
    by (intro placed_update [OF p ys(1)])
  then show "map_of_table (xss[slot_of h k := ys]) = (map_of_table xss)(k := r)"
    by (intro map_of_table_update [OF p _ slot ys(2)])
  show "handle_ok V cmp h' (xss[slot_of h k := ys])"
    using ok h' p' same_settings_slot [OF h'(1)] by (simp add: handle_ok_def same_settings_def)
qed

lemma card_dom_map_of: "distinct (map fst xs) \<Longrightarrow> card (dom (map_of xs)) = length xs"
  by (metis distinct_card dom_map_of_conv_image_fst length_map list.set_map)

text \<open>The changes the operations make to the list of entries of a bucket.\<close>

lemma map_of_insert_fresh:
  "map_of xs k = None \<Longrightarrow> distinct (map fst xs) \<Longrightarrow>
     distinct (map fst ((k, v) # xs)) \<and> map_of ((k, v) # xs) = (map_of xs)(k := Some v)"
  by (simp add: map_of_eq_None_iff)

lemma map_of_remove:
  assumes "distinct (map fst (xs @ (k, v) # ys))"
  shows "distinct (map fst (xs @ ys))" and "map_of (xs @ ys) = (map_of (xs @ (k, v) # ys))(k := None)"
proof -
  show "distinct (map fst (xs @ ys))"
    using assms by auto
  have "map_of xs k = None" "map_of ys k = None"
    using assms by (auto simp: map_of_eq_None_iff)
  then show "map_of (xs @ ys) = (map_of (xs @ (k, v) # ys))(k := None)"
    by (intro ext) (simp add: map_add_def split: option.split)
qed

lemma map_of_mset:
  assumes "distinct (map fst xs)" and "mset xs = mset ys"
  shows "distinct (map fst ys)" and "map_of ys = map_of xs"
proof -
  have "mset (map fst xs) = mset (map fst ys)"
    using assms(2) by simp
  then show "distinct (map fst ys)"
    using assms(1) mset_eq_imp_distinct_iff by blast
  then show "map_of ys = map_of xs"
    using assms mset_eq_setD by (subst map_of_inject_set) auto
qed

end
