(* ===== verification/Hi_bucket_array.thy ===== *)
theory Hi_bucket_array
  imports Hi_types
begin

text \<open>
  \<open>struct lhi_bucket_array\<close> (\<open>include/privlibhashish.h\<close>) and its allocation
  (\<open>lib/hi_iterator.c\<close>): the three parallel arrays into which an engine copies the entries of one
  bucket for the iterator. An array pointer is \<open>None\<close> when it is null; an element is \<open>None\<close>
  while it is uninitialised.
\<close>

record lhi_bucket_array =
  ba_data :: "ptr option list option"
  ba_keys :: "key option list option"
  ba_keys_length :: "u32 option list option"
  nmemb :: u64

definition lhi_bucket_array_alloc ::
  "heap \<Rightarrow> lhi_bucket_array \<Rightarrow> u64 \<Rightarrow> (int \<times> heap \<times> lhi_bucket_array) option" where
  "lhi_bucket_array_alloc hp a n =
     (if n = 0 then None
      else if (n * 8) div n \<noteq> 8 then Some (HI_ERR_RANGE, hp, a)
      else case malloc hp of (None, hp) \<Rightarrow> Some (HI_ERR_SYSTEM, hp, a)
      | (Some _, hp) \<Rightarrow> (case malloc hp of (None, hp) \<Rightarrow> Some (HI_ERR_SYSTEM, free hp, a)
      | (Some _, hp) \<Rightarrow>
          if (n * 4) div n \<noteq> 4 then Some (HI_ERR_RANGE, free (free hp), a)
          else case malloc hp of (None, hp) \<Rightarrow> Some (HI_ERR_SYSTEM, free (free hp), a)
          | (Some _, hp) \<Rightarrow> Some (0, hp, \<lparr>ba_data = Some (replicate (unat n) None),
              ba_keys = Some (replicate (unat n) None),
              ba_keys_length = Some (replicate (unat n) None), nmemb = n\<rparr>)))"

definition free_ptr :: "'a option \<Rightarrow> heap \<Rightarrow> heap" where
  "free_ptr p hp = (case p of None \<Rightarrow> hp | Some _ \<Rightarrow> free hp)"

definition lhi_bucket_array_free :: "heap \<Rightarrow> lhi_bucket_array \<Rightarrow> heap \<times> lhi_bucket_array" where
  "lhi_bucket_array_free hp a =
     (let hp = free_ptr (ba_data a) hp;
          hp = free_ptr (ba_keys a) hp;
          hp = free_ptr (ba_keys_length a) hp
      in (hp, a\<lparr>ba_data := None, ba_keys := None, ba_keys_length := None\<rparr>))"

text \<open>Reading and writing one element through an array pointer.\<close>

definition arr_write :: "'a option list option \<Rightarrow> nat \<Rightarrow> 'a \<Rightarrow> 'a option list option option" where
  "arr_write p i x = do {
     xs \<leftarrow> p;
     if i < length xs then Some (Some (xs[i := Some x])) else None
   }"

definition arr_read :: "'a option list option \<Rightarrow> nat \<Rightarrow> 'a option" where
  "arr_read p i = do { xs \<leftarrow> p; x \<leftarrow> rd xs i; x }"

text \<open>\<open>a->data[j] = ...; a->keys[j] = ...; a->keys_length[i] = ...\<close>\<close>

definition ba_write ::
  "lhi_bucket_array \<Rightarrow> nat \<Rightarrow> nat \<Rightarrow> ptr \<Rightarrow> key \<Rightarrow> u32 \<Rightarrow> lhi_bucket_array option" where
  "ba_write a j i d k l = do {
     xs \<leftarrow> arr_write (ba_data a) j d;
     ks \<leftarrow> arr_write (ba_keys a) j k;
     ls \<leftarrow> arr_write (ba_keys_length a) i l;
     Some (a\<lparr>ba_data := xs, ba_keys := ks, ba_keys_length := ls\<rparr>)
   }"

section \<open>The arrays as a list of entries\<close>

definition ba_of :: "entries \<Rightarrow> lhi_bucket_array" where
  "ba_of es = \<lparr>ba_data = Some (map (Some \<circ> snd) es), ba_keys = Some (map (Some \<circ> fst) es),
     ba_keys_length = Some (map (Some \<circ> word_of_nat \<circ> length \<circ> fst) es),
     nmemb = word_of_nat (length es)\<rparr>"

text \<open>The arrays while the entries \<open>es\<close> of a bucket of \<open>length es + n\<close> entries are written.\<close>

definition ba_filled :: "entries \<Rightarrow> nat \<Rightarrow> lhi_bucket_array" where
  "ba_filled es n = \<lparr>ba_data = Some (map (Some \<circ> snd) es @ replicate n None),
     ba_keys = Some (map (Some \<circ> fst) es @ replicate n None),
     ba_keys_length = Some (map (Some \<circ> word_of_nat \<circ> length \<circ> fst) es @ replicate n None),
     nmemb = word_of_nat (length es + n)\<rparr>"

lemma ba_filled_0 [simp]: "ba_filled es 0 = ba_of es"
  by (simp add: ba_filled_def ba_of_def)

lemma ba_write_filled:
  assumes "i = length es"
  shows "ba_write (ba_filled es (Suc n)) i i d k (word_of_nat (length k)) =
    Some (ba_filled (es @ [(k, d)]) n)"
  using assms by (simp add: ba_write_def arr_write_def ba_filled_def nth_append list_update_append)

lemma mult_div_u32:
  assumes "0 < n" and "n < 2 ^ 32" and "c < 2 ^ 32" and "m = word_of_nat n"
  shows "(m * word_of_nat c) div m = (word_of_nat c :: u64)"
proof -
  have "n * c < 2 ^ 64"
    using mult_strict_mono [OF assms(2,3)] assms(1) by simp
  then have "unat (word_of_nat n * word_of_nat c :: u64) = n * c"
    by (simp add: unat_word_ariths unat_of_nat take_bit_nat_eq_self mod_mult_eq)
  moreover have "unat (word_of_nat n :: u64) = n"
    using assms(2) by (simp add: unat_of_nat)
  ultimately show ?thesis
    using assms by (simp add: word_arith_nat_div)
qed

lemma bucket_array_alloc_ok:
  assumes "no_oom hp" and "0 < n" and "n < 2 ^ 32"
  obtains hp' where "lhi_bucket_array_alloc hp a (word_of_nat n) = Some (0, hp', ba_filled [] n)"
    and "no_oom hp'" and "live hp' = live hp + 3"
proof -
  obtain j1 hp1 where 1: "malloc hp = (Some j1, hp1)" "no_oom hp1" "live hp1 = live hp + 1"
    by (rule malloc_no_oom [OF assms(1)])
  obtain j2 hp2 where 2: "malloc hp1 = (Some j2, hp2)" "no_oom hp2" "live hp2 = live hp1 + 1"
    by (rule malloc_no_oom [OF 1(2)])
  obtain j3 hp3 where 3: "malloc hp2 = (Some j3, hp3)" "no_oom hp3" "live hp3 = live hp2 + 1"
    by (rule malloc_no_oom [OF 2(2)])
  have n: "unat (word_of_nat n :: u64) = n" "(word_of_nat n :: u64) \<noteq> 0"
    using assms(2,3) by (simp_all add: unat_of_nat word_of_nat_eq_0_iff)
      (auto simp: take_bit_nat_eq_self)
  have "(word_of_nat n * 8) div word_of_nat n = (8 :: u64)"
    "(word_of_nat n * 4) div word_of_nat n = (4 :: u64)"
    using mult_div_u32 [OF assms(2,3) _ refl, of 8] mult_div_u32 [OF assms(2,3) _ refl, of 4]
    by simp_all
  then show ?thesis
    using 1 2 3 n
    by (intro that [of hp3]) (simp_all add: lhi_bucket_array_alloc_def ba_filled_def)
qed

lemma bucket_array_free_ba_of:
  "lhi_bucket_array_free hp (ba_of es) =
     (free (free (free hp)), (ba_of es)\<lparr>ba_data := None, ba_keys := None, ba_keys_length := None\<rparr>)"
  by (simp add: lhi_bucket_array_free_def ba_of_def free_ptr_def)

end
