(* ===== verification/Hi_engine.thy ===== *)
theory Hi_engine
  imports Hi_bucket_array
begin

text \<open>
  The contract between the table and its collision engines: what the get, insert and remove
  operations of an engine do to the map of keys to data that the buckets stand for, and what its
  \<open>bucket_to_array\<close> hands to the iterator. Each engine theory interprets it on its own model.
\<close>

text \<open>The most entries a table may hold: beyond it, sizes of buckets and tables could wrap.\<close>

definition max_objects :: nat where
  "max_objects = 2 ^ 31"

locale coll_engine = key_domain V cmp
  for V :: "key \<Rightarrow> bool" and cmp :: cmp_fn +
  fixes inv :: "hi_handle \<Rightarrow> bool"
    and table :: "hi_handle \<Rightarrow> entries list"
    and get :: "hi_handle \<Rightarrow> key \<Rightarrow> (int \<times> ptr option \<times> hi_handle) option"
    and ins :: "heap \<Rightarrow> hi_handle \<Rightarrow> key \<Rightarrow> ptr \<Rightarrow> (int \<times> heap \<times> hi_handle) option"
    and rem :: "heap \<Rightarrow> hi_handle \<Rightarrow> key \<Rightarrow> (int \<times> ptr option \<times> heap \<times> hi_handle) option"
    and blocks :: int
  assumes inv_ok: "inv h \<Longrightarrow> handle_ok V cmp h (table h)"
    and get_found: "inv h \<Longrightarrow> V k \<Longrightarrow> map_of_table (table h) k = Some v \<Longrightarrow>
      \<exists>h'. get h k = Some (SUCCESS, Some v, h') \<and> inv h' \<and> same_settings h h' \<and>
        map_of_table (table h') = map_of_table (table h) \<and> no_objects h' = no_objects h"
    and get_missing: "inv h \<Longrightarrow> V k \<Longrightarrow> map_of_table (table h) k = None \<Longrightarrow>
      get h k = Some (HI_ERR_NOKEY, None, h)"
    and ins_fresh: "inv h \<Longrightarrow> V k \<Longrightarrow> no_oom hp \<Longrightarrow> map_of_table (table h) k = None \<Longrightarrow>
      unat (no_objects h) < max_objects \<Longrightarrow>
      \<exists>hp' h'. ins hp h k v = Some (SUCCESS, hp', h') \<and> no_oom hp' \<and> live hp' = live hp + blocks \<and>
        inv h' \<and> same_settings h h' \<and> map_of_table (table h') = (map_of_table (table h))(k \<mapsto> v) \<and>
        no_objects h' = no_objects h + 1"
    and rem_found: "inv h \<Longrightarrow> V k \<Longrightarrow> map_of_table (table h) k = Some v \<Longrightarrow>
      \<exists>hp' h'. rem hp h k = Some (SUCCESS, Some v, hp', h') \<and> no_oom hp' = no_oom hp \<and>
        live hp' = live hp - blocks \<and> inv h' \<and> same_settings h h' \<and>
        map_of_table (table h') = (map_of_table (table h))(k := None) \<and>
        no_objects h' = no_objects h - 1"
    and rem_missing: "inv h \<Longrightarrow> V k \<Longrightarrow> map_of_table (table h) k = None \<Longrightarrow>
      rem hp h k = Some (HI_ERR_NOKEY, None, hp, h)"

text \<open>The extension for engines whose buckets the iterator can read back.\<close>

locale iterable_engine = coll_engine +
  fixes to_array ::
    "heap \<Rightarrow> hi_handle \<Rightarrow> nat \<Rightarrow> lhi_bucket_array \<Rightarrow> (int \<times> heap \<times> lhi_bucket_array) option"
  assumes array_some: "inv h \<Longrightarrow> no_oom hp \<Longrightarrow> i < length (table h) \<Longrightarrow> table h ! i \<noteq> [] \<Longrightarrow>
      \<exists>hp' es. to_array hp h i a = Some (0, hp', ba_of es) \<and> mset es = mset (table h ! i) \<and>
        no_oom hp' \<and> live hp' = live hp + 3"
    and array_none: "inv h \<Longrightarrow> i < length (table h) \<Longrightarrow> table h ! i = [] \<Longrightarrow>
      to_array hp h i a = Some (HI_ERR_NODATA, hp, a)"

end
