(* ===== verification/Hi_list.thy ===== *)
theory Hi_list
  imports Hi_engine
begin

text \<open>
  The chained engines (\<open>lib/hi_list.c\<close>): COLL_ENG_LIST, its move-to-front variant, and the two
  variants that compare a second hash before the key. A chain is the list of its nodes; the
  trailing pointer \<open>p\<close> of the loops is the part of the chain already passed.
\<close>

section \<open>Walking a chain\<close>

text \<open>\<open>hi_handle->key_cmp(key, b_obj->key) == 0\<close>\<close>

definition match_key :: "hi_handle \<Rightarrow> key \<Rightarrow> bucket_obj \<Rightarrow> bool option" where
  "match_key h key b = do {
     cmp \<leftarrow> fp_call (key_cmp h);
     d \<leftarrow> cmp key (obj_key b);
     Some (d = 0)
   }"

text \<open>
  \<open>key_hash == b_obj->key_hash && key_cmp(...) == 0\<close>, and the test of the get operation of
  COLL_ENG_LIST_MTF_HASH, which has \<open>!=\<close> between the hashes.
\<close>

definition match_hash :: "hi_handle \<Rightarrow> u32 \<Rightarrow> key \<Rightarrow> bucket_obj \<Rightarrow> bool option" where
  "match_hash h kh key b = (if kh = key_hash b then match_key h key b else Some False)"

definition match_other_hash :: "hi_handle \<Rightarrow> u32 \<Rightarrow> key \<Rightarrow> bucket_obj \<Rightarrow> bool option" where
  "match_other_hash h kh key b = (if kh \<noteq> key_hash b then match_key h key b else Some False)"

text \<open>
  The loop \<open>for (p = b_obj; b_obj; b_obj = b_obj->next) { if (match) ...; p = b_obj; }\<close>: the part
  of the chain before the first match, the match and the part after it. The first list argument
  is the passed part in reverse; \<open>p\<close> is its head.
\<close>

fun walk_chain :: "(bucket_obj \<Rightarrow> bool option) \<Rightarrow> bucket_obj list \<Rightarrow> bucket_obj list \<Rightarrow>
    (bucket_obj list \<times> bucket_obj \<times> bucket_obj list) option option" where
  "walk_chain test passed [] = Some None"
| "walk_chain test passed (b # next) = do {
     m \<leftarrow> test b;
     if m then Some (Some (rev passed, b, next)) else walk_chain test (b # passed) next
   }"

section \<open>Operations\<close>

definition lhi_lookup_list :: "hi_handle \<Rightarrow> key \<Rightarrow> int option" where
  "lhi_lookup_list h key = do {
     bucket \<leftarrow> hash_bucket h key;
     if coll_eng h = COLL_ENG_LIST \<or> coll_eng h = COLL_ENG_LIST_MTF then do {
       b_obj \<leftarrow> rd (bucket_table h) bucket;
       r \<leftarrow> walk_chain (match_key h key) [] b_obj;
       (case r of Some _ \<Rightarrow> Some SUCCESS | None \<Rightarrow> Some HI_ERR_NOKEY)
     } else if coll_eng h = COLL_ENG_LIST_HASH \<or> coll_eng h = COLL_ENG_LIST_MTF_HASH then do {
       hash2 \<leftarrow> fp_call (hash2_func h);
       b_obj \<leftarrow> rd (bucket_table h) bucket;
       r \<leftarrow> walk_chain (match_hash h (hash2 key) key) [] b_obj;
       (case r of Some _ \<Rightarrow> Some SUCCESS | None \<Rightarrow> Some HI_ERR_NOKEY)
     } else Some HI_ERR_NOKEY
   }"

text \<open>
  Operations that store through \<open>void **data\<close> return the stored pointer, \<open>None\<close> when they store
  nothing. \<open>lhi_get_list\<close> takes a \<open>const\<close> handle, but moving a node to the front changes it.
\<close>

definition lhi_get_list :: "hi_handle \<Rightarrow> key \<Rightarrow> (int \<times> ptr option \<times> hi_handle) option" where
  "lhi_get_list h key = do {
     bucket \<leftarrow> hash_bucket h key;
     (case coll_eng h of
        COLL_ENG_LIST \<Rightarrow> do {
          chain \<leftarrow> rd (bucket_table h) bucket;
          r \<leftarrow> walk_chain (match_key h key) [] chain;
          (case r of Some (before, b_obj, after) \<Rightarrow> Some (SUCCESS, Some (obj_data b_obj), h)
           | None \<Rightarrow> Some (HI_ERR_NOKEY, None, h))
        }
      | COLL_ENG_LIST_MTF \<Rightarrow> do {
          chain \<leftarrow> rd (bucket_table h) bucket;
          r \<leftarrow> walk_chain (match_key h key) [] chain;
          (case r of Some (before, b_obj, after) \<Rightarrow>
             Some (SUCCESS, Some (obj_data b_obj),
               h\<lparr>bucket_table := (bucket_table h)[bucket := b_obj # before @ after]\<rparr>)
           | None \<Rightarrow> Some (HI_ERR_NOKEY, None, h))
        }
      | COLL_ENG_LIST_HASH \<Rightarrow> do {
          chain \<leftarrow> rd (bucket_table h) bucket;
          hash2 \<leftarrow> fp_call (hash2_func h);
          r \<leftarrow> walk_chain (match_hash h (hash2 key) key) [] chain;
          (case r of Some (before, b_obj, after) \<Rightarrow> Some (SUCCESS, Some (obj_data b_obj), h)
           | None \<Rightarrow> Some (HI_ERR_NOKEY, None, h))
        }
      | COLL_ENG_LIST_MTF_HASH \<Rightarrow> do {
          chain \<leftarrow> rd (bucket_table h) bucket;
          hash2 \<leftarrow> fp_call (hash2_func h);
          r \<leftarrow> walk_chain (match_other_hash h (hash2 key) key) [] chain;
          (case r of Some (before, b_obj, after) \<Rightarrow>
             Some (SUCCESS, Some (obj_data b_obj),
               h\<lparr>bucket_table := (bucket_table h)[bucket := b_obj # before @ after]\<rparr>)
           | None \<Rightarrow> Some (HI_ERR_NOKEY, None, h))
        }
      | _ \<Rightarrow> Some (HI_ERR_INTERNAL, None, h))
   }"

text \<open>
  Unlinking and freeing the match: the label \<open>out_found\<close> with the statements before the jump.
\<close>

definition unlink ::
  "heap \<Rightarrow> hi_handle \<Rightarrow> nat \<Rightarrow> bucket_obj list \<times> bucket_obj \<times> bucket_obj list \<Rightarrow>
    (int \<times> ptr option \<times> heap \<times> hi_handle) option" where
  "unlink hp h bucket = (\<lambda>(before, b_obj, after). do {
     n \<leftarrow> rd (bucket_size h) bucket;
     Some (SUCCESS, Some (obj_data b_obj), free (free hp),
       h\<lparr>bucket_table := (bucket_table h)[bucket := before @ after],
         bucket_size := (bucket_size h)[bucket := n - 1],
         no_objects := no_objects h - 1\<rparr>)
   })"

definition lhi_remove_list ::
  "heap \<Rightarrow> hi_handle \<Rightarrow> key \<Rightarrow> (int \<times> ptr option \<times> heap \<times> hi_handle) option" where
  "lhi_remove_list hp h key = do {
     bucket \<leftarrow> hash_bucket h key;
     if coll_eng h = COLL_ENG_LIST \<or> coll_eng h = COLL_ENG_LIST_MTF then do {
       chain \<leftarrow> rd (bucket_table h) bucket;
       r \<leftarrow> walk_chain (match_key h key) [] chain;
       (case r of Some m \<Rightarrow> unlink hp h bucket m | None \<Rightarrow> Some (HI_ERR_NOKEY, None, hp, h))
     } else if coll_eng h = COLL_ENG_LIST_HASH \<or> coll_eng h = COLL_ENG_LIST_MTF_HASH then do {
       chain \<leftarrow> rd (bucket_table h) bucket;
       hash2 \<leftarrow> fp_call (hash2_func h);
       r \<leftarrow> walk_chain (match_hash h (hash2 key) key) [] chain;
       (case r of Some m \<Rightarrow> unlink hp h bucket m | None \<Rightarrow> Some (HI_ERR_NOKEY, None, hp, h))
     } else Some (HI_ERR_INTERNAL, None, hp, h)
   }"

text \<open>
  The new node goes to the front of its chain. Its \<open>key_hash\<close> is not assigned: it is whatever the
  fresh block holds. A failed allocation returns the code of the allocator as it is.
\<close>

definition lhi_insert_list ::
  "heap \<Rightarrow> hi_handle \<Rightarrow> key \<Rightarrow> ptr \<Rightarrow> (int \<times> heap \<times> hi_handle) option" where
  "lhi_insert_list hp h key data = do {
     bucket \<leftarrow> hash_bucket h key;
     (case xalloc_align hp of (ret, junk, hp) \<Rightarrow>
        if ret \<noteq> 0 then Some (ret, hp, h)
        else (case xalloc_align hp of (ret, _, hp) \<Rightarrow>
          if ret \<noteq> 0 then Some (ret, free hp, h)
          else do {
            chain \<leftarrow> rd (bucket_table h) bucket;
            n \<leftarrow> rd (bucket_size h) bucket;
            let obj = \<lparr>key_len = word_of_nat (length key), obj_key = key, obj_data = data,
              key_hash = junk\<rparr>;
            Some (SUCCESS, hp,
              h\<lparr>bucket_table := (bucket_table h)[bucket := obj # chain],
                bucket_size := (bucket_size h)[bucket := n + 1],
                no_objects := no_objects h + 1\<rparr>)
          }))
   }"

text \<open>The \<open>while (b_obj)\<close> loop of \<open>lhi_fini_list\<close>: the key and the node of each element.\<close>

fun free_chain :: "bucket_obj list \<Rightarrow> heap \<Rightarrow> heap" where
  "free_chain [] hp = hp"
| "free_chain (v # b_obj) hp = free_chain b_obj (free (free hp))"

fun fini_list_loop :: "hi_handle \<Rightarrow> nat list \<Rightarrow> heap \<Rightarrow> heap option" where
  "fini_list_loop h [] hp = Some hp"
| "fini_list_loop h (i # is) hp = do {
     b_obj \<leftarrow> rd (bucket_table h) i;
     fini_list_loop h is (free_chain b_obj hp)
   }"

definition lhi_fini_list :: "heap \<Rightarrow> hi_handle \<Rightarrow> (int \<times> heap \<times> hi_handle) option" where
  "lhi_fini_list hp h = do {
     hp \<leftarrow> fini_list_loop h [0 ..< unat (table_size h)] hp;
     Some (SUCCESS, free hp, h)
   }"

fun fill_from_chain :: "bucket_obj list \<Rightarrow> nat \<Rightarrow> lhi_bucket_array \<Rightarrow> lhi_bucket_array option" where
  "fill_from_chain [] i a = Some a"
| "fill_from_chain (b_obj # next) i a = do {
     a \<leftarrow> ba_write a i i (obj_data b_obj) (obj_key b_obj) (key_len b_obj);
     fill_from_chain next (Suc i) a
   }"

text \<open>
  The range check lets \<open>bucket = table_size\<close> pass; the read of \<open>bucket_size\<close> is out of range then.
\<close>

definition lhi_list_bucket_to_array ::
  "heap \<Rightarrow> hi_handle \<Rightarrow> nat \<Rightarrow> lhi_bucket_array \<Rightarrow> (int \<times> heap \<times> lhi_bucket_array) option" where
  "lhi_list_bucket_to_array hp h bucket a =
     (if unat (table_size h) < bucket then Some (HI_ERR_RANGE, hp, a)
      else do {
        max \<leftarrow> rd (bucket_size h) bucket;
        if max = 0 then Some (HI_ERR_NODATA, hp, a)
        else do {
          (ret, hp, a) \<leftarrow> lhi_bucket_array_alloc hp a (ucast max);
          if ret \<noteq> 0 then Some (ret, hp, a)
          else if list_eng (coll_eng h) then do {
            chain \<leftarrow> rd (bucket_table h) bucket;
            a \<leftarrow> fill_from_chain chain 0 a;
            Some (0, hp, a)
          } else Some (HI_ERR_INTERNAL, hp, a)
        }
      })"

section \<open>Chains as entries\<close>

definition chain_entries :: "bucket_obj list \<Rightarrow> entries" where
  "chain_entries chain = map (\<lambda>b. (obj_key b, obj_data b)) chain"

lemma chain_entries_simps [simp]:
  "chain_entries [] = []"
  "chain_entries (b # chain) = (obj_key b, obj_data b) # chain_entries chain"
  "chain_entries (chain @ chain') = chain_entries chain @ chain_entries chain'"
  "length (chain_entries chain) = length chain"
  "chain_entries chain = [] \<longleftrightarrow> chain = []"
  by (simp_all add: chain_entries_def)

definition list_table :: "hi_handle \<Rightarrow> entries list" where
  "list_table h = map chain_entries (bucket_table h)"

text \<open>The invariant of COLL_ENG_LIST and COLL_ENG_LIST_MTF.\<close>

definition list_inv :: "(key \<Rightarrow> bool) \<Rightarrow> cmp_fn \<Rightarrow> hi_handle \<Rightarrow> bool" where
  "list_inv V cmp h \<longleftrightarrow>
     handle_ok V cmp h (list_table h) \<and>
     (coll_eng h = COLL_ENG_LIST \<or> coll_eng h = COLL_ENG_LIST_MTF) \<and>
     length (bucket_size h) = length (bucket_table h) \<and>
     (\<forall>i < length (bucket_table h). unat (bucket_size h ! i) = length (bucket_table h ! i)) \<and>
     (\<forall>chain \<in> set (bucket_table h). \<forall>b \<in> set chain. key_len b = word_of_nat (length (obj_key b)))"

lemma fill_from_chain_entries:
  assumes "\<forall>b \<in> set chain. key_len b = word_of_nat (length (obj_key b))"
  shows "fill_from_chain chain (length es) (ba_filled es (length chain)) =
    Some (ba_of (es @ chain_entries chain))"
  using assms
proof (induction chain arbitrary: es)
  case Nil
  then show ?case by simp
next
  case (Cons b chain)
  then show ?case
    using Cons.IH [of "es @ [(obj_key b, obj_data b)]"] by (simp add: ba_write_filled)
qed

context key_domain
begin

lemma match_key_eq:
  "fp_call (key_cmp h) = Some cmp \<Longrightarrow> V k \<Longrightarrow> V (obj_key b) \<Longrightarrow>
     match_key h k b = Some (obj_key b = k)"
  by (auto simp: match_key_def elim!: cmp_cases [of k "obj_key b"])

lemma walk_chain_missing:
  assumes "fp_call (key_cmp h) = Some cmp" and "V k"
    and "\<forall>k' \<in> fst ` set (chain_entries chain). V k'"
    and "k \<notin> fst ` set (chain_entries chain)"
  shows "walk_chain (match_key h k) passed chain = Some None"
  using assms(3,4)
  by (induction chain arbitrary: passed) (auto simp: match_key_eq [OF assms(1,2)])

lemma walk_chain_found:
  assumes "fp_call (key_cmp h) = Some cmp" and "V k"
    and "\<forall>k' \<in> fst ` set (chain_entries chain). V k'"
    and "map_of (chain_entries chain) k = Some v"
  shows "\<exists>before b after. walk_chain (match_key h k) passed chain =
      Some (Some (rev passed @ before, b, after)) \<and> chain = before @ b # after \<and>
      obj_key b = k \<and> obj_data b = v"
  using assms(3,4)
proof (induction chain arbitrary: passed)
  case Nil
  then show ?case by simp
next
  case (Cons c chain)
  show ?case
  proof (cases "obj_key c = k")
    case True
    then show ?thesis
      using Cons.prems
      by (intro exI [of _ "[]"] exI [of _ c] exI [of _ chain]) (simp add: match_key_eq [OF assms(1,2)])
  next
    case False
    then obtain before b after where
      "walk_chain (match_key h k) (c # passed) chain =
        Some (Some (rev (c # passed) @ before, b, after))"
      "chain = before @ b # after" "obj_key b = k" "obj_data b = v"
      using Cons.IH [of "c # passed"] Cons.prems by auto
    then show ?thesis
      using False Cons.prems
      by (intro exI [of _ "c # before"] exI [of _ b] exI [of _ after])
        (simp add: match_key_eq [OF assms(1,2)])
  qed
qed

lemma list_inv_cmp: "list_inv V cmp h \<Longrightarrow> fp_call (key_cmp h) = Some cmp"
  by (simp add: list_inv_def handle_ok_def)

lemma list_inv_bucket:
  fixes k :: key
  assumes "list_inv V cmp h"
  defines "i \<equiv> slot_of h k"
  shows "hash_bucket h k = Some i" and "i < length (bucket_table h)"
    and "rd (bucket_table h) i = Some (bucket_table h ! i)"
    and "rd (bucket_size h) i = Some (bucket_size h ! i)"
    and "\<forall>k' \<in> fst ` set (chain_entries (bucket_table h ! i)). V k'"
    and "distinct (map fst (chain_entries (bucket_table h ! i)))"
    and "map_of_table (list_table h) k = map_of (chain_entries (bucket_table h ! i)) k"
proof -
  have ok: "handle_ok V cmp h (list_table h)"
    and len: "length (bucket_size h) = length (bucket_table h)"
    using assms by (auto simp: list_inv_def)
  note slot = handle_ok_slot [OF ok]
  show "hash_bucket h k = Some i"
    unfolding i_def by (rule slot)
  show i: "i < length (bucket_table h)"
    using slot(2) [of k] by (simp add: i_def list_table_def)
  then show "rd (bucket_table h) i = Some (bucket_table h ! i)"
    "rd (bucket_size h) i = Some (bucket_size h ! i)"
    using len by (simp_all add: rd_Some)
  have "placed V (slot_of h) (list_table h)"
    using ok by (simp add: handle_ok_def)
  from placedD [OF this, of i] show
    "\<forall>k' \<in> fst ` set (chain_entries (bucket_table h ! i)). V k'"
    "distinct (map fst (chain_entries (bucket_table h ! i)))"
    using i by (auto simp: list_table_def)
  show "map_of_table (list_table h) k = map_of (chain_entries (bucket_table h ! i)) k"
    using handle_ok_get [OF ok, of k] i by (simp add: list_table_def i_def)
qed

lemma list_inv_update:
  assumes inv: "list_inv V cmp h" and "V k"
    and chain: "distinct (map fst (chain_entries chain))"
      "map_of (chain_entries chain) = (map_of (chain_entries (bucket_table h ! slot_of h k)))(k := r)"
      "\<forall>b \<in> set chain. key_len b = word_of_nat (length (obj_key b))"
    and h': "same_settings h h'" "bucket_table h' = (bucket_table h)[slot_of h k := chain]"
      "bucket_size h' = (bucket_size h)[slot_of h k := word_of_nat (length chain)]"
      "unat (no_objects h') = entry_count (list_table h')"
    and "length chain < 2 ^ 32"
  shows "list_inv V cmp h'" and "map_of_table (list_table h') = (map_of_table (list_table h))(k := r)"
proof -
  have ok: "handle_ok V cmp h (list_table h)"
    using inv by (simp add: list_inv_def)
  have i: "slot_of h k < length (bucket_table h)"
    by (rule list_inv_bucket [OF inv])
  have table: "list_table h' = (list_table h)[slot_of h k := chain_entries chain]"
    by (simp add: list_table_def h'(2) map_update)
  have old: "list_table h ! slot_of h k = chain_entries (bucket_table h ! slot_of h k)"
    using i by (simp add: list_table_def)
  note update = handle_ok_update [OF ok \<open>V k\<close> chain(1) chain(2) [folded old] h'(1),
    folded table, OF h'(4)]
  show "map_of_table (list_table h') = (map_of_table (list_table h))(k := r)"
    by (rule update)
  have size: "\<forall>i < length (bucket_table h'). unat (bucket_size h' ! i) = length (bucket_table h' ! i)"
    using inv i \<open>length chain < 2 ^ 32\<close>
    by (auto simp: list_inv_def h' nth_list_update unat_of_nat take_bit_nat_eq_self)
  have "\<forall>c \<in> set (bucket_table h'). \<forall>b \<in> set c. key_len b = word_of_nat (length (obj_key b))"
    using inv chain(3) by (auto simp: list_inv_def h' dest!: set_update_subset_insert [THEN subsetD])
  then show "list_inv V cmp h'"
    using inv update(1) size h' by (auto simp: list_inv_def same_settings_def)
qed

lemma list_get_found:
  assumes inv: "list_inv V cmp h" and "V k" and found: "map_of_table (list_table h) k = Some v"
  shows "\<exists>h'. lhi_get_list h k = Some (SUCCESS, Some v, h') \<and> list_inv V cmp h' \<and>
    same_settings h h' \<and> map_of_table (list_table h') = map_of_table (list_table h) \<and>
    no_objects h' = no_objects h"
proof -
  let ?i = "slot_of h k" let ?chain = "bucket_table h ! slot_of h k"
  note bucket = list_inv_bucket [OF inv, of k]
  obtain before b after where walk: "walk_chain (match_key h k) [] ?chain = Some (Some (before, b, after))"
    and chain: "?chain = before @ b # after" and b: "obj_key b = k" "obj_data b = v"
    using walk_chain_found [OF list_inv_cmp [OF inv] \<open>V k\<close> bucket(5), of v "[]"] found bucket(7) by auto
  consider "coll_eng h = COLL_ENG_LIST" | "coll_eng h = COLL_ENG_LIST_MTF"
    using inv by (auto simp: list_inv_def)
  then show ?thesis
  proof cases
    case 1
    then show ?thesis
      using bucket walk b inv by (simp add: lhi_get_list_def bind_simps)
  next
    case 2
    define h' where "h' = h\<lparr>bucket_table := (bucket_table h)[?i := b # before @ after]\<rparr>"
    have eq: "lhi_get_list h k = Some (SUCCESS, Some v, h')"
      using 2 bucket walk b by (simp add: lhi_get_list_def bind_simps h'_def)
    have mset: "mset (chain_entries ?chain) = mset (chain_entries (b # before @ after))"
      by (simp add: chain)
    note same = map_of_mset [OF bucket(6) mset]
    have n: "unat (bucket_size h ! ?i) = length ?chain"
      using inv bucket(2) by (simp add: list_inv_def)
    then have "bucket_size h' ! ?i = word_of_nat (length (b # before @ after))"
      using unat_eq_word [OF n] by (simp add: h'_def chain)
    then have size: "bucket_size h' = (bucket_size h')[?i := word_of_nat (length (b # before @ after))]"
      by (metis list_update_id)
    have len: "length (b # before @ after) < 2 ^ 32"
      using unat_u32_less [of "bucket_size h ! ?i"] n by (simp add: chain)
    have upd: "map_of (chain_entries (b # before @ after)) =
        (map_of (chain_entries ?chain))(k := Some v)"
      unfolding same(2) using found bucket(7) by (simp add: fun_upd_idem)
    have count: "unat (no_objects h') = entry_count (list_table h')"
      using inv bucket(2) entry_count_update [of ?i "list_table h" "chain_entries (b # before @ after)"]
      by (simp add: h'_def list_inv_def handle_ok_def list_table_def map_update chain)
    have lens: "\<forall>b' \<in> set (b # before @ after). key_len b' = word_of_nat (length (obj_key b'))"
      using inv nth_mem [OF bucket(2)] by (auto simp: list_inv_def chain)
    have size': "bucket_size h' = (bucket_size h)[?i := word_of_nat (length (b # before @ after))]"
      using size by (simp add: h'_def)
    have same': "same_settings h h'" "bucket_table h' = (bucket_table h)[?i := b # before @ after]"
      by (simp_all add: h'_def same_settings_def)
    have "list_inv V cmp h'"
      "map_of_table (list_table h') = (map_of_table (list_table h))(k := Some v)"
      by (rule list_inv_update [OF inv \<open>V k\<close> same(1) upd lens same' size' count len])+
    then show ?thesis
      using eq found by (auto simp: h'_def same_settings_def fun_upd_idem)
  qed
qed

lemma list_walk_missing:
  assumes inv: "list_inv V cmp h" and "V k" and missing: "map_of_table (list_table h) k = None"
  shows "walk_chain (match_key h k) [] (bucket_table h ! slot_of h k) = Some None"
  using walk_chain_missing [OF list_inv_cmp [OF inv] \<open>V k\<close> list_inv_bucket(5) [OF inv, of k]]
    missing list_inv_bucket(7) [OF inv, of k]
  by (simp add: map_of_eq_None_iff)

lemma list_get_missing:
  assumes "list_inv V cmp h" and "V k" and "map_of_table (list_table h) k = None"
  shows "lhi_get_list h k = Some (HI_ERR_NOKEY, None, h)"
  using list_inv_bucket [OF assms(1), of k] list_walk_missing [OF assms] assms(1)
  by (auto simp: lhi_get_list_def bind_simps list_inv_def)

lemma list_lookup:
  assumes inv: "list_inv V cmp h" and "V k"
  shows "lhi_lookup_list h k =
    Some (if map_of_table (list_table h) k = None then HI_ERR_NOKEY else SUCCESS)"
proof (cases "map_of_table (list_table h) k")
  case None
  then show ?thesis
    using list_inv_bucket [OF inv, of k] list_walk_missing [OF inv \<open>V k\<close> None] inv
    by (auto simp: lhi_lookup_list_def bind_simps list_inv_def)
next
  case (Some v)
  then show ?thesis
    using list_inv_bucket [OF inv, of k] inv
      walk_chain_found [OF list_inv_cmp [OF inv] \<open>V k\<close> list_inv_bucket(5) [OF inv], of k v "[]"]
    by (auto simp: lhi_lookup_list_def bind_simps list_inv_def)
qed

lemma list_insert_new:
  assumes inv: "list_inv V cmp h" and "V k"
    and hp1: "xalloc_align hp = (0, junk, hp1)" and hp2: "xalloc_align hp1 = (0, junk', hp2)"
    and missing: "map_of_table (list_table h) k = None"
    and room: "unat (no_objects h) < max_objects"
  shows "\<exists>h'. lhi_insert_list hp h k v = Some (SUCCESS, hp2, h') \<and>
    list_inv V cmp h' \<and> same_settings h h' \<and>
    map_of_table (list_table h') = (map_of_table (list_table h))(k \<mapsto> v) \<and>
    no_objects h' = no_objects h + 1"
proof -
  let ?i = "slot_of h k" let ?chain = "bucket_table h ! slot_of h k"
  note bucket = list_inv_bucket [OF inv, of k]
  define b where "b = \<lparr>key_len = word_of_nat (length k), obj_key = k, obj_data = v, key_hash = junk\<rparr>"
  define h' where "h' = h\<lparr>bucket_table := (bucket_table h)[?i := b # ?chain],
    bucket_size := (bucket_size h)[?i := bucket_size h ! ?i + 1], no_objects := no_objects h + 1\<rparr>"
  have eq: "lhi_insert_list hp h k v = Some (SUCCESS, hp2, h')"
    using hp1 hp2 bucket by (simp add: lhi_insert_list_def bind_simps h'_def b_def Let_def)
  have n: "unat (bucket_size h ! ?i) = length ?chain"
    using inv bucket(2) by (simp add: list_inv_def)
  have total: "unat (no_objects h) = entry_count (list_table h)"
    using inv by (simp add: list_inv_def handle_ok_def)
  have "length ?chain \<le> entry_count (list_table h)"
    using entry_count_ge [of ?i "list_table h"] bucket(2) by (simp add: list_table_def)
  then have len: "Suc (length ?chain) < 2 ^ 32"
    using room total by (simp add: max_objects_def)
  have count: "unat (no_objects h') = entry_count (list_table h')"
    using bucket(2) total room
      entry_count_update [of ?i "list_table h" "chain_entries (b # ?chain)"]
    by (simp add: h'_def list_table_def map_update max_objects_def unat_plus_one_u32)
  have fresh: "map_of (chain_entries ?chain) k = None"
    using missing bucket(7) by simp
  have entries: "chain_entries (b # ?chain) = (k, v) # chain_entries ?chain"
    by (simp add: b_def)
  have lens: "\<forall>b' \<in> set (b # ?chain). key_len b' = word_of_nat (length (obj_key b'))"
    using inv bucket(2) by (auto simp: list_inv_def b_def)
  have size: "bucket_size h' = (bucket_size h)[?i := word_of_nat (length (b # ?chain))]"
    using unat_eq_word [OF n] by (simp add: h'_def add.commute)
  have same: "same_settings h h'" "bucket_table h' = (bucket_table h)[?i := b # ?chain]"
    by (simp_all add: h'_def same_settings_def)
  have map: "distinct (map fst (chain_entries (b # ?chain)))"
    "map_of (chain_entries (b # ?chain)) = (map_of (chain_entries ?chain))(k \<mapsto> v)"
    unfolding entries using map_of_insert_fresh [OF fresh bucket(6)] by blast+
  have len': "length (b # ?chain) < 2 ^ 32"
    using len by simp
  have "list_inv V cmp h'"
    "map_of_table (list_table h') = (map_of_table (list_table h))(k \<mapsto> v)"
    by (rule list_inv_update [OF inv \<open>V k\<close> map lens same size count len'])+
  then show ?thesis
    using eq by (simp add: h'_def same_settings_def)
qed

lemma list_insert_fresh:
  assumes inv: "list_inv V cmp h" and "V k" and "no_oom hp"
    and missing: "map_of_table (list_table h) k = None"
    and room: "unat (no_objects h) < max_objects"
  shows "\<exists>hp' h'. lhi_insert_list hp h k v = Some (SUCCESS, hp', h') \<and> no_oom hp' \<and>
    live hp' = live hp + 2 \<and> list_inv V cmp h' \<and> same_settings h h' \<and>
    map_of_table (list_table h') = (map_of_table (list_table h))(k \<mapsto> v) \<and>
    no_objects h' = no_objects h + 1"
proof -
  obtain junk hp1 where hp1: "xalloc_align hp = (0, junk, hp1)" "no_oom hp1" "live hp1 = live hp + 1"
    by (rule xalloc_no_oom [OF \<open>no_oom hp\<close>])
  obtain junk' hp2 where hp2: "xalloc_align hp1 = (0, junk', hp2)" "no_oom hp2"
    "live hp2 = live hp1 + 1"
    by (rule xalloc_no_oom [OF hp1(2)])
  show ?thesis
    using list_insert_new [OF inv \<open>V k\<close> hp1(1) hp2(1) missing room, of v] hp1(3) hp2(2,3) by auto
qed

lemma list_remove_found:
  assumes inv: "list_inv V cmp h" and "V k" and found: "map_of_table (list_table h) k = Some v"
  shows "\<exists>hp' h'. lhi_remove_list hp h k = Some (SUCCESS, Some v, hp', h') \<and>
    no_oom hp' = no_oom hp \<and> live hp' = live hp - 2 \<and> list_inv V cmp h' \<and> same_settings h h' \<and>
    map_of_table (list_table h') = (map_of_table (list_table h))(k := None) \<and>
    no_objects h' = no_objects h - 1"
proof -
  let ?i = "slot_of h k" let ?chain = "bucket_table h ! slot_of h k"
  note bucket = list_inv_bucket [OF inv, of k]
  obtain before b after where walk: "walk_chain (match_key h k) [] ?chain = Some (Some (before, b, after))"
    and chain: "?chain = before @ b # after" and b: "obj_key b = k" "obj_data b = v"
    using walk_chain_found [OF list_inv_cmp [OF inv] \<open>V k\<close> bucket(5), of v "[]"] found bucket(7) by auto
  define h' where "h' = h\<lparr>bucket_table := (bucket_table h)[?i := before @ after],
    bucket_size := (bucket_size h)[?i := bucket_size h ! ?i - 1], no_objects := no_objects h - 1\<rparr>"
  have eq: "lhi_remove_list hp h k = Some (SUCCESS, Some v, free (free hp), h')"
    using inv bucket walk b
    by (auto simp: lhi_remove_list_def unlink_def bind_simps h'_def list_inv_def)
  have n: "unat (bucket_size h ! ?i) = Suc (length (before @ after))"
    using inv bucket(2) by (simp add: list_inv_def chain)
  then have size: "bucket_size h' = (bucket_size h)[?i := word_of_nat (length (before @ after))]"
    using unat_eq_word [OF n] by (simp add: h'_def)
  have len: "length (before @ after) < 2 ^ 32"
    using unat_u32_less [of "bucket_size h ! ?i"] n by simp
  have total: "unat (no_objects h) = entry_count (list_table h)"
    using inv by (simp add: list_inv_def handle_ok_def)
  have shrink: "entry_count (list_table h') + 1 = entry_count (list_table h)"
    using bucket(2) entry_count_update [of ?i "list_table h" "chain_entries (before @ after)"]
    by (simp add: h'_def list_table_def map_update chain)
  then have "no_objects h \<noteq> 0"
    using total by (auto simp: unat_eq_0)
  then have count: "unat (no_objects h') = entry_count (list_table h')"
    using total shrink by (simp add: h'_def unat_minus_one_u32)
  have "distinct (map fst (chain_entries before @ (k, v) # chain_entries after))"
    using bucket(6) b by (simp add: chain)
  then have map: "distinct (map fst (chain_entries (before @ after)))"
    "map_of (chain_entries (before @ after)) = (map_of (chain_entries ?chain))(k := None)"
    using map_of_remove b by (simp_all add: chain)
  have lens: "\<forall>b' \<in> set (before @ after). key_len b' = word_of_nat (length (obj_key b'))"
    using inv nth_mem [OF bucket(2)] by (auto simp: list_inv_def chain)
  have same: "same_settings h h'" "bucket_table h' = (bucket_table h)[?i := before @ after]"
    by (simp_all add: h'_def same_settings_def)
  have "list_inv V cmp h'"
    "map_of_table (list_table h') = (map_of_table (list_table h))(k := None)"
    by (rule list_inv_update [OF inv \<open>V k\<close> map lens same size count len])+
  then show ?thesis
    using eq by (simp add: h'_def same_settings_def)
qed

lemma list_remove_missing:
  assumes "list_inv V cmp h" and "V k" and "map_of_table (list_table h) k = None"
  shows "lhi_remove_list hp h k = Some (HI_ERR_NOKEY, None, hp, h)"
  using list_inv_bucket [OF assms(1), of k] list_walk_missing [OF assms] assms(1)
  by (auto simp: lhi_remove_list_def bind_simps list_inv_def)

lemma list_array_some:
  assumes inv: "list_inv V cmp h" and "no_oom hp" and i: "i < length (list_table h)"
    and "list_table h ! i \<noteq> []"
  shows "\<exists>hp' es. lhi_list_bucket_to_array hp h i a = Some (0, hp', ba_of es) \<and>
    mset es = mset (list_table h ! i) \<and> no_oom hp' \<and> live hp' = live hp + 3"
proof -
  let ?chain = "bucket_table h ! i"
  have i': "i < length (bucket_table h)" "i < length (bucket_size h)" and "?chain \<noteq> []"
    using assms(3,4) inv by (auto simp: list_table_def list_inv_def)
  have n: "unat (bucket_size h ! i) = length ?chain"
    using inv i' by (simp add: list_inv_def)
  have max: "bucket_size h ! i \<noteq> 0" "ucast (bucket_size h ! i) = (word_of_nat (length ?chain) :: u64)"
    using \<open>?chain \<noteq> []\<close> n by (auto simp: ucast_u32_u64)
  have "0 < length ?chain" "length ?chain < 2 ^ 32"
    using \<open>?chain \<noteq> []\<close> unat_u32_less [of "bucket_size h ! i"] n by auto
  then obtain hp' where hp': "no_oom hp'" "live hp' = live hp + 3"
    "lhi_bucket_array_alloc hp a (word_of_nat (length ?chain)) = Some (0, hp', ba_filled [] (length ?chain))"
    by (rule bucket_array_alloc_ok [OF \<open>no_oom hp\<close>])
  have "\<forall>b \<in> set ?chain. key_len b = word_of_nat (length (obj_key b))"
    using inv i' by (auto simp: list_inv_def)
  then have "fill_from_chain ?chain 0 (ba_filled [] (length ?chain)) = Some (ba_of (chain_entries ?chain))"
    using fill_from_chain_entries [of ?chain "[]"] by simp
  moreover have "\<not> unat (table_size h) < i" "list_eng (coll_eng h)"
    using inv i by (auto simp: list_inv_def handle_ok_def list_table_def)
  ultimately have "lhi_list_bucket_to_array hp h i a = Some (0, hp', ba_of (chain_entries ?chain))"
    using i' max hp' by (simp add: lhi_list_bucket_to_array_def bind_simps)
  then show ?thesis
    using hp' i' by (auto simp: list_table_def)
qed

lemma list_array_none:
  assumes inv: "list_inv V cmp h" and "i < length (list_table h)" and "list_table h ! i = []"
  shows "lhi_list_bucket_to_array hp h i a = Some (HI_ERR_NODATA, hp, a)"
proof -
  have "i < length (bucket_table h)" "i < length (bucket_size h)" "bucket_size h ! i = 0"
    "\<not> unat (table_size h) < i"
    using assms by (auto simp: list_inv_def list_table_def handle_ok_def unat_eq_0)
  then show ?thesis
    by (simp add: lhi_list_bucket_to_array_def bind_simps)
qed

lemma live_free_chain: "live (free_chain chain hp) = live hp - 2 * int (length chain)"
  by (induction chain arbitrary: hp) simp_all

lemma no_oom_free_chain [simp]: "no_oom (free_chain chain hp) = no_oom hp"
  by (induction chain arbitrary: hp) simp_all

lemma fini_list_loop_live:
  assumes "\<forall>i \<in> set is. i < length (bucket_table h)"
  shows "\<exists>hp'. fini_list_loop h is hp = Some hp' \<and> no_oom hp' = no_oom hp \<and>
    live hp' = live hp - 2 * int (\<Sum>i \<leftarrow> is. length (bucket_table h ! i))"
  using assms
proof (induction "is" arbitrary: hp)
  case Nil
  then show ?case by simp
next
  case (Cons i js)
  then show ?case
    using Cons.IH [of "free_chain (bucket_table h ! i) hp"]
    by (auto simp: bind_simps live_free_chain)
qed

lemma list_fini:
  assumes "list_inv V cmp h"
  shows "\<exists>hp'. lhi_fini_list hp h = Some (SUCCESS, hp', h) \<and> no_oom hp' = no_oom hp \<and>
    live hp' = live hp - 2 * int (unat (no_objects h)) - 1"
proof -
  have len: "unat (table_size h) = length (bucket_table h)"
    and n: "unat (no_objects h) = entry_count (list_table h)"
    using assms by (simp_all add: list_inv_def handle_ok_def list_table_def)
  have "map (\<lambda>i. length (bucket_table h ! i)) [0 ..< length (bucket_table h)] =
      map length (list_table h)"
    by (rule nth_equalityI) (simp_all add: list_table_def)
  then have "(\<Sum>i \<leftarrow> [0 ..< length (bucket_table h)]. length (bucket_table h ! i)) = unat (no_objects h)"
    by (simp only: n entry_count_def)
  moreover obtain hp' where "fini_list_loop h [0 ..< length (bucket_table h)] hp = Some hp'"
    "no_oom hp' = no_oom hp" "live hp' = live hp -
      2 * int (\<Sum>i \<leftarrow> [0 ..< length (bucket_table h)]. length (bucket_table h ! i))"
    using fini_list_loop_live [of "[0 ..< length (bucket_table h)]" h hp] by auto
  ultimately show ?thesis
    by (intro exI [of _ "free hp'"]) (simp add: lhi_fini_list_def len)
qed

text \<open>An insertion that fails for lack of memory gives back what it allocated and changes nothing.\<close>

lemma list_insert_atomic:
  assumes inv: "list_inv V cmp h" and "V k"
    and missing: "map_of_table (list_table h) k = None"
    and room: "unat (no_objects h) < max_objects"
  shows "\<exists>ret hp' h'. lhi_insert_list hp h k v = Some (ret, hp', h') \<and>
    (if ret = SUCCESS then live hp' = live hp + 2 \<and> list_inv V cmp h' \<and> same_settings h h' \<and>
       map_of_table (list_table h') = (map_of_table (list_table h))(k \<mapsto> v)
     else h' = h \<and> live hp' = live hp)"
proof (cases rule: xalloc_cases [of hp])
  case fail
  then show ?thesis
    using list_inv_bucket [OF inv, of k] by (simp add: lhi_insert_list_def bind_simps SUCCESS_def)
next
  case (ok junk hp1)
  note first = ok
  show ?thesis
  proof (cases rule: xalloc_cases [of hp1])
    case fail
    then show ?thesis
      using first list_inv_bucket [OF inv, of k]
      by (simp add: lhi_insert_list_def bind_simps SUCCESS_def)
  next
    case (ok junk' hp2)
    then show ?thesis
      using list_insert_new [OF inv \<open>V k\<close> first(1) ok(1) missing room, of v] first(2) by (auto intro!: exI [of _ SUCCESS])
  qed
qed

end

sublocale key_domain \<subseteq> list_engine: iterable_engine V cmp "list_inv V cmp" list_table
  lhi_get_list lhi_insert_list lhi_remove_list 2 lhi_list_bucket_to_array
proof unfold_locales
  show "handle_ok V cmp h (list_table h)" if "list_inv V cmp h" for h
    using that by (simp add: list_inv_def)
qed (fact list_get_found list_get_missing list_insert_fresh list_remove_found list_remove_missing
  list_array_some list_array_none)+

end
