(* ===== verification/Hi_array.thy ===== *)
theory Hi_array
  imports Hi_engine
begin

text \<open>
  The array engines (\<open>lib/hi_array.c\<close>). Each bucket is an array of slots; a removed entry leaves a
  free slot behind, which a later insertion fills. Only COLL_ENG_ARRAY is finished in the code: the
  other three insert like it, and their get and remove always answer \<open>HI_ERR_NOKEY\<close>.
\<close>

section \<open>Operations\<close>

text \<open>\<open>bucket_array[bucket][i]\<close>: undefined through a null bucket or out of range.\<close>

definition slot_at :: "a_obj option list option \<Rightarrow> nat \<Rightarrow> a_obj option option" where
  "slot_at arr i = do { slots \<leftarrow> arr; rd slots i }"

text \<open>
  The search loop of get and remove over the indices \<open>is\<close>: it stops early once as many allocated
  slots were compared as the bucket has.
\<close>

fun array_scan :: "hi_handle \<Rightarrow> key \<Rightarrow> a_obj option list option \<Rightarrow> nat \<Rightarrow> nat \<Rightarrow> nat list \<Rightarrow>
    (nat \<times> a_obj) option option" where
  "array_scan h key arr sz checked [] = Some None"
| "array_scan h key arr sz checked (i # is) =
     (if sz \<le> checked then Some None
      else do {
        slot \<leftarrow> slot_at arr i;
        (case slot of
           None \<Rightarrow> array_scan h key arr sz checked is
         | Some obj \<Rightarrow> do {
             cmp \<leftarrow> fp_call (key_cmp h);
             diff \<leftarrow> cmp key (a_key obj);
             if diff = 0 then Some (Some (i, obj))
             else array_scan h key arr sz (checked + 1) is
           })
      })"

definition lhi_get_array :: "hi_handle \<Rightarrow> key \<Rightarrow> (int \<times> ptr option \<times> hi_handle) option" where
  "lhi_get_array h key = do {
     bucket \<leftarrow> hash_bucket h key;
     if coll_eng h = COLL_ENG_ARRAY then do {
       max \<leftarrow> rd (slot_max h) bucket;
       size \<leftarrow> rd (slot_size h) bucket;
       arr \<leftarrow> rd (bucket_array h) bucket;
       r \<leftarrow> array_scan h key arr (unat size) 0 [0 ..< unat max];
       (case r of Some (i, obj) \<Rightarrow> Some (SUCCESS, Some (a_data obj), h)
        | None \<Rightarrow> Some (HI_ERR_NOKEY, None, h))
     } else if array_eng (coll_eng h) then Some (HI_ERR_NOKEY, None, h)
     else Some (HI_ERR_INTERNAL, None, h)
   }"

definition lhi_remove_array ::
  "heap \<Rightarrow> hi_handle \<Rightarrow> key \<Rightarrow> (int \<times> ptr option \<times> heap \<times> hi_handle) option" where
  "lhi_remove_array hp h key = do {
     bucket \<leftarrow> hash_bucket h key;
     if coll_eng h = COLL_ENG_ARRAY then do {
       max \<leftarrow> rd (slot_max h) bucket;
       size \<leftarrow> rd (slot_size h) bucket;
       arr \<leftarrow> rd (bucket_array h) bucket;
       r \<leftarrow> array_scan h key arr (unat size) 0 [0 ..< unat max];
       (case r of
          Some (i, obj) \<Rightarrow> do {
            slots \<leftarrow> arr;
            Some (SUCCESS, Some (a_data obj), free hp,
              h\<lparr>bucket_array := (bucket_array h)[bucket := Some (slots[i := None])],
                slot_size := (slot_size h)[bucket := size - 1],
                no_objects := no_objects h - 1\<rparr>)
          }
        | None \<Rightarrow> Some (HI_ERR_NOKEY, None, hp, h))
     } else Some (HI_ERR_NOKEY, None, hp, h)
   }"

text \<open>
  \<open>realloc\<close> of a bucket to \<open>n\<close> slots, with the loop that marks the new ones free. It may fail, and
  then the old block stays; otherwise the new block stands for the old one. The slots of a null
  bucket would be read uninitialised. With a size of 0 the C library gives a bucket's block back and
  returns a null pointer; a null bucket then gets a block of no slots.
\<close>

definition realloc_slots ::
  "heap \<Rightarrow> a_obj option list option \<Rightarrow> nat \<Rightarrow> (a_obj option list option \<times> heap) option" where
  "realloc_slots hp arr n =
     (if n = 0 \<and> arr \<noteq> None then Some (None, free hp)
      else if n = 0 then
        (case malloc hp of
           (None, hp') \<Rightarrow> Some (None, hp')
         | (Some _, hp') \<Rightarrow> Some (Some [], hp'))
      else
        (let hp' = hp\<lparr>tick := tick hp + 1\<rparr>
         in case outcome hp (tick hp) of
              Malloc_fail \<Rightarrow> Some (None, hp')
            | Malloc_block _ \<Rightarrow> do {
                slots \<leftarrow> arr;
                Some (Some (take n slots @ replicate (n - length slots) None), hp')
              }))"

text \<open>
  The part of \<open>lhi_insert_array\<close> that doubles a full bucket: the new handle, and whether \<open>realloc\<close>
  gave a null pointer, which the bucket then holds.
\<close>

definition array_grow :: "heap \<Rightarrow> hi_handle \<Rightarrow> nat \<Rightarrow> (bool \<times> heap \<times> hi_handle) option" where
  "array_grow hp h bucket = do {
     size \<leftarrow> rd (slot_size h) bucket;
     max \<leftarrow> rd (slot_max h) bucket;
     if max \<le> size then do {
       arr \<leftarrow> rd (bucket_array h) bucket;
       let max' = push_bit 1 max;
       (arr', hp) \<leftarrow> realloc_slots hp arr (unat max');
       Some (arr' \<noteq> None, hp, h\<lparr>slot_max := (slot_max h)[bucket := max'],
         bucket_array := (bucket_array h)[bucket := arr']\<rparr>)
     } else Some (True, hp, h)
   }"

fun first_free :: "a_obj option list option \<Rightarrow> nat list \<Rightarrow> nat option option" where
  "first_free arr [] = Some None"
| "first_free arr (i # is) = do {
     slot \<leftarrow> slot_at arr i;
     (case slot of None \<Rightarrow> Some (Some i) | Some _ \<Rightarrow> first_free arr is)
   }"

text \<open>The second part: the entry goes to the first free slot.\<close>

definition array_put ::
  "heap \<Rightarrow> hi_handle \<Rightarrow> nat \<Rightarrow> key \<Rightarrow> ptr \<Rightarrow> (int \<times> heap \<times> hi_handle) option" where
  "array_put hp h bucket key data = do {
     size \<leftarrow> rd (slot_size h) bucket;
     max \<leftarrow> rd (slot_max h) bucket;
     arr \<leftarrow> rd (bucket_array h) bucket;
     r \<leftarrow> first_free arr [0 ..< unat max];
     (case r of
        None \<Rightarrow> Some (HI_ERR_INTERNAL, hp, h)
      | Some i \<Rightarrow> (case xalloc_align hp of (ret, _, hp) \<Rightarrow>
          if ret \<noteq> 0 then Some (HI_ERR_SYSTEM, hp, h)
          else do {
            slots \<leftarrow> arr;
            let obj = \<lparr>a_key_len = word_of_nat (length key), a_key = key, a_data = data\<rparr>;
            Some (SUCCESS, hp,
              h\<lparr>bucket_array := (bucket_array h)[bucket := Some (slots[i := Some obj])],
                slot_size := (slot_size h)[bucket := size + 1],
                no_objects := no_objects h + 1\<rparr>)
          }))
   }"

definition lhi_insert_array ::
  "heap \<Rightarrow> hi_handle \<Rightarrow> key \<Rightarrow> ptr \<Rightarrow> (int \<times> heap \<times> hi_handle) option" where
  "lhi_insert_array hp h key data = do {
     bucket \<leftarrow> hash_bucket h key;
     (r, _, _) \<leftarrow> lhi_get_array h key;
     if r = SUCCESS then Some (HI_ERR_DUPKEY, hp, h)
     else do {
       (grown, hp, h) \<leftarrow> array_grow hp h bucket;
       if \<not> grown then Some (HI_ERR_SYSTEM, hp, h) else array_put hp h bucket key data
     }
   }"

fun free_slots :: "a_obj option list option \<Rightarrow> nat list \<Rightarrow> heap \<Rightarrow> heap option" where
  "free_slots arr [] hp = Some hp"
| "free_slots arr (a # as) hp = do {
     slot \<leftarrow> slot_at arr a;
     free_slots arr as (case slot of Some _ \<Rightarrow> free hp | None \<Rightarrow> hp)
   }"

fun fini_array_loop :: "hi_handle \<Rightarrow> nat list \<Rightarrow> heap \<Rightarrow> heap option" where
  "fini_array_loop h [] hp = Some hp"
| "fini_array_loop h (i # is) hp = do {
     max \<leftarrow> rd (slot_max h) i;
     arr \<leftarrow> rd (bucket_array h) i;
     hp \<leftarrow> free_slots arr [0 ..< unat max] hp;
     fini_array_loop h is (free_ptr arr hp)
   }"

definition lhi_fini_array :: "heap \<Rightarrow> hi_handle \<Rightarrow> (int \<times> heap \<times> hi_handle) option" where
  "lhi_fini_array hp h = do {
     hp \<leftarrow> fini_array_loop h [0 ..< unat (table_size h)] hp;
     Some (SUCCESS, free (free (free hp)), h)
   }"

text \<open>
  The loop runs over the first \<open>len\<close> slots, where \<open>len\<close> is the number of entries, and stores the
  key length at the index of the slot, data and key at the index of the entry.
\<close>

fun fill_from_slots ::
  "a_obj option list option \<Rightarrow> nat list \<Rightarrow> nat \<Rightarrow> lhi_bucket_array \<Rightarrow> lhi_bucket_array option" where
  "fill_from_slots arr [] j a = Some a"
| "fill_from_slots arr (i # is) j a = do {
     slot \<leftarrow> slot_at arr i;
     (case slot of
        None \<Rightarrow> fill_from_slots arr is j a
      | Some obj \<Rightarrow> do {
          a \<leftarrow> ba_write a j i (a_data obj) (a_key obj) (a_key_len obj);
          fill_from_slots arr is (j + 1) a
        })
   }"

definition lhi_array_bucket_to_array ::
  "heap \<Rightarrow> hi_handle \<Rightarrow> nat \<Rightarrow> lhi_bucket_array \<Rightarrow> (int \<times> heap \<times> lhi_bucket_array) option" where
  "lhi_array_bucket_to_array hp h bucket a = do {
     len \<leftarrow> rd (slot_size h) bucket;
     if len = 0 then Some (HI_ERR_NODATA, hp, a)
     else do {
       (ret, hp, a) \<leftarrow> lhi_bucket_array_alloc hp a (ucast len);
       if ret \<noteq> 0 then Some (ret, hp, a)
       else do {
         arr \<leftarrow> rd (bucket_array h) bucket;
         a \<leftarrow> fill_from_slots arr [0 ..< unat len] 0 a;
         Some (ret, hp, a)
       }
     }
   }"

section \<open>Slots as entries\<close>

definition slot_entry :: "a_obj option \<Rightarrow> entries" where
  "slot_entry s = (case s of None \<Rightarrow> [] | Some obj \<Rightarrow> [(a_key obj, a_data obj)])"

definition slot_entries :: "a_obj option list \<Rightarrow> entries" where
  "slot_entries slots = concat (map slot_entry slots)"

lemma slot_entry_simps [simp]:
  "slot_entry None = []" "slot_entry (Some obj) = [(a_key obj, a_data obj)]"
  by (simp_all add: slot_entry_def)

lemma slot_entries_simps [simp]:
  "slot_entries [] = []" "slot_entries (s # slots) = slot_entry s @ slot_entries slots"
  "slot_entries (slots @ slots') = slot_entries slots @ slot_entries slots'"
  "slot_entries (replicate n None) = []"
  by (simp_all add: slot_entries_def)

lemma slot_entries_update:
  assumes "j < length slots"
  shows "slot_entries (slots[j := s]) =
      slot_entries (take j slots) @ slot_entry s @ slot_entries (drop (Suc j) slots)"
    and "slot_entries slots =
      slot_entries (take j slots) @ slot_entry (slots ! j) @ slot_entries (drop (Suc j) slots)"
proof -
  show "slot_entries (slots[j := s]) =
      slot_entries (take j slots) @ slot_entry s @ slot_entries (drop (Suc j) slots)"
    using assms by (simp add: upd_conv_take_nth_drop)
  show "slot_entries slots =
      slot_entries (take j slots) @ slot_entry (slots ! j) @ slot_entries (drop (Suc j) slots)"
    using assms by (subst id_take_nth_drop [OF assms]) (simp del: slot_entry_simps)
qed

lemma slot_entries_free:
  assumes "length (slot_entries slots) < length slots"
  shows "\<exists>j < length slots. slots ! j = None"
proof (rule ccontr)
  assume "\<not> ?thesis"
  then have "\<forall>s \<in> set slots. s \<noteq> None"
    by (auto simp: in_set_conv_nth)
  then have "length (slot_entries slots) = length slots"
    by (induction slots) auto
  then show False
    using assms by simp
qed

lemma slot_entries_drop:
  "i < length slots \<Longrightarrow>
     slot_entries (drop i slots) = slot_entry (slots ! i) @ slot_entries (drop (Suc i) slots)"
  by (simp add: Cons_nth_drop_Suc [symmetric])

lemma length_slot_entries_le: "length (slot_entries slots) \<le> length slots"
  by (induction slots) (auto simp: slot_entry_def split: option.split)

definition bucket_entries :: "a_obj option list option \<Rightarrow> entries" where
  "bucket_entries arr = (case arr of None \<Rightarrow> [] | Some slots \<Rightarrow> slot_entries slots)"

definition array_table :: "hi_handle \<Rightarrow> entries list" where
  "array_table h = map bucket_entries (bucket_array h)"

text \<open>One bucket: an array of \<open>slot_max\<close> slots, \<open>slot_size\<close> of them allocated.\<close>

definition bucket_ok :: "a_obj option list option \<Rightarrow> u32 \<Rightarrow> u32 \<Rightarrow> bool" where
  "bucket_ok arr sz mx \<longleftrightarrow>
     (\<exists>slots. arr = Some slots \<and> length slots = unat mx \<and> mx \<noteq> 0 \<and>
        unat sz = length (slot_entries slots) \<and>
        (\<forall>obj. Some obj \<in> set slots \<longrightarrow> a_key_len obj = word_of_nat (length (a_key obj))))"

definition array_inv :: "(key \<Rightarrow> bool) \<Rightarrow> cmp_fn \<Rightarrow> hi_handle \<Rightarrow> bool" where
  "array_inv V cmp h \<longleftrightarrow>
     handle_ok V cmp h (array_table h) \<and> coll_eng h = COLL_ENG_ARRAY \<and>
     length (slot_size h) = length (bucket_array h) \<and>
     length (slot_max h) = length (bucket_array h) \<and>
     (\<forall>i < length (bucket_array h). bucket_ok (bucket_array h ! i) (slot_size h ! i) (slot_max h ! i))"

lemma unat_push_bit_1: "unat w < 2 ^ 31 \<Longrightarrow> unat (push_bit 1 w :: u32) = 2 * unat w"
  by (simp add: push_bit_eq_mult unat_word_ariths)

lemma first_free_spec:
  assumes "\<exists>j. i \<le> j \<and> j < length slots \<and> slots ! j = None"
  shows "\<exists>j < length slots. first_free (Some slots) [i ..< length slots] = Some (Some j) \<and>
    slots ! j = None"
  using assms
proof (induction "length slots - i" arbitrary: i)
  case 0
  then show ?case by auto
next
  case (Suc n)
  then have i: "i < length slots" by simp
  then have upt: "[i ..< length slots] = i # [Suc i ..< length slots]"
    by (simp add: upt_conv_Cons)
  show ?case
  proof (cases "slots ! i")
    case None
    then show ?thesis
      using i by (auto simp: upt slot_at_def bind_simps)
  next
    case (Some obj)
    then have "\<exists>j. Suc i \<le> j \<and> j < length slots \<and> slots ! j = None"
      using Suc.prems by (metis Suc_leI le_neq_implies_less option.distinct(1))
    then show ?thesis
      using Suc.hyps(1) [of "Suc i"] Suc.hyps(2) i Some by (auto simp: upt slot_at_def bind_simps)
  qed
qed

context key_domain
begin

lemma array_scan_spec:
  assumes cmp: "fp_call (key_cmp h) = Some cmp" and "V k"
    and "\<forall>k' \<in> fst ` set (slot_entries (drop i slots)). V k'"
    and "checked + length (slot_entries (drop i slots)) = sz"
  shows "array_scan h k (Some slots) sz checked [i ..< length slots] = Some None \<and>
      map_of (slot_entries (drop i slots)) k = None \<or>
    (\<exists>j obj. array_scan h k (Some slots) sz checked [i ..< length slots] = Some (Some (j, obj)) \<and>
      j < length slots \<and> slots ! j = Some obj \<and> a_key obj = k \<and>
      map_of (slot_entries (drop i slots)) k = Some (a_data obj))"
  using assms(3,4)
proof (induction "length slots - i" arbitrary: i checked)
  case 0
  then show ?case by simp
next
  case (Suc n)
  then have i: "i < length slots" by simp
  then have upt: "[i ..< length slots] = i # [Suc i ..< length slots]"
    by (simp add: upt_conv_Cons)
  note drop = slot_entries_drop [OF i]
  show ?case
  proof (cases "sz \<le> checked")
    case True
    then have "length (slot_entries (drop i slots)) = 0"
      using Suc.prems(2) by linarith
    then show ?thesis
      using True by (simp add: upt)
  next
    case False
    show ?thesis
    proof (cases "slots ! i")
      case None
      then show ?thesis
        using Suc.hyps(1) [of "Suc i" checked] Suc.hyps(2) Suc.prems False i
        by (simp add: upt drop slot_at_def bind_simps)
    next
      case (Some obj)
      then have "V (a_key obj)"
        using Suc.prems(1) by (simp add: drop)
      then consider (eq) "a_key obj = k" "cmp k (a_key obj) = Some 0"
        | (neq) d where "a_key obj \<noteq> k" "cmp k (a_key obj) = Some d" "d \<noteq> 0"
        using cmp_cases [OF \<open>V k\<close>] by metis
      then show ?thesis
      proof cases
        case eq
        then show ?thesis
          using Some False i cmp by (auto simp: upt drop slot_at_def bind_simps)
      next
        case neq
        then show ?thesis
          using Some False i cmp Suc.hyps(1) [of "Suc i" "checked + 1"] Suc.hyps(2) Suc.prems
          by (simp add: upt drop slot_at_def bind_simps)
      qed
    qed
  qed
qed

lemma array_inv_bucket:
  fixes k :: key
  assumes inv: "array_inv V cmp h"
  defines "i \<equiv> slot_of h k"
  obtains slots where "hash_bucket h k = Some i" and "i < length (bucket_array h)"
    and "bucket_array h ! i = Some slots" and "length slots = unat (slot_max h ! i)"
    and "slot_max h ! i \<noteq> 0" and "unat (slot_size h ! i) = length (slot_entries slots)"
    and "\<forall>obj. Some obj \<in> set slots \<longrightarrow> a_key_len obj = word_of_nat (length (a_key obj))"
    and "rd (bucket_array h) i = Some (Some slots)" and "rd (slot_size h) i = Some (slot_size h ! i)"
    and "rd (slot_max h) i = Some (slot_max h ! i)"
    and "\<forall>k' \<in> fst ` set (slot_entries slots). V k'"
    and "distinct (map fst (slot_entries slots))"
    and "map_of_table (array_table h) k = map_of (slot_entries slots) k"
proof -
  have ok: "handle_ok V cmp h (array_table h)"
    and len: "length (slot_size h) = length (bucket_array h)"
      "length (slot_max h) = length (bucket_array h)"
    using inv by (auto simp: array_inv_def)
  note slot = handle_ok_slot(1,2) [OF ok, of k, folded i_def]
  have i: "i < length (bucket_array h)"
    using slot(2) by (simp add: array_table_def)
  then have "bucket_ok (bucket_array h ! i) (slot_size h ! i) (slot_max h ! i)"
    using inv by (simp add: array_inv_def)
  then obtain slots where slots: "bucket_array h ! i = Some slots" "length slots = unat (slot_max h ! i)"
    "slot_max h ! i \<noteq> 0" "unat (slot_size h ! i) = length (slot_entries slots)"
    "\<forall>obj. Some obj \<in> set slots \<longrightarrow> a_key_len obj = word_of_nat (length (a_key obj))"
    by (auto simp: bucket_ok_def)
  have entries: "array_table h ! i = slot_entries slots"
    using i slots(1) by (simp add: array_table_def bucket_entries_def)
  have "placed V (slot_of h) (array_table h)"
    using ok by (simp add: handle_ok_def)
  from placedD [OF this, of i] have
    "\<forall>k' \<in> fst ` set (slot_entries slots). V k'" "distinct (map fst (slot_entries slots))"
    using i entries by (auto simp: array_table_def)
  moreover have "map_of_table (array_table h) k = map_of (slot_entries slots) k"
    using handle_ok_get [OF ok, of k] entries by (simp add: i_def)
  ultimately show ?thesis
    using that slot(1) i slots len by (simp add: rd_Some)
qed

lemma array_inv_update:
  assumes inv: "array_inv V cmp h" and "V k" and i: "i = slot_of h k"
    and old: "bucket_array h ! i = Some slots"
    and slots': "distinct (map fst (slot_entries slots'))"
      "map_of (slot_entries slots') = (map_of (slot_entries slots))(k := r)"
      "bucket_ok (Some slots') sz mx"
    and h': "same_settings h h'" "bucket_array h' = (bucket_array h)[i := Some slots']"
      "slot_size h' = (slot_size h)[i := sz]" "slot_max h' = (slot_max h)[i := mx]"
      "unat (no_objects h') = entry_count (array_table h')"
  shows "array_inv V cmp h'" and "map_of_table (array_table h') = (map_of_table (array_table h))(k := r)"
proof -
  have ok: "handle_ok V cmp h (array_table h)"
    using inv by (simp add: array_inv_def)
  have len: "i < length (bucket_array h)"
    using handle_ok_slot(2) [OF ok, of k] by (simp add: array_table_def i)
  have table: "array_table h' = (array_table h)[slot_of h k := slot_entries slots']"
    by (simp add: array_table_def h'(2) map_update bucket_entries_def i)
  have old': "array_table h ! slot_of h k = slot_entries slots"
    using old len by (simp add: array_table_def bucket_entries_def i)
  note update = handle_ok_update [OF ok \<open>V k\<close> slots'(1) slots'(2) [folded old'] h'(1),
    folded table, OF h'(5)]
  show "map_of_table (array_table h') = (map_of_table (array_table h))(k := r)"
    by (rule update)
  have "\<forall>j < length (bucket_array h'). bucket_ok (bucket_array h' ! j) (slot_size h' ! j) (slot_max h' ! j)"
    using inv slots'(3) len by (auto simp: array_inv_def h' nth_list_update)
  then show "array_inv V cmp h'"
    using inv update(1) h' by (simp add: array_inv_def same_settings_def)
qed

lemma array_get_found:
  assumes inv: "array_inv V cmp h" and "V k" and found: "map_of_table (array_table h) k = Some v"
  shows "\<exists>h'. lhi_get_array h k = Some (SUCCESS, Some v, h') \<and> array_inv V cmp h' \<and>
    same_settings h h' \<and> map_of_table (array_table h') = map_of_table (array_table h) \<and>
    no_objects h' = no_objects h"
proof -
  have cmp: "fp_call (key_cmp h) = Some cmp" and eng: "coll_eng h = COLL_ENG_ARRAY"
    using inv by (simp_all add: array_inv_def handle_ok_def)
  show ?thesis
  proof (rule array_inv_bucket [OF inv, of k])
    fix slots
    assume bucket: "hash_bucket h k = Some (slot_of h k)"
      "rd (bucket_array h) (slot_of h k) = Some (Some slots)"
      "rd (slot_size h) (slot_of h k) = Some (slot_size h ! slot_of h k)"
      "rd (slot_max h) (slot_of h k) = Some (slot_max h ! slot_of h k)"
      "length slots = unat (slot_max h ! slot_of h k)"
      "unat (slot_size h ! slot_of h k) = length (slot_entries slots)"
      "\<forall>k' \<in> fst ` set (slot_entries slots). V k'"
      "map_of_table (array_table h) k = map_of (slot_entries slots) k"
    then show ?thesis
      using array_scan_spec [OF cmp \<open>V k\<close>, of 0 slots 0] found inv eng
      by (auto simp: lhi_get_array_def)
  qed
qed

lemma array_get_missing:
  assumes inv: "array_inv V cmp h" and "V k" and missing: "map_of_table (array_table h) k = None"
  shows "lhi_get_array h k = Some (HI_ERR_NOKEY, None, h)"
proof -
  have cmp: "fp_call (key_cmp h) = Some cmp" and eng: "coll_eng h = COLL_ENG_ARRAY"
    using inv by (simp_all add: array_inv_def handle_ok_def)
  show ?thesis
  proof (rule array_inv_bucket [OF inv, of k])
    fix slots
    assume bucket: "hash_bucket h k = Some (slot_of h k)"
      "rd (bucket_array h) (slot_of h k) = Some (Some slots)"
      "rd (slot_size h) (slot_of h k) = Some (slot_size h ! slot_of h k)"
      "rd (slot_max h) (slot_of h k) = Some (slot_max h ! slot_of h k)"
      "length slots = unat (slot_max h ! slot_of h k)"
      "unat (slot_size h ! slot_of h k) = length (slot_entries slots)"
      "\<forall>k' \<in> fst ` set (slot_entries slots). V k'"
      "map_of_table (array_table h) k = map_of (slot_entries slots) k"
    then show ?thesis
      using array_scan_spec [OF cmp \<open>V k\<close>, of 0 slots 0] missing inv eng
      by (auto simp: lhi_get_array_def)
  qed
qed

lemma array_remove_found:
  assumes inv: "array_inv V cmp h" and "V k" and found: "map_of_table (array_table h) k = Some v"
  shows "\<exists>hp' h'. lhi_remove_array hp h k = Some (SUCCESS, Some v, hp', h') \<and>
    no_oom hp' = no_oom hp \<and> live hp' = live hp - 1 \<and> array_inv V cmp h' \<and> same_settings h h' \<and>
    map_of_table (array_table h') = (map_of_table (array_table h))(k := None) \<and>
    no_objects h' = no_objects h - 1"
proof -
  let ?i = "slot_of h k"
  have cmp: "fp_call (key_cmp h) = Some cmp" and eng: "coll_eng h = COLL_ENG_ARRAY"
    and total: "unat (no_objects h) = entry_count (array_table h)"
    using inv by (simp_all add: array_inv_def handle_ok_def)
  obtain slots where bucket: "hash_bucket h k = Some ?i" "?i < length (bucket_array h)"
    "bucket_array h ! ?i = Some slots" "length slots = unat (slot_max h ! ?i)"
    "slot_max h ! ?i \<noteq> 0" "unat (slot_size h ! ?i) = length (slot_entries slots)"
    "\<forall>obj. Some obj \<in> set slots \<longrightarrow> a_key_len obj = word_of_nat (length (a_key obj))"
    "rd (bucket_array h) ?i = Some (Some slots)" "rd (slot_size h) ?i = Some (slot_size h ! ?i)"
    "rd (slot_max h) ?i = Some (slot_max h ! ?i)" "\<forall>k' \<in> fst ` set (slot_entries slots). V k'"
    "distinct (map fst (slot_entries slots))"
    "map_of_table (array_table h) k = map_of (slot_entries slots) k"
    by (rule array_inv_bucket [OF inv])
  obtain j obj where scan: "array_scan h k (Some slots) (length (slot_entries slots)) 0
      [0 ..< length slots] = Some (Some (j, obj))" "j < length slots" "slots ! j = Some obj"
      "a_key obj = k" "a_data obj = v"
    using array_scan_spec [OF cmp \<open>V k\<close>, of 0 slots 0 "length (slot_entries slots)"] bucket(11,13) found
    by auto
  define slots' where "slots' = slots[j := None]"
  define h' where "h' = h\<lparr>bucket_array := (bucket_array h)[?i := Some slots'],
    slot_size := (slot_size h)[?i := slot_size h ! ?i - 1], no_objects := no_objects h - 1\<rparr>"
  have eq: "lhi_remove_array hp h k = Some (SUCCESS, Some v, free hp, h')"
    using scan bucket eng by (simp add: lhi_remove_array_def h'_def slots'_def)
  note update = slot_entries_update [OF scan(2)]
  have len: "length (slot_entries slots) = Suc (length (slot_entries slots'))"
    unfolding slots'_def update(1) update(2) by (simp add: scan(3))
  then have "slot_size h ! ?i \<noteq> 0"
    using bucket(6) by (auto simp: unat_eq_0)
  then have ok: "bucket_ok (Some slots') (slot_size h ! ?i - 1) (slot_max h ! ?i)"
    using bucket(4-7) len set_update_subset_insert [of slots j None]
    by (auto simp: bucket_ok_def unat_minus_one_u32 slots'_def)
  have "distinct (map fst (slot_entries (take j slots) @ (k, v) # slot_entries (drop (Suc j) slots)))"
    using bucket(12) unfolding update(2) by (simp add: scan)
  then have map: "distinct (map fst (slot_entries slots'))"
    "map_of (slot_entries slots') = (map_of (slot_entries slots))(k := None)"
    using map_of_remove unfolding slots'_def update(1) update(2) by (simp_all add: scan(3-5))
  have shrink: "entry_count (array_table h') + 1 = entry_count (array_table h)"
    using bucket(2,3) len entry_count_update [of ?i "array_table h" "slot_entries slots'"]
    by (simp add: h'_def array_table_def map_update bucket_entries_def)
  then have "no_objects h \<noteq> 0"
    using total by (auto simp: unat_eq_0)
  then have count: "unat (no_objects h') = entry_count (array_table h')"
    using total shrink by (simp add: h'_def unat_minus_one_u32)
  have same: "same_settings h h'" "bucket_array h' = (bucket_array h)[?i := Some slots']"
    "slot_size h' = (slot_size h)[?i := slot_size h ! ?i - 1]"
    "slot_max h' = (slot_max h)[?i := slot_max h ! ?i]"
    by (simp_all add: h'_def same_settings_def)
  have "array_inv V cmp h'"
    "map_of_table (array_table h') = (map_of_table (array_table h))(k := None)"
    by (rule array_inv_update [OF inv \<open>V k\<close> refl bucket(3) map ok same count])+
  then show ?thesis
    using eq same(1) by (simp add: h'_def)
qed

lemma array_remove_missing:
  assumes inv: "array_inv V cmp h" and "V k" and missing: "map_of_table (array_table h) k = None"
  shows "lhi_remove_array hp h k = Some (HI_ERR_NOKEY, None, hp, h)"
proof -
  have cmp: "fp_call (key_cmp h) = Some cmp" and eng: "coll_eng h = COLL_ENG_ARRAY"
    using inv by (simp_all add: array_inv_def handle_ok_def)
  show ?thesis
  proof (rule array_inv_bucket [OF inv, of k])
    fix slots
    assume bucket: "hash_bucket h k = Some (slot_of h k)"
      "rd (bucket_array h) (slot_of h k) = Some (Some slots)"
      "rd (slot_size h) (slot_of h k) = Some (slot_size h ! slot_of h k)"
      "rd (slot_max h) (slot_of h k) = Some (slot_max h ! slot_of h k)"
      "length slots = unat (slot_max h ! slot_of h k)"
      "unat (slot_size h ! slot_of h k) = length (slot_entries slots)"
      "\<forall>k' \<in> fst ` set (slot_entries slots). V k'"
      "map_of_table (array_table h) k = map_of (slot_entries slots) k"
    then show ?thesis
      using array_scan_spec [OF cmp \<open>V k\<close>, of 0 slots 0] missing inv eng
      by (auto simp: lhi_remove_array_def)
  qed
qed

text \<open>Growing a full bucket leaves a free slot, and the same entries.\<close>

lemma array_grow_spec:
  assumes inv: "array_inv V cmp h" and "V k" and "no_oom hp"
    and room: "unat (no_objects h) < max_objects"
  obtains hp' h' slots where "array_grow hp h (slot_of h k) = Some (True, hp', h')"
    and "no_oom hp'" and "live hp' = live hp" and "array_inv V cmp h'" and "same_settings h h'"
    and "map_of_table (array_table h') = map_of_table (array_table h)"
    and "no_objects h' = no_objects h" and "bucket_array h' ! slot_of h k = Some slots"
    and "length (slot_entries slots) < length slots"
proof -
  let ?i = "slot_of h k"
  have total: "unat (no_objects h) = entry_count (array_table h)"
    using inv by (simp add: array_inv_def handle_ok_def)
  obtain slots where bucket: "?i < length (bucket_array h)"
    "bucket_array h ! ?i = Some slots" "length slots = unat (slot_max h ! ?i)"
    "slot_max h ! ?i \<noteq> 0" "unat (slot_size h ! ?i) = length (slot_entries slots)"
    "\<forall>obj. Some obj \<in> set slots \<longrightarrow> a_key_len obj = word_of_nat (length (a_key obj))"
    "rd (bucket_array h) ?i = Some (Some slots)" "rd (slot_size h) ?i = Some (slot_size h ! ?i)"
    "rd (slot_max h) ?i = Some (slot_max h ! ?i)"
    "distinct (map fst (slot_entries slots))"
    by (rule array_inv_bucket [OF inv])
  show ?thesis
  proof (cases "slot_max h ! ?i \<le> slot_size h ! ?i")
    case False
    then show ?thesis
      using that [of hp h slots] bucket inv \<open>no_oom hp\<close>
      by (simp add: array_grow_def word_less_nat_alt word_le_nat_alt)
  next
    case True
    define mx where "mx = push_bit 1 (slot_max h ! ?i)"
    have "length (slot_entries slots) \<le> entry_count (array_table h)"
      using entry_count_ge [of ?i "array_table h"] bucket(1,2)
      by (simp add: array_table_def bucket_entries_def)
    then have "unat (slot_size h ! ?i) < 2 ^ 31"
      using room total bucket(5) by (simp add: max_objects_def)
    then have small: "unat (slot_max h ! ?i) < 2 ^ 31"
      using True by (simp add: word_le_nat_alt)
    have full: "length (slot_entries slots) = length slots"
      using True bucket(3,5) length_slot_entries_le [of slots] by (simp add: word_le_nat_alt)
    have mx: "unat mx = 2 * length slots"
      unfolding mx_def using small bucket(3) unat_push_bit_1 by presburger
    have pos: "slots \<noteq> []"
      using bucket(3,4) by (auto simp: unat_eq_0)
    define slots' where "slots' = slots @ replicate (length slots) None"
    define hp' where "hp' = hp\<lparr>tick := tick hp + 1\<rparr>"
    define h' where "h' = h\<lparr>slot_max := (slot_max h)[?i := mx],
      bucket_array := (bucket_array h)[?i := Some slots']\<rparr>"
    have "outcome hp (tick hp) \<noteq> Malloc_fail"
      using \<open>no_oom hp\<close> by (simp add: no_oom_def)
    then have alloc: "realloc_slots hp (Some slots) (unat mx) = Some (Some slots', hp')"
      by (cases "outcome hp (tick hp)") (simp_all add: realloc_slots_def mx slots'_def hp'_def pos)
    have eq: "array_grow hp h ?i = Some (True, hp', h')"
      using True bucket(7-9) alloc unfolding mx_def h'_def by (simp add: array_grow_def Let_def)
    have entries: "slot_entries slots' = slot_entries slots"
      by (simp add: slots'_def)
    have "mx \<noteq> 0"
      using pos mx by (metis length_0_conv mult_eq_0_iff unat_0 zero_neq_numeral)
    then have ok: "bucket_ok (Some slots') (slot_size h ! ?i) mx"
      using bucket(5,6) by (auto simp: bucket_ok_def mx entries) (auto simp: slots'_def)
    have same: "same_settings h h'" "bucket_array h' = (bucket_array h)[?i := Some slots']"
      "slot_size h' = (slot_size h)[?i := slot_size h ! ?i]"
      "slot_max h' = (slot_max h)[?i := mx]"
      by (simp_all add: h'_def same_settings_def)
    have table: "array_table h' = array_table h"
      using bucket(1,2) entries
      by (simp add: array_table_def h'_def map_update bucket_entries_def list_update_same_conv)
    have count: "unat (no_objects h') = entry_count (array_table h')"
      unfolding table using total by (simp add: h'_def)
    have map: "distinct (map fst (slot_entries slots'))" "map_of (slot_entries slots') =
        (map_of (slot_entries slots))(k := map_of (slot_entries slots) k)"
      using bucket(10) by (simp_all add: entries)
    have "array_inv V cmp h'"
      by (rule array_inv_update(1) [OF inv \<open>V k\<close> refl bucket(2) map ok same count])
    then show ?thesis
      using that [of hp' h' slots'] eq same(1) table bucket(1) full pos \<open>no_oom hp\<close>
      by (simp add: hp'_def h'_def no_oom_def entries) (simp add: slots'_def)
  qed
qed

lemma array_put_spec:
  assumes inv: "array_inv V cmp h" and "V k" and "no_oom hp"
    and missing: "map_of_table (array_table h) k = None"
    and room: "unat (no_objects h) < max_objects"
    and slots: "bucket_array h ! slot_of h k = Some slots"
    and free: "length (slot_entries slots) < length slots"
  shows "\<exists>hp' h'. array_put hp h (slot_of h k) k v = Some (SUCCESS, hp', h') \<and> no_oom hp' \<and>
    live hp' = live hp + 1 \<and> array_inv V cmp h' \<and> same_settings h h' \<and>
    map_of_table (array_table h') = (map_of_table (array_table h))(k \<mapsto> v) \<and>
    no_objects h' = no_objects h + 1"
proof -
  let ?i = "slot_of h k"
  have total: "unat (no_objects h) = entry_count (array_table h)"
    using inv by (simp add: array_inv_def handle_ok_def)
  have bucket: "?i < length (bucket_array h)" "length slots = unat (slot_max h ! ?i)"
    "unat (slot_size h ! ?i) = length (slot_entries slots)" "slot_max h ! ?i \<noteq> 0"
    "\<forall>obj. Some obj \<in> set slots \<longrightarrow> a_key_len obj = word_of_nat (length (a_key obj))"
    "rd (bucket_array h) ?i = Some (Some slots)" "rd (slot_size h) ?i = Some (slot_size h ! ?i)"
    "rd (slot_max h) ?i = Some (slot_max h ! ?i)" "distinct (map fst (slot_entries slots))"
    "map_of (slot_entries slots) k = None"
    using slots missing by (rule_tac array_inv_bucket [OF inv, of k]; simp)+
  obtain j where j: "first_free (Some slots) [0 ..< length slots] = Some (Some j)"
    "j < length slots" "slots ! j = None"
    using first_free_spec [of 0 slots] slot_entries_free [OF free] by auto
  obtain junk hp' where hp': "xalloc_align hp = (0, junk, hp')" "no_oom hp'" "live hp' = live hp + 1"
    by (rule xalloc_no_oom [OF \<open>no_oom hp\<close>])
  define obj where "obj = \<lparr>a_key_len = word_of_nat (length k), a_key = k, a_data = v\<rparr>"
  define slots' where "slots' = slots[j := Some obj]"
  define h' where "h' = h\<lparr>bucket_array := (bucket_array h)[?i := Some slots'],
    slot_size := (slot_size h)[?i := slot_size h ! ?i + 1], no_objects := no_objects h + 1\<rparr>"
  have eq: "array_put hp h ?i k v = Some (SUCCESS, hp', h')"
    using j bucket hp' by (simp add: array_put_def h'_def slots'_def obj_def Let_def)
  have mset: "mset ((k, v) # slot_entries slots) = mset (slot_entries slots')"
    unfolding slots'_def slot_entries_update(1) [OF j(2)] slot_entries_update(2) [OF j(2)]
    by (simp add: j(3) obj_def)
  note fresh = map_of_insert_fresh [OF bucket(10,9), of v]
  have map: "distinct (map fst (slot_entries slots'))"
    "map_of (slot_entries slots') = (map_of (slot_entries slots))(k \<mapsto> v)"
    using map_of_mset [OF conjunct1 [OF fresh] mset] conjunct2 [OF fresh] by simp_all
  have len: "length (slot_entries slots') = Suc (length (slot_entries slots))"
    using mset_eq_length [OF mset] by simp
  have "length (slot_entries slots) < 2 ^ 31"
    using entry_count_ge [of ?i "array_table h"] bucket(1) slots total room
    by (simp add: array_table_def bucket_entries_def max_objects_def)
  then have ok: "bucket_ok (Some slots') (slot_size h ! ?i + 1) (slot_max h ! ?i)"
    using bucket(2-5) len set_update_subset_insert [of slots j "Some obj"]
    by (auto simp: bucket_ok_def unat_plus_one_u32 slots'_def obj_def)
  have grow: "entry_count (array_table h') = entry_count (array_table h) + 1"
    using bucket(1) slots len entry_count_update [of ?i "array_table h" "slot_entries slots'"]
    by (simp add: h'_def array_table_def map_update bucket_entries_def)
  have count: "unat (no_objects h') = entry_count (array_table h')"
    unfolding grow using total room by (simp add: h'_def unat_plus_one_u32 max_objects_def)
  have same: "same_settings h h'" "bucket_array h' = (bucket_array h)[?i := Some slots']"
    "slot_size h' = (slot_size h)[?i := slot_size h ! ?i + 1]"
    "slot_max h' = (slot_max h)[?i := slot_max h ! ?i]"
    by (simp_all add: h'_def same_settings_def)
  have "array_inv V cmp h'"
    "map_of_table (array_table h') = (map_of_table (array_table h))(k \<mapsto> v)"
    by (rule array_inv_update [OF inv \<open>V k\<close> refl slots map ok same count])+
  then show ?thesis
    using eq hp' same(1) by (simp add: h'_def)
qed

lemma array_insert_fresh:
  assumes inv: "array_inv V cmp h" and "V k" and "no_oom hp"
    and missing: "map_of_table (array_table h) k = None"
    and room: "unat (no_objects h) < max_objects"
  shows "\<exists>hp' h'. lhi_insert_array hp h k v = Some (SUCCESS, hp', h') \<and> no_oom hp' \<and>
    live hp' = live hp + 1 \<and> array_inv V cmp h' \<and> same_settings h h' \<and>
    map_of_table (array_table h') = (map_of_table (array_table h))(k \<mapsto> v) \<and>
    no_objects h' = no_objects h + 1"
proof -
  have bucket: "hash_bucket h k = Some (slot_of h k)"
    by (rule array_inv_bucket [OF inv])
  obtain hp1 h1 slots where grow: "array_grow hp h (slot_of h k) = Some (True, hp1, h1)"
    "no_oom hp1" "live hp1 = live hp" "array_inv V cmp h1" "same_settings h h1"
    "map_of_table (array_table h1) = map_of_table (array_table h)" "no_objects h1 = no_objects h"
    "bucket_array h1 ! slot_of h k = Some slots" "length (slot_entries slots) < length slots"
    by (rule array_grow_spec [OF inv \<open>V k\<close> \<open>no_oom hp\<close> room])
  have slot: "slot_of h1 k = slot_of h k"
    using same_settings_slot [OF grow(5)] by simp
  obtain hp' h' where put: "array_put hp1 h1 (slot_of h k) k v = Some (SUCCESS, hp', h')"
    "no_oom hp'" "live hp' = live hp1 + 1" "array_inv V cmp h'" "same_settings h1 h'"
    "map_of_table (array_table h') = (map_of_table (array_table h1))(k \<mapsto> v)"
    "no_objects h' = no_objects h1 + 1"
    using array_put_spec [OF grow(4) \<open>V k\<close> grow(2) _ _ grow(8) [folded slot] grow(9), of v]
      missing room grow(6,7) slot by auto
  have "lhi_insert_array hp h k v = Some (SUCCESS, hp', h')"
    using bucket array_get_missing [OF inv \<open>V k\<close> missing] grow(1) put(1)
    by (simp add: lhi_insert_array_def HI_ERR_NOKEY_def SUCCESS_def)
  then show ?thesis
    using put grow(3,5-7) same_settings_trans [OF grow(5) put(5)] by simp
qed

lemma array_insert_dup:
  assumes inv: "array_inv V cmp h" and "V k" and found: "map_of_table (array_table h) k = Some v"
  shows "lhi_insert_array hp h k d = Some (HI_ERR_DUPKEY, hp, h)"
proof -
  have "hash_bucket h k = Some (slot_of h k)"
    by (rule array_inv_bucket [OF inv])
  then show ?thesis
    using array_get_found [OF assms] by (auto simp: lhi_insert_array_def)
qed

lemma free_slots_live:
  "i \<le> length slots \<Longrightarrow> \<exists>hp'. free_slots (Some slots) [i ..< length slots] hp = Some hp' \<and>
     live hp' = live hp - int (length (slot_entries (drop i slots)))"
proof (induction "length slots - i" arbitrary: i hp)
  case 0
  then show ?case by simp
next
  case (Suc n)
  then have i: "i < length slots" by simp
  then show ?case
    using Suc.hyps(1) [of "Suc i"] Suc.hyps(2)
    by (cases "slots ! i")
      (force simp: upt_conv_Cons slot_entries_drop slot_at_def bind_simps)+
qed

lemma fini_array_loop_live:
  assumes "\<forall>i < length (bucket_array h). bucket_ok (bucket_array h ! i) (slot_size h ! i) (slot_max h ! i)"
    and "length (slot_max h) = length (bucket_array h)" and "i \<le> length (bucket_array h)"
  shows "\<exists>hp'. fini_array_loop h [i ..< length (bucket_array h)] hp = Some hp' \<and>
    live hp' = live hp - int (entry_count (drop i (array_table h))) - int (length (bucket_array h) - i)"
  using assms(3)
proof (induction "length (bucket_array h) - i" arbitrary: i hp)
  case 0
  then show ?case by (simp add: array_table_def entry_count_def)
next
  case (Suc n)
  then have i: "i < length (bucket_array h)" by simp
  then obtain slots where slots: "bucket_array h ! i = Some slots" "length slots = unat (slot_max h ! i)"
    using assms(1) by (auto simp: bucket_ok_def)
  obtain hp1 where hp1: "free_slots (Some slots) [0 ..< length slots] hp = Some hp1"
    "live hp1 = live hp - int (length (slot_entries slots))"
    using free_slots_live [of 0 slots hp] by auto
  have n: "n = length (bucket_array h) - Suc i"
    using Suc.hyps(2) by linarith
  obtain hp' where hp': "fini_array_loop h [Suc i ..< length (bucket_array h)] (free hp1) = Some hp'"
    "live hp' = live (free hp1) - int (entry_count (drop (Suc i) (array_table h))) -
      int (length (bucket_array h) - Suc i)"
    using Suc.hyps(1) [OF n, of "free hp1"] i by auto
  have "drop i (array_table h) = slot_entries slots # drop (Suc i) (array_table h)"
    using i slots(1)
    by (simp add: array_table_def bucket_entries_def Cons_nth_drop_Suc [symmetric])
  then show ?case
    using i slots hp1 hp' assms(2)
    by (simp add: upt_conv_Cons bind_simps free_ptr_def entry_count_def)
qed

lemma array_fini:
  assumes "array_inv V cmp h"
  shows "\<exists>hp'. lhi_fini_array hp h = Some (SUCCESS, hp', h) \<and>
    live hp' = live hp - int (unat (no_objects h)) - int (unat (table_size h)) - 3"
proof -
  have len: "unat (table_size h) = length (bucket_array h)"
    and n: "unat (no_objects h) = entry_count (array_table h)"
    using assms by (simp_all add: array_inv_def handle_ok_def array_table_def)
  obtain hp' where "fini_array_loop h [0 ..< length (bucket_array h)] hp = Some hp'"
    "live hp' = live hp - int (entry_count (array_table h)) - int (length (bucket_array h))"
    using fini_array_loop_live [of h 0 hp] assms by (auto simp: array_inv_def)
  then show ?thesis
    by (intro exI [of _ "free (free (free hp'))"])
      (simp add: lhi_fini_array_def len n del: of_nat_unat)
qed

end

sublocale key_domain \<subseteq> array_engine: coll_engine V cmp "array_inv V cmp" array_table
  lhi_get_array lhi_insert_array lhi_remove_array 1
proof unfold_locales
  show "handle_ok V cmp h (array_table h)" if "array_inv V cmp h" for h
    using that by (simp add: array_inv_def)
qed (fact array_get_found array_get_missing array_insert_fresh array_remove_found
  array_remove_missing)+

end
