(* ===== verification/Rbtree.thy ===== *)
theory Rbtree
  imports Hi_types
begin

text \<open>
  The red-black trees of \<open>lib/hi_rbtree.c\<close> and \<open>include/rbtree.h\<close>: rotations, rebalancing after
  an insertion and after a removal. A C node points to its parent; here a node under work is a
  subtree together with its path, the list of the frames of its ancestors from the parent up to
  the root, so that \<open>rb_parent(node)\<close> is the head of the path and a rotation leaves the rest of
  the path alone. Dereferencing a null pointer is \<open>None\<close>.
\<close>

section \<open>Nodes and paths\<close>

text \<open>
  An ancestor of the node under work: its colour and entry, and its other subtree. In \<open>RB_LEFT\<close>
  the node under work is its left child, in \<open>RB_RIGHT\<close> its right child.
\<close>

datatype rb_frame = RB_LEFT rb_color rb_entry rb_tree | RB_RIGHT rb_color rb_tree rb_entry

type_synonym rb_path = "rb_frame list"

fun fill :: "rb_frame \<Rightarrow> rb_tree \<Rightarrow> rb_tree" where
  "fill (RB_LEFT c e r) t = RB_NODE c t e r"
| "fill (RB_RIGHT c l e) t = RB_NODE c l e t"

text \<open>The whole tree, seen from its root.\<close>

fun plug :: "rb_tree \<Rightarrow> rb_path \<Rightarrow> rb_tree" where
  "plug t [] = t"
| "plug t (f # path) = plug (fill f t) path"

fun frame_color :: "rb_frame \<Rightarrow> rb_color" where
  "frame_color (RB_LEFT c e r) = c"
| "frame_color (RB_RIGHT c l e) = c"

text \<open>\<open>node && rb_is_red(node)\<close>; its negation is \<open>!node || rb_is_black(node)\<close>.\<close>

fun rb_is_red :: "rb_tree \<Rightarrow> bool" where
  "rb_is_red RB_NULL = False"
| "rb_is_red (RB_NODE c l e r) = (c = RB_RED)"

text \<open>\<open>rb_set_color\<close> with its two fixed cases; on a null pointer the tests of the code skip it.\<close>

fun rb_set_color :: "rb_color \<Rightarrow> rb_tree \<Rightarrow> rb_tree" where
  "rb_set_color c RB_NULL = RB_NULL"
| "rb_set_color c (RB_NODE c' l e r) = RB_NODE c l e r"

fun frame_set_color :: "rb_color \<Rightarrow> rb_frame \<Rightarrow> rb_frame" where
  "frame_set_color c (RB_LEFT c' e r) = RB_LEFT c e r"
| "frame_set_color c (RB_RIGHT c' l e) = RB_RIGHT c l e"

text \<open>\<open>__rb_rotate_left\<close> and \<open>__rb_rotate_right\<close> on the subtree of the node.\<close>

fun rb_rotate_left :: "rb_tree \<Rightarrow> rb_tree option" where
  "rb_rotate_left (RB_NODE c l e (RB_NODE rc rl re rr)) = Some (RB_NODE rc (RB_NODE c l e rl) re rr)"
| "rb_rotate_left _ = None"

fun rb_rotate_right :: "rb_tree \<Rightarrow> rb_tree option" where
  "rb_rotate_right (RB_NODE c (RB_NODE lc ll le lr) e r) = Some (RB_NODE lc ll le (RB_NODE c lr e r))"
| "rb_rotate_right _ = None"

text \<open>Stepping down to a child: the child with the frame of the node.\<close>

fun go_left :: "rb_tree \<Rightarrow> (rb_tree \<times> rb_frame) option" where
  "go_left (RB_NODE c l e r) = Some (l, RB_LEFT c e r)"
| "go_left RB_NULL = None"

fun go_right :: "rb_tree \<Rightarrow> (rb_tree \<times> rb_frame) option" where
  "go_right (RB_NODE c l e r) = Some (r, RB_RIGHT c l e)"
| "go_right RB_NULL = None"

section \<open>Rebalancing after an insertion\<close>

text \<open>
  \<open>if (parent->rb_right == node) { rotate left at parent; swap parent and node }\<close> and its mirror
  image: the new node and the frame of the new parent.
\<close>

fun outer_child_left :: "rb_tree \<Rightarrow> rb_frame \<Rightarrow> (rb_tree \<times> rb_frame) option" where
  "outer_child_left node (RB_RIGHT c l e) = do {
     t \<leftarrow> rb_rotate_left (RB_NODE c l e node);
     go_left t
   }"
| "outer_child_left node (RB_LEFT c e r) = Some (node, RB_LEFT c e r)"

fun outer_child_right :: "rb_tree \<Rightarrow> rb_frame \<Rightarrow> (rb_tree \<times> rb_frame) option" where
  "outer_child_right node (RB_LEFT c e r) = do {
     t \<leftarrow> rb_rotate_right (RB_NODE c node e r);
     go_right t
   }"
| "outer_child_right node (RB_RIGHT c l e) = Some (node, RB_RIGHT c l e)"

text \<open>The \<open>while\<close> loop of \<open>rb_insert_color\<close> and the final \<open>rb_set_black(root->rb_node)\<close>.\<close>

fun rb_insert_color :: "rb_tree \<Rightarrow> rb_path \<Rightarrow> rb_tree option" where
  "rb_insert_color node [] = Some (rb_set_color RB_BLACK node)"
| "rb_insert_color node (p # path) =
     (if frame_color p = RB_BLACK then Some (rb_set_color RB_BLACK (plug node (p # path)))
      else case path of
        [] \<Rightarrow> None
      | RB_LEFT gc ge uncle # rest \<Rightarrow>
          if rb_is_red uncle then
            rb_insert_color
              (RB_NODE RB_RED (fill (frame_set_color RB_BLACK p) node) ge (rb_set_color RB_BLACK uncle))
              rest
          else do {
            (node, p) \<leftarrow> outer_child_left node p;
            t \<leftarrow> rb_rotate_right (RB_NODE RB_RED (fill (frame_set_color RB_BLACK p) node) ge uncle);
            (node, p) \<leftarrow> go_left t;
            rb_insert_color node (p # rest)
          }
      | RB_RIGHT gc uncle ge # rest \<Rightarrow>
          if rb_is_red uncle then
            rb_insert_color
              (RB_NODE RB_RED (rb_set_color RB_BLACK uncle) ge (fill (frame_set_color RB_BLACK p) node))
              rest
          else do {
            (node, p) \<leftarrow> outer_child_right node p;
            t \<leftarrow> rb_rotate_left (RB_NODE RB_RED uncle ge (fill (frame_set_color RB_BLACK p) node));
            (node, p) \<leftarrow> go_right t;
            rb_insert_color node (p # rest)
          })"

section \<open>Rebalancing after a removal\<close>

text \<open>
  One iteration of the loop of \<open>__rb_erase_color\<close> for a node that is the left child. The first
  case, a red sibling, is a rotation that makes the sibling a black node under a red parent.
\<close>

definition red_sibling_left ::
  "rb_tree \<Rightarrow> rb_color \<Rightarrow> rb_entry \<Rightarrow> rb_tree \<Rightarrow> rb_path \<Rightarrow> (rb_color \<times> rb_tree \<times> rb_path) option" where
  "red_sibling_left node pc pe other path =
     (if rb_is_red other then do {
        t \<leftarrow> rb_rotate_left (RB_NODE RB_RED node pe (rb_set_color RB_BLACK other));
        (parent, f) \<leftarrow> go_left t;
        (case parent of
           RB_NODE c l e other \<Rightarrow> Some (c, other, f # path)
         | RB_NULL \<Rightarrow> None)
      } else Some (pc, other, path))"

definition red_sibling_right ::
  "rb_tree \<Rightarrow> rb_color \<Rightarrow> rb_entry \<Rightarrow> rb_tree \<Rightarrow> rb_path \<Rightarrow> (rb_color \<times> rb_tree \<times> rb_path) option" where
  "red_sibling_right node pc pe other path =
     (if rb_is_red other then do {
        t \<leftarrow> rb_rotate_right (RB_NODE RB_RED (rb_set_color RB_BLACK other) pe node);
        (parent, f) \<leftarrow> go_right t;
        (case parent of
           RB_NODE c other e r \<Rightarrow> Some (c, other, f # path)
         | RB_NULL \<Rightarrow> None)
      } else Some (pc, other, path))"

text \<open>What an iteration leaves: another iteration at the parent, or the finished tree.\<close>

datatype erase_result = Erase_up rb_tree rb_path | Erase_done rb_tree

text \<open>
  The other cases, on a black sibling: both its children black, or one rotation at the sibling
  where its far child is black and the final rotation at the parent, after which
  \<open>node = root->rb_node\<close> is set black.
\<close>

fun black_sibling_left ::
  "rb_tree \<Rightarrow> rb_color \<Rightarrow> rb_entry \<Rightarrow> rb_tree \<Rightarrow> rb_path \<Rightarrow> erase_result option" where
  "black_sibling_left node pc pe RB_NULL path = None"
| "black_sibling_left node pc pe (RB_NODE oc o_l oe o_r) path =
     (if \<not> rb_is_red o_l \<and> \<not> rb_is_red o_r then
        Some (Erase_up (RB_NODE pc node pe (RB_NODE RB_RED o_l oe o_r)) path)
      else do {
        other \<leftarrow> (if \<not> rb_is_red o_r
          then rb_rotate_right (RB_NODE RB_RED (rb_set_color RB_BLACK o_l) oe o_r)
          else Some (RB_NODE oc o_l oe o_r));
        (case other of
           RB_NULL \<Rightarrow> None
         | RB_NODE oc o_l oe o_r \<Rightarrow> do {
             t \<leftarrow> rb_rotate_left (RB_NODE RB_BLACK node pe (RB_NODE pc o_l oe (rb_set_color RB_BLACK o_r)));
             Some (Erase_done (rb_set_color RB_BLACK (plug t path)))
           })
      })"

fun black_sibling_right ::
  "rb_tree \<Rightarrow> rb_color \<Rightarrow> rb_entry \<Rightarrow> rb_tree \<Rightarrow> rb_path \<Rightarrow> erase_result option" where
  "black_sibling_right node pc pe RB_NULL path = None"
| "black_sibling_right node pc pe (RB_NODE oc o_l oe o_r) path =
     (if \<not> rb_is_red o_l \<and> \<not> rb_is_red o_r then
        Some (Erase_up (RB_NODE pc (RB_NODE RB_RED o_l oe o_r) pe node) path)
      else do {
        other \<leftarrow> (if \<not> rb_is_red o_l
          then rb_rotate_left (RB_NODE RB_RED o_l oe (rb_set_color RB_BLACK o_r))
          else Some (RB_NODE oc o_l oe o_r));
        (case other of
           RB_NULL \<Rightarrow> None
         | RB_NODE oc o_l oe o_r \<Rightarrow> do {
             t \<leftarrow> rb_rotate_right (RB_NODE RB_BLACK (RB_NODE pc (rb_set_color RB_BLACK o_l) oe o_r) pe node);
             Some (Erase_done (rb_set_color RB_BLACK (plug t path)))
           })
      })"

fun rb_erase_step :: "rb_tree \<Rightarrow> rb_frame \<Rightarrow> rb_path \<Rightarrow> erase_result option" where
  "rb_erase_step node (RB_LEFT pc pe other) path = do {
     (pc, other, path) \<leftarrow> red_sibling_left node pc pe other path;
     black_sibling_left node pc pe other path
   }"
| "rb_erase_step node (RB_RIGHT pc other pe) path = do {
     (pc, other, path) \<leftarrow> red_sibling_right node pc pe other path;
     black_sibling_right node pc pe other path
   }"

text \<open>
  An iteration that goes up either shortens the path, or has made the parent red, which ends the
  loop.
\<close>

definition erase_measure :: "rb_tree \<times> rb_path \<Rightarrow> nat" where
  "erase_measure = (\<lambda>(node, path). 2 * length path + (if rb_is_red node then 0 else 1))"

lemma rb_erase_step_measure:
  assumes "rb_erase_step node f path = Some (Erase_up node' path')" and "\<not> rb_is_red node"
  shows "erase_measure (node', path') < erase_measure (node, f # path)"
proof (cases f)
  case (RB_LEFT pc pe other)
  then obtain pc' other' path'' where
    red: "red_sibling_left node pc pe other path = Some (pc', other', path'')" and
    up: "black_sibling_left node pc' pe other' path'' = Some (Erase_up node' path')"
    using assms(1) by (auto simp: bind_Some_iff)
  have "path' = path'' \<and> (\<exists>t. node' = RB_NODE pc' node pe t)"
    using up by (cases other')
      (auto simp: bind_Some_iff split: if_splits rb_tree.splits, (metis rb_tree.exhaust)+)
  moreover have "path'' = path \<or> (pc' = RB_RED \<and> (\<exists>g. path'' = g # path))"
    using red by (cases other) (auto simp: red_sibling_left_def split: if_splits)
  ultimately show ?thesis
    using assms(2) by (auto simp: erase_measure_def)
next
  case (RB_RIGHT pc other pe)
  then obtain pc' other' path'' where
    red: "red_sibling_right node pc pe other path = Some (pc', other', path'')" and
    up: "black_sibling_right node pc' pe other' path'' = Some (Erase_up node' path')"
    using assms(1) by (auto simp: bind_Some_iff)
  have "path' = path'' \<and> (\<exists>t. node' = RB_NODE pc' t pe node)"
    using up by (cases other')
      (auto simp: bind_Some_iff split: if_splits rb_tree.splits, (metis rb_tree.exhaust)+)
  moreover have "path'' = path \<or> (pc' = RB_RED \<and> (\<exists>g. path'' = g # path))"
    using red by (cases other) (auto simp: red_sibling_right_def split: if_splits)
  ultimately show ?thesis
    using assms(2) by (auto simp: erase_measure_def)
qed

text \<open>
  \<open>__rb_erase_color\<close>: the loop runs while the node is null or black and not the root; then the node
  is set black.
\<close>

function rb_erase_color :: "rb_tree \<Rightarrow> rb_path \<Rightarrow> rb_tree option" where
  "rb_erase_color node [] = Some (rb_set_color RB_BLACK node)"
| "rb_erase_color node (f # path) =
     (if rb_is_red node then Some (plug (rb_set_color RB_BLACK node) (f # path))
      else case rb_erase_step node f path of
        None \<Rightarrow> None
      | Some (Erase_done t) \<Rightarrow> Some t
      | Some (Erase_up node' path') \<Rightarrow> rb_erase_color node' path')"
  by pat_completeness auto

termination
  by (relation "measure erase_measure") (auto simp: rb_erase_step_measure)

text \<open>The loop that finds the successor: the leftmost node of the right subtree, with its path.\<close>

fun leftmost :: "rb_tree \<Rightarrow> rb_path \<Rightarrow> (rb_color \<times> rb_entry \<times> rb_tree \<times> rb_path) option" where
  "leftmost RB_NULL path = None"
| "leftmost (RB_NODE c l e r) path =
     (if l = RB_NULL then Some (c, e, r, path) else leftmost l (RB_LEFT c e r # path))"

text \<open>
  \<open>rb_erase\<close>: a node with a null child is replaced by the other child; a node with two children is
  replaced by its successor, which takes its colour and position, and the child of the successor
  moves up. A black node gone means rebalancing at the child.
\<close>

fun rb_erase :: "rb_tree \<Rightarrow> rb_path \<Rightarrow> rb_tree option" where
  "rb_erase RB_NULL path = None"
| "rb_erase (RB_NODE c l e r) path =
     (if l = RB_NULL then
        (if c = RB_BLACK then rb_erase_color r path else Some (plug r path))
      else if r = RB_NULL then
        (if c = RB_BLACK then rb_erase_color l path else Some (plug l path))
      else do {
        (color, e', child, path') \<leftarrow> leftmost r [];
        let path'' = path' @ RB_RIGHT c l e' # path;
        if color = RB_BLACK then rb_erase_color child path'' else Some (plug child path'')
      })"

section \<open>Entries and shape\<close>

fun inorder :: "rb_tree \<Rightarrow> rb_entry list" where
  "inorder RB_NULL = []"
| "inorder (RB_NODE c l e r) = inorder l @ e # inorder r"

fun path_left :: "rb_path \<Rightarrow> rb_entry list" where
  "path_left [] = []"
| "path_left (RB_LEFT c e r # path) = path_left path"
| "path_left (RB_RIGHT c l e # path) = path_left path @ inorder l @ [e]"

fun path_right :: "rb_path \<Rightarrow> rb_entry list" where
  "path_right [] = []"
| "path_right (RB_LEFT c e r # path) = e # inorder r @ path_right path"
| "path_right (RB_RIGHT c l e # path) = path_right path"

lemma inorder_fill [simp]:
  "inorder (fill (RB_LEFT c e r) t) = inorder t @ e # inorder r"
  "inorder (fill (RB_RIGHT c l e) t) = inorder l @ e # inorder t"
  by simp_all

lemma inorder_plug: "inorder (plug t path) = path_left path @ inorder t @ path_right path"
proof (induction path arbitrary: t)
  case Nil
  then show ?case by simp
next
  case (Cons f path)
  then show ?case by (cases f) simp_all
qed

lemma inorder_set_color [simp]: "inorder (rb_set_color c t) = inorder t"
  by (cases t) simp_all

lemma inorder_frame_set_color [simp]: "inorder (fill (frame_set_color c f) t) = inorder (fill f t)"
  by (cases f) simp_all

lemma plug_append: "plug t (path @ path') = plug (plug t path) path'"
  by (induction path arbitrary: t) simp_all

text \<open>
  The red-black invariants: \<open>invc\<close>, no red node with a red child, and \<open>invh n\<close>, every way down
  passes \<open>n\<close> black nodes. A path is valid for a hole of black height \<open>n\<close>.
\<close>

fun invc :: "rb_tree \<Rightarrow> bool" where
  "invc RB_NULL = True"
| "invc (RB_NODE c l e r) =
     (invc l \<and> invc r \<and> (c = RB_RED \<longrightarrow> \<not> rb_is_red l \<and> \<not> rb_is_red r))"

fun invh :: "nat \<Rightarrow> rb_tree \<Rightarrow> bool" where
  "invh n RB_NULL = (n = 0)"
| "invh n (RB_NODE c l e r) =
     (if c = RB_BLACK then 0 < n \<and> invh (n - 1) l \<and> invh (n - 1) r else invh n l \<and> invh n r)"

definition rb_ok :: "rb_tree \<Rightarrow> bool" where
  "rb_ok t \<longleftrightarrow> invc t \<and> \<not> rb_is_red t \<and> (\<exists>n. invh n t)"

fun red_above :: "rb_path \<Rightarrow> bool" where
  "red_above [] = False"
| "red_above (f # path) = (frame_color f = RB_RED)"

definition up_height :: "rb_color \<Rightarrow> nat \<Rightarrow> nat" where
  "up_height c n = (if c = RB_BLACK then Suc n else n)"

fun path_ok :: "nat \<Rightarrow> rb_path \<Rightarrow> bool" where
  "path_ok n [] = True"
| "path_ok n (RB_LEFT c e r # path) =
     (invc r \<and> invh n r \<and> (c = RB_RED \<longrightarrow> \<not> rb_is_red r \<and> path \<noteq> [] \<and> \<not> red_above path) \<and>
      path_ok (up_height c n) path)"
| "path_ok n (RB_RIGHT c l e # path) =
     (invc l \<and> invh n l \<and> (c = RB_RED \<longrightarrow> \<not> rb_is_red l \<and> path \<noteq> [] \<and> \<not> red_above path) \<and>
      path_ok (up_height c n) path)"

lemma rb_color_cases [simp]: "c \<noteq> RB_RED \<longleftrightarrow> c = RB_BLACK" "c \<noteq> RB_BLACK \<longleftrightarrow> c = RB_RED"
  by (cases c; simp)+

lemma plug_ok:
  assumes "path_ok n path" and "invc t" and "invh n t" and "rb_is_red t \<Longrightarrow> path \<noteq> [] \<and> \<not> red_above path"
  shows "rb_ok (plug t path)"
  using assms
proof (induction path arbitrary: n t)
  case Nil
  then show ?case by (auto simp: rb_ok_def)
next
  case (Cons f path)
  show ?case
  proof (cases f)
    case (RB_LEFT c e r)
    then show ?thesis
      using Cons.prems by (cases c) (auto simp: up_height_def intro!: Cons.IH)
  next
    case (RB_RIGHT c l e)
    then show ?thesis
      using Cons.prems by (cases c) (auto simp: up_height_def intro!: Cons.IH)
  qed
qed

lemma unplug_ok:
  assumes "rb_ok (plug t path)"
  obtains n where "path_ok n path" and "invc t" and "invh n t"
    and "rb_is_red t \<longrightarrow> path \<noteq> [] \<and> \<not> red_above path"
  using assms
proof (induction path arbitrary: t thesis)
  case Nil
  then show ?case by (auto simp: rb_ok_def)
next
  case (Cons f path)
  have "rb_ok (plug (fill f t) path)"
    using Cons.prems(2) by simp
  then obtain n where n: "path_ok n path" "invc (fill f t)" "invh n (fill f t)"
    "rb_is_red (fill f t) \<longrightarrow> path \<noteq> [] \<and> \<not> red_above path"
    using Cons.IH by blast
  show ?case
  proof (cases f)
    case (RB_LEFT c e r)
    then show ?thesis
      using n Cons.prems(1) [of "if c = RB_BLACK then n - 1 else n"]
      by (cases c) (auto simp: up_height_def)
  next
    case (RB_RIGHT c l e)
    then show ?thesis
      using n Cons.prems(1) [of "if c = RB_BLACK then n - 1 else n"]
      by (cases c) (auto simp: up_height_def)
  qed
qed

section \<open>Insertion restores the invariants\<close>

lemma set_black_ok:
  assumes "invc t" and "invh n t"
  shows "rb_ok (rb_set_color RB_BLACK t)"
  using assms by (cases t) (auto simp: rb_ok_def split: if_splits intro: exI [of _ "Suc n"])

lemma set_black_same: "\<not> rb_is_red t \<Longrightarrow> rb_set_color RB_BLACK t = t"
  by (cases t) auto

text \<open>The loop ends where the parent is black: the tree is valid as it is.\<close>

lemma rb_insert_color_black_parent:
  assumes "frame_color p = RB_BLACK" and "path_ok n (p # path)" and "invc node" and "invh n node"
  shows "\<exists>t. rb_insert_color node (p # path) = Some t \<and> rb_ok t \<and>
    inorder t = inorder (plug node (p # path))"
proof -
  have "rb_ok (plug node (p # path))"
    using assms by (intro plug_ok) auto
  then show ?thesis
    using assms(1) by (auto simp: set_black_same rb_ok_def)
qed

lemma outer_child_left_ok:
  assumes "invc node" "invh n node" "rb_is_red node" "frame_color p = RB_RED" "path_ok n (p # path)"
  obtains node' c e r where "outer_child_left node p = Some (node', RB_LEFT RB_RED e r)"
    and "invc node'" "invh n node'" "rb_is_red node'" "invc r" "invh n r" "\<not> rb_is_red r"
    and "inorder (fill p node) = inorder node' @ e # inorder r"
proof (cases p)
  case (RB_LEFT c e r)
  then show ?thesis
    using assms that [of node e r] by auto
next
  case (RB_RIGHT c l e)
  moreover obtain nl ne nr where "node = RB_NODE RB_RED nl ne nr"
    using assms(3) by (cases node) auto
  ultimately show ?thesis
    using assms that [of "RB_NODE RB_RED l e nl" ne nr] by auto
qed

lemma outer_child_right_ok:
  assumes "invc node" "invh n node" "rb_is_red node" "frame_color p = RB_RED" "path_ok n (p # path)"
  obtains node' c l e where "outer_child_right node p = Some (node', RB_RIGHT RB_RED l e)"
    and "invc node'" "invh n node'" "rb_is_red node'" "invc l" "invh n l" "\<not> rb_is_red l"
    and "inorder (fill p node) = inorder l @ e # inorder node'"
proof (cases p)
  case (RB_RIGHT c l e)
  then show ?thesis
    using assms that [of node l e] by auto
next
  case (RB_LEFT c e r)
  moreover obtain nl ne nr where "node = RB_NODE RB_RED nl ne nr"
    using assms(3) by (cases node) auto
  ultimately show ?thesis
    using assms that [of "RB_NODE RB_RED nr e r" nl ne] by auto
qed

text \<open>Colouring the parent black is right whichever child the node is.\<close>

lemma fill_black_ok:
  assumes "frame_color p = RB_RED" and "path_ok n (p # path)" and "invc node" and "invh n node"
  shows "invc (fill (frame_set_color RB_BLACK p) node)"
    and "invh (Suc n) (fill (frame_set_color RB_BLACK p) node)"
    and "\<not> rb_is_red (fill (frame_set_color RB_BLACK p) node)"
  using assms by (cases p; auto)+

lemma set_black_red_ok:
  "rb_is_red t \<Longrightarrow> invc t \<Longrightarrow> invh n t \<Longrightarrow>
     invc (rb_set_color RB_BLACK t) \<and> invh (Suc n) (rb_set_color RB_BLACK t) \<and>
     \<not> rb_is_red (rb_set_color RB_BLACK t)"
  by (cases t) auto

lemma rb_insert_color_ok:
  assumes "path_ok n path" and "invc node" and "invh n node" and "rb_is_red node"
  shows "\<exists>t. rb_insert_color node path = Some t \<and> rb_ok t \<and> inorder t = inorder (plug node path)"
  using assms
proof (induction "length path" arbitrary: n node path rule: less_induct)
  case less
  note node = less.prems(2-4)
  show ?case
  proof (cases path)
    case Nil
    then show ?thesis using node by (auto intro: set_black_ok)
  next
    case (Cons p path')
    show ?thesis
    proof (cases "frame_color p = RB_BLACK")
      case True
      then show ?thesis
        using rb_insert_color_black_parent [OF True] less.prems unfolding Cons by blast
    next
      case False
      then have red: "frame_color p = RB_RED" by simp
      then obtain g rest where path': "path' = g # rest" and g: "frame_color g = RB_BLACK"
        and rest: "path_ok n (g # rest)"
        using less.prems(1) unfolding Cons by (cases p; cases path') (auto simp: up_height_def)
      have ok: "path_ok n (p # g # rest)"
        using less.prems(1) by (simp add: Cons path')
      note black = fill_black_ok [OF red ok node(1,2)]
      show ?thesis
      proof (cases g)
        case (RB_LEFT gc ge uncle)
        then have gc: "gc = RB_BLACK" using g by simp
        have uncle: "invc uncle" "invh n uncle" "path_ok (Suc n) rest"
          using rest RB_LEFT gc by (simp_all add: up_height_def)
        show ?thesis
        proof (cases "rb_is_red uncle")
          case True
          let ?node' = "RB_NODE RB_RED (fill (frame_set_color RB_BLACK p) node) ge (rb_set_color RB_BLACK uncle)"
          have "\<exists>t. rb_insert_color ?node' rest = Some t \<and> rb_ok t \<and> inorder t = inorder (plug ?node' rest)"
            using less.hyps [of rest "Suc n" ?node'] uncle black set_black_red_ok [OF True uncle(1,2)]
            by (simp add: Cons path')
          then show ?thesis
            using True red by (simp add: Cons path' RB_LEFT inorder_plug)
        next
          case False
          obtain node' e r where outer: "outer_child_left node p = Some (node', RB_LEFT RB_RED e r)"
            "invc node'" "invh n node'" "rb_is_red node'" "invc r" "invh n r" "\<not> rb_is_red r"
            "inorder (fill p node) = inorder node' @ e # inorder r"
            by (rule outer_child_left_ok [OF node red ok])
          have "path_ok n (RB_LEFT RB_BLACK e (RB_NODE RB_RED r ge uncle) # rest)"
            using outer uncle False by (simp add: up_height_def)
          from rb_insert_color_black_parent [OF _ this outer(2,3)] show ?thesis
            using False red outer(1,8) by (auto simp: Cons path' RB_LEFT inorder_plug)
        qed
      next
        case (RB_RIGHT gc uncle ge)
        then have gc: "gc = RB_BLACK" using g by simp
        have uncle: "invc uncle" "invh n uncle" "path_ok (Suc n) rest"
          using rest RB_RIGHT gc by (simp_all add: up_height_def)
        show ?thesis
        proof (cases "rb_is_red uncle")
          case True
          let ?node' = "RB_NODE RB_RED (rb_set_color RB_BLACK uncle) ge (fill (frame_set_color RB_BLACK p) node)"
          have "\<exists>t. rb_insert_color ?node' rest = Some t \<and> rb_ok t \<and> inorder t = inorder (plug ?node' rest)"
            using less.hyps [of rest "Suc n" ?node'] uncle black set_black_red_ok [OF True uncle(1,2)]
            by (simp add: Cons path')
          then show ?thesis
            using True red by (simp add: Cons path' RB_RIGHT inorder_plug)
        next
          case False
          obtain node' l e where outer: "outer_child_right node p = Some (node', RB_RIGHT RB_RED l e)"
            "invc node'" "invh n node'" "rb_is_red node'" "invc l" "invh n l" "\<not> rb_is_red l"
            "inorder (fill p node) = inorder l @ e # inorder node'"
            by (rule outer_child_right_ok [OF node red ok])
          have "path_ok n (RB_RIGHT RB_BLACK (RB_NODE RB_RED uncle ge l) e # rest)"
            using outer uncle False by (simp add: up_height_def)
          from rb_insert_color_black_parent [OF _ this outer(2,3)] show ?thesis
            using False red outer(1,8) by (auto simp: Cons path' RB_RIGHT inorder_plug)
        qed
      qed
    qed
  qed
qed

section \<open>Removal restores the invariants\<close>

text \<open>
  In the loop the node may be red with a red child (its colour is set black at the end), and its
  subtree is one black node short.
\<close>

definition short :: "nat \<Rightarrow> rb_tree \<Rightarrow> rb_path \<Rightarrow> bool" where
  "short n node path \<longleftrightarrow> path_ok (Suc n) path \<and> invc (rb_set_color RB_BLACK node) \<and> invh n node"

definition step_ok :: "erase_result option \<Rightarrow> rb_entry list \<Rightarrow> bool" where
  "step_ok r es \<longleftrightarrow>
     (\<exists>t. r = Some (Erase_done t) \<and> rb_ok t \<and> inorder t = es) \<or>
     (\<exists>node path m. r = Some (Erase_up node path) \<and> short m node path \<and> inorder (plug node path) = es)"

lemma red_node: "rb_is_red t \<Longrightarrow> \<exists>l e r. t = RB_NODE RB_RED l e r"
  by (cases t) auto

lemma set_black_ok':
  "invc (rb_set_color RB_BLACK t) \<Longrightarrow> invh n t \<Longrightarrow> rb_ok (rb_set_color RB_BLACK t)"
  by (cases t) (auto simp: rb_ok_def split: if_splits intro: exI [of _ "Suc n"])

lemma red_sibling_left_ok:
  assumes "path_ok (Suc n) (RB_LEFT pc pe other # path)"
  obtains pc' other' path' where
    "red_sibling_left node pc pe other path = Some (pc', other', path')"
    and "path_ok (Suc n) (RB_LEFT pc' pe other' # path')" and "\<not> rb_is_red other'"
    and "inorder (plug node (RB_LEFT pc' pe other' # path')) =
      inorder (plug node (RB_LEFT pc pe other # path))"
proof (cases "rb_is_red other")
  case False
  then show ?thesis
    using that [of pc other path] assms by (simp add: red_sibling_left_def)
next
  case True
  then obtain ol oe o_r where "other = RB_NODE RB_RED ol oe o_r"
    using red_node by blast
  then show ?thesis
    using that [of RB_RED ol "RB_LEFT RB_BLACK oe o_r # path"] assms
    by (auto simp: red_sibling_left_def up_height_def inorder_plug)
qed

lemma red_sibling_right_ok:
  assumes "path_ok (Suc n) (RB_RIGHT pc other pe # path)"
  obtains pc' other' path' where
    "red_sibling_right node pc pe other path = Some (pc', other', path')"
    and "path_ok (Suc n) (RB_RIGHT pc' other' pe # path')" and "\<not> rb_is_red other'"
    and "inorder (plug node (RB_RIGHT pc' other' pe # path')) =
      inorder (plug node (RB_RIGHT pc other pe # path))"
proof (cases "rb_is_red other")
  case False
  then show ?thesis
    using that [of pc other path] assms by (simp add: red_sibling_right_def)
next
  case True
  then obtain ol oe o_r where "other = RB_NODE RB_RED ol oe o_r"
    using red_node by blast
  then show ?thesis
    using that [of RB_RED o_r "RB_RIGHT RB_BLACK ol oe # path"] assms
    by (auto simp: red_sibling_right_def up_height_def inorder_plug)
qed

lemma erase_done_ok:
  assumes "path_ok n path" and "invc t" and "invh n t" and "rb_is_red t \<Longrightarrow> path \<noteq> [] \<and> \<not> red_above path"
  shows "rb_ok (rb_set_color RB_BLACK (plug t path))"
  using plug_ok [OF assms] by (auto simp: set_black_same rb_ok_def)

lemma black_sibling_left_ok:
  assumes path: "path_ok (Suc n) (RB_LEFT pc pe other # path)" and other: "\<not> rb_is_red other"
    and node: "invc node" "invh n node" "\<not> rb_is_red node"
  shows "step_ok (black_sibling_left node pc pe other path)
    (inorder (plug node (RB_LEFT pc pe other # path)))"
proof -
  obtain ol oe o_r where o: "other = RB_NODE RB_BLACK ol oe o_r"
    using path other by (cases other) auto
  have ok: "invc ol" "invc o_r" "invh n ol" "invh n o_r" "path_ok (up_height pc (Suc n)) path"
    "pc = RB_RED \<Longrightarrow> path \<noteq> [] \<and> \<not> red_above path"
    using path by (auto simp: o)
  consider (up) "\<not> rb_is_red ol" "\<not> rb_is_red o_r"
    | (far) l e r where "o_r = RB_NODE RB_RED l e r"
    | (near) l e r where "ol = RB_NODE RB_RED l e r" "\<not> rb_is_red o_r"
    using red_node by blast
  then show ?thesis
  proof cases
    case up
    let ?node = "RB_NODE pc node pe (RB_NODE RB_RED ol oe o_r)"
    have "short (up_height pc n) ?node path"
      using ok node up by (cases pc) (auto simp: short_def up_height_def)
    then show ?thesis
      using up by (auto simp: o step_ok_def inorder_plug)
  next
    case far
    let ?t = "RB_NODE pc (RB_NODE RB_BLACK node pe ol) oe (RB_NODE RB_BLACK l e r)"
    have "rb_ok (rb_set_color RB_BLACK (plug ?t path))"
      by (rule erase_done_ok [OF ok(5)]) (use ok node far in \<open>cases pc; auto simp: up_height_def\<close>)+
    then show ?thesis
      using far by (simp add: o step_ok_def inorder_plug)
  next
    case near
    let ?t = "RB_NODE pc (RB_NODE RB_BLACK node pe l) e (RB_NODE RB_BLACK r oe o_r)"
    have "rb_ok (rb_set_color RB_BLACK (plug ?t path))"
      by (rule erase_done_ok [OF ok(5)]) (use ok node near in \<open>cases pc; auto simp: up_height_def\<close>)+
    then show ?thesis
      using near by (simp add: o step_ok_def inorder_plug)
  qed
qed

lemma black_sibling_right_ok:
  assumes path: "path_ok (Suc n) (RB_RIGHT pc other pe # path)" and other: "\<not> rb_is_red other"
    and node: "invc node" "invh n node" "\<not> rb_is_red node"
  shows "step_ok (black_sibling_right node pc pe other path)
    (inorder (plug node (RB_RIGHT pc other pe # path)))"
proof -
  obtain ol oe o_r where o: "other = RB_NODE RB_BLACK ol oe o_r"
    using path other by (cases other) auto
  have ok: "invc ol" "invc o_r" "invh n ol" "invh n o_r" "path_ok (up_height pc (Suc n)) path"
    "pc = RB_RED \<Longrightarrow> path \<noteq> [] \<and> \<not> red_above path"
    using path by (auto simp: o)
  consider (up) "\<not> rb_is_red ol" "\<not> rb_is_red o_r"
    | (far) l e r where "ol = RB_NODE RB_RED l e r"
    | (near) l e r where "o_r = RB_NODE RB_RED l e r" "\<not> rb_is_red ol"
    using red_node by blast
  then show ?thesis
  proof cases
    case up
    let ?node = "RB_NODE pc (RB_NODE RB_RED ol oe o_r) pe node"
    have "short (up_height pc n) ?node path"
      using ok node up by (cases pc) (auto simp: short_def up_height_def)
    then show ?thesis
      using up by (auto simp: o step_ok_def inorder_plug)
  next
    case far
    let ?t = "RB_NODE pc (RB_NODE RB_BLACK l e r) oe (RB_NODE RB_BLACK o_r pe node)"
    have "rb_ok (rb_set_color RB_BLACK (plug ?t path))"
      by (rule erase_done_ok [OF ok(5)]) (use ok node far in \<open>cases pc; auto simp: up_height_def\<close>)+
    then show ?thesis
      using far by (simp add: o step_ok_def inorder_plug)
  next
    case near
    let ?t = "RB_NODE pc (RB_NODE RB_BLACK ol oe l) e (RB_NODE RB_BLACK r pe node)"
    have "rb_ok (rb_set_color RB_BLACK (plug ?t path))"
      by (rule erase_done_ok [OF ok(5)]) (use ok node near in \<open>cases pc; auto simp: up_height_def\<close>)+
    then show ?thesis
      using near by (simp add: o step_ok_def inorder_plug)
  qed
qed

lemma rb_erase_step_ok:
  assumes "short n node (f # path)" and "\<not> rb_is_red node"
  shows "step_ok (rb_erase_step node f path) (inorder (plug node (f # path)))"
proof -
  have node: "invc node" "invh n node" and path: "path_ok (Suc n) (f # path)"
    using assms by (auto simp: short_def set_black_same)
  show ?thesis
  proof (cases f)
    case (RB_LEFT pc pe other)
    obtain pc' other' path' where red: "red_sibling_left node pc pe other path = Some (pc', other', path')"
      "path_ok (Suc n) (RB_LEFT pc' pe other' # path')" "\<not> rb_is_red other'"
      "inorder (plug node (RB_LEFT pc' pe other' # path')) =
        inorder (plug node (RB_LEFT pc pe other # path))"
      by (rule red_sibling_left_ok [OF path [unfolded RB_LEFT]])
    show ?thesis
      using black_sibling_left_ok [OF red(2,3) node assms(2)] red(1,4) by (simp add: RB_LEFT)
  next
    case (RB_RIGHT pc other pe)
    obtain pc' other' path' where red: "red_sibling_right node pc pe other path = Some (pc', other', path')"
      "path_ok (Suc n) (RB_RIGHT pc' other' pe # path')" "\<not> rb_is_red other'"
      "inorder (plug node (RB_RIGHT pc' other' pe # path')) =
        inorder (plug node (RB_RIGHT pc other pe # path))"
      by (rule red_sibling_right_ok [OF path [unfolded RB_RIGHT]])
    show ?thesis
      using black_sibling_right_ok [OF red(2,3) node assms(2)] red(1,4) by (simp add: RB_RIGHT)
  qed
qed

lemma rb_erase_color_ok:
  assumes "short n node path"
  shows "\<exists>t. rb_erase_color node path = Some t \<and> rb_ok t \<and> inorder t = inorder (plug node path)"
  using assms
proof (induction node path arbitrary: n rule: rb_erase_color.induct)
  case (1 node)
  then show ?case by (auto simp: short_def intro: set_black_ok')
next
  case (2 node f path)
  show ?case
  proof (cases "rb_is_red node")
    case True
    then obtain l e r where "node = RB_NODE RB_RED l e r"
      using red_node by blast
    then have "rb_ok (plug (rb_set_color RB_BLACK node) (f # path))"
      using "2.prems" by (intro plug_ok) (auto simp: short_def)
    then show ?thesis
      using True by (simp add: inorder_plug del: plug.simps)
  next
    case False
    from rb_erase_step_ok [OF "2.prems" False] show ?thesis
      unfolding step_ok_def
    proof (elim disjE exE conjE)
      fix t
      assume "rb_erase_step node f path = Some (Erase_done t)" "rb_ok t"
        "inorder t = inorder (plug node (f # path))"
      then show ?thesis using False by simp
    next
      fix node' path' m
      assume step: "rb_erase_step node f path = Some (Erase_up node' path')" and "short m node' path'"
        and "inorder (plug node' path') = inorder (plug node (f # path))"
      then show ?thesis
        using False "2.IH" [OF False step refl \<open>short m node' path'\<close>] by simp
    qed
  qed
qed

lemma path_append [simp]:
  "path_left (path @ path') = path_left path' @ path_left path"
  "path_right (path @ path') = path_right path @ path_right path'"
proof -
  show "path_left (path @ path') = path_left path' @ path_left path"
    by (induction path rule: path_left.induct) simp_all
  show "path_right (path @ path') = path_right path @ path_right path'"
    by (induction path rule: path_right.induct) simp_all
qed

lemma leftmost_ok:
  assumes "t \<noteq> RB_NULL" and "path_left path = []"
  shows "\<exists>c e child path'. leftmost t path = Some (c, e, child, path') \<and>
    plug (RB_NODE c RB_NULL e child) path' = plug t path \<and> path_left path' = []"
  using assms
proof (induction t path rule: leftmost.induct)
  case (1 path)
  then show ?case by simp
next
  case (2 c l e r path)
  then show ?case by (cases "l = RB_NULL") auto
qed

text \<open>The entry of an ancestor does not matter for the shape.\<close>

lemma path_ok_entry:
  "path_ok n (path @ RB_RIGHT c l e # rest) = path_ok n (path @ RB_RIGHT c l e' # rest)"
proof (induction path arbitrary: n)
  case Nil
  then show ?case by simp
next
  case (Cons f path)
  have "red_above (path @ RB_RIGHT c l e # rest) = red_above (path @ RB_RIGHT c l e' # rest)"
    by (cases path) simp_all
  then show ?case
    using Cons by (cases f) simp_all
qed

text \<open>Cutting out a node with at most one child.\<close>

lemma erase_single_ok:
  assumes path: "path_ok n path" and node: "invc (RB_NODE c l e r)" "invh n (RB_NODE c l e r)"
    "c = RB_RED \<Longrightarrow> path \<noteq> [] \<and> \<not> red_above path"
    and child: "l = RB_NULL \<and> child = r \<or> r = RB_NULL \<and> child = l"
  shows "\<exists>t. (if c = RB_BLACK then rb_erase_color child path else Some (plug child path)) = Some t \<and>
    rb_ok t \<and> inorder t = inorder (plug child path)"
proof (cases c)
  case RB_BLACK
  have "invc (rb_set_color RB_BLACK child)"
    using node child by (cases child) auto
  then have "short (n - 1) child path"
    using RB_BLACK path node child by (auto simp: short_def)
  then show ?thesis
    using RB_BLACK rb_erase_color_ok by simp
next
  case RB_RED
  then have "n = 0" and "invh n child" and "\<not> rb_is_red child"
    using node child by auto
  then have "child = RB_NULL"
    by (cases child) auto
  then have "rb_ok (plug child path)"
    using path \<open>invh n child\<close> by (intro plug_ok) auto
  then show ?thesis
    using RB_RED by simp
qed

lemma rb_erase_ok:
  assumes "rb_ok (plug (RB_NODE c l e r) path)"
  shows "\<exists>t. rb_erase (RB_NODE c l e r) path = Some t \<and> rb_ok t \<and>
    inorder t = path_left path @ inorder l @ inorder r @ path_right path"
proof (cases "l = RB_NULL \<or> r = RB_NULL")
  case True
  obtain n where ok: "path_ok n path" "invc (RB_NODE c l e r)" "invh n (RB_NODE c l e r)"
    "rb_is_red (RB_NODE c l e r) \<longrightarrow> path \<noteq> [] \<and> \<not> red_above path"
    by (rule unplug_ok [OF assms])
  let ?child = "if l = RB_NULL then r else l"
  have "\<exists>t. (if c = RB_BLACK then rb_erase_color ?child path else Some (plug ?child path)) = Some t \<and>
      rb_ok t \<and> inorder t = inorder (plug ?child path)"
    by (rule erase_single_ok [OF ok(1-3)]) (use ok(4) True in auto)
  then show ?thesis
    using True by (auto simp: inorder_plug split: if_splits)
next
  case False
  obtain sc se child path' where s: "leftmost r [] = Some (sc, se, child, path')"
    "plug (RB_NODE sc RB_NULL se child) path' = r" "path_left path' = []"
    using leftmost_ok [of r "[]"] False by auto
  let ?path = "path' @ RB_RIGHT c l se # path"
  have "rb_ok (plug (RB_NODE sc RB_NULL se child) (path' @ RB_RIGHT c l e # path))"
    using assms by (simp add: plug_append s(2))
  then obtain n where ok: "path_ok n (path' @ RB_RIGHT c l e # path)"
    "invc (RB_NODE sc RB_NULL se child)" "invh n (RB_NODE sc RB_NULL se child)"
    "rb_is_red (RB_NODE sc RB_NULL se child) \<longrightarrow>
      path' @ RB_RIGHT c l e # path \<noteq> [] \<and> \<not> red_above (path' @ RB_RIGHT c l e # path)"
    by (rule unplug_ok)
  have "\<exists>t. (if sc = RB_BLACK then rb_erase_color child ?path else Some (plug child ?path)) = Some t \<and>
      rb_ok t \<and> inorder t = inorder (plug child ?path)"
  proof (rule erase_single_ok [OF _ ok(2,3)])
    show "path_ok n ?path"
      using ok(1) path_ok_entry by blast
    show "?path \<noteq> [] \<and> \<not> red_above ?path" if "sc = RB_RED"
      using ok(4) that by (cases path') auto
  qed simp
  moreover have "inorder r = se # inorder child @ path_right path'"
    using s(2,3) inorder_plug [of "RB_NODE sc RB_NULL se child" path'] by simp
  ultimately show ?thesis
    using False s(1,3) by (simp add: inorder_plug Let_def)
qed

end
