(* ===== verification/Hi_rbtree.thy ===== *)
theory Hi_rbtree
  imports Hi_engine Rbtree
begin

text \<open>
  The tree engine (\<open>lib/hi_rbtree.c\<close>): one red-black tree per table slot. A search goes right where
  the key compares less, so a tree lists its keys in descending order. The rwlocks of the
  THREADSAFE build are in the theory \<open>Hi_locking\<close>.
\<close>

section \<open>Operations\<close>

text \<open>
  \<open>while (*rbnode)\<close>: the node with the key, or the null link where the search ends, with its path.
\<close>

fun rb_search :: "hi_handle \<Rightarrow> key \<Rightarrow> rb_tree \<Rightarrow> rb_path \<Rightarrow> (rb_tree \<times> rb_path) option" where
  "rb_search h key RB_NULL path = Some (RB_NULL, path)"
| "rb_search h key (RB_NODE c l e r) path = do {
     cmp \<leftarrow> fp_call (key_cmp h);
     diff \<leftarrow> cmp key (rb_key e);
     if diff = 0 then Some (RB_NODE c l e r, path)
     else if diff < 0 then rb_search h key r (RB_RIGHT c l e # path)
     else rb_search h key l (RB_LEFT c e r # path)
   }"

definition lhi_get_rbtree :: "hi_handle \<Rightarrow> key \<Rightarrow> (int \<times> ptr option \<times> hi_handle) option" where
  "lhi_get_rbtree h key = do {
     tree \<leftarrow> hash_bucket h key;
     root \<leftarrow> rd (trees h) tree;
     (node, path) \<leftarrow> rb_search h key root [];
     (case node of
        RB_NODE c l lhi_entry r \<Rightarrow> Some (SUCCESS, Some (rb_data lhi_entry), h)
      | RB_NULL \<Rightarrow> Some (HI_ERR_NOKEY, None, h))
   }"

definition lhi_remove_rbtree ::
  "heap \<Rightarrow> hi_handle \<Rightarrow> key \<Rightarrow> (int \<times> ptr option \<times> heap \<times> hi_handle) option" where
  "lhi_remove_rbtree hp h key = do {
     tree \<leftarrow> hash_bucket h key;
     root \<leftarrow> rd (trees h) tree;
     (node, path) \<leftarrow> rb_search h key root [];
     (case node of
        RB_NODE c l lhi_entry r \<Rightarrow> do {
          root' \<leftarrow> rb_erase node path;
          n \<leftarrow> rd (bucket_size h) tree;
          Some (SUCCESS, Some (rb_data lhi_entry), free (free hp),
            h\<lparr>trees := (trees h)[tree := root'],
              bucket_size := (bucket_size h)[tree := n - 1],
              no_objects := no_objects h - 1\<rparr>)
        }
      | RB_NULL \<Rightarrow> Some (HI_ERR_NOKEY, None, hp, h))
   }"

definition lhi_rb_entry_new :: "heap \<Rightarrow> key \<Rightarrow> ptr \<Rightarrow> rb_entry option \<times> heap" where
  "lhi_rb_entry_new hp k d =
     (case malloc hp of
        (None, hp) \<Rightarrow> (None, hp)
      | (Some _, hp) \<Rightarrow> (case malloc hp of
          (None, hp) \<Rightarrow> (None, free hp)
        | (Some _, hp) \<Rightarrow>
            (Some \<lparr>rb_keylen = word_of_nat (length k), rb_key = k, rb_data = d\<rparr>, hp)))"

text \<open>\<open>rb_link_node\<close>: a fresh node is red and has no children.\<close>

definition lhi_insert_rbtree ::
  "heap \<Rightarrow> hi_handle \<Rightarrow> key \<Rightarrow> ptr \<Rightarrow> (int \<times> heap \<times> hi_handle) option" where
  "lhi_insert_rbtree hp h key data = do {
     tree \<leftarrow> hash_bucket h key;
     root \<leftarrow> rd (trees h) tree;
     (node, path) \<leftarrow> rb_search h key root [];
     if node \<noteq> RB_NULL then Some (HI_ERR_DUPKEY, hp, h)
     else (case lhi_rb_entry_new hp key data of
         (None, hp) \<Rightarrow> Some (HI_ERR_SYSTEM, hp, h)
       | (Some node_new, hp) \<Rightarrow> do {
           root' \<leftarrow> rb_insert_color (RB_NODE RB_RED RB_NULL node_new RB_NULL) path;
           n \<leftarrow> rd (bucket_size h) tree;
           Some (SUCCESS, hp,
             h\<lparr>trees := (trees h)[tree := root'],
               bucket_size := (bucket_size h)[tree := n + 1],
               no_objects := no_objects h + 1\<rparr>)
         })
   }"

text \<open>
  The table size is zeroed and the array of trees freed; the nodes and the keys are not.
\<close>

definition lhi_fini_rbtree :: "heap \<Rightarrow> hi_handle \<Rightarrow> (int \<times> heap \<times> hi_handle) option" where
  "lhi_fini_rbtree hp h = Some (SUCCESS, free hp, h\<lparr>table_size := 0, trees := []\<rparr>)"

text \<open>
  \<open>hi_rbtree_traverse\<close>: the node takes the position it is visited at, its subtrees follow; the
  next free position and the arrays are returned.
\<close>

fun hi_rbtree_traverse ::
  "rb_tree \<Rightarrow> nat \<Rightarrow> lhi_bucket_array \<Rightarrow> (nat \<times> lhi_bucket_array) option" where
  "hi_rbtree_traverse RB_NULL pos a = Some (pos, a)"
| "hi_rbtree_traverse (RB_NODE c left lhi_entry right) p a = do {
     (pos, a) \<leftarrow> hi_rbtree_traverse left (p + 1) a;
     (pos, a) \<leftarrow> hi_rbtree_traverse right pos a;
     a \<leftarrow> (if p < unat (nmemb a)
            then ba_write a p p (rb_data lhi_entry) (rb_key lhi_entry) (rb_keylen lhi_entry)
            else Some a);
     Some (pos, a)
   }"

definition lhi_rbtree_bucket_to_array ::
  "heap \<Rightarrow> hi_handle \<Rightarrow> nat \<Rightarrow> lhi_bucket_array \<Rightarrow> (int \<times> heap \<times> lhi_bucket_array) option" where
  "lhi_rbtree_bucket_to_array hp h tree a =
     (if unat (table_size h) < tree then Some (HI_ERR_RANGE, hp, a)
      else do {
        rbnode \<leftarrow> rd (trees h) tree;
        if rbnode = RB_NULL then Some (HI_ERR_NODATA, hp, a)
        else do {
          max \<leftarrow> rd (bucket_size h) tree;
          if max = 0 then Some (HI_ERR_NODATA, hp, a)
          else do {
            (ret, hp, a) \<leftarrow> lhi_bucket_array_alloc hp a (ucast max);
            if ret \<noteq> 0 then Some (ret, hp, a)
            else do {
              (_, a) \<leftarrow> hi_rbtree_traverse rbnode 0 a;
              Some (0, hp, a)
            }
          }
        }
      })"

section \<open>Trees as entries\<close>

definition rb_pair :: "rb_entry \<Rightarrow> key \<times> ptr" where
  "rb_pair e = (rb_key e, rb_data e)"

definition tree_entries :: "rb_tree \<Rightarrow> entries" where
  "tree_entries t = map rb_pair (inorder t)"

definition rbtree_table :: "hi_handle \<Rightarrow> entries list" where
  "rbtree_table h = map tree_entries (trees h)"

definition cmp_gt :: "cmp_fn \<Rightarrow> key \<Rightarrow> key \<Rightarrow> bool" where
  "cmp_gt cmp a b \<longleftrightarrow> (case cmp a b of Some d \<Rightarrow> 0 < d | None \<Rightarrow> False)"

definition rbtree_inv :: "(key \<Rightarrow> bool) \<Rightarrow> cmp_fn \<Rightarrow> hi_handle \<Rightarrow> bool" where
  "rbtree_inv V cmp h \<longleftrightarrow>
     handle_ok V cmp h (rbtree_table h) \<and> coll_eng h = COLL_ENG_RBTREE \<and>
     length (bucket_size h) = length (trees h) \<and>
     (\<forall>i < length (trees h). unat (bucket_size h ! i) = length (inorder (trees h ! i))) \<and>
     (\<forall>t \<in> set (trees h). rb_ok t \<and>
        sorted_wrt (\<lambda>a b. cmp_gt cmp (rb_key a) (rb_key b)) (inorder t) \<and>
        (\<forall>e \<in> set (inorder t). rb_keylen e = word_of_nat (length (rb_key e))))"

text \<open>The arrays of the iterator while some of their elements are written.\<close>

definition ba_part :: "(key \<times> ptr) option list \<Rightarrow> lhi_bucket_array" where
  "ba_part ps = \<lparr>ba_data = Some (map (map_option snd) ps), ba_keys = Some (map (map_option fst) ps),
     ba_keys_length = Some (map (map_option (word_of_nat \<circ> length \<circ> fst)) ps),
     nmemb = word_of_nat (length ps)\<rparr>"

lemma ba_part_of: "ba_part (map Some es) = ba_of es" "ba_filled [] n = ba_part (replicate n None)"
  by (simp_all add: ba_part_def ba_of_def ba_filled_def comp_def)

lemma nmemb_ba_part: "length ps < 2 ^ 32 \<Longrightarrow> unat (nmemb (ba_part ps)) = length ps"
  by (simp add: ba_part_def unat_of_nat take_bit_nat_eq_self)

lemma ba_part_write:
  "i < length ps \<Longrightarrow>
     ba_write (ba_part ps) i i d k (word_of_nat (length k)) = Some (ba_part (ps[i := Some (k, d)]))"
  by (simp add: ba_write_def arr_write_def ba_part_def map_update)

fun preorder :: "rb_tree \<Rightarrow> entries" where
  "preorder RB_NULL = []"
| "preorder (RB_NODE c l e r) = rb_pair e # preorder l @ preorder r"

lemma mset_preorder: "mset (preorder t) = mset (tree_entries t)"
  by (induction t) (simp_all add: tree_entries_def)

lemma traverse_preorder:
  assumes "\<forall>e \<in> set (inorder t). rb_keylen e = word_of_nat (length (rb_key e))"
    and "length ns = length (inorder t)" and "length (xs @ ns @ ys) < 2 ^ 32"
  shows "hi_rbtree_traverse t (length xs) (ba_part (xs @ ns @ ys)) =
    Some (length xs + length ns, ba_part (xs @ map Some (preorder t) @ ys))"
  using assms
proof (induction t arbitrary: xs ns ys)
  case RB_NULL
  then show ?case by simp
next
  case (RB_NODE c l e r)
  obtain n ns' where ns: "ns = n # ns'"
    using RB_NODE.prems(2) by (cases ns) auto
  define ls rs where "ls = take (length (inorder l)) ns'" and "rs = drop (length (inorder l)) ns'"
  have split: "ns = n # ls @ rs"
    by (simp add: ns ls_def rs_def)
  have len: "length ls = length (inorder l)" "length rs = length (inorder r)"
    using RB_NODE.prems(2) by (simp_all add: ns ls_def rs_def)
  have len': "length (preorder l) = length ls"
    using len mset_preorder [of l] by (metis length_map size_mset tree_entries_def)
  have left: "hi_rbtree_traverse l (Suc (length xs)) (ba_part (xs @ ns @ ys)) =
      Some (Suc (length xs) + length ls, ba_part (xs @ n # map Some (preorder l) @ rs @ ys))"
    using RB_NODE.IH(1) [of ls "xs @ [n]" "rs @ ys"] RB_NODE.prems len by (simp add: split)
  have right: "hi_rbtree_traverse r (Suc (length xs) + length ls)
      (ba_part (xs @ n # map Some (preorder l) @ rs @ ys)) =
      Some (Suc (length xs) + length ls + length rs,
        ba_part (xs @ n # map Some (preorder l) @ map Some (preorder r) @ ys))"
    using RB_NODE.IH(2) [of rs "xs @ n # map Some (preorder l)" ys] RB_NODE.prems len len'
    by (simp add: split)
  let ?ps = "xs @ n # map Some (preorder l) @ map Some (preorder r) @ ys"
  have "length (preorder r) = length rs"
    using len mset_preorder [of r] by (metis length_map size_mset tree_entries_def)
  then have "length ?ps = length (xs @ ns @ ys)"
    using len' by (simp add: split)
  then have nmemb: "unat (nmemb (ba_part ?ps)) = length ?ps"
    using RB_NODE.prems(3) nmemb_ba_part by metis
  have "ba_write (ba_part ?ps) (length xs) (length xs) (rb_data e) (rb_key e) (rb_keylen e) =
      Some (ba_part (?ps[length xs := Some (rb_pair e)]))"
    using RB_NODE.prems(1) ba_part_write [of "length xs" ?ps "rb_data e" "rb_key e"]
    by (simp add: rb_pair_def)
  then show ?case
    using left right nmemb unfolding split by simp
qed

context key_order
begin

lemma gt_trans: "V a \<Longrightarrow> V b \<Longrightarrow> V c \<Longrightarrow> cmp_gt cmp a b \<Longrightarrow> cmp_gt cmp b c \<Longrightarrow> cmp_gt cmp a c"
proof -
  assume V: "V a" "V b" "V c" and "cmp_gt cmp a b" "cmp_gt cmp b c"
  then obtain d e where "cmp a b = Some d" "0 < d" "cmp b c = Some e" "0 < e"
    by (auto simp: cmp_gt_def split: option.splits)
  then obtain d' e' where "cmp b a = Some d'" "d' < 0" "cmp c b = Some e'" "e' < 0"
    using cmp_flip' V by blast
  then obtain f where "cmp c a = Some f" "f < 0"
    using cmp_trans V by blast
  then show "cmp_gt cmp a c"
    using cmp_flip V by (fastforce simp: cmp_gt_def)
qed

lemma gt_neg: "V a \<Longrightarrow> V b \<Longrightarrow> cmp a b = Some d \<Longrightarrow> d < 0 \<Longrightarrow> cmp_gt cmp b a"
  using cmp_flip by (fastforce simp: cmp_gt_def)

lemma gt_pos: "cmp a b = Some d \<Longrightarrow> 0 < d \<Longrightarrow> cmp_gt cmp a b"
  by (simp add: cmp_gt_def)

lemma rb_search_spec:
  assumes cmp: "fp_call (key_cmp h) = Some cmp" and "V k"
    and "\<forall>e \<in> set (inorder t). V (rb_key e)"
    and "sorted_wrt (\<lambda>a b. cmp_gt cmp (rb_key a) (rb_key b)) (inorder t)"
    and "\<forall>e \<in> set (path_left path). cmp_gt cmp (rb_key e) k"
    and "\<forall>e \<in> set (path_right path). cmp_gt cmp k (rb_key e)"
  shows "\<exists>t' path'. rb_search h k t path = Some (t', path') \<and> plug t' path' = plug t path \<and>
    (case t' of RB_NODE c l e r \<Rightarrow> rb_key e = k
     | RB_NULL \<Rightarrow> (\<forall>e \<in> set (path_left path'). cmp_gt cmp (rb_key e) k) \<and>
         (\<forall>e \<in> set (path_right path'). cmp_gt cmp k (rb_key e)))"
  using assms(3-6)
proof (induction t arbitrary: path)
  case RB_NULL
  then show ?case by simp
next
  case (RB_NODE c l e r)
  then have e: "V (rb_key e)" by simp
  from \<open>V k\<close> e show ?case
  proof (cases rule: cmp_cases)
    case eq
    then show ?thesis by (simp add: cmp)
  next
    case (neq d)
    show ?thesis
    proof (cases "d < 0")
      case True
      note gt = gt_neg [OF \<open>V k\<close> e neq(2) True]
      have "\<forall>x \<in> set (inorder l). cmp_gt cmp (rb_key x) k"
      proof
        fix x
        assume "x \<in> set (inorder l)"
        then have "V (rb_key x)" "cmp_gt cmp (rb_key x) (rb_key e)"
          using RB_NODE.prems(1,2) by (simp_all add: sorted_wrt_append)
        then show "cmp_gt cmp (rb_key x) k"
          using gt_trans e \<open>V k\<close> gt by blast
      qed
      then have "\<forall>x \<in> set (path_left (RB_RIGHT c l e # path)). cmp_gt cmp (rb_key x) k"
        using RB_NODE.prems(3) gt by auto
      then show ?thesis
        using RB_NODE.IH(2) [of "RB_RIGHT c l e # path"] RB_NODE.prems(1,2,4) neq(2,3) True
        by (simp add: cmp sorted_wrt_append)
    next
      case False
      then have gt: "cmp_gt cmp k (rb_key e)"
        using neq by (intro gt_pos) auto
      have "\<forall>x \<in> set (inorder r). cmp_gt cmp k (rb_key x)"
      proof
        fix x
        assume "x \<in> set (inorder r)"
        then have "V (rb_key x)" "cmp_gt cmp (rb_key e) (rb_key x)"
          using RB_NODE.prems(1,2) by (simp_all add: sorted_wrt_append)
        then show "cmp_gt cmp k (rb_key x)"
          using gt_trans e \<open>V k\<close> gt by blast
      qed
      then have "\<forall>x \<in> set (path_right (RB_LEFT c e r # path)). cmp_gt cmp k (rb_key x)"
        using RB_NODE.prems(4) gt by auto
      then show ?thesis
        using RB_NODE.IH(1) [of "RB_LEFT c e r # path"] RB_NODE.prems(1-3) neq(2,3) False
        by (simp add: cmp sorted_wrt_append)
    qed
  qed
qed

lemma rbtree_inv_bucket:
  fixes k :: key
  assumes inv: "rbtree_inv V cmp h"
  defines "i \<equiv> slot_of h k"
  shows "hash_bucket h k = Some i" and "i < length (trees h)"
    and "rd (trees h) i = Some (trees h ! i)" and "rd (bucket_size h) i = Some (bucket_size h ! i)"
    and "\<forall>e \<in> set (inorder (trees h ! i)). V (rb_key e)"
    and "distinct (map fst (tree_entries (trees h ! i)))"
    and "map_of_table (rbtree_table h) k = map_of (tree_entries (trees h ! i)) k"
    and "rb_ok (trees h ! i)"
    and "sorted_wrt (\<lambda>a b. cmp_gt cmp (rb_key a) (rb_key b)) (inorder (trees h ! i))"
    and "unat (bucket_size h ! i) = length (inorder (trees h ! i))"
    and "\<forall>e \<in> set (inorder (trees h ! i)). rb_keylen e = word_of_nat (length (rb_key e))"
proof -
  have ok: "handle_ok V cmp h (rbtree_table h)"
    and len: "length (bucket_size h) = length (trees h)"
    using inv by (auto simp: rbtree_inv_def)
  note slot = handle_ok_slot(1,2) [OF ok, of k, folded i_def]
  show "hash_bucket h k = Some i"
    by (rule slot)
  show i: "i < length (trees h)"
    using slot(2) by (simp add: rbtree_table_def)
  then show "rd (trees h) i = Some (trees h ! i)" "rd (bucket_size h) i = Some (bucket_size h ! i)"
    using len by (simp_all add: rd_Some)
  have "placed V (slot_of h) (rbtree_table h)"
    using ok by (simp add: handle_ok_def)
  from placedD [OF this, of i] show
    "\<forall>e \<in> set (inorder (trees h ! i)). V (rb_key e)"
    "distinct (map fst (tree_entries (trees h ! i)))"
    using i by (auto simp: rbtree_table_def tree_entries_def rb_pair_def)
  show "map_of_table (rbtree_table h) k = map_of (tree_entries (trees h ! i)) k"
    using handle_ok_get [OF ok, of k] i by (simp add: rbtree_table_def i_def)
  show "rb_ok (trees h ! i)"
    "sorted_wrt (\<lambda>a b. cmp_gt cmp (rb_key a) (rb_key b)) (inorder (trees h ! i))"
    "unat (bucket_size h ! i) = length (inorder (trees h ! i))"
    "\<forall>e \<in> set (inorder (trees h ! i)). rb_keylen e = word_of_nat (length (rb_key e))"
    using inv i by (auto simp: rbtree_inv_def)
qed

lemma rbtree_inv_update:
  assumes inv: "rbtree_inv V cmp h" and "V k"
    and t: "distinct (map fst (tree_entries t))"
      "map_of (tree_entries t) = (map_of (tree_entries (trees h ! slot_of h k)))(k := r)"
      "rb_ok t" "sorted_wrt (\<lambda>a b. cmp_gt cmp (rb_key a) (rb_key b)) (inorder t)"
      "\<forall>e \<in> set (inorder t). rb_keylen e = word_of_nat (length (rb_key e))"
    and h': "same_settings h h'" "trees h' = (trees h)[slot_of h k := t]"
      "bucket_size h' = (bucket_size h)[slot_of h k := sz]" "unat sz = length (inorder t)"
      "unat (no_objects h') = entry_count (rbtree_table h')"
  shows "rbtree_inv V cmp h'"
    and "map_of_table (rbtree_table h') = (map_of_table (rbtree_table h))(k := r)"
proof -
  have ok: "handle_ok V cmp h (rbtree_table h)"
    using inv by (simp add: rbtree_inv_def)
  have i: "slot_of h k < length (trees h)"
    by (rule rbtree_inv_bucket [OF inv])
  have table: "rbtree_table h' = (rbtree_table h)[slot_of h k := tree_entries t]"
    by (simp add: rbtree_table_def h'(2) map_update)
  have old: "rbtree_table h ! slot_of h k = tree_entries (trees h ! slot_of h k)"
    using i by (simp add: rbtree_table_def)
  note update = handle_ok_update [OF ok \<open>V k\<close> t(1) t(2) [folded old] h'(1),
    folded table, OF h'(5)]
  show "map_of_table (rbtree_table h') = (map_of_table (rbtree_table h))(k := r)"
    by (rule update)
  have sizes: "\<forall>j < length (trees h'). unat (bucket_size h' ! j) = length (inorder (trees h' ! j))"
    using inv i h'(4) by (auto simp: rbtree_inv_def h' nth_list_update)
  have "\<forall>t' \<in> set (trees h'). rb_ok t' \<and>
      sorted_wrt (\<lambda>a b. cmp_gt cmp (rb_key a) (rb_key b)) (inorder t') \<and>
      (\<forall>e \<in> set (inorder t'). rb_keylen e = word_of_nat (length (rb_key e)))"
  proof
    fix t'
    assume "t' \<in> set (trees h')"
    then have "t' = t \<or> t' \<in> set (trees h)"
      using set_update_subset_insert by (fastforce simp: h'(2))
    then show "rb_ok t' \<and> sorted_wrt (\<lambda>a b. cmp_gt cmp (rb_key a) (rb_key b)) (inorder t') \<and>
        (\<forall>e \<in> set (inorder t'). rb_keylen e = word_of_nat (length (rb_key e)))"
      using inv t(3-5) by (auto simp: rbtree_inv_def)
  qed
  then show "rbtree_inv V cmp h'"
    using inv update(1) sizes h'(1-3) by (simp add: rbtree_inv_def same_settings_def)
qed

lemma rbtree_search:
  assumes inv: "rbtree_inv V cmp h" and "V k"
  obtains (found) c l e r path where
      "rb_search h k (trees h ! slot_of h k) [] = Some (RB_NODE c l e r, path)"
      "plug (RB_NODE c l e r) path = trees h ! slot_of h k" "rb_key e = k"
      "map_of_table (rbtree_table h) k = Some (rb_data e)"
    | (missing) path where
      "rb_search h k (trees h ! slot_of h k) [] = Some (RB_NULL, path)"
      "plug RB_NULL path = trees h ! slot_of h k"
      "\<forall>e \<in> set (path_left path). cmp_gt cmp (rb_key e) k"
      "\<forall>e \<in> set (path_right path). cmp_gt cmp k (rb_key e)"
      "map_of_table (rbtree_table h) k = None"
proof -
  note bucket = rbtree_inv_bucket [OF inv, of k]
  have cmp: "fp_call (key_cmp h) = Some cmp"
    using inv by (simp add: rbtree_inv_def handle_ok_def)
  obtain t' path where s: "rb_search h k (trees h ! slot_of h k) [] = Some (t', path)"
    "plug t' path = trees h ! slot_of h k"
    "case t' of RB_NODE c l e r \<Rightarrow> rb_key e = k
     | RB_NULL \<Rightarrow> (\<forall>e \<in> set (path_left path). cmp_gt cmp (rb_key e) k) \<and>
         (\<forall>e \<in> set (path_right path). cmp_gt cmp k (rb_key e))"
    using rb_search_spec [OF cmp \<open>V k\<close> bucket(5) bucket(9), of "[]"] by auto
  show ?thesis
  proof (cases t')
    case (RB_NODE c l e r)
    have "(k, rb_data e) \<in> set (tree_entries (trees h ! slot_of h k))"
      using s(3) by (auto simp: s(2) [symmetric] RB_NODE inorder_plug tree_entries_def rb_pair_def)
    then have "map_of_table (rbtree_table h) k = Some (rb_data e)"
      using bucket(6,7) by simp
    then show ?thesis
      using found s RB_NODE by simp
  next
    case RB_NULL
    have irrefl: "\<not> cmp_gt cmp k k"
      using cmp_eq [OF \<open>V k\<close> \<open>V k\<close>] by (auto simp: cmp_gt_def)
    have "inorder (trees h ! slot_of h k) = path_left path @ path_right path"
      using inorder_plug [of RB_NULL path] s(2) by (simp add: RB_NULL)
    then have "k \<notin> fst ` set (tree_entries (trees h ! slot_of h k))"
      using s(3) irrefl by (auto simp: RB_NULL tree_entries_def rb_pair_def)
    then have "map_of_table (rbtree_table h) k = None"
      by (simp add: bucket(7) map_of_eq_None_iff)
    then show ?thesis
      using missing s RB_NULL by simp
  qed
qed

lemma rbtree_get_found:
  assumes inv: "rbtree_inv V cmp h" and "V k" and found: "map_of_table (rbtree_table h) k = Some v"
  shows "\<exists>h'. lhi_get_rbtree h k = Some (SUCCESS, Some v, h') \<and> rbtree_inv V cmp h' \<and>
    same_settings h h' \<and> map_of_table (rbtree_table h') = map_of_table (rbtree_table h) \<and>
    no_objects h' = no_objects h"
  using rbtree_inv_bucket(1,3) [OF inv, of k] inv found
  by (cases rule: rbtree_search [OF inv \<open>V k\<close>]) (auto simp: lhi_get_rbtree_def)

lemma rbtree_get_missing:
  assumes inv: "rbtree_inv V cmp h" and "V k" and missing: "map_of_table (rbtree_table h) k = None"
  shows "lhi_get_rbtree h k = Some (HI_ERR_NOKEY, None, h)"
  using rbtree_inv_bucket(1,3) [OF inv, of k] inv missing
  by (cases rule: rbtree_search [OF inv \<open>V k\<close>]) (auto simp: lhi_get_rbtree_def)

lemma rbtree_remove_missing:
  assumes inv: "rbtree_inv V cmp h" and "V k" and missing: "map_of_table (rbtree_table h) k = None"
  shows "lhi_remove_rbtree hp h k = Some (HI_ERR_NOKEY, None, hp, h)"
  using rbtree_inv_bucket(1,3) [OF inv, of k] inv missing
  by (cases rule: rbtree_search [OF inv \<open>V k\<close>]) (auto simp: lhi_remove_rbtree_def)

lemma rbtree_insert_dup:
  assumes inv: "rbtree_inv V cmp h" and "V k" and found: "map_of_table (rbtree_table h) k = Some v"
  shows "lhi_insert_rbtree hp h k d = Some (HI_ERR_DUPKEY, hp, h)"
  using rbtree_inv_bucket(1,3) [OF inv, of k] inv found
  by (cases rule: rbtree_search [OF inv \<open>V k\<close>]) (auto simp: lhi_insert_rbtree_def)

lemma rbtree_insert_new:
  assumes inv: "rbtree_inv V cmp h" and "V k"
    and new: "lhi_rb_entry_new hp k v = (Some e, hp2)"
    and e_def: "e = \<lparr>rb_keylen = word_of_nat (length k), rb_key = k, rb_data = v\<rparr>"
    and missing: "map_of_table (rbtree_table h) k = None"
    and room: "unat (no_objects h) < max_objects"
  shows "\<exists>h'. lhi_insert_rbtree hp h k v = Some (SUCCESS, hp2, h') \<and>
    rbtree_inv V cmp h' \<and> same_settings h h' \<and>
    map_of_table (rbtree_table h') = (map_of_table (rbtree_table h))(k \<mapsto> v) \<and>
    no_objects h' = no_objects h + 1"
proof -
  let ?i = "slot_of h k" let ?t = "trees h ! slot_of h k"
  note bucket = rbtree_inv_bucket [OF inv, of k]
  obtain path where search: "rb_search h k ?t [] = Some (RB_NULL, path)" "plug RB_NULL path = ?t"
    "\<forall>e \<in> set (path_left path). cmp_gt cmp (rb_key e) k"
    "\<forall>e \<in> set (path_right path). cmp_gt cmp k (rb_key e)"
    using missing by (cases rule: rbtree_search [OF inv \<open>V k\<close>]) auto
  obtain n where "path_ok n path" "invh n RB_NULL"
    by (rule unplug_ok [of RB_NULL path]) (use bucket(8) search(2) in auto)
  then obtain t where t: "rb_insert_color (RB_NODE RB_RED RB_NULL e RB_NULL) path = Some t" "rb_ok t"
    "inorder t = path_left path @ e # path_right path"
    using rb_insert_color_ok [of n path "RB_NODE RB_RED RB_NULL e RB_NULL"]
    by (auto simp: inorder_plug)
  have old: "inorder ?t = path_left path @ path_right path"
    using inorder_plug [of RB_NULL path] search(2) by simp
  define h' where "h' = h\<lparr>trees := (trees h)[?i := t],
    bucket_size := (bucket_size h)[?i := bucket_size h ! ?i + 1], no_objects := no_objects h + 1\<rparr>"
  have eq: "lhi_insert_rbtree hp h k v = Some (SUCCESS, hp2, h')"
    using bucket(1,3,4) search(1) new t(1) by (simp add: lhi_insert_rbtree_def h'_def)
  have total: "unat (no_objects h) = entry_count (rbtree_table h)"
    using inv by (simp add: rbtree_inv_def handle_ok_def)
  have "length (inorder ?t) \<le> entry_count (rbtree_table h)"
    using entry_count_ge [of ?i "rbtree_table h"] bucket(2)
    by (simp add: rbtree_table_def tree_entries_def)
  then have sz: "unat (bucket_size h ! ?i + 1) = length (inorder t)"
    using room total bucket(10) by (simp add: max_objects_def unat_plus_one_u32 t(3) old)
  have grow: "entry_count (rbtree_table h') = entry_count (rbtree_table h) + 1"
    using bucket(2) entry_count_update [of ?i "rbtree_table h" "tree_entries t"]
    by (simp add: h'_def rbtree_table_def map_update tree_entries_def t(3) old)
  have count: "unat (no_objects h') = entry_count (rbtree_table h')"
    unfolding grow using total room by (simp add: h'_def unat_plus_one_u32 max_objects_def)
  have fresh: "map_of (tree_entries ?t) k = None"
    using missing bucket(7) by simp
  have mset: "mset ((k, v) # tree_entries ?t) = mset (tree_entries t)"
    by (simp add: tree_entries_def t(3) old rb_pair_def e_def)
  have map: "distinct (map fst (tree_entries t))"
    "map_of (tree_entries t) = (map_of (tree_entries ?t))(k \<mapsto> v)"
    using map_of_mset [OF _ mset] map_of_insert_fresh [OF fresh bucket(6), of v] by simp_all
  have "sorted_wrt (\<lambda>a b. cmp_gt cmp (rb_key a) (rb_key b)) (inorder t)"
    using bucket(9) search(3,4) by (auto simp: t(3) old sorted_wrt_append e_def)
  moreover have "\<forall>e' \<in> set (inorder t). rb_keylen e' = word_of_nat (length (rb_key e'))"
    using bucket(11) by (auto simp: t(3) old e_def)
  moreover have same: "same_settings h h'" "trees h' = (trees h)[?i := t]"
    "bucket_size h' = (bucket_size h)[?i := bucket_size h ! ?i + 1]"
    by (simp_all add: h'_def same_settings_def)
  ultimately have "rbtree_inv V cmp h'"
    "map_of_table (rbtree_table h') = (map_of_table (rbtree_table h))(k \<mapsto> v)"
    using rbtree_inv_update [OF inv \<open>V k\<close> map t(2) _ _ same sz count] by blast+
  then show ?thesis
    using eq same(1) by (simp add: h'_def)
qed

text \<open>A node is made whole or not at all.\<close>

lemma lhi_rb_entry_new_cases:
  obtains (ok) hp' where "lhi_rb_entry_new hp k v =
      (Some \<lparr>rb_keylen = word_of_nat (length k), rb_key = k, rb_data = v\<rparr>, hp')"
    and "live hp' = live hp + 2" and "no_oom hp \<Longrightarrow> no_oom hp'"
  | (fail) hp' where "lhi_rb_entry_new hp k v = (None, hp')" and "live hp' = live hp"
    and "\<not> no_oom hp"
  by (cases "outcome hp (tick hp)"; cases "outcome hp (Suc (tick hp))")
    (auto simp: lhi_rb_entry_new_def malloc_def no_oom_def Let_def)

lemma rbtree_insert_fresh:
  assumes inv: "rbtree_inv V cmp h" and "V k" and "no_oom hp"
    and missing: "map_of_table (rbtree_table h) k = None"
    and room: "unat (no_objects h) < max_objects"
  shows "\<exists>hp' h'. lhi_insert_rbtree hp h k v = Some (SUCCESS, hp', h') \<and> no_oom hp' \<and>
    live hp' = live hp + 2 \<and> rbtree_inv V cmp h' \<and> same_settings h h' \<and>
    map_of_table (rbtree_table h') = (map_of_table (rbtree_table h))(k \<mapsto> v) \<and>
    no_objects h' = no_objects h + 1"
proof (cases rule: lhi_rb_entry_new_cases [of hp k v])
  case (ok hp')
  then show ?thesis
    using rbtree_insert_new [OF inv \<open>V k\<close> ok(1) refl missing room] \<open>no_oom hp\<close> by auto
next
  case fail
  then show ?thesis
    using \<open>no_oom hp\<close> by simp
qed

lemma rbtree_insert_atomic:
  assumes inv: "rbtree_inv V cmp h" and "V k"
    and missing: "map_of_table (rbtree_table h) k = None"
    and room: "unat (no_objects h) < max_objects"
  shows "\<exists>ret hp' h'. lhi_insert_rbtree hp h k v = Some (ret, hp', h') \<and>
    (if ret = SUCCESS then live hp' = live hp + 2 \<and> rbtree_inv V cmp h' \<and> same_settings h h' \<and>
       map_of_table (rbtree_table h') = (map_of_table (rbtree_table h))(k \<mapsto> v)
     else h' = h \<and> live hp' = live hp)"
proof (cases rule: lhi_rb_entry_new_cases [of hp k v])
  case (ok hp')
  then show ?thesis
    using rbtree_insert_new [OF inv \<open>V k\<close> ok(1) refl missing room]
    by (auto intro!: exI [of _ SUCCESS])
next
  case (fail hp')
  note bucket = rbtree_inv_bucket(1,3) [OF inv, of k]
  obtain path where "rb_search h k (trees h ! slot_of h k) [] = Some (RB_NULL, path)"
    using missing by (cases rule: rbtree_search [OF inv \<open>V k\<close>]) auto
  then show ?thesis
    using bucket fail by (simp add: lhi_insert_rbtree_def hi_defs)
qed

lemma rbtree_remove_found:
  assumes inv: "rbtree_inv V cmp h" and "V k" and found: "map_of_table (rbtree_table h) k = Some v"
  shows "\<exists>hp' h'. lhi_remove_rbtree hp h k = Some (SUCCESS, Some v, hp', h') \<and>
    no_oom hp' = no_oom hp \<and> live hp' = live hp - 2 \<and> rbtree_inv V cmp h' \<and> same_settings h h' \<and>
    map_of_table (rbtree_table h') = (map_of_table (rbtree_table h))(k := None) \<and>
    no_objects h' = no_objects h - 1"
proof -
  let ?i = "slot_of h k" let ?t = "trees h ! slot_of h k"
  note bucket = rbtree_inv_bucket [OF inv, of k]
  obtain c l e r path where search: "rb_search h k ?t [] = Some (RB_NODE c l e r, path)"
    "plug (RB_NODE c l e r) path = ?t" "rb_key e = k" "rb_data e = v"
    using found by (cases rule: rbtree_search [OF inv \<open>V k\<close>]) auto
  obtain t where t: "rb_erase (RB_NODE c l e r) path = Some t" "rb_ok t"
    "inorder t = path_left path @ inorder l @ inorder r @ path_right path"
    using rb_erase_ok [of c l e r path] bucket(8) search(2) by auto
  have old: "inorder ?t = (path_left path @ inorder l) @ e # inorder r @ path_right path"
    using inorder_plug [of "RB_NODE c l e r" path] search(2) by simp
  define h' where "h' = h\<lparr>trees := (trees h)[?i := t],
    bucket_size := (bucket_size h)[?i := bucket_size h ! ?i - 1], no_objects := no_objects h - 1\<rparr>"
  have eq: "lhi_remove_rbtree hp h k = Some (SUCCESS, Some v, free (free hp), h')"
    using bucket(1,3,4) search t(1) by (simp add: lhi_remove_rbtree_def h'_def)
  have total: "unat (no_objects h) = entry_count (rbtree_table h)"
    using inv by (simp add: rbtree_inv_def handle_ok_def)
  have len: "length (inorder ?t) = Suc (length (inorder t))"
    by (simp add: old t(3))
  then have "bucket_size h ! ?i \<noteq> 0"
    using bucket(10) by (auto simp: unat_eq_0)
  then have sz: "unat (bucket_size h ! ?i - 1) = length (inorder t)"
    using bucket(10) len by (simp add: unat_minus_one_u32)
  have shrink: "entry_count (rbtree_table h') + 1 = entry_count (rbtree_table h)"
    using bucket(2) len entry_count_update [of ?i "rbtree_table h" "tree_entries t"]
    by (simp add: h'_def rbtree_table_def map_update tree_entries_def)
  then have "no_objects h \<noteq> 0"
    using total by (auto simp: unat_eq_0)
  then have count: "unat (no_objects h') = entry_count (rbtree_table h')"
    using total shrink by (simp add: h'_def unat_minus_one_u32)
  have old': "tree_entries ?t = map rb_pair (path_left path @ inorder l) @
      (k, v) # map rb_pair (inorder r @ path_right path)"
    using search(3,4) by (simp add: tree_entries_def old rb_pair_def)
  have new': "tree_entries t = map rb_pair (path_left path @ inorder l) @
      map rb_pair (inorder r @ path_right path)"
    by (simp add: tree_entries_def t(3))
  have map: "distinct (map fst (tree_entries t))"
    "map_of (tree_entries t) = (map_of (tree_entries ?t))(k := None)"
    unfolding old' new' by (rule map_of_remove [OF bucket(6) [unfolded old']])+
  have "sorted_wrt (\<lambda>a b. cmp_gt cmp (rb_key a) (rb_key b)) (inorder t)"
    using bucket(9) by (auto simp: t(3) old sorted_wrt_append)
  moreover have "\<forall>e' \<in> set (inorder t). rb_keylen e' = word_of_nat (length (rb_key e'))"
    using bucket(11) by (auto simp: t(3) old)
  moreover have same: "same_settings h h'" "trees h' = (trees h)[?i := t]"
    "bucket_size h' = (bucket_size h)[?i := bucket_size h ! ?i - 1]"
    by (simp_all add: h'_def same_settings_def)
  ultimately have "rbtree_inv V cmp h'"
    "map_of_table (rbtree_table h') = (map_of_table (rbtree_table h))(k := None)"
    using rbtree_inv_update [OF inv \<open>V k\<close> map t(2) _ _ same sz count] by blast+
  then show ?thesis
    using eq same(1) by (simp add: h'_def)
qed

lemma rbtree_array_some:
  assumes inv: "rbtree_inv V cmp h" and "no_oom hp" and i: "i < length (rbtree_table h)"
    and "rbtree_table h ! i \<noteq> []"
  shows "\<exists>hp' es. lhi_rbtree_bucket_to_array hp h i a = Some (0, hp', ba_of es) \<and>
    mset es = mset (rbtree_table h ! i) \<and> no_oom hp' \<and> live hp' = live hp + 3"
proof -
  let ?t = "trees h ! i"
  have i': "i < length (trees h)" "i < length (bucket_size h)" and "inorder ?t \<noteq> []"
    using assms(3,4) inv by (auto simp: rbtree_table_def rbtree_inv_def tree_entries_def)
  have n: "unat (bucket_size h ! i) = length (inorder ?t)"
    using inv i' by (simp add: rbtree_inv_def)
  have max: "bucket_size h ! i \<noteq> 0"
    "ucast (bucket_size h ! i) = (word_of_nat (length (inorder ?t)) :: u64)"
    using \<open>inorder ?t \<noteq> []\<close> n by (auto simp: ucast_u32_u64)
  have pos: "0 < length (inorder ?t)" "length (inorder ?t) < 2 ^ 32"
    using \<open>inorder ?t \<noteq> []\<close> unat_u32_less [of "bucket_size h ! i"] n by auto
  obtain hp' where hp': "no_oom hp'" "live hp' = live hp + 3"
    "lhi_bucket_array_alloc hp a (word_of_nat (length (inorder ?t))) =
      Some (0, hp', ba_filled [] (length (inorder ?t)))"
    by (rule bucket_array_alloc_ok [OF \<open>no_oom hp\<close> pos])
  have "\<forall>e \<in> set (inorder ?t). rb_keylen e = word_of_nat (length (rb_key e))"
    using inv i' by (auto simp: rbtree_inv_def)
  then have "hi_rbtree_traverse ?t 0 (ba_filled [] (length (inorder ?t))) =
      Some (length (inorder ?t), ba_of (preorder ?t))"
    using traverse_preorder [of ?t "replicate (length (inorder ?t)) None" "[]" "[]"] pos(2)
    by (simp add: ba_part_of)
  moreover have "?t \<noteq> RB_NULL"
    using \<open>inorder ?t \<noteq> []\<close> by auto
  moreover have "\<not> unat (table_size h) < i"
    using inv i by (auto simp: rbtree_inv_def handle_ok_def)
  ultimately have "lhi_rbtree_bucket_to_array hp h i a = Some (0, hp', ba_of (preorder ?t))"
    using i' max hp' by (simp add: lhi_rbtree_bucket_to_array_def bind_simps)
  then show ?thesis
    using hp' i' mset_preorder [of ?t] by (auto simp: rbtree_table_def)
qed

lemma rbtree_array_none:
  assumes inv: "rbtree_inv V cmp h" and "i < length (rbtree_table h)" and "rbtree_table h ! i = []"
  shows "lhi_rbtree_bucket_to_array hp h i a = Some (HI_ERR_NODATA, hp, a)"
proof -
  have "i < length (trees h)" "trees h ! i = RB_NULL" "\<not> unat (table_size h) < i"
    using assms by (cases "trees h ! i"; auto simp: rbtree_inv_def rbtree_table_def
        tree_entries_def handle_ok_def)+
  then show ?thesis
    by (simp add: lhi_rbtree_bucket_to_array_def bind_simps)
qed

end

sublocale key_order \<subseteq> rbtree_engine: iterable_engine V cmp "rbtree_inv V cmp" rbtree_table
  lhi_get_rbtree lhi_insert_rbtree lhi_remove_rbtree 2 lhi_rbtree_bucket_to_array
proof unfold_locales
  show "handle_ok V cmp h (rbtree_table h)" if "rbtree_inv V cmp h" for h
    using that by (simp add: rbtree_inv_def)
qed (fact rbtree_get_found rbtree_get_missing rbtree_insert_fresh rbtree_remove_found
  rbtree_remove_missing rbtree_array_some rbtree_array_none)+

end
