(* ===== verification/Hi_iterator.thy ===== *)
theory Hi_iterator
  imports Hi_list Hi_array Hi_rbtree
begin

text \<open>
  The iterator (\<open>lib/hi_iterator.c\<close>). It copies the entries of one bucket at a time into three
  arrays and hands them out from the back; when they are used up it moves on to the next bucket
  that has entries. The handle pointer of the C struct is an argument of the model's functions.
\<close>

section \<open>Operations\<close>

text \<open>\<open>struct hi_operator\<close>; \<open>bucket\<close> is a \<open>size_t\<close> that never passes \<open>table_size + 1\<close> by itself.\<close>

record hi_iterator =
  it_bucket :: nat
  it_a :: lhi_bucket_array

type_synonym to_array_fn =
  "heap \<Rightarrow> hi_handle \<Rightarrow> nat \<Rightarrow> lhi_bucket_array \<Rightarrow> (int \<times> heap \<times> lhi_bucket_array) option"

text \<open>
  The loop that \<open>rbtree_get_next_tree\<close>, \<open>list_get_next_bucket\<close> and \<open>array_get_next_bucket\<close> share,
  each with the \<open>bucket_to_array\<close> function of its engine.
\<close>

function next_bucket ::
  "to_array_fn \<Rightarrow> heap \<Rightarrow> hi_handle \<Rightarrow> hi_iterator \<Rightarrow> (int \<times> heap \<times> hi_iterator) option" where
  "next_bucket to_array hp h i =
     (if it_bucket i < unat (table_size h) then do {
        (res, hp, a) \<leftarrow> to_array hp h (it_bucket i) (it_a i);
        if res = 0 then Some (0, hp, i\<lparr>it_a := a\<rparr>)
        else if res \<noteq> HI_ERR_NODATA then Some (res, hp, i\<lparr>it_a := a\<rparr>)
        else next_bucket to_array hp h (i\<lparr>it_a := a, it_bucket := it_bucket i + 1\<rparr>)
      } else Some (HI_ERR_NODATA, hp, i))"
  by pat_completeness auto

termination
  by (relation "measure (\<lambda>(to_array, hp, h, i). unat (table_size h) - it_bucket i)") auto

declare next_bucket.simps [simp del]

definition rbtree_get_next_tree ::
  "heap \<Rightarrow> hi_handle \<Rightarrow> hi_iterator \<Rightarrow> (int \<times> heap \<times> hi_iterator) option" where
  "rbtree_get_next_tree = next_bucket lhi_rbtree_bucket_to_array"

definition list_get_next_bucket ::
  "heap \<Rightarrow> hi_handle \<Rightarrow> hi_iterator \<Rightarrow> (int \<times> heap \<times> hi_iterator) option" where
  "list_get_next_bucket = next_bucket lhi_list_bucket_to_array"

definition array_get_next_bucket ::
  "heap \<Rightarrow> hi_handle \<Rightarrow> hi_iterator \<Rightarrow> (int \<times> heap \<times> hi_iterator) option" where
  "array_get_next_bucket = next_bucket lhi_array_bucket_to_array"

text \<open>The \<open>switch\<close> over the engine; \<open>None\<close> is the \<open>default\<close> label.\<close>

definition get_next ::
  "coll_eng \<Rightarrow> (heap \<Rightarrow> hi_handle \<Rightarrow> hi_iterator \<Rightarrow> (int \<times> heap \<times> hi_iterator) option) option" where
  "get_next e =
     (if list_eng e then Some list_get_next_bucket
      else if array_eng e then Some array_get_next_bucket
      else if e = COLL_ENG_RBTREE then Some rbtree_get_next_tree
      else None)"

text \<open>
  The \<open>memset\<close> of \<open>hi_iterator_create\<close> clears the first eight bytes of the arrays only; the other
  fields are not read before they are assigned.
\<close>

definition hi_iterator_create :: "heap \<Rightarrow> hi_handle \<Rightarrow> (int \<times> heap \<times> hi_iterator option) option" where
  "hi_iterator_create hp t =
     (case malloc hp of
        (None, hp) \<Rightarrow> Some (HI_ERR_SYSTEM, hp, None)
      | (Some _, hp) \<Rightarrow>
          (let it = \<lparr>it_bucket = 0,
             it_a = \<lparr>ba_data = None, ba_keys = None, ba_keys_length = None, nmemb = 0\<rparr>\<rparr>
           in case get_next (coll_eng t) of
                None \<Rightarrow> Some (HI_ERR_INTERNAL, free hp, None)
              | Some next \<Rightarrow> do {
                  (res, hp, it) \<leftarrow> next hp t it;
                  if res = 0 then Some (res, hp, Some it) else Some (res, free hp, None)
                }))"

definition hi_iterator_reset ::
  "heap \<Rightarrow> hi_handle \<Rightarrow> hi_iterator \<Rightarrow> (int \<times> heap \<times> hi_iterator) option" where
  "hi_iterator_reset hp t i =
     (case lhi_bucket_array_free hp (it_a i) of (hp, a) \<Rightarrow>
        (let i = i\<lparr>it_bucket := 0, it_a := a\<rparr>
         in case get_next (coll_eng t) of
              None \<Rightarrow> Some (HI_ERR_SYSTEM, hp, i)
            | Some next \<Rightarrow> next hp t i))"

text \<open>The label \<open>out\<close>: the last element not handed out yet.\<close>

definition iterator_out ::
  "heap \<Rightarrow> hi_iterator \<Rightarrow> (int \<times> heap \<times> hi_iterator \<times> (ptr \<times> key \<times> u32) option) option" where
  "iterator_out hp i =
     (let n = nmemb (it_a i) - 1
      in do {
        data \<leftarrow> arr_read (ba_data (it_a i)) (unat n);
        key \<leftarrow> arr_read (ba_keys (it_a i)) (unat n);
        keylen \<leftarrow> arr_read (ba_keys_length (it_a i)) (unat n);
        Some (0, hp, i\<lparr>it_a := (it_a i)\<lparr>nmemb := n\<rparr>\<rparr>, Some (data, key, keylen))
      })"

definition hi_iterator_getnext ::
  "heap \<Rightarrow> hi_handle \<Rightarrow> hi_iterator \<Rightarrow>
    (int \<times> heap \<times> hi_iterator \<times> (ptr \<times> key \<times> u32) option) option" where
  "hi_iterator_getnext hp t i =
     (if nmemb (it_a i) \<noteq> 0 then iterator_out hp i
      else case get_next (coll_eng t) of
        None \<Rightarrow> Some (HI_ERR_INTERNAL, hp, i, None)
      | Some next \<Rightarrow>
          (case lhi_bucket_array_free hp (it_a i) of (hp, a) \<Rightarrow> do {
             (ret, hp, i) \<leftarrow> next hp t (i\<lparr>it_a := a, it_bucket := it_bucket i + 1\<rparr>);
             if ret = 0 then iterator_out hp i else Some (ret, hp, i, None)
           }))"

definition hi_iterator_fini :: "heap \<Rightarrow> hi_iterator \<Rightarrow> heap" where
  "hi_iterator_fini hp i = free (fst (lhi_bucket_array_free hp (it_a i)))"

section \<open>Running an iterator to its end\<close>

lemma next_bucket_progress:
  "next_bucket to_array hp h i = Some (0, hp', i') \<Longrightarrow>
     it_bucket i \<le> it_bucket i' \<and> it_bucket i' < unat (table_size h)"
proof (induction to_array hp h i rule: next_bucket.induct)
  case (1 to_array hp h i)
  then show ?case
    by (subst (asm) (2) next_bucket.simps)
      (fastforce simp: bind_Some_iff HI_ERR_NODATA_def split: if_splits)
qed

definition iterator_measure :: "hi_handle \<Rightarrow> hi_iterator \<Rightarrow> nat \<times> nat" where
  "iterator_measure h i = (unat (table_size h) - it_bucket i, unat (nmemb (it_a i)))"

lemma getnext_progress:
  assumes "hi_iterator_getnext hp h i = Some (ret, hp', i', Some e)"
  shows "(iterator_measure h i', iterator_measure h i) \<in> less_than <*lex*> less_than"
proof (cases "nmemb (it_a i) = 0")
  case False
  then have "unat (nmemb (it_a i) - 1) < unat (nmemb (it_a i))"
    by (simp add: unat_minus_one unat_gt_0)
  moreover have "it_bucket i' = it_bucket i" "nmemb (it_a i') = nmemb (it_a i) - 1"
    using assms False by (auto simp: hi_iterator_getnext_def iterator_out_def bind_Some_iff Let_def)
  ultimately show ?thesis
    by (simp add: iterator_measure_def)
next
  case True
  then obtain nx hp1 i1 where "get_next (coll_eng h) = Some nx"
    and nx: "nx hp1 h (i\<lparr>it_a := snd (lhi_bucket_array_free hp (it_a i)),
      it_bucket := it_bucket i + 1\<rparr>) = Some (0, hp', i1)"
    and "it_bucket i' = it_bucket i1"
    using assms by (auto simp: hi_iterator_getnext_def iterator_out_def bind_Some_iff Let_def
        split: option.splits prod.splits if_splits)
  then obtain to_array where "nx = next_bucket to_array"
    by (auto simp: get_next_def list_get_next_bucket_def array_get_next_bucket_def
        rbtree_get_next_tree_def split: if_splits)
  then show ?thesis
    using next_bucket_progress [of to_array] nx \<open>it_bucket i' = it_bucket i1\<close>
    by (fastforce simp: iterator_measure_def)
qed

text \<open>
  \<open>while ((ret = hi_iterator_getnext(...)) == SUCCESS) { ... }\<close> with a body that can fail, on a
  state of its own. The result says whether the body failed, and carries the last return code.
\<close>

type_synonym 's visit_body = "'s \<Rightarrow> heap \<Rightarrow> key \<Rightarrow> u32 \<Rightarrow> ptr \<Rightarrow> (int \<times> heap \<times> 's) option"

function visit_loop :: "'s visit_body \<Rightarrow> heap \<Rightarrow> hi_handle \<Rightarrow> hi_iterator \<Rightarrow> 's \<Rightarrow>
    (bool \<times> int \<times> heap \<times> hi_iterator \<times> 's) option" where
  "visit_loop body hp h i s =
     (case hi_iterator_getnext hp h i of
        None \<Rightarrow> None
      | Some (ret, hp, i, None) \<Rightarrow> Some (False, ret, hp, i, s)
      | Some (ret, hp, i, Some (data, key, keylen)) \<Rightarrow>
          (case body s hp key keylen data of
             None \<Rightarrow> None
           | Some (ret, hp, s) \<Rightarrow>
               if ret \<noteq> SUCCESS then Some (True, ret, hp, i, s) else visit_loop body hp h i s))"
  by pat_completeness auto

termination
  by (relation "inv_image (less_than <*lex*> less_than) (\<lambda>(body, hp, h, i, s). iterator_measure h i)")
    (auto intro: getnext_progress)

declare visit_loop.simps [simp del]

section \<open>What an iterator still has to deliver\<close>

definition it_holds :: "entries list \<Rightarrow> hi_iterator \<Rightarrow> (key \<times> ptr) multiset \<Rightarrow> bool" where
  "it_holds xss i es \<longleftrightarrow>
     (\<exists>fs n. it_a i = (ba_of fs)\<lparr>nmemb := word_of_nat n\<rparr> \<and> n \<le> length fs \<and> length fs < 2 ^ 32 \<and>
        it_bucket i < length xss \<and>
        es = mset (take n fs) + mset (concat (drop (Suc (it_bucket i)) xss)))"

lemma iterator_out_spec:
  assumes "it_a i = (ba_of fs)\<lparr>nmemb := word_of_nat (Suc n)\<rparr>" and "n < length fs"
    and "length fs < 2 ^ 32"
  shows "iterator_out hp i = Some (0, hp, i\<lparr>it_a := (ba_of fs)\<lparr>nmemb := word_of_nat n\<rparr>\<rparr>,
    Some (snd (fs ! n), fst (fs ! n), word_of_nat (length (fst (fs ! n)))))"
proof -
  have "unat (word_of_nat n :: u64) = n"
    using assms(2,3) by (simp add: unat_of_nat take_bit_nat_eq_self)
  then show ?thesis
    using assms(1,2) by (simp add: iterator_out_def arr_read_def ba_of_def bind_simps)
qed

lemma u64_zero: "n < 2 ^ 32 \<Longrightarrow> (word_of_nat n :: u64) = 0 \<longleftrightarrow> n = 0"
  using unat_of_nat [of n, where 'a = 64]
  by (auto simp: take_bit_nat_eq_self unat_eq_0 [symmetric])

locale iterator_engine = iterable_engine +
  assumes dispatch: "inv h \<Longrightarrow> get_next (coll_eng h) = Some (next_bucket to_array)"
begin

lemma next_bucket_spec:
  assumes inv: "inv h" and "no_oom hp" and "it_bucket i \<le> length (table h)"
  shows "(\<exists>i'. next_bucket to_array hp h i = Some (HI_ERR_NODATA, hp, i') \<and> it_a i' = it_a i \<and>
      concat (drop (it_bucket i) (table h)) = []) \<or>
    (\<exists>hp' i'. next_bucket to_array hp h i = Some (0, hp', i') \<and> no_oom hp' \<and>
      live hp' = live hp + 3 \<and> nmemb (it_a i') \<noteq> 0 \<and>
      it_holds (table h) i' (mset (concat (drop (it_bucket i) (table h)))))"
  using assms(3)
proof (induction "length (table h) - it_bucket i" arbitrary: i)
  case 0
  have "unat (table_size h) = length (table h)"
    using inv_ok [OF inv] by (simp add: handle_ok_def)
  then show ?case
    using 0 by (subst next_bucket.simps) simp
next
  case (Suc n)
  let ?b = "it_bucket i"
  have b: "?b < length (table h)" and tsz: "unat (table_size h) = length (table h)"
    using Suc.hyps(2) inv_ok [OF inv] by (auto simp: handle_ok_def)
  have drop: "concat (drop ?b (table h)) = table h ! ?b @ concat (drop (Suc ?b) (table h))"
    using b by (simp add: Cons_nth_drop_Suc [symmetric])
  show ?case
  proof (cases "table h ! ?b = []")
    case True
    have step: "next_bucket to_array hp h i = next_bucket to_array hp h (i\<lparr>it_bucket := Suc ?b\<rparr>)"
      using b tsz array_none [OF inv b True, of hp "it_a i"]
      by (subst next_bucket.simps) (simp add: hi_defs)
    show ?thesis
      using Suc.hyps(1) [of "i\<lparr>it_bucket := Suc ?b\<rparr>"] Suc.hyps(2) b
      unfolding step drop True by simp
  next
    case False
    then obtain hp' es where arr: "to_array hp h ?b (it_a i) = Some (0, hp', ba_of es)"
      "mset es = mset (table h ! ?b)" "no_oom hp'" "live hp' = live hp + 3"
      using array_some [OF inv \<open>no_oom hp\<close> b] by blast
    have len: "length es = length (table h ! ?b)"
      using mset_eq_length [OF arr(2)] .
    have "length (table h ! ?b) \<le> unat (no_objects h)"
      using entry_count_ge [OF b] inv_ok [OF inv] by (simp add: handle_ok_def)
    then have small: "length es < 2 ^ 32"
      using unat_u32_less [of "no_objects h"] len by simp
    have "it_holds (table h) (i\<lparr>it_a := ba_of es\<rparr>) (mset (concat (drop ?b (table h))))"
      unfolding it_holds_def drop
      by (intro exI [of _ es] exI [of _ "length es"]) (use b small arr(2) in \<open>simp add: ba_of_def\<close>)
    moreover have "nmemb (ba_of es) \<noteq> 0"
      using u64_zero [OF small] False len by (auto simp: ba_of_def)
    ultimately show ?thesis
      using b tsz arr by (subst (2) next_bucket.simps) simp
  qed
qed

lemma next_bucket_empty:
  assumes inv: "inv h" and "\<forall>xs \<in> set (table h). xs = []"
  shows "\<exists>hp' i'. next_bucket to_array hp h i = Some (HI_ERR_NODATA, hp', i')"
  using assms(2)
proof (induction "unat (table_size h) - it_bucket i" arbitrary: i)
  case 0
  then show ?case by (subst next_bucket.simps) simp
next
  case (Suc n)
  then have b: "it_bucket i < unat (table_size h)" by simp
  then have b': "it_bucket i < length (table h)"
    using inv_ok [OF inv] by (simp add: handle_ok_def)
  then have "table h ! it_bucket i = []"
    using assms(2) by simp
  then show ?case
    using Suc.hyps(1) [of "i\<lparr>it_bucket := Suc (it_bucket i)\<rparr>"] Suc.hyps(2) Suc.prems b
      array_none [OF inv b', of hp "it_a i"]
    by (subst next_bucket.simps) (simp add: hi_defs)
qed

lemma getnext_spec:
  assumes inv: "inv h" and "no_oom hp" and holds: "it_holds (table h) i es"
  shows "(es = {#} \<and> (\<exists>hp' i'. hi_iterator_getnext hp h i = Some (HI_ERR_NODATA, hp', i', None) \<and>
      no_oom hp' \<and> live hp' = live hp - 3 \<and> fst (lhi_bucket_array_free hp' (it_a i')) = hp')) \<or>
    (\<exists>hp' i' k d. hi_iterator_getnext hp h i =
        Some (SUCCESS, hp', i', Some (d, k, word_of_nat (length k))) \<and> no_oom hp' \<and>
      live hp' = live hp \<and> (k, d) \<in># es \<and> it_holds (table h) i' (es - {#(k, d)#}))"
proof -
  obtain fs n where i: "it_a i = (ba_of fs)\<lparr>nmemb := word_of_nat n\<rparr>" "n \<le> length fs"
    "length fs < 2 ^ 32" "it_bucket i < length (table h)"
    and es: "es = mset (take n fs) + mset (concat (drop (Suc (it_bucket i)) (table h)))"
    using holds by (auto simp: it_holds_def)
  have out: "\<exists>i' k d. iterator_out hp1 j = Some (SUCCESS, hp1, i', Some (d, k, word_of_nat (length k))) \<and>
      (k, d) \<in># es' \<and> it_holds (table h) i' (es' - {#(k, d)#})"
    if j: "it_holds (table h) j es'" "nmemb (it_a j) \<noteq> 0" for j hp1 es'
  proof -
    obtain gs m where gs: "it_a j = (ba_of gs)\<lparr>nmemb := word_of_nat m\<rparr>" "m \<le> length gs"
      "length gs < 2 ^ 32" "it_bucket j < length (table h)"
      "es' = mset (take m gs) + mset (concat (drop (Suc (it_bucket j)) (table h)))"
      using j(1) by (auto simp: it_holds_def)
    have "m \<noteq> 0"
      using j(2) by (intro notI) (simp add: gs(1))
    then obtain m' where m: "m = Suc m'" "m' < length gs"
      using gs(2) by (cases m) auto
    have take: "mset (take m gs) = add_mset (gs ! m') (mset (take m' gs))"
      using m by (simp add: take_Suc_conv_app_nth)
    let ?i' = "j\<lparr>it_a := (ba_of gs)\<lparr>nmemb := word_of_nat m'\<rparr>\<rparr>"
    have "it_holds (table h) ?i' (es' - {#gs ! m'#})"
      unfolding it_holds_def
      by (intro exI [of _ gs] exI [of _ m']) (use gs m take in simp)
    then show ?thesis
      using iterator_out_spec [where i = j and fs = gs and n = m' and hp = hp1] gs m take
      by (intro exI [of _ ?i'] exI [of _ "fst (gs ! m')"] exI [of _ "snd (gs ! m')"])
        (simp add: SUCCESS_def)
  qed
  show ?thesis
  proof (cases "nmemb (it_a i) = 0")
    case False
    then show ?thesis
      using out [OF holds False, of hp] \<open>no_oom hp\<close> by (auto simp: hi_iterator_getnext_def)
  next
    case True
    then have n: "n = 0"
      using i u64_zero [of n] by simp
    define a where "a = (it_a i)\<lparr>ba_data := None, ba_keys := None, ba_keys_length := None\<rparr>"
    define j where "j = i\<lparr>it_a := a, it_bucket := Suc (it_bucket i)\<rparr>"
    have free: "lhi_bucket_array_free hp (it_a i) = (free (free (free hp)), a)"
      by (simp add: i(1) lhi_bucket_array_free_def ba_of_def free_ptr_def a_def)
    have free_a: "fst (lhi_bucket_array_free hp' a) = hp'" for hp'
      by (simp add: lhi_bucket_array_free_def free_ptr_def a_def)
    have get: "hi_iterator_getnext hp h i =
        Option.bind (next_bucket to_array (free (free (free hp))) h j)
          (\<lambda>(ret, hp, i). if ret = 0 then iterator_out hp i else Some (ret, hp, i, None))"
      using True dispatch [OF inv] by (simp add: hi_iterator_getnext_def free j_def)
    have "no_oom (free (free (free hp)))" "it_bucket j \<le> length (table h)"
      using \<open>no_oom hp\<close> i(4) by (simp_all add: j_def)
    from next_bucket_spec [OF inv this] show ?thesis
    proof (elim disjE exE conjE)
      fix i'
      assume "next_bucket to_array (free (free (free hp))) h j =
          Some (HI_ERR_NODATA, free (free (free hp)), i')" "it_a i' = it_a j"
        "concat (drop (it_bucket j) (table h)) = []"
      then show ?thesis
        using \<open>no_oom hp\<close> n es free_a by (simp add: get j_def HI_ERR_NODATA_def)
    next
      fix hp' i'
      assume nb: "next_bucket to_array (free (free (free hp))) h j = Some (0, hp', i')"
        "no_oom hp'" "live hp' = live (free (free (free hp))) + 3" "nmemb (it_a i') \<noteq> 0"
        "it_holds (table h) i' (mset (concat (drop (it_bucket j) (table h))))"
      have "mset (concat (drop (it_bucket j) (table h))) = es"
        by (simp add: es n j_def)
      then show ?thesis
        using out [OF nb(5,4), of hp'] nb(1-3) by (auto simp: get)
    qed
  qed
qed

text \<open>Creating an iterator on a table that has entries, and on one that has none.\<close>

lemma iterator_create_spec:
  assumes inv: "inv h" and "no_oom hp"
  shows "(concat (table h) = [] \<and> (\<exists>hp'. hi_iterator_create hp h = Some (HI_ERR_NODATA, hp', None) \<and>
      no_oom hp' \<and> live hp' = live hp)) \<or>
    (concat (table h) \<noteq> [] \<and> (\<exists>hp' i. hi_iterator_create hp h = Some (SUCCESS, hp', Some i) \<and>
      no_oom hp' \<and> live hp' = live hp + 4 \<and> it_holds (table h) i (mset (concat (table h)))))"
proof -
  obtain junk hp1 where hp1: "malloc hp = (Some junk, hp1)" "no_oom hp1" "live hp1 = live hp + 1"
    by (rule malloc_no_oom [OF \<open>no_oom hp\<close>])
  define i where "i = \<lparr>it_bucket = 0,
    it_a = \<lparr>ba_data = None, ba_keys = None, ba_keys_length = None, nmemb = 0\<rparr>\<rparr>"
  have create: "hi_iterator_create hp h = Option.bind (next_bucket to_array hp1 h i)
      (\<lambda>(res, hp, it). if res = 0 then Some (res, hp, Some it) else Some (res, free hp, None))"
    using hp1(1) dispatch [OF inv] by (simp add: hi_iterator_create_def i_def)
  have "it_bucket i = 0" by (simp add: i_def)
  have "it_bucket i \<le> length (table h)" by (simp add: i_def)
  from next_bucket_spec [OF inv hp1(2) this] show ?thesis
  proof (elim disjE exE conjE)
    fix i'
    assume "next_bucket to_array hp1 h i = Some (HI_ERR_NODATA, hp1, i')"
      "concat (drop (it_bucket i) (table h)) = []"
    then show ?thesis
      using hp1 \<open>it_bucket i = 0\<close> by (simp add: create HI_ERR_NODATA_def)
  next
    fix hp' i'
    assume nb: "next_bucket to_array hp1 h i = Some (0, hp', i')" "no_oom hp'"
      "live hp' = live hp1 + 3" "it_holds (table h) i' (mset (concat (drop (it_bucket i) (table h))))"
    have holds: "it_holds (table h) i' (mset (concat (table h)))"
      using nb(4) \<open>it_bucket i = 0\<close> by simp
    have "concat (table h) \<noteq> []"
    proof
      assume "concat (table h) = []"
      then have all: "\<forall>xs \<in> set (table h). xs = []"
        by simp
      show False
        using next_bucket_empty [OF inv all, of hp1 i] nb(1) by (auto simp: HI_ERR_NODATA_def)
    qed
    then show ?thesis
      using nb hp1 holds by (auto simp: create SUCCESS_def)
  qed
qed

text \<open>
  A loop over the iterator whose body preserves a property of the entries still to come, its own
  state and the live blocks runs through all of them.
\<close>

lemma visit_loop_spec:
  assumes inv: "inv h" and "no_oom hp" and "it_holds (table h) i es" and "P es s (live hp)"
    and body: "\<And>es s hp k d. P (add_mset (k, d) es) s (live hp) \<Longrightarrow> no_oom hp \<Longrightarrow>
      \<exists>hp' s'. body s hp k (word_of_nat (length k)) d = Some (SUCCESS, hp', s') \<and> no_oom hp' \<and>
        P es s' (live hp')"
  shows "\<exists>hp' i' s'. visit_loop body hp h i s = Some (False, HI_ERR_NODATA, hp', i', s') \<and>
    no_oom hp' \<and> P {#} s' (live hp' + 3) \<and> fst (lhi_bucket_array_free hp' (it_a i')) = hp'"
  using assms(2-4)
proof (induction "size es" arbitrary: es hp i s)
  case 0
  then have "es = {#}" by simp
  with getnext_spec [OF inv "0.prems"(1,2)] obtain hp' i' where
    "hi_iterator_getnext hp h i = Some (HI_ERR_NODATA, hp', i', None)" "no_oom hp'"
    "live hp' = live hp - 3" "fst (lhi_bucket_array_free hp' (it_a i')) = hp'"
    by auto
  then show ?case
    using "0.prems"(3) \<open>es = {#}\<close> by (subst visit_loop.simps) simp
next
  case (Suc n)
  then have "es \<noteq> {#}" by auto
  with getnext_spec [OF inv Suc.prems(1,2)] obtain hp' i' k d where
    nx: "hi_iterator_getnext hp h i = Some (SUCCESS, hp', i', Some (d, k, word_of_nat (length k)))"
    "no_oom hp'" "live hp' = live hp" "(k, d) \<in># es" "it_holds (table h) i' (es - {#(k, d)#})"
    by auto
  have "P (add_mset (k, d) (es - {#(k, d)#})) s (live hp')"
    using Suc.prems(3) nx(3,4) by simp
  then obtain hp2 s' where b: "body s hp' k (word_of_nat (length k)) d = Some (SUCCESS, hp2, s')"
    "no_oom hp2" "P (es - {#(k, d)#}) s' (live hp2)"
    using body nx(2) by blast
  have "n = size (es - {#(k, d)#})"
    using Suc.hyps(2) nx(4) by (simp add: size_Diff_singleton)
  from Suc.hyps(1) [OF this b(2) nx(5) b(3)] show ?case
    using nx(1) b(1) by (subst visit_loop.simps) simp
qed

end

sublocale key_domain \<subseteq> list_iterator: iterator_engine V cmp "list_inv V cmp" list_table
  lhi_get_list lhi_insert_list lhi_remove_list 2 lhi_list_bucket_to_array
  by unfold_locales (auto simp: list_inv_def get_next_def list_get_next_bucket_def)

sublocale key_order \<subseteq> rbtree_iterator: iterator_engine V cmp "rbtree_inv V cmp" rbtree_table
  lhi_get_rbtree lhi_insert_rbtree lhi_remove_rbtree 2 lhi_rbtree_bucket_to_array
  by unfold_locales (auto simp: rbtree_inv_def get_next_def rbtree_get_next_tree_def)

end
