(* ===== verification/Lib_init.thy ===== *)
theory Lib_init
  imports Hi_iterator
begin

text \<open>
  Creating and destroying a table (\<open>lib/lib_init.c\<close>, \<open>lib/lib_fini.c\<close>), except \<open>hi_rehash\<close>, which
  is mutually recursive with the insert operation and stands in theory \<open>Hi_operations\<close>.
\<close>

section \<open>Handles\<close>

text \<open>The handle after \<open>memset\<close> to zero.\<close>

definition zero_handle :: hi_handle where
  "zero_handle = \<lparr>table_size = 0, coll_eng = COLL_ENG_OTHER 0, rehash_auto = 0,
     rehash_threshold = 0, coll_eng_array_size = 0, hash_func = None, hash2_func = None,
     key_cmp = None, bucket_size = [], no_objects = 0, bucket_table = [], bucket_array = [],
     slot_size = [], slot_max = [], trees = []\<rparr>"

definition lhi_create_vanilla_hdnl :: "heap \<Rightarrow> int \<times> heap \<times> hi_handle option" where
  "lhi_create_vanilla_hdnl hp =
     (case xalloc_align hp of (ret, _, hp) \<Rightarrow>
        if ret \<noteq> 0 then (HI_ERR_SYSTEM, hp, None) else (SUCCESS, hp, Some zero_handle))"

definition lhi_set_sanity_hash2 :: "hi_init_set \<Rightarrow> int" where
  "lhi_set_sanity_hash2 s =
     (if set_hash2_func s = None then HI_ERR_NODATA
      else if fp_same (set_hash_func s) (set_hash2_func s) then HI_ERR_NODATA
      else SUCCESS)"

definition lhi_set_sanity_array :: "hi_init_set \<Rightarrow> int" where
  "lhi_set_sanity_array s = (if set_coll_eng_array_size s = 0 then HI_ERR_NODATA else SUCCESS)"

definition lhi_set_sanity_check :: "hi_init_set \<Rightarrow> int" where
  "lhi_set_sanity_check s =
     (if set_table_size s = 0 then HI_ERR_NODATA
      else if set_key_cmp s = None then HI_ERR_NODATA
      else if set_hash_func s = None then HI_ERR_NODATA
      else case set_coll_eng s of
        COLL_ENG_LIST \<Rightarrow> SUCCESS
      | COLL_ENG_LIST_HASH \<Rightarrow> lhi_set_sanity_hash2 s
      | COLL_ENG_LIST_MTF \<Rightarrow> SUCCESS
      | COLL_ENG_LIST_MTF_HASH \<Rightarrow> lhi_set_sanity_hash2 s
      | COLL_ENG_ARRAY \<Rightarrow> lhi_set_sanity_array s
      | COLL_ENG_ARRAY_HASH \<Rightarrow> SUCCESS
      | COLL_ENG_ARRAY_DYN \<Rightarrow> SUCCESS
      | COLL_ENG_ARRAY_DYN_HASH \<Rightarrow> lhi_set_sanity_hash2 s
      | COLL_ENG_RBTREE \<Rightarrow> SUCCESS
      | COLL_ENG_OTHER _ \<Rightarrow> HI_ERR_INTERNAL)"

definition lhi_transform_set_2_hndl :: "hi_handle \<Rightarrow> hi_init_set \<Rightarrow> int \<times> hi_handle" where
  "lhi_transform_set_2_hndl h s =
     (let ret = lhi_set_sanity_check s
      in if ret \<noteq> SUCCESS then (ret, h)
         else (SUCCESS, h\<lparr>table_size := set_table_size s, hash_func := set_hash_func s,
           hash2_func := set_hash2_func s, key_cmp := set_key_cmp s, coll_eng := set_coll_eng s,
           rehash_auto := set_rehash_auto s, rehash_threshold := set_rehash_threshold s,
           coll_eng_array_size := set_coll_eng_array_size s\<rparr>))"

definition lhi_transform_hndl_2_hndl :: "hi_handle \<Rightarrow> hi_handle \<Rightarrow> hi_handle" where
  "lhi_transform_hndl_2_hndl src dst =
     dst\<lparr>table_size := table_size src, hash_func := hash_func src, hash2_func := hash2_func src,
       key_cmp := key_cmp src, coll_eng := coll_eng src, rehash_auto := rehash_auto src,
       rehash_threshold := rehash_threshold src, coll_eng_array_size := coll_eng_array_size src\<rparr>"

section \<open>Engine data\<close>

text \<open>
  The initialisation loops over all slots of the table, as whole arrays. They write
  \<open>bucket_size[i]\<close>, which must have been allocated.
\<close>

definition lhi_create_eng_list :: "heap \<Rightarrow> hi_handle \<Rightarrow> (int \<times> heap \<times> hi_handle) option" where
  "lhi_create_eng_list hp h =
     (case xalloc_align hp of (ret, _, hp) \<Rightarrow>
        if ret \<noteq> 0 then Some (HI_ERR_SYSTEM, hp, h)
        else if length (bucket_size h) < unat (table_size h) then None
        else Some (SUCCESS, hp, h\<lparr>bucket_table := replicate (unat (table_size h)) [],
          bucket_size := replicate (unat (table_size h)) 0\<rparr>))"

definition lhi_create_eng_rbtree :: "heap \<Rightarrow> hi_handle \<Rightarrow> (int \<times> heap \<times> hi_handle) option" where
  "lhi_create_eng_rbtree hp h =
     (case malloc hp of
        (None, hp) \<Rightarrow> Some (HI_ERR_SYSTEM, hp, h)
      | (Some _, hp) \<Rightarrow>
          if length (bucket_size h) < unat (table_size h) then None
          else Some (SUCCESS, hp, h\<lparr>trees := replicate (unat (table_size h)) RB_NULL,
            bucket_size := replicate (unat (table_size h)) 0\<rparr>))"

text \<open>The loop over the buckets of an array table: the number of buckets still to allocate.\<close>

fun alloc_buckets :: "heap \<Rightarrow> nat \<Rightarrow> nat \<Rightarrow> int \<times> heap \<times> a_obj option list option list" where
  "alloc_buckets hp n 0 = (SUCCESS, hp, [])"
| "alloc_buckets hp n (Suc m) =
     (case xalloc_align hp of (ret, _, hp) \<Rightarrow>
        if ret \<noteq> 0 then (HI_ERR_SYSTEM, hp, [])
        else (case alloc_buckets hp n m of (ret, hp, buckets) \<Rightarrow>
          (ret, hp, Some (replicate n None) # buckets)))"

definition lhi_create_eng_array :: "heap \<Rightarrow> hi_handle \<Rightarrow> int \<times> heap \<times> hi_handle" where
  "lhi_create_eng_array hp h =
     (case xalloc_align hp of (ret, _, hp) \<Rightarrow> if ret \<noteq> 0 then (HI_ERR_SYSTEM, hp, h) else
      case xalloc_align hp of (ret, _, hp) \<Rightarrow> if ret \<noteq> 0 then (HI_ERR_SYSTEM, hp, h) else
      case xalloc_align hp of (ret, _, hp) \<Rightarrow> if ret \<noteq> 0 then (HI_ERR_SYSTEM, hp, h) else
      case alloc_buckets hp (unat (coll_eng_array_size h)) (unat (table_size h)) of
        (ret, hp, buckets) \<Rightarrow>
          if ret \<noteq> SUCCESS then (HI_ERR_SYSTEM, hp, h)
          else (SUCCESS, hp, h\<lparr>bucket_array := buckets,
            slot_size := replicate (unat (table_size h)) 0,
            slot_max := replicate (unat (table_size h)) (coll_eng_array_size h)\<rparr>))"

text \<open>The \<open>switch\<close> of \<open>hi_create\<close> and \<open>hi_rehash\<close>.\<close>

definition create_eng :: "heap \<Rightarrow> hi_handle \<Rightarrow> (int \<times> heap \<times> hi_handle) option" where
  "create_eng hp h =
     (if list_eng (coll_eng h) then lhi_create_eng_list hp h
      else if array_eng (coll_eng h) then Some (lhi_create_eng_array hp h)
      else if coll_eng h = COLL_ENG_RBTREE then lhi_create_eng_rbtree hp h
      else Some (HI_ERR_INTERNAL, hp, h))"

text \<open>
  \<open>hi_create\<close>: the return code and the new handle. No error return frees what was allocated
  before. The block of \<open>bucket_size\<close> is uninitialised until the engine data is created.
\<close>

definition hi_create :: "heap \<Rightarrow> hi_init_set \<Rightarrow> (int \<times> heap \<times> hi_handle option) option" where
  "hi_create hp s =
     (case lhi_create_vanilla_hdnl hp of
        (ret, hp, None) \<Rightarrow> Some (ret, hp, None)
      | (ret, hp, Some h) \<Rightarrow>
          (case lhi_transform_set_2_hndl h s of (ret, h) \<Rightarrow>
             if ret \<noteq> SUCCESS then Some (ret, hp, None)
             else case xalloc_align hp of (ret, junk, hp) \<Rightarrow>
               if ret \<noteq> 0 then Some (HI_ERR_SYSTEM, hp, None)
               else do {
                 (ret, hp, h) \<leftarrow> create_eng hp
                   (h\<lparr>bucket_size := replicate (unat (table_size h)) junk, no_objects := 0\<rparr>);
                 if ret \<noteq> SUCCESS then Some (ret, hp, None) else Some (SUCCESS, hp, Some h)
               }))"

section \<open>Destroying a table\<close>

definition lhi_fini_internal :: "heap \<Rightarrow> hi_handle \<Rightarrow> (int \<times> heap \<times> hi_handle) option" where
  "lhi_fini_internal hp h =
     (let fini = (if list_eng (coll_eng h) then Some (lhi_fini_list hp h)
        else if array_eng (coll_eng h) then Some (lhi_fini_array hp h)
        else if coll_eng h = COLL_ENG_RBTREE then Some (lhi_fini_rbtree hp h)
        else None)
      in case fini of
           None \<Rightarrow> Some (HI_ERR_INTERNAL, hp, h)
         | Some r \<Rightarrow> do { (ret, hp, h) \<leftarrow> r; Some (0, free hp, h) })"

definition hi_fini :: "heap \<Rightarrow> hi_handle \<Rightarrow> (int \<times> heap) option" where
  "hi_fini hp h = do {
     (ret, hp, h) \<leftarrow> lhi_fini_internal hp h;
     Some (ret, if ret = 0 then free hp else hp)
   }"

section \<open>A new table is empty and well formed\<close>

definition set_ok :: "cmp_fn \<Rightarrow> hi_init_set \<Rightarrow> bool" where
  "set_ok cmp s \<longleftrightarrow> lhi_set_sanity_check s = SUCCESS \<and> fp_call (set_key_cmp s) = Some cmp"

lemma placed_empty: "\<forall>xs \<in> set xss. xs = [] \<Longrightarrow> placed V slot xss"
  by (simp add: placed_def all_set_conv_all_nth)

lemma empty_table:
  assumes "\<forall>xs \<in> set xss. xs = []"
  shows "map_of_table xss = Map.empty" and "entry_count xss = 0"
proof -
  have "concat xss = []"
    using assms by simp
  then show "map_of_table xss = Map.empty" and "entry_count xss = 0"
    by (simp_all add: map_of_table_def entry_count_concat)
qed

lemma handle_ok_empty:
  assumes "hash_func h \<noteq> None" and "fp_call (key_cmp h) = Some cmp" and "table_size h \<noteq> 0"
    and "length xss = unat (table_size h)" and "\<forall>xs \<in> set xss. xs = []" and "no_objects h = 0"
  shows "handle_ok V cmp h xss"
  using assms empty_table(2) [OF assms(5)] by (simp add: handle_ok_def placed_empty)

text \<open>
  A handle whose settings are set and whose buckets are not created yet, as \<open>hi_create\<close> and
  \<open>hi_rehash\<close> have it before the \<open>switch\<close>.
\<close>

definition blank :: "cmp_fn \<Rightarrow> hi_handle \<Rightarrow> bool" where
  "blank cmp h \<longleftrightarrow> hash_func h \<noteq> None \<and> fp_call (key_cmp h) = Some cmp \<and> table_size h \<noteq> 0 \<and>
     length (bucket_size h) = unat (table_size h) \<and> no_objects h = 0"

lemma create_list_ok:
  assumes "blank cmp h" and "coll_eng h = COLL_ENG_LIST \<or> coll_eng h = COLL_ENG_LIST_MTF" and "no_oom hp"
  shows "\<exists>hp' h'. create_eng hp h = Some (SUCCESS, hp', h') \<and> no_oom hp' \<and> live hp' = live hp + 1 \<and>
    list_inv V cmp h' \<and> same_settings h h' \<and> map_of_table (list_table h') = Map.empty \<and>
    no_objects h' = 0"
proof -
  obtain junk hp' where hp': "xalloc_align hp = (0, junk, hp')" "no_oom hp'" "live hp' = live hp + 1"
    by (rule xalloc_no_oom [OF assms(3)])
  define h' where "h' = h\<lparr>bucket_table := replicate (unat (table_size h)) [],
    bucket_size := replicate (unat (table_size h)) 0\<rparr>"
  have "list_eng (coll_eng h)" "length (bucket_size h) = unat (table_size h)"
    using assms(1,2) by (auto simp: blank_def)
  then have "create_eng hp h = Some (SUCCESS, hp', h')"
    by (simp add: create_eng_def lhi_create_eng_list_def hp'(1) h'_def)
  moreover have empty: "\<forall>xs \<in> set (list_table h'). xs = []"
    by (auto simp: list_table_def h'_def)
  moreover have "handle_ok V cmp h' (list_table h')"
    by (rule handle_ok_empty [OF _ _ _ _ empty])
      (use assms(1) in \<open>simp_all add: blank_def h'_def list_table_def\<close>)
  moreover have same: "same_settings h h'" "coll_eng h' = coll_eng h"
    "no_objects h' = no_objects h" "bucket_table h' = replicate (unat (table_size h)) []"
    "bucket_size h' = replicate (unat (table_size h)) 0"
    by (simp_all add: h'_def same_settings_def)
  ultimately have "list_inv V cmp h'"
    using assms(2) by (simp add: list_inv_def)
  then show ?thesis
    using \<open>create_eng hp h = Some (SUCCESS, hp', h')\<close> hp' same(1,3) assms(1)
      empty_table(1) [OF empty] by (simp add: blank_def)
qed

lemma create_rbtree_ok:
  assumes "blank cmp h" and "coll_eng h = COLL_ENG_RBTREE" and "no_oom hp"
  shows "\<exists>hp' h'. create_eng hp h = Some (SUCCESS, hp', h') \<and> no_oom hp' \<and> live hp' = live hp + 1 \<and>
    rbtree_inv V cmp h' \<and> same_settings h h' \<and> map_of_table (rbtree_table h') = Map.empty \<and>
    no_objects h' = 0"
proof -
  obtain junk hp' where hp': "malloc hp = (Some junk, hp')" "no_oom hp'" "live hp' = live hp + 1"
    by (rule malloc_no_oom [OF assms(3)])
  define h' where "h' = h\<lparr>trees := replicate (unat (table_size h)) RB_NULL,
    bucket_size := replicate (unat (table_size h)) 0\<rparr>"
  have "create_eng hp h = Some (SUCCESS, hp', h')"
    using assms(1,2) by (simp add: create_eng_def lhi_create_eng_rbtree_def blank_def hp'(1) h'_def)
  moreover have empty: "\<forall>xs \<in> set (rbtree_table h'). xs = []"
    by (auto simp: rbtree_table_def h'_def tree_entries_def)
  moreover have "handle_ok V cmp h' (rbtree_table h')"
    by (rule handle_ok_empty [OF _ _ _ _ empty])
      (use assms(1) in \<open>simp_all add: blank_def h'_def rbtree_table_def\<close>)
  moreover have "rb_ok RB_NULL"
    by (auto simp: rb_ok_def)
  moreover have same: "same_settings h h'" "coll_eng h' = coll_eng h"
    "no_objects h' = no_objects h" "trees h' = replicate (unat (table_size h)) RB_NULL"
    "bucket_size h' = replicate (unat (table_size h)) 0"
    by (simp_all add: h'_def same_settings_def)
  ultimately have "rbtree_inv V cmp h'"
    using assms(2) by (simp add: rbtree_inv_def)
  then show ?thesis
    using \<open>create_eng hp h = Some (SUCCESS, hp', h')\<close> hp' same(1,3) assms(1)
      empty_table(1) [OF empty] by (simp add: blank_def)
qed

lemma alloc_buckets_ok:
  "no_oom hp \<Longrightarrow> \<exists>hp'. alloc_buckets hp n m = (SUCCESS, hp', replicate m (Some (replicate n None))) \<and>
     no_oom hp' \<and> live hp' = live hp + int m"
proof (induction m arbitrary: hp)
  case 0
  then show ?case by simp
next
  case (Suc m)
  obtain junk hp1 where hp1: "xalloc_align hp = (0, junk, hp1)" "no_oom hp1" "live hp1 = live hp + 1"
    by (rule xalloc_no_oom [OF Suc.prems])
  then show ?case
    using Suc.IH [OF hp1(2)] by auto
qed

lemma create_array_ok:
  assumes "blank cmp h" and "coll_eng h = COLL_ENG_ARRAY" and "no_oom hp"
    and "coll_eng_array_size h \<noteq> 0"
  shows "\<exists>hp' h'. create_eng hp h = Some (SUCCESS, hp', h') \<and> no_oom hp' \<and>
    live hp' = live hp + 3 + int (unat (table_size h)) \<and>
    array_inv V cmp h' \<and> same_settings h h' \<and> map_of_table (array_table h') = Map.empty \<and>
    no_objects h' = 0"
proof -
  obtain j1 hp1 where 1: "xalloc_align hp = (0, j1, hp1)" "no_oom hp1" "live hp1 = live hp + 1"
    by (rule xalloc_no_oom [OF assms(3)])
  obtain j2 hp2 where 2: "xalloc_align hp1 = (0, j2, hp2)" "no_oom hp2" "live hp2 = live hp1 + 1"
    by (rule xalloc_no_oom [OF 1(2)])
  obtain j3 hp3 where 3: "xalloc_align hp2 = (0, j3, hp3)" "no_oom hp3" "live hp3 = live hp2 + 1"
    by (rule xalloc_no_oom [OF 2(2)])
  let ?n = "unat (table_size h)"
  let ?slots = "replicate (unat (coll_eng_array_size h)) None"
  obtain hp' where hp': "alloc_buckets hp3 (unat (coll_eng_array_size h)) ?n =
      (SUCCESS, hp', replicate ?n (Some ?slots))" "no_oom hp'" "live hp' = live hp3 + int ?n"
    using alloc_buckets_ok [OF 3(2)] by blast
  define h' where "h' = h\<lparr>bucket_array := replicate ?n (Some ?slots), slot_size := replicate ?n 0,
    slot_max := replicate ?n (coll_eng_array_size h)\<rparr>"
  have "create_eng hp h = Some (SUCCESS, hp', h')"
    using assms(2) 1 2 3 hp' by (simp add: create_eng_def lhi_create_eng_array_def h'_def)
  moreover have empty: "\<forall>xs \<in> set (array_table h'). xs = []"
    by (auto simp: array_table_def h'_def bucket_entries_def)
  moreover have "handle_ok V cmp h' (array_table h')"
    by (rule handle_ok_empty [OF _ _ _ _ empty])
      (use assms(1) in \<open>simp_all add: blank_def h'_def array_table_def\<close>)
  moreover have same: "same_settings h h'" "coll_eng h' = coll_eng h"
    "no_objects h' = no_objects h" "bucket_array h' = replicate ?n (Some ?slots)"
    "slot_size h' = replicate ?n 0" "slot_max h' = replicate ?n (coll_eng_array_size h)"
    by (simp_all add: h'_def same_settings_def)
  moreover have "bucket_ok (Some ?slots) 0 (coll_eng_array_size h)"
    using assms(4) by (simp add: bucket_ok_def)
  ultimately have "array_inv V cmp h'"
    using assms(2) by (simp add: array_inv_def)
  then show ?thesis
    using \<open>create_eng hp h = Some (SUCCESS, hp', h')\<close> 1(3) 2(3) 3(3) hp' same(1,3) assms(1)
      empty_table(1) [OF empty] by (simp add: blank_def)
qed

text \<open>\<open>hi_create\<close> from settings that pass the checks, up to the engine data.\<close>

lemma hi_create_blank:
  assumes "set_ok cmp s" and "no_oom hp"
  obtains hp' h where "hi_create hp s = do {
      (ret, hp, h) \<leftarrow> create_eng hp' h;
      if ret \<noteq> SUCCESS then Some (ret, hp, None) else Some (SUCCESS, hp, Some h)
    }" and "blank cmp h" and "no_oom hp'" and "live hp' = live hp + 2"
    and "table_size h = set_table_size s" and "coll_eng h = set_coll_eng s"
    and "rehash_auto h = set_rehash_auto s" and "rehash_threshold h = set_rehash_threshold s"
    and "coll_eng_array_size h = set_coll_eng_array_size s" and "hash_func h = set_hash_func s"
    and "key_cmp h = set_key_cmp s" and "hash2_func h = set_hash2_func s"
proof -
  obtain j1 hp1 where 1: "xalloc_align hp = (0, j1, hp1)" "no_oom hp1" "live hp1 = live hp + 1"
    by (rule xalloc_no_oom [OF assms(2)])
  obtain j2 hp2 where 2: "xalloc_align hp1 = (0, j2, hp2)" "no_oom hp2" "live hp2 = live hp1 + 1"
    by (rule xalloc_no_oom [OF 1(2)])
  have sane: "lhi_set_sanity_check s = SUCCESS" and cmp: "fp_call (set_key_cmp s) = Some cmp"
    using assms(1) by (simp_all add: set_ok_def)
  define h where "h = (snd (lhi_transform_set_2_hndl zero_handle s))
    \<lparr>bucket_size := replicate (unat (set_table_size s)) j2, no_objects := 0\<rparr>"
  have create: "hi_create hp s = do {
      (ret, hp, h) \<leftarrow> create_eng hp2 h;
      if ret \<noteq> SUCCESS then Some (ret, hp, None) else Some (SUCCESS, hp, Some h)
    }"
    using sane 1(1) 2(1)
    by (simp add: hi_create_def lhi_create_vanilla_hdnl_def lhi_transform_set_2_hndl_def h_def)
  have fields: "table_size h = set_table_size s" "coll_eng h = set_coll_eng s"
    "rehash_auto h = set_rehash_auto s" "rehash_threshold h = set_rehash_threshold s"
    "coll_eng_array_size h = set_coll_eng_array_size s" "hash_func h = set_hash_func s"
    "key_cmp h = set_key_cmp s" "hash2_func h = set_hash2_func s"
    "length (bucket_size h) = unat (set_table_size s)" "no_objects h = 0"
    using sane by (simp_all add: h_def lhi_transform_set_2_hndl_def)
  have "set_table_size s \<noteq> 0" "set_hash_func s \<noteq> None"
    using sane by (auto simp: lhi_set_sanity_check_def hi_defs split: if_splits)
  then have "blank cmp h"
    using cmp by (simp add: blank_def fields)
  then show ?thesis
    using that [OF create] 1(3) 2(2,3) fields by simp
qed

end
