(* ===== verification/Hi_operations.thy ===== *)
theory Hi_operations
  imports Lib_init
begin

text \<open>
  The public operations on a table (\<open>lib/hi_operations.c\<close>) and \<open>hi_rehash\<close> (\<open>lib/lib_init.c\<close>). An
  insertion may rehash the table, and rehashing inserts every entry into a new table whose
  automatic rehashing is off, so the recursion of \<open>hi_insert\<close> and \<open>hi_rehash\<close> is one level deep.
  The model takes the depth as a parameter, and proves one level enough.
\<close>

section \<open>Lookup, get and remove\<close>

definition hi_lookup :: "hi_handle \<Rightarrow> key \<Rightarrow> int option" where
  "hi_lookup h key =
     (if list_eng (coll_eng h) then lhi_lookup_list h key
      else if array_eng (coll_eng h) then Some FAILURE
      else if coll_eng h = COLL_ENG_RBTREE then Some FAILURE
      else Some HI_ERR_INTERNAL)"

definition hi_get :: "hi_handle \<Rightarrow> key \<Rightarrow> (int \<times> ptr option \<times> hi_handle) option" where
  "hi_get h key =
     (if list_eng (coll_eng h) then lhi_get_list h key
      else if coll_eng h = COLL_ENG_RBTREE then lhi_get_rbtree h key
      else if array_eng (coll_eng h) then lhi_get_array h key
      else Some (HI_ERR_INTERNAL, None, h))"

definition hi_remove ::
  "heap \<Rightarrow> hi_handle \<Rightarrow> key \<Rightarrow> (int \<times> ptr option \<times> heap \<times> hi_handle) option" where
  "hi_remove hp h key =
     (if list_eng (coll_eng h) then lhi_remove_list hp h key
      else if coll_eng h = COLL_ENG_RBTREE then lhi_remove_rbtree hp h key
      else if array_eng (coll_eng h) then lhi_remove_array hp h key
      else Some (HI_ERR_INTERNAL, None, hp, h))"

text \<open>The \<open>switch\<close> of \<open>hi_insert\<close>.\<close>

definition insert_eng ::
  "heap \<Rightarrow> hi_handle \<Rightarrow> key \<Rightarrow> ptr \<Rightarrow> (int \<times> heap \<times> hi_handle) option" where
  "insert_eng hp h key data =
     (if list_eng (coll_eng h) then lhi_insert_list hp h key data
      else if array_eng (coll_eng h) then lhi_insert_array hp h key data
      else if coll_eng h = COLL_ENG_RBTREE then lhi_insert_rbtree hp h key data
      else Some (HI_ERR_INTERNAL, hp, h))"

section \<open>Rehashing and insertion\<close>

type_synonym insert_fn = "heap \<Rightarrow> hi_handle \<Rightarrow> key \<Rightarrow> ptr \<Rightarrow> (int \<times> heap \<times> hi_handle) option"

text \<open>
  The body of the loop of \<open>hi_rehash\<close>: the new table copies \<open>keylen\<close> bytes from the key pointer.
\<close>

definition rehash_body :: "insert_fn \<Rightarrow> hi_handle visit_body" where
  "rehash_body ins new hp key keylen data =
     (if unat keylen \<le> length key then ins hp new (take (unat keylen) key) data else None)"

text \<open>
  \<open>hi_rehash\<close>, over the insertion it calls. After a failed insertion the code frees the new handle
  and then writes to it, which is undefined. On success the new handle is copied over the old one;
  its block is not freed. The other error returns free nothing.
\<close>

definition hi_rehash_with ::
  "insert_fn \<Rightarrow> heap \<Rightarrow> hi_handle \<Rightarrow> u32 \<Rightarrow> (int \<times> heap \<times> hi_handle) option" where
  "hi_rehash_with ins hp h new_table_size =
     (case lhi_create_vanilla_hdnl hp of
        (ret, hp, None) \<Rightarrow> Some (ret, hp, h)
      | (ret, hp, Some new) \<Rightarrow>
          (let new = (lhi_transform_hndl_2_hndl h new)\<lparr>table_size := new_table_size\<rparr>
           in case xalloc_align hp of (ret, junk, hp) \<Rightarrow>
             if ret \<noteq> 0 then Some (HI_ERR_SYSTEM, hp, h)
             else do {
               (ret, hp, new) \<leftarrow> create_eng hp
                 (new\<lparr>bucket_size := replicate (unat new_table_size) junk, no_objects := 0\<rparr>);
               if ret \<noteq> SUCCESS then Some (ret, hp, h)
               else do {
                 (ret, hp, iterator) \<leftarrow> hi_iterator_create hp h;
                 (case iterator of
                    None \<Rightarrow> Some (ret, hp, h)
                  | Some i \<Rightarrow> do {
                      let auto_rehash = rehash_auto new;
                      (failed, ret, hp, i, new) \<leftarrow>
                        visit_loop (rehash_body ins) hp h i (new\<lparr>rehash_auto := 0\<rparr>);
                      let hp = hi_iterator_fini hp i;
                      if failed then do {
                        (r, hp) \<leftarrow> hi_fini hp new;
                        if r = 0 then None else Some (ret, hp, h)
                      }
                      else if ret \<noteq> HI_ERR_NODATA then Some (ret, hp, h)
                      else do {
                        (_, hp, _) \<leftarrow> lhi_fini_internal hp h;
                        Some (SUCCESS, hp, new\<lparr>rehash_auto := auto_rehash\<rparr>)
                      }
                    })
               }
             }))"

text \<open>
  An unsigned integer as a \<open>float\<close>: exact up to 24 bits, else rounded to the nearest multiple of
  the unit in the last place, ties to even.
\<close>

definition float_of_u32 :: "u32 \<Rightarrow> rat" where
  "float_of_u32 w =
     (let n = unat w;
          bits = length (takeWhile (\<lambda>i. 2 ^ i \<le> n) [0 ..< 32]);
          ulp = 2 ^ (bits - 24);
          q = n div ulp; r = n mod ulp;
          q' = (if 2 * r < ulp then q else if ulp < 2 * r then q + 1
                else if even q then q else q + 1)
      in of_nat ((if r = 0 then q else q') * ulp))"

text \<open>
  \<open>do_rehash\<close>. The load is an integer division, converted to \<open>float\<close> afterwards; the result of
  \<open>hi_rehash\<close> is ignored.
\<close>

definition do_rehash_with ::
  "insert_fn \<Rightarrow> heap \<Rightarrow> hi_handle \<Rightarrow> (heap \<times> hi_handle) option" where
  "do_rehash_with ins hp h =
     (if rehash_auto h = 0 then Some (hp, h)
      else if table_size h = 0 then None
      else (let lf = float_of_u32 (no_objects h div table_size h)
        in if rehash_threshold h < lf then do {
             (_, hp, h) \<leftarrow> hi_rehash_with ins hp h (table_size h * 2);
             Some (hp, h)
           } else Some (hp, h)))"

fun hi_insert_at :: "nat \<Rightarrow> insert_fn" where
  "hi_insert_at d hp h key data = do {
     l \<leftarrow> hi_lookup h key;
     if l = SUCCESS then Some (HI_ERR_DUPKEY, hp, h)
     else do {
       (hp, h) \<leftarrow> (case d of
          0 \<Rightarrow> if rehash_auto h = 0 then Some (hp, h) else None
        | Suc d' \<Rightarrow> do_rehash_with (hi_insert_at d') hp h);
       insert_eng hp h key data
     }
   }"

declare hi_insert_at.simps [simp del]

definition hi_insert :: insert_fn where
  "hi_insert = hi_insert_at 1"

definition hi_rehash :: "heap \<Rightarrow> hi_handle \<Rightarrow> u32 \<Rightarrow> (int \<times> heap \<times> hi_handle) option" where
  "hi_rehash = hi_rehash_with (hi_insert_at 0)"

text \<open>The load factor of \<open>lib/hi_helper.c\<close>, the table size over the number of entries.\<close>

definition hi_table_load_factor :: "hi_handle \<Rightarrow> rat option" where
  "hi_table_load_factor h =
     (if no_objects h = 0 then None else Some (of_nat (unat (table_size h)) / of_nat (unat (no_objects h))))"

section \<open>One level of recursion is enough\<close>

lemma hi_insert_at_0:
  "hi_insert_at 0 hp h key data = do {
     l \<leftarrow> hi_lookup h key;
     if l = SUCCESS then Some (HI_ERR_DUPKEY, hp, h)
     else if rehash_auto h = 0 then insert_eng hp h key data else None
   }"
  by (simp add: hi_insert_at.simps cong: if_cong)

lemma hi_insert_at_Suc:
  "hi_insert_at (Suc d) hp h key data = do {
     l \<leftarrow> hi_lookup h key;
     if l = SUCCESS then Some (HI_ERR_DUPKEY, hp, h)
     else do {
       (hp, h) \<leftarrow> do_rehash_with (hi_insert_at d) hp h;
       insert_eng hp h key data
     }
   }"
  by (subst hi_insert_at.simps) (simp only: nat.case)

lemma hi_insert_at_off:
  "rehash_auto h = 0 \<Longrightarrow> hi_insert_at d hp h key data = hi_insert_at 0 hp h key data"
  by (cases d) (simp_all add: hi_insert_at_0 hi_insert_at_Suc do_rehash_with_def cong: if_cong)

lemma array_grow_auto:
  "array_grow hp h b = Some (g, hp', h') \<Longrightarrow> rehash_auto h' = rehash_auto h"
  by (auto simp: array_grow_def bind_Some_iff Let_def split: if_splits)

lemma array_put_auto:
  "array_put hp h b key data = Some (r, hp', h') \<Longrightarrow> rehash_auto h' = rehash_auto h"
  by (cases "xalloc_align hp")
    (auto simp: array_put_def bind_Some_iff Let_def split: if_split_asm option.split_asm)

lemma insert_eng_auto:
  assumes "insert_eng hp h key data = Some (r, hp', h')"
  shows "rehash_auto h' = rehash_auto h"
proof -
  consider "lhi_insert_list hp h key data = Some (r, hp', h')"
    | "lhi_insert_array hp h key data = Some (r, hp', h')"
    | "lhi_insert_rbtree hp h key data = Some (r, hp', h')" | "h' = h"
    using assms by (auto simp: insert_eng_def split: if_splits)
  then show ?thesis
  proof cases
    case 1
    moreover obtain a j hp1 where x1: "xalloc_align hp = (a, j, hp1)"
      by (cases "xalloc_align hp")
    moreover obtain a' j' hp2 where "xalloc_align hp1 = (a', j', hp2)"
      by (cases "xalloc_align hp1")
    ultimately show ?thesis
      by (auto simp: lhi_insert_list_def bind_Some_iff Let_def split: if_split_asm)
  next
    case 2
    then show ?thesis
      by (auto simp: lhi_insert_array_def bind_Some_iff split: if_splits
          dest!: array_grow_auto array_put_auto)
  next
    case 3
    moreover obtain e hp1 where "lhi_rb_entry_new hp key data = (e, hp1)"
      by (cases "lhi_rb_entry_new hp key data")
    ultimately show ?thesis
      by (auto simp: lhi_insert_rbtree_def bind_Some_iff split: if_split_asm option.split_asm)
  qed simp
qed

lemma visit_loop_cong:
  assumes "\<And>s hp k l d. P s \<Longrightarrow> body s hp k l d = body' s hp k l d"
    and "\<And>s hp k l d r hp' s'. P s \<Longrightarrow> body s hp k l d = Some (r, hp', s') \<Longrightarrow> P s'"
    and "P s"
  shows "visit_loop body hp h i s = visit_loop body' hp h i s"
  using assms
proof (induction body hp h i s rule: visit_loop.induct)
  case (1 body hp h i s)
  note eq = "1.prems"(1) [OF "1.prems"(3)]
  show ?case
  proof (cases "hi_iterator_getnext hp h i")
    case None
    then show ?thesis by (simp add: visit_loop.simps)
  next
    case (Some r)
    obtain ret hp1 i1 e where r: "r = (ret, hp1, i1, e)"
      by (cases r)
    show ?thesis
    proof (cases e)
      case None
      then show ?thesis
        using Some r by (simp add: visit_loop.simps)
    next
      case (Some d)
      obtain data k l where d: "d = (data, k, l)"
        by (cases d)
      note got = \<open>hi_iterator_getnext hp h i = Some r\<close> [unfolded r \<open>e = Some d\<close> d]
      show ?thesis
      proof (cases "body s hp1 k l data")
        case None
        then show ?thesis
          by (simp add: visit_loop.simps [of _ hp] got eq [symmetric])
      next
        case (Some q)
        obtain ret2 hp2 s2 where q: "q = (ret2, hp2, s2)"
          by (cases q)
        have b: "body s hp1 k l data = Some (ret2, hp2, s2)"
          using Some q by simp
        show ?thesis
        proof (cases "ret2 = SUCCESS")
          case True
          have "visit_loop body hp2 h i1 s2 = visit_loop body' hp2 h i1 s2"
            by (rule "1.IH" [OF got refl refl refl refl refl refl b refl refl])
              (use True "1.prems"(1,2) "1.prems"(2) [OF "1.prems"(3) b] in auto)
          then show ?thesis
            by (simp add: visit_loop.simps [of _ hp] got eq [symmetric] b True)
        next
          case False
          then show ?thesis
            by (simp add: visit_loop.simps [of _ hp] got eq [symmetric] b)
        qed
      qed
    qed
  qed
qed

lemma rehash_depth:
  "hi_rehash_with (hi_insert_at d) hp h n = hi_rehash_with (hi_insert_at 0) hp h n"
proof -
  have "visit_loop (rehash_body (hi_insert_at d)) hp h i (new\<lparr>rehash_auto := 0\<rparr>) =
      visit_loop (rehash_body (hi_insert_at 0)) hp h i (new\<lparr>rehash_auto := 0\<rparr>)" for hp i new
  proof (rule visit_loop_cong [where P = "\<lambda>s. rehash_auto s = 0"])
    show "rehash_body (hi_insert_at d) s hp k l v = rehash_body (hi_insert_at 0) s hp k l v"
      if "rehash_auto s = 0" for s hp k l v
      using hi_insert_at_off [OF that] by (simp add: rehash_body_def)
    show "rehash_auto s' = 0" if "rehash_auto s = 0"
      "rehash_body (hi_insert_at d) s hp k l v = Some (r, hp', s')" for s hp k l v r hp' s'
      using that hi_insert_at_off [OF that(1), of d] insert_eng_auto
      by (auto simp: rehash_body_def hi_insert_at_0 bind_Some_iff split: if_splits)
  qed simp
  note loop = this
  show ?thesis
    unfolding hi_rehash_with_def loop by (rule refl)
qed

text \<open>
  C37. However deep the recursion of insertion and rehashing is allowed to go, it goes one level:
  every larger bound gives the function \<open>hi_insert\<close>.
\<close>

theorem hi_insert_depth: "hi_insert_at (Suc d) = hi_insert"
proof -
  have "do_rehash_with (hi_insert_at d) hp h = do_rehash_with (hi_insert_at 0) hp h" for hp h
    by (simp only: do_rehash_with_def rehash_depth [of d] cong: if_cong)
  then show ?thesis
    by (intro ext) (simp only: hi_insert_def One_nat_def hi_insert_at_Suc)
qed

end
