(* ===== verification/Hi_table.thy ===== *)
theory Hi_table
  imports Hi_operations
begin

text \<open>
  The table as a whole: \<open>hi_insert\<close>, \<open>hi_get\<close>, \<open>hi_remove\<close> and \<open>hi_rehash\<close> against the abstract
  map of keys to data. The locale \<open>table_engine\<close> ties an engine that meets \<open>coll_engine\<close> to the
  public operations; \<open>rehash_engine\<close> adds what rehashing needs; \<open>table_api\<close> is the contract the
  clients rely on, from which the theorem on sequences of commands follows.
\<close>

section \<open>Public operations of an engine\<close>

text \<open>
  \<open>looks_up\<close> tells whether \<open>hi_lookup\<close> searches the engine for the key; otherwise the engine's
  insertion does.
\<close>

locale table_engine = coll_engine +
  fixes looks_up :: bool
  assumes api_get: "inv h \<Longrightarrow> hi_get h k = get h k"
    and api_remove: "inv h \<Longrightarrow> hi_remove hp h k = rem hp h k"
    and api_insert: "inv h \<Longrightarrow> insert_eng hp h k d = ins hp h k d"
    and lookup_missing: "inv h \<Longrightarrow> V k \<Longrightarrow> map_of_table (table h) k = None \<Longrightarrow>
      \<exists>r. hi_lookup h k = Some r \<and> r \<noteq> SUCCESS"
    and lookup_present: "inv h \<Longrightarrow> V k \<Longrightarrow> map_of_table (table h) k = Some v \<Longrightarrow>
      (if looks_up then hi_lookup h k = Some SUCCESS
       else \<exists>r. hi_lookup h k = Some r \<and> r \<noteq> SUCCESS \<and> (\<forall>hp d. ins hp h k d = Some (HI_ERR_DUPKEY, hp, h)))"
    and auto_inv: "inv h \<Longrightarrow> inv (h\<lparr>rehash_auto := r\<rparr>) \<and> table (h\<lparr>rehash_auto := r\<rparr>) = table h"
begin

text \<open>Insertion without automatic rehashing.\<close>

lemma insert_off_fresh:
  assumes "inv h" and "V k" and "no_oom hp" and "map_of_table (table h) k = None"
    and "unat (no_objects h) < max_objects" and "rehash_auto h = 0"
  shows "\<exists>hp' h'. hi_insert_at n hp h k v = Some (SUCCESS, hp', h') \<and> no_oom hp' \<and>
    live hp' = live hp + blocks \<and> inv h' \<and> same_settings h h' \<and>
    map_of_table (table h') = (map_of_table (table h))(k \<mapsto> v) \<and> no_objects h' = no_objects h + 1"
  unfolding hi_insert_at_off [OF assms(6), of n]
  using ins_fresh [OF assms(1-5), of v] lookup_missing [OF assms(1,2,4)] assms(1,6)
  by (auto simp: hi_insert_at_0 api_insert)

lemma insert_off_present:
  assumes "inv h" and "V k" and "map_of_table (table h) k = Some v" and "rehash_auto h = 0"
  shows "hi_insert_at n hp h k d = Some (HI_ERR_DUPKEY, hp, h)"
  unfolding hi_insert_at_off [OF assms(4), of n]
  using lookup_present [OF assms(1-3)] assms(1,4)
  by (auto simp: hi_insert_at_0 api_insert split: if_splits)

end

section \<open>Insertion without memory\<close>

text \<open>
  The extension for engines whose insertion is atomic: it stores the entry, or changes nothing and
  keeps no block.
\<close>

locale atomic_engine = table_engine +
  assumes ins_atomic: "inv h \<Longrightarrow> V k \<Longrightarrow> map_of_table (table h) k = None \<Longrightarrow>
      unat (no_objects h) < max_objects \<Longrightarrow>
      \<exists>ret hp' h'. ins hp h k v = Some (ret, hp', h') \<and>
        (if ret = SUCCESS then live hp' = live hp + blocks \<and> inv h' \<and> same_settings h h' \<and>
           map_of_table (table h') = (map_of_table (table h))(k \<mapsto> v)
         else h' = h \<and> live hp' = live hp)"
begin

lemma insert_full:
  assumes "inv h" and "V k" and "unat (no_objects h) < max_objects" and "rehash_auto h = 0"
  shows "\<exists>ret hp' h'. hi_insert hp h k v = Some (ret, hp', h') \<and>
    (if ret = SUCCESS then map_of_table (table h) k = None \<and> live hp' = live hp + blocks \<and>
       inv h' \<and> same_settings h h' \<and> map_of_table (table h') = (map_of_table (table h))(k \<mapsto> v)
     else h' = h \<and> live hp' = live hp)"
proof (cases "map_of_table (table h) k")
  case None
  obtain l where "hi_lookup h k = Some l" "l \<noteq> SUCCESS"
    using lookup_missing [OF assms(1,2) None] by blast
  then have "hi_insert hp h k v = ins hp h k v"
    using hi_insert_at_off [OF assms(4), of 1] assms(1,4)
    by (simp add: hi_insert_def hi_insert_at_0 api_insert)
  then show ?thesis
    using ins_atomic [OF assms(1,2) None assms(3), of hp v] None
    by (elim exE) (intro exI, auto split: if_split_asm)
next
  case (Some w)
  then show ?thesis
    using insert_off_present [OF assms(1,2) Some assms(4), of 1 hp v]
    by (simp add: hi_insert_def hi_defs)
qed

lemma insert_atomic:
  assumes "inv h" and "V k" and "unat (no_objects h) < max_objects" and "rehash_auto h = 0"
  shows "\<exists>ret hp' h'. hi_insert hp h k v = Some (ret, hp', h') \<and>
    (if ret = SUCCESS then map_of_table (table h) k = None \<and> live hp' = live hp + blocks \<and>
       map_of_table (table h') = (map_of_table (table h))(k \<mapsto> v)
     else h' = h \<and> live hp' = live hp)"
  using insert_full [OF assms, of hp v] by (elim exE) (intro exI, auto split: if_split_asm)

end

section \<open>Rehashing\<close>

lemma placed_slot:
  "placed V slot xss \<Longrightarrow> i < length xss \<Longrightarrow> k \<in> fst ` set (xss ! i) \<Longrightarrow> slot k = i"
  unfolding placed_def by blast

lemma placed_distinct:
  assumes "placed V slot xss"
  shows "distinct (map fst (concat xss))" and "(k, v) \<in> set (concat xss) \<Longrightarrow> V k"
proof -
  show "V k" if kv: "(k, v) \<in> set (concat xss)"
  proof -
    obtain ys where "ys \<in> set xss" "(k, v) \<in> set ys"
      using kv by auto
    moreover obtain i where "i < length xss" "ys = xss ! i"
      using \<open>ys \<in> set xss\<close> by (auto simp: in_set_conv_nth)
    ultimately show ?thesis
      using placedD(2) [OF assms] by blast
  qed
  have "distinct (map fst (concat (drop i xss)))" if "i \<le> length xss" for i
    using that
  proof (induction "length xss - i" arbitrary: i)
    case 0
    then show ?case by simp
  next
    case (Suc n)
    then have i: "i < length xss" by simp
    have "\<forall>ys \<in> set (drop (Suc i) xss). fst ` set (xss ! i) \<inter> fst ` set ys = {}"
    proof
      fix ys
      assume "ys \<in> set (drop (Suc i) xss)"
      then obtain j where "j < length xss" "j \<noteq> i" "ys = xss ! j"
        using in_set_take_drop [of ys i xss] by auto
      then have "slot x = i" "slot x = j" if "x \<in> fst ` set (xss ! i)" "x \<in> fst ` set ys" for x
        using placed_slot [OF assms i] placed_slot [OF assms \<open>j < length xss\<close>] that \<open>ys = xss ! j\<close>
        by blast+
      then show "fst ` set (xss ! i) \<inter> fst ` set ys = {}"
        using \<open>j \<noteq> i\<close> by blast
    qed
    moreover have "distinct (map fst (xss ! i))"
      using assms i by (simp add: placed_def)
    moreover have "distinct (map fst (concat (drop (Suc i) xss)))"
      using Suc.hyps(1) [of "Suc i"] Suc.hyps(2) i by simp
    ultimately show ?case
      using i by (auto simp: Cons_nth_drop_Suc [symmetric])
  qed
  from this [of 0] show "distinct (map fst (concat xss))"
    by simp
qed

lemma distinct_submset:
  assumes "distinct (map fst xs)" and "add_mset (k, d) es \<subseteq># mset xs"
  shows "k \<notin> fst ` set_mset es" and "(k, d) \<in> set xs"
proof -
  show "(k, d) \<in> set xs"
    using mset_subset_eqD [OF assms(2), of "(k, d)"] by simp
  have "image_mset fst (add_mset (k, d) es) \<subseteq># mset (map fst xs)"
    using image_mset_subseteq_mono [OF assms(2), of fst] by simp
  then have "count (image_mset fst (add_mset (k, d) es)) k \<le> count (mset (map fst xs)) k"
    by (rule mset_subset_eq_count)
  also have "\<dots> \<le> 1"
    using assms(1) by (simp add: distinct_count_atmost_1)
  finally have "count (image_mset fst es) k = 0"
    by simp
  then show "k \<notin> fst ` set_mset es"
    by (metis count_eq_zero_iff set_image_mset)
qed

lemma float_of_u32_0: "float_of_u32 0 = 0"
  by (simp add: float_of_u32_def Let_def)

text \<open>
  \<open>fini_frees\<close> is the number of blocks that destroying the table gives back, apart from the block
  of the handle.
\<close>

locale rehash_engine = table_engine + iterator_engine +
  fixes fini_frees :: "hi_handle \<Rightarrow> int"
  assumes create_ok: "inv h0 \<Longrightarrow> blank cmp h \<Longrightarrow> coll_eng h = coll_eng h0 \<Longrightarrow> no_oom hp \<Longrightarrow>
      \<exists>hp' h'. create_eng hp h = Some (SUCCESS, hp', h') \<and> no_oom hp' \<and> live hp' = live hp + 1 \<and>
        inv h' \<and> same_settings h h' \<and> map_of_table (table h') = Map.empty \<and> no_objects h' = 0"
    and fini_ok: "inv h \<Longrightarrow> \<exists>hp' h'. lhi_fini_internal hp h = Some (0, hp', h') \<and>
      no_oom hp' = no_oom hp \<and> live hp' = live hp - fini_frees h"
begin

text \<open>
  What holds between two insertions of \<open>hi_rehash\<close>, while the entries \<open>es\<close> of the old table \<open>h\<close> are
  still to come: the new table \<open>new\<close> maps the other keys as the old one does.
\<close>

definition rehashing :: "hi_handle \<Rightarrow> hi_handle \<Rightarrow> int \<Rightarrow> (key \<times> ptr) multiset \<Rightarrow> hi_handle \<Rightarrow> int \<Rightarrow> bool" where
  "rehashing h new0 lv es new lv' \<longleftrightarrow>
     inv new \<and> same_settings new0 new \<and> es \<subseteq># mset (concat (table h)) \<and>
     map_of_table (table new) =
       (\<lambda>k. if k \<in> fst ` set_mset es then None else map_of_table (table h) k) \<and>
     unat (no_objects new) + size es = unat (no_objects h) \<and>
     lv' = lv + blocks * int (unat (no_objects new))"

lemma rehash_step:
  assumes inv: "inv h" and step: "rehashing h new0 lv (add_mset (k, d) es) new (live hp)"
    and "no_oom hp" and off: "rehash_auto new0 = 0" and size: "unat (no_objects h) \<le> max_objects"
  shows "\<exists>hp' new'. rehash_body (hi_insert_at n) new hp k (word_of_nat (length k)) d =
      Some (SUCCESS, hp', new') \<and> no_oom hp' \<and> rehashing h new0 lv es new' (live hp')"
proof -
  have placed: "placed V (slot_of h) (table h)"
    using inv_ok [OF inv] by (simp add: handle_ok_def)
  have new: "inv new" "same_settings new0 new"
    "add_mset (k, d) es \<subseteq># mset (concat (table h))"
    "map_of_table (table new) =
      (\<lambda>k'. if k' \<in> fst ` set_mset (add_mset (k, d) es) then None else map_of_table (table h) k')"
    "unat (no_objects new) + size (add_mset (k, d) es) = unat (no_objects h)"
    "live hp = lv + blocks * int (unat (no_objects new))"
    using step by (simp_all add: rehashing_def)
  note uniq = distinct_submset [OF placed_distinct(1) [OF placed] new(3)]
  have "V k"
    using placed_distinct(2) [OF placed uniq(2)] .
  then have len: "unat (word_of_nat (length k) :: u32) = length k"
    using key_length by simp
  have d: "map_of_table (table h) k = Some d"
    using placed_distinct(1) [OF placed] uniq(2) by (simp add: map_of_table_def)
  have none: "map_of_table (table new) k = None"
    by (simp add: new(4))
  have room: "unat (no_objects new) < max_objects"
    using new(5) size by simp
  have "rehash_auto new = 0"
    using new(2) off by (simp add: same_settings_def)
  then obtain hp' new' where ins: "hi_insert_at n hp new k d = Some (SUCCESS, hp', new')" "no_oom hp'"
    "live hp' = live hp + blocks" "inv new'" "same_settings new new'"
    "map_of_table (table new') = (map_of_table (table new))(k \<mapsto> d)"
    "no_objects new' = no_objects new + 1"
    using insert_off_fresh [OF new(1) \<open>V k\<close> \<open>no_oom hp\<close> none room] by blast
  have n: "unat (no_objects new') = unat (no_objects new) + 1"
    using room by (simp add: ins(7) unat_plus_one_u32 max_objects_def)
  have "map_of_table (table new') =
      (\<lambda>k'. if k' \<in> fst ` set_mset es then None else map_of_table (table h) k')"
  proof
    fix k'
    show "map_of_table (table new') k' =
        (if k' \<in> fst ` set_mset es then None else map_of_table (table h) k')"
      using uniq(1) d by (cases "k' = k") (simp_all add: ins(6) new(4))
  qed
  moreover have "es \<subseteq># mset (concat (table h))"
    using subset_mset.order_trans [OF _ new(3), of es] by simp
  moreover have "unat (no_objects new') + size es = unat (no_objects h)"
    using new(5) n by simp
  moreover have "live hp' = lv + blocks * int (unat (no_objects new'))"
    unfolding ins(3) new(6) n by (simp add: distrib_left)
  ultimately have "rehashing h new0 lv es new' (live hp')"
    using ins(4) same_settings_trans [OF new(2) ins(5)] unfolding rehashing_def by blast
  then show ?thesis
    using ins(1,2) len by (simp add: rehash_body_def)
qed

text \<open>
  The loop of \<open>hi_rehash\<close>, from a new table without entries: it ends with the entries of the old
  table in the new one.
\<close>

lemma rehash_visit:
  assumes inv: "inv h" and "no_oom hp" and "no_objects h \<noteq> 0" and size: "unat (no_objects h) \<le> max_objects"
    and new: "inv new" "map_of_table (table new) = Map.empty" "no_objects new = 0"
  obtains hp4 i hp5 i' new4 where "hi_iterator_create hp h = Some (SUCCESS, hp4, Some i)"
    and "visit_loop (rehash_body (hi_insert_at d)) hp4 h i (new\<lparr>rehash_auto := 0\<rparr>) =
      Some (False, HI_ERR_NODATA, hp5, i', new4)"
    and "no_oom hp5" and "fst (lhi_bucket_array_free hp5 (it_a i')) = hp5"
    and "inv new4" and "same_settings (new\<lparr>rehash_auto := 0\<rparr>) new4"
    and "map_of_table (table new4) = map_of_table (table h)" and "no_objects new4 = no_objects h"
    and "live hp5 = live hp + 1 + blocks * int (unat (no_objects h))"
proof -
  have ok: "handle_ok V cmp h (table h)"
    by (rule inv_ok [OF inv])
  have count: "size (mset (concat (table h))) = unat (no_objects h)"
    using ok by (simp add: handle_ok_def entry_count_concat)
  have "unat (no_objects h) \<noteq> 0"
    using assms(3) by (simp add: unat_eq_0)
  then have "concat (table h) \<noteq> []"
    using count by (metis mset.simps(1) size_empty)
  then obtain hp4 i where 4: "hi_iterator_create hp h = Some (SUCCESS, hp4, Some i)" "no_oom hp4"
    "live hp4 = live hp + 4" "it_holds (table h) i (mset (concat (table h)))"
    using iterator_create_spec [OF inv assms(2)] by blast
  define new3 where "new3 = new\<lparr>rehash_auto := 0\<rparr>"
  have new3: "inv new3" "table new3 = table new" "no_objects new3 = 0" "rehash_auto new3 = 0"
    using auto_inv [OF new(1), of 0] new(3) by (simp_all add: new3_def)
  have "map_of_table (table new3) = (\<lambda>k. if k \<in> fst ` set_mset (mset (concat (table h))) then None
      else map_of_table (table h) k)"
  proof
    fix k
    show "map_of_table (table new3) k = (if k \<in> fst ` set_mset (mset (concat (table h))) then None
        else map_of_table (table h) k)"
      unfolding new3(2) new(2) using map_of_eq_None_iff [of "concat (table h)" k]
      by (auto simp: map_of_table_def simp del: set_concat)
  qed
  then have start: "rehashing h new3 (live hp4) (mset (concat (table h))) new3 (live hp4)"
    using new3 count by (simp add: rehashing_def)
  have "\<exists>hp' i' s'. visit_loop (rehash_body (hi_insert_at d)) hp4 h i new3 =
      Some (False, HI_ERR_NODATA, hp', i', s') \<and> no_oom hp' \<and>
      rehashing h new3 (live hp4) {#} s' (live hp' + 3) \<and>
      fst (lhi_bucket_array_free hp' (it_a i')) = hp'"
    by (rule visit_loop_spec [where P = "rehashing h new3 (live hp4)",
          OF inv 4(2,4) start]) (rule rehash_step [OF inv _ _ new3(4) size])
  then obtain hp5 i' new4 where 5:
    "visit_loop (rehash_body (hi_insert_at d)) hp4 h i new3 = Some (False, HI_ERR_NODATA, hp5, i', new4)"
    "no_oom hp5" "rehashing h new3 (live hp4) {#} new4 (live hp5 + 3)"
    "fst (lhi_bucket_array_free hp5 (it_a i')) = hp5"
    by blast
  have n4: "no_objects new4 = no_objects h"
    using 5(3) by (simp add: rehashing_def word_unat_eq_iff)
  have new4: "inv new4" "same_settings new3 new4" "map_of_table (table new4) = map_of_table (table h)"
    "no_objects new4 = no_objects h" "live hp5 = live hp + 1 + blocks * int (unat (no_objects h))"
    using 5(3) n4 4(3) by (auto simp: rehashing_def)
  show thesis
    by (rule that [OF 4(1) _ 5(2,4) new4(1) _ new4(3-5)])
      (use 5(1) new4(2) in \<open>simp_all add: new3_def\<close>)
qed

text \<open>
  Rehashing a table that has entries, to a nonzero size: every entry is still there, the settings
  other than the size are kept. The new handle's own block is what the last summand accounts for.
\<close>

lemma rehash_spec:
  assumes inv: "inv h" and "no_oom hp" and "n \<noteq> 0" and "no_objects h \<noteq> 0"
    and size: "unat (no_objects h) \<le> max_objects"
  shows "\<exists>hp' h'. hi_rehash_with (hi_insert_at d) hp h n = Some (SUCCESS, hp', h') \<and> no_oom hp' \<and>
    inv h' \<and> map_of_table (table h') = map_of_table (table h) \<and> no_objects h' = no_objects h \<and>
    same_settings (h\<lparr>table_size := n\<rparr>) h' \<and>
    live hp' = live hp + 3 + blocks * int (unat (no_objects h)) - fini_frees h"
proof -
  have ok: "handle_ok V cmp h (table h)"
    by (rule inv_ok [OF inv])
  define new0 where "new0 = (lhi_transform_hndl_2_hndl h zero_handle)\<lparr>table_size := n\<rparr>"
  obtain j1 hp1 where 1: "xalloc_align hp = (0, j1, hp1)" "no_oom hp1" "live hp1 = live hp + 1"
    by (rule xalloc_no_oom [OF \<open>no_oom hp\<close>])
  obtain j2 hp2 where 2: "xalloc_align hp1 = (0, j2, hp2)" "no_oom hp2" "live hp2 = live hp1 + 1"
    by (rule xalloc_no_oom [OF 1(2)])
  define new1 where "new1 = new0\<lparr>bucket_size := replicate (unat n) j2, no_objects := 0\<rparr>"
  have blank: "blank cmp new1" "coll_eng new1 = coll_eng h"
    using ok \<open>n \<noteq> 0\<close>
    by (simp_all add: blank_def new1_def new0_def lhi_transform_hndl_2_hndl_def handle_ok_def)
  obtain hp3 new2 where 3: "create_eng hp2 new1 = Some (SUCCESS, hp3, new2)" "no_oom hp3"
    "live hp3 = live hp2 + 1" "inv new2" "same_settings new1 new2"
    "map_of_table (table new2) = Map.empty" "no_objects new2 = 0"
    using create_ok [OF inv blank 2(2)] by blast
  obtain hp4 i hp5 i' new4 where 4: "hi_iterator_create hp3 h = Some (SUCCESS, hp4, Some i)"
    and 5: "visit_loop (rehash_body (hi_insert_at d)) hp4 h i (new2\<lparr>rehash_auto := 0\<rparr>) =
      Some (False, HI_ERR_NODATA, hp5, i', new4)" "no_oom hp5" "fst (lhi_bucket_array_free hp5 (it_a i')) = hp5"
    and new4: "inv new4" "same_settings (new2\<lparr>rehash_auto := 0\<rparr>) new4"
      "map_of_table (table new4) = map_of_table (table h)" "no_objects new4 = no_objects h"
      "live hp5 = live hp3 + 1 + blocks * int (unat (no_objects h))"
    by (rule rehash_visit [OF inv 3(2) \<open>no_objects h \<noteq> 0\<close> size 3(4,6,7)])
  obtain hp6 h6 where 6: "lhi_fini_internal (free hp5) h = Some (0, hp6, h6)" "no_oom hp6"
    "live hp6 = live hp5 - 1 - fini_frees h"
    using fini_ok [OF inv, of "free hp5"] 5(2) by auto
  define h' where "h' = new4\<lparr>rehash_auto := rehash_auto new2\<rparr>"
  have "hi_rehash_with (hi_insert_at d) hp h n = Some (SUCCESS, hp6, h')"
    using 3(1) 4(1) 5(1,3) 6(1) unfolding new1_def new0_def
    by (simp add: hi_rehash_with_def lhi_create_vanilla_hdnl_def 1(1) 2(1) h'_def Let_def
        hi_iterator_fini_def SUCCESS_def)
  moreover have "inv h'" "table h' = table new4"
    using auto_inv [OF new4(1)] by (simp_all add: h'_def)
  moreover have "same_settings (h\<lparr>table_size := n\<rparr>) h'"
    using new4(2) 3(5)
    by (simp add: same_settings_def h'_def new1_def new0_def lhi_transform_hndl_2_hndl_def)
  moreover have "live hp6 = live hp + 3 + blocks * int (unat (no_objects h)) - fini_frees h"
    using 6(3) new4(5) 3(3) 2(3) 1(3) by simp
  ultimately show ?thesis
    using 6(2) new4(3,4) by (auto simp: h'_def)
qed

text \<open>A table without entries is not rehashed, and what was allocated for the new one is lost.\<close>

lemma rehash_empty:
  assumes inv: "inv h" and "no_oom hp" and "n \<noteq> 0" and "no_objects h = 0"
  shows "\<exists>hp'. hi_rehash_with (hi_insert_at d) hp h n = Some (HI_ERR_NODATA, hp', h) \<and>
    live hp' = live hp + 3"
proof -
  have ok: "handle_ok V cmp h (table h)"
    by (rule inv_ok [OF inv])
  define new0 where "new0 = (lhi_transform_hndl_2_hndl h zero_handle)\<lparr>table_size := n\<rparr>"
  obtain j1 hp1 where 1: "xalloc_align hp = (0, j1, hp1)" "no_oom hp1" "live hp1 = live hp + 1"
    by (rule xalloc_no_oom [OF \<open>no_oom hp\<close>])
  obtain j2 hp2 where 2: "xalloc_align hp1 = (0, j2, hp2)" "no_oom hp2" "live hp2 = live hp1 + 1"
    by (rule xalloc_no_oom [OF 1(2)])
  define new1 where "new1 = new0\<lparr>bucket_size := replicate (unat n) j2, no_objects := 0\<rparr>"
  have blank: "blank cmp new1" "coll_eng new1 = coll_eng h"
    using ok \<open>n \<noteq> 0\<close>
    by (simp_all add: blank_def new1_def new0_def lhi_transform_hndl_2_hndl_def handle_ok_def)
  obtain hp3 new2 where 3: "create_eng hp2 new1 = Some (SUCCESS, hp3, new2)" "no_oom hp3"
    "live hp3 = live hp2 + 1"
    using create_ok [OF inv blank 2(2)] by blast
  have "concat (table h) = []"
    using ok assms(4) by (simp add: handle_ok_def entry_count_concat)
  then obtain hp4 where 4: "hi_iterator_create hp3 h = Some (HI_ERR_NODATA, hp4, None)"
    "live hp4 = live hp3"
    using iterator_create_spec [OF inv 3(2)] by blast
  have "hi_rehash_with (hi_insert_at d) hp h n = Some (HI_ERR_NODATA, hp4, h)"
    using 3(1) 4(1) unfolding new1_def new0_def
    by (simp add: hi_rehash_with_def lhi_create_vanilla_hdnl_def 1(1) 2(1) Let_def)
  then show ?thesis
    using 1(3) 2(3) 3(3) 4(2) by simp
qed

text \<open>
  With a threshold of at least zero, an automatic rehash happens only where there are as many
  entries as buckets, so that doubling the size does not wrap.
\<close>

lemma do_rehash_spec:
  assumes inv: "inv h" and "no_oom hp" and thr: "0 \<le> rehash_threshold h"
    and size: "unat (no_objects h) < max_objects"
  shows "\<exists>hp' h'. do_rehash_with (hi_insert_at d) hp h = Some (hp', h') \<and> no_oom hp' \<and> inv h' \<and>
    map_of_table (table h') = map_of_table (table h) \<and> no_objects h' = no_objects h \<and>
    same_settings (h\<lparr>table_size := table_size h'\<rparr>) h'"
proof -
  have tsz: "table_size h \<noteq> 0"
    using inv_ok [OF inv] by (simp add: handle_ok_def)
  show ?thesis
  proof (cases "rehash_auto h \<noteq> 0 \<and> rehash_threshold h < float_of_u32 (no_objects h div table_size h)")
    case False
    then show ?thesis
      using assms(1,2) tsz by (auto simp: do_rehash_with_def Let_def)
  next
    case True
    then have "no_objects h div table_size h \<noteq> 0"
      using thr float_of_u32_0 by auto
    then have le: "unat (table_size h) \<le> unat (no_objects h)"
      using tsz by (metis div_less linorder_not_less unat_div unat_eq_0)
    then have "unat (table_size h * 2) = unat (table_size h) * 2"
      using size by (simp add: unat_word_ariths max_objects_def)
    then have "table_size h * 2 \<noteq> 0" and "no_objects h \<noteq> 0"
      using tsz le by (auto simp: unat_eq_0 [symmetric])
    then obtain hp' h' where re: "hi_rehash_with (hi_insert_at d) hp h (table_size h * 2) =
        Some (SUCCESS, hp', h')" "no_oom hp'" "inv h'"
      "map_of_table (table h') = map_of_table (table h)" "no_objects h' = no_objects h"
      "same_settings (h\<lparr>table_size := table_size h * 2\<rparr>) h'"
      using rehash_spec [OF inv \<open>no_oom hp\<close>, of "table_size h * 2" d] size by auto
    then have "same_settings (h\<lparr>table_size := table_size h'\<rparr>) h'"
      by (simp add: same_settings_def)
    then show ?thesis
      using True tsz re by (simp add: do_rehash_with_def Let_def)
  qed
qed

lemma insert_auto:
  assumes inv: "inv h" and "V k" and "no_oom hp" and thr: "0 \<le> rehash_threshold h"
    and size: "unat (no_objects h) < max_objects"
  shows "\<exists>hp' h'. hi_insert hp h k v =
      Some (if map_of_table (table h) k = None then SUCCESS else HI_ERR_DUPKEY, hp', h') \<and>
    no_oom hp' \<and> inv h' \<and> same_settings (h\<lparr>table_size := table_size h'\<rparr>) h' \<and>
    map_of_table (table h') =
      (if map_of_table (table h) k = None then (map_of_table (table h))(k \<mapsto> v) else map_of_table (table h)) \<and>
    no_objects h' = (if map_of_table (table h) k = None then no_objects h + 1 else no_objects h)"
proof -
  obtain hp1 h1 where re: "do_rehash_with (hi_insert_at 0) hp h = Some (hp1, h1)" "no_oom hp1" "inv h1"
    "map_of_table (table h1) = map_of_table (table h)" "no_objects h1 = no_objects h"
    "same_settings (h\<lparr>table_size := table_size h1\<rparr>) h1"
    using do_rehash_spec [OF inv \<open>no_oom hp\<close> thr size] by blast
  show ?thesis
  proof (cases "map_of_table (table h) k")
    case None
    obtain r where r: "hi_lookup h k = Some r" "r \<noteq> SUCCESS"
      using lookup_missing [OF inv \<open>V k\<close> None] by blast
    obtain hp' h' where ins: "ins hp1 h1 k v = Some (SUCCESS, hp', h')" "no_oom hp'" "inv h'"
      "same_settings h1 h'" "map_of_table (table h') = (map_of_table (table h1))(k \<mapsto> v)"
      "no_objects h' = no_objects h1 + 1"
      using ins_fresh [OF re(3) \<open>V k\<close> re(2)] None size re(4,5) by fastforce
    have "same_settings (h\<lparr>table_size := table_size h'\<rparr>) h'"
      using re(6) ins(4) by (simp add: same_settings_def)
    then show ?thesis
      using None r re ins by (simp add: hi_insert_def hi_insert_at_Suc api_insert)
  next
    case (Some d)
    show ?thesis
    proof (cases looks_up)
      case True
      then show ?thesis
        using lookup_present [OF inv \<open>V k\<close> Some] Some inv \<open>no_oom hp\<close>
        by (auto simp: hi_insert_def hi_insert_at_Suc)
    next
      case False
      then show ?thesis
        using lookup_present [OF inv \<open>V k\<close> Some] lookup_present [OF re(3) \<open>V k\<close>] Some re
        by (auto simp: hi_insert_def hi_insert_at_Suc api_insert)
    qed
  qed
qed

end

end
