(* ===== verification/Hi_map.thy ===== *)
theory Hi_map
  imports Hi_table
begin

text \<open>
  The client's view: a table answers any sequence of insertions, lookups and removals as the
  abstract map does. The contract \<open>table_api\<close> is what a client relies on; the three engines whose
  operations are finished meet it, the chains and the trees with automatic rehashing.
\<close>

section \<open>Commands and their specification\<close>

datatype cmd = Ins key ptr | Get key | Rem key

fun cmd_key :: "cmd \<Rightarrow> key" where
  "cmd_key (Ins k d) = k"
| "cmd_key (Get k) = k"
| "cmd_key (Rem k) = k"

text \<open>A reply: the return code, and the data pointer where one is stored.\<close>

type_synonym reply = "int \<times> ptr option"

type_synonym get_fn = "hi_handle \<Rightarrow> key \<Rightarrow> (int \<times> ptr option \<times> hi_handle) option"
type_synonym remove_fn = "heap \<Rightarrow> hi_handle \<Rightarrow> key \<Rightarrow> (int \<times> ptr option \<times> heap \<times> hi_handle) option"

text \<open>A command, and a sequence of commands, through given operations of a table.\<close>

fun run_cmd :: "insert_fn \<Rightarrow> get_fn \<Rightarrow> remove_fn \<Rightarrow> heap \<Rightarrow> hi_handle \<Rightarrow> cmd \<Rightarrow>
    (reply \<times> heap \<times> hi_handle) option" where
  "run_cmd ins get rem hp h (Ins k d) = do { (r, hp, h) \<leftarrow> ins hp h k d; Some ((r, None), hp, h) }"
| "run_cmd ins get rem hp h (Get k) = do { (r, d, h) \<leftarrow> get h k; Some ((r, d), hp, h) }"
| "run_cmd ins get rem hp h (Rem k) = do { (r, d, hp, h) \<leftarrow> rem hp h k; Some ((r, d), hp, h) }"

fun run_cmds :: "insert_fn \<Rightarrow> get_fn \<Rightarrow> remove_fn \<Rightarrow> heap \<Rightarrow> hi_handle \<Rightarrow> cmd list \<Rightarrow>
    (reply list \<times> heap \<times> hi_handle) option" where
  "run_cmds ins get rem hp h [] = Some ([], hp, h)"
| "run_cmds ins get rem hp h (c # cs) = do {
     (r, hp, h) \<leftarrow> run_cmd ins get rem hp h c;
     (rs, hp, h) \<leftarrow> run_cmds ins get rem hp h cs;
     Some (r # rs, hp, h)
   }"

text \<open>The commands through the public operations of the library.\<close>

definition hi_run :: "heap \<Rightarrow> hi_handle \<Rightarrow> cmd list \<Rightarrow> (reply list \<times> heap \<times> hi_handle) option" where
  "hi_run = run_cmds hi_insert hi_get hi_remove"

type_synonym key_map = "key \<Rightarrow> ptr option"

fun spec_cmd :: "key_map \<Rightarrow> cmd \<Rightarrow> reply \<times> key_map" where
  "spec_cmd m (Ins k d) =
     (if m k = None then ((SUCCESS, None), m(k \<mapsto> d)) else ((HI_ERR_DUPKEY, None), m))"
| "spec_cmd m (Get k) = ((if m k = None then HI_ERR_NOKEY else SUCCESS, m k), m)"
| "spec_cmd m (Rem k) = ((if m k = None then HI_ERR_NOKEY else SUCCESS, m k), m(k := None))"

fun spec_cmds :: "key_map \<Rightarrow> cmd list \<Rightarrow> reply list \<times> key_map" where
  "spec_cmds m [] = ([], m)"
| "spec_cmds m (c # cs) =
     (let (r, m) = spec_cmd m c; (rs, m) = spec_cmds m cs in (r # rs, m))"

section \<open>The contract of a table\<close>

locale table_api =
  fixes V :: "key \<Rightarrow> bool"
    and inv :: "hi_handle \<Rightarrow> bool"
    and abs :: "hi_handle \<Rightarrow> key_map"
    and ins :: insert_fn
    and get :: get_fn
    and rem :: remove_fn
  assumes size_ok: "inv h \<Longrightarrow> finite (dom (abs h)) \<and> unat (no_objects h) = card (dom (abs h))"
    and ins_ok: "inv h \<Longrightarrow> V k \<Longrightarrow> no_oom hp \<Longrightarrow> unat (no_objects h) < max_objects \<Longrightarrow>
      \<exists>hp' h'. ins hp h k d = Some (if abs h k = None then SUCCESS else HI_ERR_DUPKEY, hp', h') \<and>
        no_oom hp' \<and> inv h' \<and> abs h' = (if abs h k = None then (abs h)(k \<mapsto> d) else abs h)"
    and get_ok: "inv h \<Longrightarrow> V k \<Longrightarrow>
      \<exists>h'. get h k = Some (if abs h k = None then HI_ERR_NOKEY else SUCCESS, abs h k, h') \<and>
        inv h' \<and> abs h' = abs h"
    and rem_ok: "inv h \<Longrightarrow> V k \<Longrightarrow> no_oom hp \<Longrightarrow>
      \<exists>hp' h'. rem hp h k = Some (if abs h k = None then HI_ERR_NOKEY else SUCCESS, abs h k, hp', h') \<and>
        no_oom hp' \<and> inv h' \<and> abs h' = (abs h)(k := None)"
begin

lemma cmd_simulation:
  assumes "inv h" and "V (cmd_key c)" and "no_oom hp" and "unat (no_objects h) < max_objects"
  shows "\<exists>hp' h'. run_cmd ins get rem hp h c = Some (fst (spec_cmd (abs h) c), hp', h') \<and> no_oom hp' \<and> inv h' \<and>
    abs h' = snd (spec_cmd (abs h) c) \<and> unat (no_objects h') \<le> unat (no_objects h) + 1"
proof -
  have grow: "card (dom m') \<le> card (dom m) + 1"
    if "finite (dom m)" "dom m' \<subseteq> insert (cmd_key c) (dom m)" for m m' :: key_map
  proof -
    have "card (dom m') \<le> card (insert (cmd_key c) (dom m))"
      by (rule card_mono) (use that in auto)
    also have "\<dots> \<le> card (dom m) + 1"
      using that(1) by (simp add: card_insert_if)
    finally show ?thesis .
  qed
  have "\<exists>hp' h'. run_cmd ins get rem hp h c = Some (fst (spec_cmd (abs h) c), hp', h') \<and> no_oom hp' \<and> inv h' \<and>
      abs h' = snd (spec_cmd (abs h) c)"
  proof (cases c)
    case (Ins k d)
    then show ?thesis
      using ins_ok [OF assms(1) _ assms(3,4), of k d] assms(2) by auto
  next
    case (Get k)
    then show ?thesis
      using get_ok [OF assms(1), of k] assms(2,3) by auto
  next
    case (Rem k)
    then show ?thesis
      using rem_ok [OF assms(1) _ assms(3), of k] assms(2) by auto
  qed
  then obtain hp' h' where c: "run_cmd ins get rem hp h c = Some (fst (spec_cmd (abs h) c), hp', h')"
    "no_oom hp'" "inv h'" "abs h' = snd (spec_cmd (abs h) c)"
    by blast
  have "dom (abs h') \<subseteq> insert (cmd_key c) (dom (abs h))"
    unfolding c(4) by (cases c) auto
  then show ?thesis
    using c grow [of "abs h" "abs h'"] size_ok [OF assms(1)] size_ok [OF c(3)] by auto
qed

lemma cmds_simulation:
  assumes "inv h" and "\<forall>c \<in> set cs. V (cmd_key c)" and "no_oom hp"
    and "unat (no_objects h) + length cs \<le> max_objects"
  shows "\<exists>hp' h'. run_cmds ins get rem hp h cs = Some (fst (spec_cmds (abs h) cs), hp', h') \<and> no_oom hp' \<and>
    inv h' \<and> abs h' = snd (spec_cmds (abs h) cs)"
  using assms
proof (induction cs arbitrary: hp h)
  case Nil
  then show ?case by simp
next
  case (Cons c cs)
  obtain hp1 h1 where c: "run_cmd ins get rem hp h c = Some (fst (spec_cmd (abs h) c), hp1, h1)" "no_oom hp1"
    "inv h1" "abs h1 = snd (spec_cmd (abs h) c)" "unat (no_objects h1) \<le> unat (no_objects h) + 1"
    using cmd_simulation [of h c hp] Cons.prems by auto
  obtain hp' h' where cs: "run_cmds ins get rem hp1 h1 cs = Some (fst (spec_cmds (abs h1) cs), hp', h')"
    "no_oom hp'" "inv h'" "abs h' = snd (spec_cmds (abs h1) cs)"
    using Cons.IH [OF c(3) _ c(2)] Cons.prems c(5) by auto
  show ?case
    using c cs by (auto simp: Let_def split: prod.split)
qed

end

lemma handle_ok_card:
  assumes "handle_ok V cmp h xss"
  shows "finite (dom (map_of_table xss)) \<and> unat (no_objects h) = card (dom (map_of_table xss))"
  using assms placed_distinct(1) [of V "slot_of h" xss]
  by (simp add: handle_ok_def map_of_table_def card_dom_map_of entry_count_concat finite_dom_map_of)

text \<open>The map of a table, and the conditions for the operations with rehashing off and on.\<close>

context table_engine
begin

definition abs_map :: "hi_handle \<Rightarrow> key_map" where
  "abs_map h = map_of_table (table h)"

definition inv_off :: "hi_handle \<Rightarrow> bool" where
  "inv_off h \<longleftrightarrow> inv h \<and> rehash_auto h = 0"

definition inv_auto :: "hi_handle \<Rightarrow> bool" where
  "inv_auto h \<longleftrightarrow> inv h \<and> 0 \<le> rehash_threshold h"

lemma abs_map_size: "inv h \<Longrightarrow> finite (dom (abs_map h)) \<and> unat (no_objects h) = card (dom (abs_map h))"
  unfolding abs_map_def by (rule handle_ok_card [OF inv_ok])

lemma api_get_ok:
  assumes "inv h" and "V k"
  shows "\<exists>h'. hi_get h k = Some (if abs_map h k = None then HI_ERR_NOKEY else SUCCESS, abs_map h k, h') \<and>
    inv h' \<and> same_settings h h' \<and> abs_map h' = abs_map h"
proof (cases "abs_map h k")
  case None
  then show ?thesis
    using get_missing [OF assms] assms(1) by (simp add: api_get abs_map_def)
next
  case (Some v)
  then show ?thesis
    using get_found [OF assms] assms(1) by (auto simp: api_get abs_map_def)
qed

lemma api_remove_ok:
  assumes "inv h" and "V k" and "no_oom hp"
  shows "\<exists>hp' h'. hi_remove hp h k =
      Some (if abs_map h k = None then HI_ERR_NOKEY else SUCCESS, abs_map h k, hp', h') \<and>
    no_oom hp' \<and> inv h' \<and> same_settings h h' \<and> abs_map h' = (abs_map h)(k := None)"
proof (cases "abs_map h k")
  case None
  then show ?thesis
    using rem_missing [OF assms(1,2)] assms(1,3) by (simp add: api_remove abs_map_def fun_upd_idem)
next
  case (Some v)
  then show ?thesis
    using rem_found [OF assms(1,2), of v hp] assms(1,3) by (auto simp: api_remove abs_map_def)
qed

lemma api_insert_off:
  assumes "inv_off h" and "V k" and "no_oom hp" and "unat (no_objects h) < max_objects"
  shows "\<exists>hp' h'. hi_insert hp h k d = Some (if abs_map h k = None then SUCCESS else HI_ERR_DUPKEY, hp', h') \<and>
    no_oom hp' \<and> inv_off h' \<and> abs_map h' = (if abs_map h k = None then (abs_map h)(k \<mapsto> d) else abs_map h)"
proof (cases "abs_map h k")
  case None
  then show ?thesis
    using insert_off_fresh [of h k hp 1 d] assms
    by (fastforce simp: hi_insert_def abs_map_def inv_off_def same_settings_def)
next
  case (Some v)
  then show ?thesis
    using insert_off_present [of h k v 1 hp d] assms
    by (auto simp: hi_insert_def abs_map_def inv_off_def)
qed

end

sublocale table_engine \<subseteq> api_off: table_api V inv_off abs_map hi_insert hi_get hi_remove
proof unfold_locales
  show "finite (dom (abs_map h)) \<and> unat (no_objects h) = card (dom (abs_map h))" if "inv_off h" for h
    using that by (simp add: abs_map_size inv_off_def)
  show "\<exists>h'. hi_get h k = Some (if abs_map h k = None then HI_ERR_NOKEY else SUCCESS, abs_map h k, h') \<and>
      inv_off h' \<and> abs_map h' = abs_map h" if "inv_off h" "V k" for h k
    using api_get_ok [of h k] that by (auto simp: inv_off_def same_settings_def)
  show "\<exists>hp' h'. hi_remove hp h k =
      Some (if abs_map h k = None then HI_ERR_NOKEY else SUCCESS, abs_map h k, hp', h') \<and>
      no_oom hp' \<and> inv_off h' \<and> abs_map h' = (abs_map h)(k := None)"
    if "inv_off h" "V k" "no_oom hp" for h k hp
    using api_remove_ok [of h k hp] that by (auto simp: inv_off_def same_settings_def)
qed (rule api_insert_off)

sublocale rehash_engine \<subseteq> api_auto: table_api V inv_auto abs_map hi_insert hi_get hi_remove
proof unfold_locales
  show "finite (dom (abs_map h)) \<and> unat (no_objects h) = card (dom (abs_map h))" if "inv_auto h" for h
    using that by (simp add: abs_map_size inv_auto_def)
  show "\<exists>hp' h'. hi_insert hp h k d =
      Some (if abs_map h k = None then SUCCESS else HI_ERR_DUPKEY, hp', h') \<and>
      no_oom hp' \<and> inv_auto h' \<and> abs_map h' = (if abs_map h k = None then (abs_map h)(k \<mapsto> d) else abs_map h)"
    if "inv_auto h" "V k" "no_oom hp" "unat (no_objects h) < max_objects" for h k hp d
    using insert_auto [of h k hp d] that
    by (fastforce simp: inv_auto_def abs_map_def same_settings_def)
  show "\<exists>h'. hi_get h k = Some (if abs_map h k = None then HI_ERR_NOKEY else SUCCESS, abs_map h k, h') \<and>
      inv_auto h' \<and> abs_map h' = abs_map h" if "inv_auto h" "V k" for h k
    using api_get_ok [of h k] that by (auto simp: inv_auto_def same_settings_def)
  show "\<exists>hp' h'. hi_remove hp h k =
      Some (if abs_map h k = None then HI_ERR_NOKEY else SUCCESS, abs_map h k, hp', h') \<and>
      no_oom hp' \<and> inv_auto h' \<and> abs_map h' = (abs_map h)(k := None)"
    if "inv_auto h" "V k" "no_oom hp" for h k hp
    using api_remove_ok [of h k hp] that by (auto simp: inv_auto_def same_settings_def)
qed

section \<open>The engines meet the contract\<close>

sublocale key_domain \<subseteq> list_table: rehash_engine V cmp "list_inv V cmp" list_table
  lhi_get_list lhi_insert_list lhi_remove_list 2 True lhi_list_bucket_to_array
  "\<lambda>h. 2 + 2 * int (unat (no_objects h))"
proof unfold_locales
  fix h k v r
  assume inv: "list_inv V cmp h"
  have eng: "list_eng (coll_eng h)"
    using inv by (auto simp: list_inv_def)
  show "hi_get h k = lhi_get_list h k" "hi_remove hp h k = lhi_remove_list hp h k"
    "insert_eng hp h k d = lhi_insert_list hp h k d" for hp d
    using eng by (simp_all add: hi_get_def hi_remove_def insert_eng_def)
  show "\<exists>r. hi_lookup h k = Some r \<and> r \<noteq> SUCCESS"
    if "V k" "map_of_table (list_table h) k = None"
    using list_lookup [OF inv that(1)] that(2) eng by (simp add: hi_lookup_def hi_defs)
  show "if True then hi_lookup h k = Some SUCCESS
      else \<exists>r. hi_lookup h k = Some r \<and> r \<noteq> SUCCESS \<and>
        (\<forall>hp d. lhi_insert_list hp h k d = Some (HI_ERR_DUPKEY, hp, h))"
    if "V k" "map_of_table (list_table h) k = Some v"
    using list_lookup [OF inv that(1)] that(2) eng by (simp add: hi_lookup_def)
  show "list_inv V cmp (h\<lparr>rehash_auto := r\<rparr>) \<and> list_table (h\<lparr>rehash_auto := r\<rparr>) = list_table h"
    using inv by (simp add: list_inv_def handle_ok_def list_table_def slot_of_def [abs_def])
  show "\<exists>hp' h'. create_eng hp h1 = Some (SUCCESS, hp', h') \<and> no_oom hp' \<and> live hp' = live hp + 1 \<and>
      list_inv V cmp h' \<and> same_settings h1 h' \<and> map_of_table (list_table h') = Map.empty \<and>
      no_objects h' = 0" if "blank cmp h1" "coll_eng h1 = coll_eng h" "no_oom hp" for h1 hp
    by (rule create_list_ok) (use that inv in \<open>auto simp: list_inv_def\<close>)
  show "\<exists>hp' h'. lhi_fini_internal hp h = Some (0, hp', h') \<and> no_oom hp' = no_oom hp \<and>
      live hp' = live hp - (2 + 2 * int (unat (no_objects h)))" for hp
    using list_fini [OF inv, of hp] eng by (auto simp: lhi_fini_internal_def)
qed

sublocale key_order \<subseteq> rbtree_table: rehash_engine V cmp "rbtree_inv V cmp" rbtree_table
  lhi_get_rbtree lhi_insert_rbtree lhi_remove_rbtree 2 False lhi_rbtree_bucket_to_array "\<lambda>h. 2"
proof unfold_locales
  fix h k v r
  assume inv: "rbtree_inv V cmp h"
  have eng: "coll_eng h = COLL_ENG_RBTREE"
    using inv by (auto simp: rbtree_inv_def)
  show "hi_get h k = lhi_get_rbtree h k" "hi_remove hp h k = lhi_remove_rbtree hp h k"
    "insert_eng hp h k d = lhi_insert_rbtree hp h k d" for hp d
    using eng by (simp_all add: hi_get_def hi_remove_def insert_eng_def)
  show "\<exists>r. hi_lookup h k = Some r \<and> r \<noteq> SUCCESS"
    using eng by (simp add: hi_lookup_def hi_defs)
  show "if False then hi_lookup h k = Some SUCCESS
      else \<exists>r. hi_lookup h k = Some r \<and> r \<noteq> SUCCESS \<and>
        (\<forall>hp d. lhi_insert_rbtree hp h k d = Some (HI_ERR_DUPKEY, hp, h))"
    if "V k" "map_of_table (rbtree_table h) k = Some v"
    using rbtree_insert_dup [OF inv that] eng by (simp add: hi_lookup_def hi_defs)
  show "rbtree_inv V cmp (h\<lparr>rehash_auto := r\<rparr>) \<and> rbtree_table (h\<lparr>rehash_auto := r\<rparr>) = rbtree_table h"
    using inv by (simp add: rbtree_inv_def handle_ok_def rbtree_table_def slot_of_def [abs_def])
  show "\<exists>hp' h'. create_eng hp h1 = Some (SUCCESS, hp', h') \<and> no_oom hp' \<and> live hp' = live hp + 1 \<and>
      rbtree_inv V cmp h' \<and> same_settings h1 h' \<and> map_of_table (rbtree_table h') = Map.empty \<and>
      no_objects h' = 0" if "blank cmp h1" "coll_eng h1 = coll_eng h" "no_oom hp" for h1 hp
    by (rule create_rbtree_ok) (use that eng in auto)
  show "\<exists>hp' h'. lhi_fini_internal hp h = Some (0, hp', h') \<and> no_oom hp' = no_oom hp \<and>
      live hp' = live hp - 2" for hp
    using eng by (auto simp: lhi_fini_internal_def lhi_fini_rbtree_def)
qed

sublocale key_domain \<subseteq> array_table: table_engine V cmp "array_inv V cmp" array_table
  lhi_get_array lhi_insert_array lhi_remove_array 1 False
proof unfold_locales
  fix h k v r
  assume inv: "array_inv V cmp h"
  have eng: "coll_eng h = COLL_ENG_ARRAY"
    using inv by (auto simp: array_inv_def)
  show "hi_get h k = lhi_get_array h k" "hi_remove hp h k = lhi_remove_array hp h k"
    "insert_eng hp h k d = lhi_insert_array hp h k d" for hp d
    using eng by (simp_all add: hi_get_def hi_remove_def insert_eng_def)
  show "\<exists>r. hi_lookup h k = Some r \<and> r \<noteq> SUCCESS"
    using eng by (simp add: hi_lookup_def hi_defs)
  show "if False then hi_lookup h k = Some SUCCESS
      else \<exists>r. hi_lookup h k = Some r \<and> r \<noteq> SUCCESS \<and>
        (\<forall>hp d. lhi_insert_array hp h k d = Some (HI_ERR_DUPKEY, hp, h))"
    if "V k" "map_of_table (array_table h) k = Some v"
    using array_insert_dup [OF inv that] eng by (simp add: hi_lookup_def hi_defs)
  show "array_inv V cmp (h\<lparr>rehash_auto := r\<rparr>) \<and> array_table (h\<lparr>rehash_auto := r\<rparr>) = array_table h"
    using inv by (simp add: array_inv_def handle_ok_def array_table_def slot_of_def [abs_def])
qed

text \<open>Insertion into chains and trees is atomic.\<close>

sublocale key_domain \<subseteq> list_atomic: atomic_engine V cmp "list_inv V cmp" list_table
  lhi_get_list lhi_insert_list lhi_remove_list 2 True
  by unfold_locales (rule list_insert_atomic)

sublocale key_order \<subseteq> rbtree_atomic: atomic_engine V cmp "rbtree_inv V cmp" rbtree_table
  lhi_get_rbtree lhi_insert_rbtree lhi_remove_rbtree 2 False
  by unfold_locales (rule rbtree_insert_atomic)

section \<open>Visiting all entries\<close>

text \<open>The loop body of a client that collects what the iterator delivers.\<close>

definition collect :: "entries visit_body" where
  "collect es hp k l d =
     (if unat l \<le> length k then Some (SUCCESS, hp, (take (unat l) k, d) # es) else None)"

definition hi_visit :: "heap \<Rightarrow> hi_handle \<Rightarrow> (int \<times> heap \<times> entries) option" where
  "hi_visit hp h = do {
     (ret, hp, it) \<leftarrow> hi_iterator_create hp h;
     (case it of
        None \<Rightarrow> Some (ret, hp, [])
      | Some i \<Rightarrow> do {
          (_, ret, hp, i, es) \<leftarrow> visit_loop collect hp h i [];
          Some (ret, hi_iterator_fini hp i, es)
        })
   }"

context iterator_engine
begin

lemma visit_all:
  assumes inv: "inv h" and "no_oom hp"
  shows "\<exists>hp' es. hi_visit hp h = Some (HI_ERR_NODATA, hp', es) \<and> no_oom hp' \<and> live hp' = live hp \<and>
    mset es = mset (concat (table h))"
proof -
  from iterator_create_spec [OF assms] show ?thesis
  proof (elim disjE conjE exE)
    fix hp'
    assume "concat (table h) = []" "hi_iterator_create hp h = Some (HI_ERR_NODATA, hp', None)"
      "no_oom hp'" "live hp' = live hp"
    then show ?thesis
      by (simp add: hi_visit_def)
  next
    fix hp1 i
    assume create: "hi_iterator_create hp h = Some (SUCCESS, hp1, Some i)" "no_oom hp1"
      "live hp1 = live hp + 4" "it_holds (table h) i (mset (concat (table h)))"
    define P where "P = (\<lambda>es (s :: entries) lv.
      es + mset s = mset (concat (table h)) \<and> lv = live hp + 4)"
    have "\<exists>hp' s'. collect s hp k (word_of_nat (length k)) d = Some (SUCCESS, hp', s') \<and> no_oom hp' \<and>
        P es s' (live hp')"
      if P: "P (add_mset (k, d) es) s (live hp)" and "no_oom hp" for es s hp k d
    proof -
      have "(k, d) \<in># mset (concat (table h))"
        using P by (auto simp: P_def simp del: mset_concat set_mset_mset) (metis union_single_eq_member)
      then have "V k"
        using placed_distinct(2) [of V "slot_of h" "table h"] inv_ok [OF inv]
        by (auto simp: handle_ok_def)
      then have "unat (word_of_nat (length k) :: u32) = length k"
        using key_length by simp
      then show ?thesis
        using P \<open>no_oom hp\<close> by (simp add: collect_def P_def)
    qed
    then have "\<exists>hp' i' s'. visit_loop collect hp1 h i [] = Some (False, HI_ERR_NODATA, hp', i', s') \<and>
        no_oom hp' \<and> P {#} s' (live hp' + 3) \<and> fst (lhi_bucket_array_free hp' (it_a i')) = hp'"
      by (intro visit_loop_spec [OF inv create(2,4)]) (simp_all add: P_def create(3))
    then show ?thesis
      using create(1) by (auto simp: hi_visit_def hi_iterator_fini_def P_def)
  qed
qed

text \<open>As a map: every key once, with its data.\<close>

lemma visit_map:
  assumes inv: "inv h" and "no_oom hp"
  shows "\<exists>hp' es. hi_visit hp h = Some (HI_ERR_NODATA, hp', es) \<and> no_oom hp' \<and> live hp' = live hp \<and>
    distinct (map fst es) \<and> map_of es = map_of_table (table h)"
proof -
  obtain hp' es where v: "hi_visit hp h = Some (HI_ERR_NODATA, hp', es)" "no_oom hp'"
    "live hp' = live hp" "mset es = mset (concat (table h))"
    using visit_all [OF assms] by blast
  have "distinct (map fst (concat (table h)))"
    using inv_ok [OF inv] placed_distinct(1) by (auto simp: handle_ok_def)
  then show ?thesis
    using v map_of_mset [OF _ v(4) [symmetric]] by (simp add: map_of_table_def)
qed

end

section \<open>Blocks in use\<close>

context table_engine
begin

lemma cmd_live:
  assumes "inv_off h" and "V (cmd_key c)" and "no_oom hp" and "unat (no_objects h) < max_objects"
  shows "\<exists>r hp' h'. run_cmd hi_insert hi_get hi_remove hp h c = Some (r, hp', h') \<and>
    same_settings h h' \<and>
    live hp' - blocks * int (unat (no_objects h')) = live hp - blocks * int (unat (no_objects h))"
proof (cases c)
  case (Ins k d)
  show ?thesis
  proof (cases "map_of_table (table h) k")
    case None
    then obtain hp' h' where "hi_insert_at 1 hp h k d = Some (SUCCESS, hp', h')"
      "live hp' = live hp + blocks" "same_settings h h'" "no_objects h' = no_objects h + 1"
      using insert_off_fresh [of h k hp 1 d] assms Ins by (auto simp: inv_off_def)
    moreover have "unat (no_objects h + 1) = unat (no_objects h) + 1"
      using assms(4) by (simp add: unat_plus_one_u32 max_objects_def)
    then have "int (unat (no_objects h + 1)) = int (unat (no_objects h)) + 1"
      by simp
    ultimately show ?thesis
      using Ins by (simp add: hi_insert_def distrib_left)
  next
    case (Some v)
    then show ?thesis
      using insert_off_present [of h k v 1 hp d] assms Ins
      by (auto simp: hi_insert_def inv_off_def)
  qed
next
  case (Get k)
  then have "map_of_table (table h) k = None \<or> (\<exists>v. map_of_table (table h) k = Some v)"
    by (cases "map_of_table (table h) k") auto
  then show ?thesis
    using get_missing [of h k] get_found [of h k] assms Get
    by (fastforce simp: inv_off_def api_get)
next
  case (Rem k)
  show ?thesis
  proof (cases "map_of_table (table h) k")
    case None
    then show ?thesis
      using rem_missing [of h k hp] assms Rem by (auto simp: inv_off_def api_remove)
  next
    case (Some v)
    then obtain hp' h' where r: "rem hp h k = Some (SUCCESS, Some v, hp', h')"
      "live hp' = live hp - blocks" "same_settings h h'" "no_objects h' = no_objects h - 1"
      using rem_found [of h k v hp] assms Rem by (auto simp: inv_off_def)
    have "abs_map h k \<noteq> None"
      using Some by (simp add: abs_map_def)
    then have "card (dom (abs_map h)) \<noteq> 0"
      using abs_map_size assms(1) by (auto simp: inv_off_def)
    then have "no_objects h \<noteq> 0"
      using abs_map_size assms(1) by (auto simp: inv_off_def unat_eq_0 [symmetric])
    then have n: "int (unat (no_objects h - 1)) = int (unat (no_objects h)) - 1"
      by (simp add: unat_minus_one_u32 of_nat_diff unat_gt_0 Suc_le_eq)
    show ?thesis
      using r assms(1) Rem n by (simp add: inv_off_def api_remove right_diff_distrib)
  qed
qed

lemma cmds_live:
  assumes "inv_off h" and "\<forall>c \<in> set cs. V (cmd_key c)" and "no_oom hp"
    and "unat (no_objects h) + length cs \<le> max_objects"
  shows "\<exists>rs hp' h'. hi_run hp h cs = Some (rs, hp', h') \<and> same_settings h h' \<and>
    live hp' - blocks * int (unat (no_objects h')) = live hp - blocks * int (unat (no_objects h))"
  using assms
proof (induction cs arbitrary: hp h)
  case Nil
  then show ?case by (simp add: hi_run_def)
next
  case (Cons c cs)
  then have room: "unat (no_objects h) < max_objects" and V: "V (cmd_key c)"
    by auto
  obtain r hp1 h1 where c: "run_cmd hi_insert hi_get hi_remove hp h c = Some (r, hp1, h1)"
    "same_settings h h1"
    "live hp1 - blocks * int (unat (no_objects h1)) = live hp - blocks * int (unat (no_objects h))"
    using cmd_live [OF Cons.prems(1) V Cons.prems(3) room] by blast
  have "no_oom hp1" "inv_off h1" "unat (no_objects h1) \<le> unat (no_objects h) + 1"
    using api_off.cmd_simulation [OF Cons.prems(1) V Cons.prems(3) room] c(1) by auto
  then show ?case
    using Cons.IH [of h1 hp1] Cons.prems c same_settings_trans [OF c(2)] by (auto simp: hi_run_def)
qed

end

end
