(* ===== verification/Hash_func.thy ===== *)
theory Hash_func
  imports Hi_prelude
begin

text \<open>
  The byte-at-a-time hash functions of \<open>lib/hash_func.c\<close>, Hsieh's SuperFastHash
  (\<open>lib/hash_func_hsieh.c\<close>) and Jenkins' lookup2 (\<open>lib/hash_func_jenkins2.c\<close>). A C call
  \<open>f(key, len)\<close> is \<open>f key\<close> here, with \<open>len = length key\<close>; each \<open>for\<close> loop over the
  bytes is a \<open>fold\<close> of its body. All arithmetic is \<open>uint32_t\<close>, so it wraps.
\<close>

section \<open>lib/hash_func.c\<close>

definition lhi_hash_dumb1 :: "key \<Rightarrow> u32" where
  "lhi_hash_dumb1 key = 1"

definition elf_step :: "byte \<Rightarrow> u32 \<Rightarrow> u32" where
  "elf_step c hash =
     (let hash = push_bit 4 hash + ucast c;
          x = hash AND 0xF0000000
      in if x \<noteq> 0 then (hash XOR drop_bit 24 x) XOR x else hash)"

definition lhi_hash_elf :: "key \<Rightarrow> u32" where
  "lhi_hash_elf key = fold elf_step key 0"

definition lhi_hash_torek :: "key \<Rightarrow> u32" where
  "lhi_hash_torek key = fold (\<lambda>c hash. hash * 33 + ucast c) key 0"

definition lhi_hash_phong :: "key \<Rightarrow> u32" where
  "lhi_hash_phong key = fold (\<lambda>c hash. hash * 129 + ucast c + 987654321) key 0"

definition lhi_hash_kr :: "key \<Rightarrow> u32" where
  "lhi_hash_kr key = fold (\<lambda>c hash. hash + ucast c) key 0"

definition lhi_hash_sdbm :: "key \<Rightarrow> u32" where
  "lhi_hash_sdbm key =
     fold (\<lambda>c hash. ucast c + push_bit 6 hash + push_bit 16 hash - hash) key 0"

definition lhi_hash_djb2 :: "key \<Rightarrow> u32" where
  "lhi_hash_djb2 key = fold (\<lambda>c hash. (push_bit 5 hash + hash) + ucast c) key 5381"

definition lhi_hash_korzendorfer1 :: "key \<Rightarrow> u32" where
  "lhi_hash_korzendorfer1 key = fold (\<lambda>c hash. hash + ucast c) key 0"

text \<open>The loop of \<open>korzendorfer2\<close> carries \<open>size\<close> (post-incremented) beside \<open>hash\<close>.\<close>

definition korzendorfer2_step :: "byte \<Rightarrow> u32 \<times> u32 \<Rightarrow> u32 \<times> u32" where
  "korzendorfer2_step c s =
     (let (size, hash) = s; j = ucast c; j = j * size; size = size + 1; hash = hash + j
      in (size, hash))"

definition lhi_hash_korzendorfer2 :: "key \<Rightarrow> u32" where
  "lhi_hash_korzendorfer2 key = snd (fold korzendorfer2_step key (1, 0))"

definition lhi_hash_xor :: "key \<Rightarrow> u32" where
  "lhi_hash_xor key = fold (\<lambda>c hash. hash XOR ucast c) key 0"

section \<open>Hsieh's SuperFastHash\<close>

definition get16bits :: "byte \<Rightarrow> byte \<Rightarrow> u32" where
  "get16bits d0 d1 = push_bit 8 (ucast d1) + ucast d0"

text \<open>
  The main loop takes four bytes per round; the \<open>switch\<close> on \<open>rem = len & 3\<close> handles what is
  left. The loop runs \<open>len >> 2\<close> times, that is while four bytes are left.
\<close>

fun hsieh_loop :: "key \<Rightarrow> u32 \<Rightarrow> u32" where
  "hsieh_loop (d0 # d1 # d2 # d3 # data) hash =
     (let hash = hash + get16bits d0 d1;
          tmp = push_bit 11 (get16bits d2 d3) XOR hash;
          hash = push_bit 16 hash XOR tmp;
          hash = hash + drop_bit 11 hash
      in hsieh_loop data hash)"
| "hsieh_loop [d0, d1, d2] hash =
     (let hash = hash + get16bits d0 d1;
          hash = hash XOR push_bit 16 hash;
          hash = hash XOR push_bit 18 (ucast d2)
      in hash + drop_bit 11 hash)"
| "hsieh_loop [d0, d1] hash =
     (let hash = hash + get16bits d0 d1;
          hash = hash XOR push_bit 11 hash
      in hash + drop_bit 17 hash)"
| "hsieh_loop [d0] hash =
     (let hash = hash + ucast d0;
          hash = hash XOR push_bit 10 hash
      in hash + drop_bit 1 hash)"
| "hsieh_loop [] hash = hash"

definition hsieh_avalanche :: "u32 \<Rightarrow> u32" where
  "hsieh_avalanche hash =
     (let hash = hash XOR push_bit 3 hash;
          hash = hash + drop_bit 5 hash;
          hash = hash XOR push_bit 4 hash;
          hash = hash + drop_bit 17 hash;
          hash = hash XOR push_bit 25 hash
      in hash + drop_bit 6 hash)"

definition HsiehSuperFastHash :: "key \<Rightarrow> u32 \<Rightarrow> u32" where
  "HsiehSuperFastHash data hash = hsieh_avalanche (hsieh_loop data hash)"

definition lhi_hash_hsieh :: "key \<Rightarrow> u32" where
  "lhi_hash_hsieh data = HsiehSuperFastHash data (word_of_nat (length data))"

section \<open>Jenkins' lookup2\<close>

type_synonym abc = "u32 \<times> u32 \<times> u32"

definition jhash_mix :: "abc \<Rightarrow> abc" where
  "jhash_mix s =
     (let (a, b, c) = s;
          a = a - b; a = a - c; a = a XOR drop_bit 13 c;
          b = b - c; b = b - a; b = b XOR push_bit 8 a;
          c = c - a; c = c - b; c = c XOR drop_bit 13 b;
          a = a - b; a = a - c; a = a XOR drop_bit 12 c;
          b = b - c; b = b - a; b = b XOR push_bit 16 a;
          c = c - a; c = c - b; c = c XOR drop_bit 5 b;
          a = a - b; a = a - c; a = a XOR drop_bit 3 c;
          b = b - c; b = b - a; b = b XOR push_bit 10 a;
          c = c - a; c = c - b; c = c XOR drop_bit 15 b
      in (a, b, c))"

text \<open>Four bytes as the code sums them: \<open>k[0] + (k[1]<<8) + (k[2]<<16) + (k[3]<<24)\<close>.\<close>

definition add4 :: "byte \<Rightarrow> byte \<Rightarrow> byte \<Rightarrow> byte \<Rightarrow> u32" where
  "add4 k0 k1 k2 k3 =
     ucast k0 + push_bit 8 (ucast k1) + push_bit 16 (ucast k2) + push_bit 24 (ucast k3)"

text \<open>
  The \<open>switch\<close> on the last \<open>len < 12\<close> bytes falls through from case \<open>len\<close> to case 1. Each
  conditional below is one case label with the statement after it.
\<close>

definition jenkins2_tail :: "key \<Rightarrow> abc \<Rightarrow> abc" where
  "jenkins2_tail k s =
     (let (a, b, c) = s; len = length k;
          c = (if 11 \<le> len then c + push_bit 24 (ucast (k ! 10)) else c);
          c = (if 10 \<le> len then c + push_bit 16 (ucast (k ! 9)) else c);
          c = (if 9 \<le> len then c + push_bit 8 (ucast (k ! 8)) else c);
          b = (if 8 \<le> len then b + push_bit 24 (ucast (k ! 7)) else b);
          b = (if 7 \<le> len then b + push_bit 16 (ucast (k ! 6)) else b);
          b = (if 6 \<le> len then b + push_bit 8 (ucast (k ! 5)) else b);
          b = (if 5 \<le> len then b + ucast (k ! 4) else b);
          a = (if 4 \<le> len then a + push_bit 24 (ucast (k ! 3)) else a);
          a = (if 3 \<le> len then a + push_bit 16 (ucast (k ! 2)) else a);
          a = (if 2 \<le> len then a + push_bit 8 (ucast (k ! 1)) else a);
          a = (if 1 \<le> len then a + ucast (k ! 0) else a)
      in (a, b, c))"

text \<open>The \<open>while (len >= 12)\<close> loop; it returns the state and the bytes left.\<close>

fun jenkins2_loop :: "key \<Rightarrow> abc \<Rightarrow> abc \<times> key" where
  "jenkins2_loop (k0 # k1 # k2 # k3 # k4 # k5 # k6 # k7 # k8 # k9 # k10 # k11 # k) (a, b, c) =
     (let a = a + add4 k0 k1 k2 k3;
          b = b + add4 k4 k5 k6 k7;
          c = c + add4 k8 k9 k10 k11
      in jenkins2_loop k (jhash_mix (a, b, c)))"
| "jenkins2_loop k s = (s, k)"

definition jenkins_hash :: "key \<Rightarrow> u32 \<Rightarrow> u32" where
  "jenkins_hash k initval =
     (let (s, k') = jenkins2_loop k (0x9e3779b9, 0x9e3779b9, initval);
          (a, b, c) = s;
          c = c + word_of_nat (length k);
          (a, b, c) = jhash_mix (jenkins2_tail k' (a, b, c))
      in c)"

definition lhi_hash_jenkins2 :: "key \<Rightarrow> u32" where
  "lhi_hash_jenkins2 data = jenkins_hash data 0"

section \<open>Closed forms and symmetries\<close>

text \<open>Horner's rule over the bytes: what the multiplicative hashes compute.\<close>

definition poly_hash :: "u32 \<Rightarrow> key \<Rightarrow> u32" where
  "poly_hash m key = (\<Sum>i < length key. ucast (key ! i) * m ^ (length key - Suc i))"

lemma poly_hash_snoc: "poly_hash m (key @ [c]) = poly_hash m key * m + ucast c"
proof -
  have "(\<Sum>i < length key. ucast ((key @ [c]) ! i) * m ^ (length key - i)) =
      (\<Sum>i < length key. ucast (key ! i) * m ^ (length key - Suc i)) * m"
    unfolding sum_distrib_right
    by (rule sum.cong) (auto simp: nth_append Suc_diff_Suc power_Suc2 [symmetric] mult.assoc)
  then show ?thesis by (simp add: poly_hash_def)
qed

lemma fold_poly:
  assumes "\<And>c h. f c h = h * m + ucast c"
  shows "fold f key seed = seed * m ^ length key + poly_hash m key"
proof (induction key rule: rev_induct)
  case Nil
  show ?case by (simp add: poly_hash_def)
next
  case (snoc c key)
  then show ?case by (simp add: assms poly_hash_snoc algebra_simps)
qed

lemma push_bit_mult: "push_bit n (h :: u32) = h * 2 ^ n"
  by (simp add: push_bit_eq_mult)

text \<open>
  The three shift-and-add hashes are polynomials in the bytes: \<open>torek\<close> and \<open>djb2\<close> evaluate the
  key at 33 (\<open>djb2\<close> with the seed 5381 in front), \<open>sdbm\<close> at 65599, all modulo \<open>2 ^ 32\<close>.
\<close>

lemma polynomial_hashes:
  "lhi_hash_torek key = poly_hash 33 key \<and>
   lhi_hash_djb2 key = 5381 * 33 ^ length key + poly_hash 33 key \<and>
   lhi_hash_sdbm key = poly_hash 65599 key"
proof (intro conjI)
  show "lhi_hash_torek key = poly_hash 33 key"
    unfolding lhi_hash_torek_def by (subst fold_poly [where m = 33]) auto
  show "lhi_hash_djb2 key = 5381 * 33 ^ length key + poly_hash 33 key"
    unfolding lhi_hash_djb2_def
    by (rule fold_poly) (simp add: push_bit_mult algebra_simps)
  show "lhi_hash_sdbm key = poly_hash 65599 key"
    unfolding lhi_hash_sdbm_def
    by (subst fold_poly [where m = 65599]) (auto simp: push_bit_mult algebra_simps)
qed

lemma elf_step_top_nibble: "elf_step c hash AND 0xF0000000 = 0"
proof -
  let ?h = "push_bit 4 hash + ucast c"
  have top: "(0xF0000000 :: u32) = push_bit 28 (mask 4)"
    by (simp add: mask_eq_exp_minus_1 push_bit_eq_mult)
  have "((?h XOR drop_bit 24 (?h AND 0xF0000000)) XOR (?h AND 0xF0000000)) AND 0xF0000000 = 0"
    unfolding top by (rule bit_word_eqI) (auto simp: bit_simps dest: bit_imp_le_length)
  then show ?thesis by (simp add: elf_step_def Let_def)
qed

text \<open>
  The ELF hash leaves the top four bits clear after every byte (the ELF ABI's
  \<open>h &= ~g\<close>), so the value of any key is below \<open>2 ^ 28\<close>.
\<close>

lemma elf_hash_28_bits: "lhi_hash_elf key < 2 ^ 28"
proof -
  have *: "lhi_hash_elf key AND 0xF0000000 = 0"
    unfolding lhi_hash_elf_def
    by (induction key rule: rev_induct) (simp_all add: elf_step_top_nibble)
  have top: "(0xF0000000 :: u32) = push_bit 28 (mask 4)"
    by (simp add: mask_eq_exp_minus_1 push_bit_eq_mult)
  have "lhi_hash_elf key = lhi_hash_elf key AND mask 28"
  proof (rule bit_word_eqI)
    fix n :: nat
    assume "n < LENGTH(32)"
    then show "bit (lhi_hash_elf key) n = bit (lhi_hash_elf key AND mask 28) n"
      using * [unfolded top bit_eq_iff, rule_format, of n] by (auto simp: bit_simps)
  qed
  moreover have "lhi_hash_elf key AND mask 28 < 2 ^ 28"
    by (rule and_mask_less_size) (simp add: word_size)
  ultimately show ?thesis by simp
qed

text \<open>Lookup2's mix is nine rotated copies of one reversible step.\<close>

definition jhash_step :: "(u32 \<Rightarrow> u32) \<Rightarrow> abc \<Rightarrow> abc" where
  "jhash_step f s = (let (a, b, c) = s in (b, c, (a - b - c) XOR f c))"

lemma bij_jhash_step: "bij (jhash_step f)"
  by (rule bij_betw_byWitness [where f' = "\<lambda>(b, c, a). ((a XOR f c) + c + b, b, c)"])
    (auto simp: jhash_step_def xor.assoc)

lemma jhash_mix_steps:
  "jhash_mix = jhash_step (drop_bit 15) \<circ> jhash_step (push_bit 10) \<circ> jhash_step (drop_bit 3) \<circ>
     jhash_step (drop_bit 5) \<circ> jhash_step (push_bit 16) \<circ> jhash_step (drop_bit 12) \<circ>
     jhash_step (drop_bit 13) \<circ> jhash_step (push_bit 8) \<circ> jhash_step (drop_bit 13)"
proof (rule ext, goal_cases)
  case (1 s)
  obtain a b c where s: "s = (a, b, c)" by (cases s)
  show ?case
    unfolding s jhash_mix_def jhash_step_def comp_def Let_def prod.case by (rule refl)
qed

text \<open>The mix of lookup2 is reversible on the 96-bit state.\<close>

lemma jenkins2_mix_bij: "bij jhash_mix"
  unfolding jhash_mix_steps by (intro bij_comp bij_jhash_step)

end
