(* ===== verification/Hi_client.thy ===== *)
theory Hi_client
  imports Hi_map Hash_func
begin

text \<open>
  The theorems on whole runs of the library: create a table, run commands on it, visit its entries,
  rehash it, destroy it. They start from \<open>hi_create\<close> and mention no invariant of the model.
\<close>

lemma card_spec_cmds:
  "finite (dom m) \<Longrightarrow> finite (dom (snd (spec_cmds m cs))) \<and>
     card (dom (snd (spec_cmds m cs))) \<le> card (dom m) + length cs"
proof (induction cs arbitrary: m)
  case Nil
  then show ?case by simp
next
  case (Cons c cs)
  have fin: "finite (dom (snd (spec_cmd m c)))"
    and le: "card (dom (snd (spec_cmd m c))) \<le> card (dom m) + 1"
    using Cons.prems by (cases c; auto simp: card_insert_if card_Diff_singleton_if)+
  then show ?case
    using Cons.IH [OF fin] by (auto simp: Let_def split: prod.split)
qed

context key_domain
begin

lemma list_create:
  assumes "set_ok cmp s" and "set_coll_eng s = COLL_ENG_LIST \<or> set_coll_eng s = COLL_ENG_LIST_MTF"
    and "no_oom hp"
  obtains hp' h where "hi_create hp s = Some (SUCCESS, hp', Some h)" and "list_inv V cmp h"
    and "no_oom hp'" and "live hp' = live hp + 3" and "map_of_table (list_table h) = Map.empty"
    and "no_objects h = 0" and "rehash_threshold h = set_rehash_threshold s"
    and "rehash_auto h = set_rehash_auto s" and "coll_eng h = set_coll_eng s"
proof (rule hi_create_blank [OF assms(1,3)])
  fix hp1 h1
  assume c: "hi_create hp s = do {
      (ret, hp, h) \<leftarrow> create_eng hp1 h1;
      if ret \<noteq> SUCCESS then Some (ret, hp, None) else Some (SUCCESS, hp, Some h)
    }" "blank cmp h1" "no_oom hp1" "live hp1 = live hp + 2" "coll_eng h1 = set_coll_eng s"
    "rehash_threshold h1 = set_rehash_threshold s" "rehash_auto h1 = set_rehash_auto s"
  obtain hp' h' where "create_eng hp1 h1 = Some (SUCCESS, hp', h')" "no_oom hp'"
    "live hp' = live hp1 + 1" "list_inv V cmp h'" "same_settings h1 h'"
    "map_of_table (list_table h') = Map.empty" "no_objects h' = 0"
    using create_list_ok [OF c(2) _ c(3), of V] assms(2) c(5) by auto
  then show thesis
    using that [of hp' h'] c by (simp add: same_settings_def)
qed

lemma array_create:
  assumes "set_ok cmp s" and "set_coll_eng s = COLL_ENG_ARRAY" and "no_oom hp"
  obtains hp' h where "hi_create hp s = Some (SUCCESS, hp', Some h)" and "array_inv V cmp h"
    and "no_oom hp'" and "live hp' = live hp + 5 + int (unat (table_size h))"
    and "map_of_table (array_table h) = Map.empty"
    and "no_objects h = 0" and "rehash_auto h = set_rehash_auto s"
proof (rule hi_create_blank [OF assms(1,3)])
  fix hp1 h1
  assume c: "hi_create hp s = do {
      (ret, hp, h) \<leftarrow> create_eng hp1 h1;
      if ret \<noteq> SUCCESS then Some (ret, hp, None) else Some (SUCCESS, hp, Some h)
    }" "blank cmp h1" "no_oom hp1" "live hp1 = live hp + 2" "coll_eng h1 = set_coll_eng s"
    "coll_eng_array_size h1 = set_coll_eng_array_size s" "rehash_auto h1 = set_rehash_auto s"
  have "set_coll_eng_array_size s \<noteq> 0"
    using assms(1,2)
    by (auto simp: set_ok_def lhi_set_sanity_check_def lhi_set_sanity_array_def hi_defs split: if_splits)
  then obtain hp' h' where "create_eng hp1 h1 = Some (SUCCESS, hp', h')" "no_oom hp'"
    "live hp' = live hp1 + 3 + int (unat (table_size h1))" "array_inv V cmp h'" "same_settings h1 h'"
    "map_of_table (array_table h') = Map.empty" "no_objects h' = 0"
    using create_array_ok [OF c(2) _ c(3), of V] assms(2) c(5,6) by auto
  then show thesis
    using that [of hp' h'] c by (simp add: same_settings_def)
qed

lemma list_client:
  assumes "set_ok cmp s" and "set_coll_eng s = COLL_ENG_LIST \<or> set_coll_eng s = COLL_ENG_LIST_MTF"
    and "no_oom hp" and "0 \<le> set_rehash_threshold s"
    and "\<forall>c \<in> set cs. V (cmd_key c)" and "length cs \<le> max_objects"
  obtains hp1 h1 hp2 h2 where "hi_create hp s = Some (SUCCESS, hp1, Some h1)"
    and "hi_run hp1 h1 cs = Some (fst (spec_cmds Map.empty cs), hp2, h2)"
    and "no_oom hp2" and "list_inv V cmp h2" and "0 \<le> rehash_threshold h2"
    and "map_of_table (list_table h2) = snd (spec_cmds Map.empty cs)"
proof (rule list_create [OF assms(1-3)])
  fix hp1 h1
  assume c: "hi_create hp s = Some (SUCCESS, hp1, Some h1)" "list_inv V cmp h1" "no_oom hp1"
    "map_of_table (list_table h1) = Map.empty" "no_objects h1 = 0"
    "rehash_threshold h1 = set_rehash_threshold s"
  have "list_table.inv_auto h1"
    using c assms(4) by (simp add: list_table.inv_auto_def)
  from list_table.api_auto.cmds_simulation [OF this assms(5) c(3)]
  show thesis
    using that c assms(6)
    by (auto simp: list_table.inv_auto_def list_table.abs_map_def hi_run_def)
qed

lemma array_client:
  assumes "set_ok cmp s" and "set_coll_eng s = COLL_ENG_ARRAY" and "no_oom hp"
    and "set_rehash_auto s = 0"
    and "\<forall>c \<in> set cs. V (cmd_key c)" and "length cs \<le> max_objects"
  obtains hp1 h1 hp2 h2 where "hi_create hp s = Some (SUCCESS, hp1, Some h1)"
    and "hi_run hp1 h1 cs = Some (fst (spec_cmds Map.empty cs), hp2, h2)"
    and "no_oom hp2" and "array_inv V cmp h2"
    and "map_of_table (array_table h2) = snd (spec_cmds Map.empty cs)"
proof (rule array_create [OF assms(1-3)])
  fix hp1 h1
  assume c: "hi_create hp s = Some (SUCCESS, hp1, Some h1)" "array_inv V cmp h1" "no_oom hp1"
    "map_of_table (array_table h1) = Map.empty" "no_objects h1 = 0" "rehash_auto h1 = set_rehash_auto s"
  have "array_table.inv_off h1"
    using c assms(4) by (simp add: array_table.inv_off_def)
  from array_table.api_off.cmds_simulation [OF this assms(5) c(3)]
  show thesis
    using that c assms(6)
    by (auto simp: array_table.inv_off_def array_table.abs_map_def hi_run_def)
qed

text \<open>Destroying a chained table or an array table gives back every block.\<close>

lemma list_destroy:
  assumes "set_ok cmp s" and "set_coll_eng s = COLL_ENG_LIST \<or> set_coll_eng s = COLL_ENG_LIST_MTF"
    and "no_oom hp" and "set_rehash_auto s = 0" and "0 \<le> set_rehash_threshold s"
    and "\<forall>c \<in> set cs. V (cmd_key c)" and "length cs \<le> max_objects"
  shows "\<exists>hp1 h1 rs hp2 h2 hp3. hi_create hp s = Some (SUCCESS, hp1, Some h1) \<and>
    hi_run hp1 h1 cs = Some (rs, hp2, h2) \<and> hi_fini hp2 h2 = Some (SUCCESS, hp3) \<and> live hp3 = live hp"
proof (rule list_create [OF assms(1-3)])
  fix hp1 h1
  assume c: "hi_create hp s = Some (SUCCESS, hp1, Some h1)" "list_inv V cmp h1" "no_oom hp1"
    "live hp1 = live hp + 3" "no_objects h1 = 0" "rehash_auto h1 = set_rehash_auto s"
  have off: "list_table.inv_off h1"
    using c assms(4) by (simp add: list_table.inv_off_def)
  have room: "unat (no_objects h1) + length cs \<le> max_objects"
    using c(5) assms(7) by simp
  obtain rs hp2 h2 where run: "hi_run hp1 h1 cs = Some (rs, hp2, h2)"
    "live hp2 - 2 * int (unat (no_objects h2)) = live hp1 - 2 * int (unat (no_objects h1))"
    using list_table.cmds_live [OF off assms(6) c(3) room] by auto
  have "list_inv V cmp h2"
    using list_table.api_off.cmds_simulation [OF off assms(6) c(3) room] run(1)
    by (auto simp: hi_run_def list_table.inv_off_def)
  then obtain hp' h' where "lhi_fini_internal hp2 h2 = Some (0, hp', h')"
    "live hp' = live hp2 - (2 + 2 * int (unat (no_objects h2)))"
    using list_table.fini_ok by blast
  then show ?thesis
    using c run by (simp add: hi_fini_def SUCCESS_def)
qed

lemma array_destroy:
  assumes "set_ok cmp s" and "set_coll_eng s = COLL_ENG_ARRAY" and "no_oom hp"
    and "set_rehash_auto s = 0"
    and "\<forall>c \<in> set cs. V (cmd_key c)" and "length cs \<le> max_objects"
  shows "\<exists>hp1 h1 rs hp2 h2 hp3. hi_create hp s = Some (SUCCESS, hp1, Some h1) \<and>
    hi_run hp1 h1 cs = Some (rs, hp2, h2) \<and> hi_fini hp2 h2 = Some (SUCCESS, hp3) \<and> live hp3 = live hp"
proof (rule array_create [OF assms(1-3)])
  fix hp1 h1
  assume c: "hi_create hp s = Some (SUCCESS, hp1, Some h1)" "array_inv V cmp h1" "no_oom hp1"
    "live hp1 = live hp + 5 + int (unat (table_size h1))" "no_objects h1 = 0"
    "rehash_auto h1 = set_rehash_auto s"
  have off: "array_table.inv_off h1"
    using c assms(4) by (simp add: array_table.inv_off_def)
  have room: "unat (no_objects h1) + length cs \<le> max_objects"
    using c(5) assms(6) by simp
  obtain rs hp2 h2 where run: "hi_run hp1 h1 cs = Some (rs, hp2, h2)" "same_settings h1 h2"
    "live hp2 - 1 * int (unat (no_objects h2)) = live hp1 - 1 * int (unat (no_objects h1))"
    using array_table.cmds_live [OF off assms(5) c(3) room] by auto
  have inv: "array_inv V cmp h2"
    using array_table.api_off.cmds_simulation [OF off assms(5) c(3) room] run(1)
    by (auto simp: hi_run_def array_table.inv_off_def)
  then have "coll_eng h2 = COLL_ENG_ARRAY"
    by (simp add: array_inv_def)
  moreover obtain hp' where "lhi_fini_array hp2 h2 = Some (SUCCESS, hp', h2)"
    "live hp' = live hp2 - int (unat (no_objects h2)) - int (unat (table_size h2)) - 3"
    using array_fini [OF inv] by blast
  ultimately show ?thesis
    using c run by (simp add: hi_fini_def lhi_fini_internal_def SUCCESS_def same_settings_def)
qed

lemma list_insert_client:
  assumes "set_ok cmp s" and "set_coll_eng s = COLL_ENG_LIST \<or> set_coll_eng s = COLL_ENG_LIST_MTF"
    and "no_oom hp" and "set_rehash_auto s = 0" and "0 \<le> set_rehash_threshold s"
    and "\<forall>c \<in> set cs. V (cmd_key c)" and "length cs < max_objects" and "V k"
  shows "\<exists>hp1 h1 rs hp2 h2. hi_create hp s = Some (SUCCESS, hp1, Some h1) \<and>
    hi_run hp1 h1 cs = Some (rs, hp2, h2) \<and>
    (\<forall>hp. \<exists>ret hp' h'. hi_insert hp h2 k d = Some (ret, hp', h') \<and>
      (if ret = SUCCESS then map_of_table (list_table h2) k = None \<and> live hp' = live hp + 2 \<and>
         map_of_table (list_table h') = (map_of_table (list_table h2))(k \<mapsto> d)
       else h' = h2 \<and> live hp' = live hp))"
proof (rule list_create [OF assms(1-3)])
  fix hp1 h1
  assume c: "hi_create hp s = Some (SUCCESS, hp1, Some h1)" "list_inv V cmp h1" "no_oom hp1"
    "map_of_table (list_table h1) = Map.empty" "no_objects h1 = 0" "rehash_auto h1 = set_rehash_auto s"
  have off: "list_table.inv_off h1"
    using c assms(4) by (simp add: list_table.inv_off_def)
  have room: "unat (no_objects h1) + length cs \<le> max_objects"
    using c(5) assms(7) by simp
  obtain rs hp2 h2 where run: "hi_run hp1 h1 cs = Some (rs, hp2, h2)"
    "list_table.inv_off h2" "map_of_table (list_table h2) = snd (spec_cmds Map.empty cs)"
    using list_table.api_off.cmds_simulation [OF off assms(6) c(3) room] c(4)
    by (auto simp: hi_run_def list_table.abs_map_def)
  then have inv: "list_inv V cmp h2" "rehash_auto h2 = 0"
    by (auto simp: list_table.inv_off_def)
  have "unat (no_objects h2) = card (dom (snd (spec_cmds Map.empty cs)))"
    using list_table.abs_map_size [OF inv(1)] by (simp add: list_table.abs_map_def run(3))
  also have "\<dots> < max_objects"
    using card_spec_cmds [of Map.empty cs] assms(7) by simp
  finally show ?thesis
    using list_atomic.insert_atomic [OF inv(1) assms(8) _ inv(2)] c(1) run(1) by blast
qed

lemma list_rehash_client:
  assumes "set_ok cmp s" and "set_coll_eng s = COLL_ENG_LIST \<or> set_coll_eng s = COLL_ENG_LIST_MTF"
    and "no_oom hp" and "0 \<le> set_rehash_threshold s"
    and "\<forall>c \<in> set (cs @ cs'). V (cmd_key c)" and "length (cs @ cs') \<le> max_objects"
    and "snd (spec_cmds Map.empty cs) \<noteq> Map.empty" and "n \<noteq> 0"
  shows "\<exists>hp1 h1 hp2 h2 hp3 h3 hp4 h4. hi_create hp s = Some (SUCCESS, hp1, Some h1) \<and>
    hi_run hp1 h1 cs = Some (fst (spec_cmds Map.empty cs), hp2, h2) \<and>
    hi_rehash hp2 h2 n = Some (SUCCESS, hp3, h3) \<and> table_size h3 = n \<and>
    no_objects h3 = no_objects h2 \<and> live hp3 = live hp2 + 1 \<and>
    hi_run hp3 h3 cs' = Some (fst (spec_cmds (snd (spec_cmds Map.empty cs)) cs'), hp4, h4)"
proof -
  have V: "\<forall>c \<in> set cs. V (cmd_key c)" "\<forall>c \<in> set cs'. V (cmd_key c)"
    and len: "length cs \<le> max_objects"
    using assms(5,6) by auto
  show ?thesis
  proof (rule list_client [OF assms(1-4) V(1) len])
    fix hp1 h1 hp2 h2
    assume c: "hi_create hp s = Some (SUCCESS, hp1, Some h1)"
      "hi_run hp1 h1 cs = Some (fst (spec_cmds Map.empty cs), hp2, h2)"
      "no_oom hp2" "list_inv V cmp h2" "0 \<le> rehash_threshold h2"
      "map_of_table (list_table h2) = snd (spec_cmds Map.empty cs)"
    have "unat (no_objects h2) = card (dom (snd (spec_cmds Map.empty cs)))"
      and fin: "finite (dom (snd (spec_cmds Map.empty cs)))"
      using list_table.abs_map_size [OF c(4)] by (simp_all add: list_table.abs_map_def c(6))
    moreover have "dom (snd (spec_cmds Map.empty cs)) \<noteq> {}"
      using assms(7) by (simp add: dom_eq_empty_conv)
    moreover have "card (dom (snd (spec_cmds Map.empty cs))) \<le> length cs"
      using card_spec_cmds [of Map.empty cs] by simp
    ultimately have size: "no_objects h2 \<noteq> 0" "unat (no_objects h2) + length cs' \<le> max_objects"
      using assms(6) by (auto simp: card_eq_0_iff unat_eq_0 [symmetric])
    then have size': "unat (no_objects h2) \<le> max_objects" by simp
    obtain hp3 h3 where re: "hi_rehash hp2 h2 n = Some (SUCCESS, hp3, h3)" "no_oom hp3"
      "list_inv V cmp h3" "map_of_table (list_table h3) = map_of_table (list_table h2)"
      "no_objects h3 = no_objects h2" "same_settings (h2\<lparr>table_size := n\<rparr>) h3"
      "live hp3 = live hp2 + 3 + 2 * int (unat (no_objects h2)) - (2 + 2 * int (unat (no_objects h2)))"
      using list_table.rehash_spec [OF c(4,3) assms(8) size(1) size', of 0] by (auto simp: hi_rehash_def)
    have "list_table.inv_auto h3"
      using re(3,6) c(5) by (simp add: list_table.inv_auto_def same_settings_def)
    from list_table.api_auto.cmds_simulation [OF this V(2) re(2)]
    obtain hp4 h4 where "hi_run hp3 h3 cs' =
        Some (fst (spec_cmds (snd (spec_cmds Map.empty cs)) cs'), hp4, h4)"
      using size(2) re(4,5) c(6) by (auto simp: hi_run_def list_table.abs_map_def)
    then show ?thesis
      using c re by (auto simp: same_settings_def)
  qed
qed

end

context key_order
begin

lemma rbtree_create:
  assumes "set_ok cmp s" and "set_coll_eng s = COLL_ENG_RBTREE" and "no_oom hp"
  obtains hp' h where "hi_create hp s = Some (SUCCESS, hp', Some h)" and "rbtree_inv V cmp h"
    and "no_oom hp'" and "live hp' = live hp + 3" and "map_of_table (rbtree_table h) = Map.empty"
    and "no_objects h = 0" and "rehash_threshold h = set_rehash_threshold s"
    and "rehash_auto h = set_rehash_auto s"
proof (rule hi_create_blank [OF assms(1,3)])
  fix hp1 h1
  assume c: "hi_create hp s = do {
      (ret, hp, h) \<leftarrow> create_eng hp1 h1;
      if ret \<noteq> SUCCESS then Some (ret, hp, None) else Some (SUCCESS, hp, Some h)
    }" "blank cmp h1" "no_oom hp1" "live hp1 = live hp + 2" "coll_eng h1 = set_coll_eng s"
    "rehash_threshold h1 = set_rehash_threshold s" "rehash_auto h1 = set_rehash_auto s"
  obtain hp' h' where "create_eng hp1 h1 = Some (SUCCESS, hp', h')" "no_oom hp'"
    "live hp' = live hp1 + 1" "rbtree_inv V cmp h'" "same_settings h1 h'"
    "map_of_table (rbtree_table h') = Map.empty" "no_objects h' = 0"
    using create_rbtree_ok [OF c(2) _ c(3), of V] assms(2) c(5) by auto
  then show thesis
    using that [of hp' h'] c by (simp add: same_settings_def)
qed

lemma rbtree_client:
  assumes "set_ok cmp s" and "set_coll_eng s = COLL_ENG_RBTREE"
    and "no_oom hp" and "0 \<le> set_rehash_threshold s"
    and "\<forall>c \<in> set cs. V (cmd_key c)" and "length cs \<le> max_objects"
  obtains hp1 h1 hp2 h2 where "hi_create hp s = Some (SUCCESS, hp1, Some h1)"
    and "hi_run hp1 h1 cs = Some (fst (spec_cmds Map.empty cs), hp2, h2)"
    and "no_oom hp2" and "rbtree_inv V cmp h2" and "0 \<le> rehash_threshold h2"
    and "map_of_table (rbtree_table h2) = snd (spec_cmds Map.empty cs)"
proof (rule rbtree_create [OF assms(1-3)])
  fix hp1 h1
  assume c: "hi_create hp s = Some (SUCCESS, hp1, Some h1)" "rbtree_inv V cmp h1" "no_oom hp1"
    "map_of_table (rbtree_table h1) = Map.empty" "no_objects h1 = 0"
    "rehash_threshold h1 = set_rehash_threshold s"
  have "rbtree_table.inv_auto h1"
    using c assms(4) by (simp add: rbtree_table.inv_auto_def)
  from rbtree_table.api_auto.cmds_simulation [OF this assms(5) c(3)]
  show thesis
    using that c assms(6)
    by (auto simp: rbtree_table.inv_auto_def rbtree_table.abs_map_def hi_run_def)
qed

text \<open>Destroying a table of trees keeps two blocks for every entry.\<close>

lemma rbtree_destroy:
  assumes "set_ok cmp s" and "set_coll_eng s = COLL_ENG_RBTREE"
    and "no_oom hp" and "set_rehash_auto s = 0" and "0 \<le> set_rehash_threshold s"
    and "\<forall>c \<in> set cs. V (cmd_key c)" and "length cs \<le> max_objects"
  shows "\<exists>hp1 h1 rs hp2 h2 hp3. hi_create hp s = Some (SUCCESS, hp1, Some h1) \<and>
    hi_run hp1 h1 cs = Some (rs, hp2, h2) \<and> hi_fini hp2 h2 = Some (SUCCESS, hp3) \<and>
    live hp3 = live hp + 2 * int (card (dom (snd (spec_cmds Map.empty cs))))"
proof (rule rbtree_create [OF assms(1-3)])
  fix hp1 h1
  assume c: "hi_create hp s = Some (SUCCESS, hp1, Some h1)" "rbtree_inv V cmp h1" "no_oom hp1"
    "live hp1 = live hp + 3" "map_of_table (rbtree_table h1) = Map.empty" "no_objects h1 = 0"
    "rehash_auto h1 = set_rehash_auto s"
  have off: "rbtree_table.inv_off h1"
    using c assms(4) by (simp add: rbtree_table.inv_off_def)
  have room: "unat (no_objects h1) + length cs \<le> max_objects"
    using c(6) assms(7) by simp
  obtain rs hp2 h2 where run: "hi_run hp1 h1 cs = Some (rs, hp2, h2)"
    "live hp2 - 2 * int (unat (no_objects h2)) = live hp1 - 2 * int (unat (no_objects h1))"
    using rbtree_table.cmds_live [OF off assms(6) c(3) room] by auto
  have inv: "rbtree_inv V cmp h2" "map_of_table (rbtree_table h2) = snd (spec_cmds Map.empty cs)"
    using rbtree_table.api_off.cmds_simulation [OF off assms(6) c(3) room] run(1) c(5)
    by (auto simp: hi_run_def rbtree_table.inv_off_def rbtree_table.abs_map_def)
  obtain hp' h' where "lhi_fini_internal hp2 h2 = Some (0, hp', h')" "live hp' = live hp2 - 2"
    using rbtree_table.fini_ok [OF inv(1)] by blast
  moreover have "unat (no_objects h2) = card (dom (snd (spec_cmds Map.empty cs)))"
    using rbtree_table.abs_map_size [OF inv(1)] by (simp add: rbtree_table.abs_map_def inv(2))
  ultimately show ?thesis
    using c run by (simp add: hi_fini_def SUCCESS_def)
qed

lemma rbtree_insert_client:
  assumes "set_ok cmp s" and "set_coll_eng s = COLL_ENG_RBTREE"
    and "no_oom hp" and "set_rehash_auto s = 0" and "0 \<le> set_rehash_threshold s"
    and "\<forall>c \<in> set cs. V (cmd_key c)" and "length cs < max_objects" and "V k"
  shows "\<exists>hp1 h1 rs hp2 h2. hi_create hp s = Some (SUCCESS, hp1, Some h1) \<and>
    hi_run hp1 h1 cs = Some (rs, hp2, h2) \<and>
    (\<forall>hp. \<exists>ret hp' h'. hi_insert hp h2 k d = Some (ret, hp', h') \<and>
      (if ret = SUCCESS then map_of_table (rbtree_table h2) k = None \<and> live hp' = live hp + 2 \<and>
         map_of_table (rbtree_table h') = (map_of_table (rbtree_table h2))(k \<mapsto> d)
       else h' = h2 \<and> live hp' = live hp))"
proof (rule rbtree_create [OF assms(1-3)])
  fix hp1 h1
  assume c: "hi_create hp s = Some (SUCCESS, hp1, Some h1)" "rbtree_inv V cmp h1" "no_oom hp1"
    "map_of_table (rbtree_table h1) = Map.empty" "no_objects h1 = 0" "rehash_auto h1 = set_rehash_auto s"
  have off: "rbtree_table.inv_off h1"
    using c assms(4) by (simp add: rbtree_table.inv_off_def)
  have room: "unat (no_objects h1) + length cs \<le> max_objects"
    using c(5) assms(7) by simp
  obtain rs hp2 h2 where run: "hi_run hp1 h1 cs = Some (rs, hp2, h2)"
    "rbtree_table.inv_off h2" "map_of_table (rbtree_table h2) = snd (spec_cmds Map.empty cs)"
    using rbtree_table.api_off.cmds_simulation [OF off assms(6) c(3) room] c(4)
    by (auto simp: hi_run_def rbtree_table.abs_map_def)
  then have inv: "rbtree_inv V cmp h2" "rehash_auto h2 = 0"
    by (auto simp: rbtree_table.inv_off_def)
  have "unat (no_objects h2) = card (dom (snd (spec_cmds Map.empty cs)))"
    using rbtree_table.abs_map_size [OF inv(1)] by (simp add: rbtree_table.abs_map_def run(3))
  also have "\<dots> < max_objects"
    using card_spec_cmds [of Map.empty cs] assms(7) by simp
  finally show ?thesis
    using rbtree_atomic.insert_atomic [OF inv(1) assms(8) _ inv(2)] c(1) run(1) by blast
qed

lemma rbtree_rehash_client:
  assumes "set_ok cmp s" and "set_coll_eng s = COLL_ENG_RBTREE"
    and "no_oom hp" and "0 \<le> set_rehash_threshold s"
    and "\<forall>c \<in> set (cs @ cs'). V (cmd_key c)" and "length (cs @ cs') \<le> max_objects"
    and "snd (spec_cmds Map.empty cs) \<noteq> Map.empty" and "n \<noteq> 0"
  shows "\<exists>hp1 h1 hp2 h2 hp3 h3 hp4 h4. hi_create hp s = Some (SUCCESS, hp1, Some h1) \<and>
    hi_run hp1 h1 cs = Some (fst (spec_cmds Map.empty cs), hp2, h2) \<and>
    hi_rehash hp2 h2 n = Some (SUCCESS, hp3, h3) \<and> table_size h3 = n \<and>
    no_objects h3 = no_objects h2 \<and> live hp3 = live hp2 + 1 + 2 * int (unat (no_objects h2)) \<and>
    hi_run hp3 h3 cs' = Some (fst (spec_cmds (snd (spec_cmds Map.empty cs)) cs'), hp4, h4)"
proof -
  have V: "\<forall>c \<in> set cs. V (cmd_key c)" "\<forall>c \<in> set cs'. V (cmd_key c)"
    and len: "length cs \<le> max_objects"
    using assms(5,6) by auto
  show ?thesis
  proof (rule rbtree_client [OF assms(1-4) V(1) len])
    fix hp1 h1 hp2 h2
    assume c: "hi_create hp s = Some (SUCCESS, hp1, Some h1)"
      "hi_run hp1 h1 cs = Some (fst (spec_cmds Map.empty cs), hp2, h2)"
      "no_oom hp2" "rbtree_inv V cmp h2" "0 \<le> rehash_threshold h2"
      "map_of_table (rbtree_table h2) = snd (spec_cmds Map.empty cs)"
    have "unat (no_objects h2) = card (dom (snd (spec_cmds Map.empty cs)))"
      and fin: "finite (dom (snd (spec_cmds Map.empty cs)))"
      using rbtree_table.abs_map_size [OF c(4)] by (simp_all add: rbtree_table.abs_map_def c(6))
    moreover have "dom (snd (spec_cmds Map.empty cs)) \<noteq> {}"
      using assms(7) by (simp add: dom_eq_empty_conv)
    moreover have "card (dom (snd (spec_cmds Map.empty cs))) \<le> length cs"
      using card_spec_cmds [of Map.empty cs] by simp
    ultimately have size: "no_objects h2 \<noteq> 0" "unat (no_objects h2) + length cs' \<le> max_objects"
      using assms(6) by (auto simp: card_eq_0_iff unat_eq_0 [symmetric])
    then have size': "unat (no_objects h2) \<le> max_objects" by simp
    obtain hp3 h3 where re: "hi_rehash hp2 h2 n = Some (SUCCESS, hp3, h3)" "no_oom hp3"
      "rbtree_inv V cmp h3" "map_of_table (rbtree_table h3) = map_of_table (rbtree_table h2)"
      "no_objects h3 = no_objects h2" "same_settings (h2\<lparr>table_size := n\<rparr>) h3"
      "live hp3 = live hp2 + 3 + 2 * int (unat (no_objects h2)) - 2"
      using rbtree_table.rehash_spec [OF c(4,3) assms(8) size(1) size', of 0] by (auto simp: hi_rehash_def)
    have "rbtree_table.inv_auto h3"
      using re(3,6) c(5) by (simp add: rbtree_table.inv_auto_def same_settings_def)
    from rbtree_table.api_auto.cmds_simulation [OF this V(2) re(2)]
    obtain hp4 h4 where "hi_run hp3 h3 cs' =
        Some (fst (spec_cmds (snd (spec_cmds Map.empty cs)) cs'), hp4, h4)"
      using size(2) re(4,5) c(6) by (auto simp: hi_run_def rbtree_table.abs_map_def)
    then show ?thesis
      using c re by (auto simp: same_settings_def)
  qed
qed

end

end
