(* ===== verification/Hi_correct.thy ===== *)
theory Hi_correct
  imports Hi_client
begin

text \<open>
  The properties of whole runs, stated over the public operations, with runs on string keys as
  their witnesses. The contract \<open>key_domain\<close> or \<open>key_order\<close> on the compare function is the only
  thing assumed of the keys; theory \<open>Cmp_funcs\<close> proves it for the compare functions of the library.
\<close>

section \<open>A run to evaluate the properties on\<close>

definition ex_heap :: heap where
  "ex_heap = \<lparr>outcome = (\<lambda>_. Malloc_block 0), tick = 0, live = 0, have_posix_memalign = True\<rparr>"

definition ex_set :: "coll_eng \<Rightarrow> int \<Rightarrow> hi_init_set" where
  "ex_set e auto = \<lparr>set_table_size = 2, set_rehash_auto = auto, set_rehash_threshold = 3 / 4,
     set_coll_eng_array_size = 4, set_coll_eng = e, set_hash_func = Some (Fptr 1 lhi_hash_hsieh),
     set_hash2_func = None, set_key_cmp = Some (Fptr 2 hi_cmp_str)\<rparr>"

definition ex_cmds :: "cmd list" where
  "ex_cmds = [Ins [97, 0] 1, Ins [98, 0] 2, Ins [97, 0] 3, Get [98, 0], Rem [97, 0], Get [97, 0]]"

lemma ex_ok [simp]:
  "no_oom ex_heap" "0 \<le> set_rehash_threshold (ex_set e r)" "set_coll_eng (ex_set e r) = e"
  "set_rehash_auto (ex_set e r) = r" "\<forall>c \<in> set ex_cmds. str_key (cmd_key c)"
  "length ex_cmds \<le> max_objects"
  by (simp_all add: no_oom_def ex_heap_def ex_set_def ex_cmds_def str_key_def max_objects_def)

lemma ex_set_ok [simp]:
  "e \<in> {COLL_ENG_LIST, COLL_ENG_LIST_MTF, COLL_ENG_ARRAY, COLL_ENG_RBTREE} \<Longrightarrow>
   set_ok hi_cmp_str (ex_set e r)"
  by (auto simp: set_ok_def ex_set_def lhi_set_sanity_check_def lhi_set_sanity_array_def)

lemma ex_replies:
  "fst (spec_cmds Map.empty ex_cmds) =
     [(SUCCESS, None), (SUCCESS, None), (HI_ERR_DUPKEY, None), (SUCCESS, Some 2),
      (SUCCESS, Some 1), (HI_ERR_NOKEY, None)]"
  "snd (spec_cmds Map.empty ex_cmds) = [[98, 0] \<mapsto> 2]"
  by (auto simp: ex_cmds_def)

lemmas ex_keys = str_keys.key_domain_axioms str_keys.key_order_axioms

section \<open>Facts of the contracts on the engines\<close>

context key_domain
begin

lemmas list_visit_map = list_iterator.visit_map

end

context key_order
begin

lemmas rbtree_visit_map = rbtree_iterator.visit_map

end

section \<open>The table is a map\<close>

text \<open>
  C1. A table of chains (plain or move-to-front, with or without automatic rehashing) that
  \<open>hi_create\<close> made answers every sequence of insertions, lookups and removals with the return
  codes and data of the abstract map, none of them undefined, and stores that map at the end.
\<close>

theorem list_table_is_map:
  assumes "key_domain V cmp" and "set_ok cmp s"
    and "set_coll_eng s = COLL_ENG_LIST \<or> set_coll_eng s = COLL_ENG_LIST_MTF"
    and "no_oom hp" and "0 \<le> set_rehash_threshold s"
    and "\<forall>c \<in> set cs. V (cmd_key c)" and "length cs \<le> max_objects"
  shows "\<exists>hp1 h1 hp2 h2. hi_create hp s = Some (SUCCESS, hp1, Some h1) \<and>
    hi_run hp1 h1 cs = Some (fst (spec_cmds Map.empty cs), hp2, h2) \<and>
    map_of_table (list_table h2) = snd (spec_cmds Map.empty cs)"
  by (rule key_domain.list_client [OF assms]) blast

theorem list_table_is_map_witness:
  "\<exists>hp1 h1 hp2 h2. hi_create ex_heap (ex_set COLL_ENG_LIST_MTF 1) = Some (SUCCESS, hp1, Some h1) \<and>
    hi_run hp1 h1 ex_cmds = Some ([(SUCCESS, None), (SUCCESS, None), (HI_ERR_DUPKEY, None),
      (SUCCESS, Some 2), (SUCCESS, Some 1), (HI_ERR_NOKEY, None)], hp2, h2) \<and>
    map_of_table (list_table h2) = [[98, 0] \<mapsto> 2]"
  using list_table_is_map [OF ex_keys(1), of "ex_set COLL_ENG_LIST_MTF 1" ex_heap ex_cmds]
  by (simp add: ex_replies)

text \<open>
  C2. The same for a table of red-black trees, for keys that the compare function orders: every
  sequence of commands is answered as by the abstract map, with or without automatic rehashing.
\<close>

theorem rbtree_table_is_map:
  assumes "key_order V cmp" and "set_ok cmp s" and "set_coll_eng s = COLL_ENG_RBTREE"
    and "no_oom hp" and "0 \<le> set_rehash_threshold s"
    and "\<forall>c \<in> set cs. V (cmd_key c)" and "length cs \<le> max_objects"
  shows "\<exists>hp1 h1 hp2 h2. hi_create hp s = Some (SUCCESS, hp1, Some h1) \<and>
    hi_run hp1 h1 cs = Some (fst (spec_cmds Map.empty cs), hp2, h2) \<and>
    map_of_table (rbtree_table h2) = snd (spec_cmds Map.empty cs) \<and>
    (\<forall>t \<in> set (trees h2). rb_ok t)"
  by (rule key_order.rbtree_client [OF assms]) (auto simp: rbtree_inv_def)

theorem rbtree_table_is_map_witness:
  "\<exists>hp1 h1 hp2 h2. hi_create ex_heap (ex_set COLL_ENG_RBTREE 1) = Some (SUCCESS, hp1, Some h1) \<and>
    hi_run hp1 h1 ex_cmds = Some ([(SUCCESS, None), (SUCCESS, None), (HI_ERR_DUPKEY, None),
      (SUCCESS, Some 2), (SUCCESS, Some 1), (HI_ERR_NOKEY, None)], hp2, h2) \<and>
    map_of_table (rbtree_table h2) = [[98, 0] \<mapsto> 2]"
  using rbtree_table_is_map [OF ex_keys(2), of "ex_set COLL_ENG_RBTREE 1" ex_heap ex_cmds]
  by (auto simp: ex_replies)

text \<open>
  C3. The same for a table of arrays without automatic rehashing, whose arrays grow as needed.
\<close>

theorem array_table_is_map:
  assumes "key_domain V cmp" and "set_ok cmp s" and "set_coll_eng s = COLL_ENG_ARRAY"
    and "no_oom hp" and "set_rehash_auto s = 0"
    and "\<forall>c \<in> set cs. V (cmd_key c)" and "length cs \<le> max_objects"
  shows "\<exists>hp1 h1 hp2 h2. hi_create hp s = Some (SUCCESS, hp1, Some h1) \<and>
    hi_run hp1 h1 cs = Some (fst (spec_cmds Map.empty cs), hp2, h2) \<and>
    map_of_table (array_table h2) = snd (spec_cmds Map.empty cs)"
  by (rule key_domain.array_client [OF assms]) blast

theorem array_table_is_map_witness:
  "\<exists>hp1 h1 hp2 h2. hi_create ex_heap (ex_set COLL_ENG_ARRAY 0) = Some (SUCCESS, hp1, Some h1) \<and>
    hi_run hp1 h1 ex_cmds = Some ([(SUCCESS, None), (SUCCESS, None), (HI_ERR_DUPKEY, None),
      (SUCCESS, Some 2), (SUCCESS, Some 1), (HI_ERR_NOKEY, None)], hp2, h2) \<and>
    map_of_table (array_table h2) = [[98, 0] \<mapsto> 2]"
  using array_table_is_map [OF ex_keys(1), of "ex_set COLL_ENG_ARRAY 0" ex_heap ex_cmds]
  by (simp add: ex_replies)

section \<open>Rehashing\<close>

text \<open>
  C6. \<open>hi_rehash\<close> of a nonempty table of chains to any size but 0 succeeds: the table has the new
  size and as many entries as before, and later commands are answered as if nothing had happened.
  It leaves one block more in use than before: the struct of the new handle is never freed.
\<close>

theorem list_rehash_keeps_map:
  assumes "key_domain V cmp" and "set_ok cmp s"
    and "set_coll_eng s = COLL_ENG_LIST \<or> set_coll_eng s = COLL_ENG_LIST_MTF"
    and "no_oom hp" and "0 \<le> set_rehash_threshold s"
    and "\<forall>c \<in> set (cs @ cs'). V (cmd_key c)" and "length (cs @ cs') \<le> max_objects"
    and "snd (spec_cmds Map.empty cs) \<noteq> Map.empty" and "n \<noteq> 0"
  shows "\<exists>hp1 h1 hp2 h2 hp3 h3 hp4 h4. hi_create hp s = Some (SUCCESS, hp1, Some h1) \<and>
    hi_run hp1 h1 cs = Some (fst (spec_cmds Map.empty cs), hp2, h2) \<and>
    hi_rehash hp2 h2 n = Some (SUCCESS, hp3, h3) \<and> table_size h3 = n \<and>
    no_objects h3 = no_objects h2 \<and> live hp3 = live hp2 + 1 \<and>
    hi_run hp3 h3 cs' = Some (fst (spec_cmds (snd (spec_cmds Map.empty cs)) cs'), hp4, h4)"
  by (rule key_domain.list_rehash_client [OF assms])

theorem list_rehash_keeps_map_witness:
  "\<exists>hp1 h1 rs hp2 h2 hp3 h3 hp4 h4.
    hi_create ex_heap (ex_set COLL_ENG_LIST 0) = Some (SUCCESS, hp1, Some h1) \<and>
    hi_run hp1 h1 ex_cmds = Some (rs, hp2, h2) \<and>
    hi_rehash hp2 h2 7 = Some (SUCCESS, hp3, h3) \<and> table_size h3 = 7 \<and>
    hi_run hp3 h3 [Get [98, 0], Get [99, 0]] =
      Some ([(SUCCESS, Some 2), (HI_ERR_NOKEY, None)], hp4, h4)"
proof -
  have cs: "\<forall>c \<in> set (ex_cmds @ [Get [98, 0], Get [99, 0]]). str_key (cmd_key c)"
    "length (ex_cmds @ [Get [98, 0], Get [99, 0]]) \<le> max_objects"
    "snd (spec_cmds Map.empty ex_cmds) \<noteq> Map.empty"
    "fst (spec_cmds [[98, 0] \<mapsto> 2] [Get [98, 0], Get [99, 0]]) =
       [(SUCCESS, Some 2), (HI_ERR_NOKEY, None)]"
    by (simp_all add: ex_replies(2)) (auto simp: ex_cmds_def str_key_def max_objects_def)
  show ?thesis
    using list_rehash_keeps_map [OF ex_keys(1) _ _ ex_ok(1,2) cs(1-3),
        of COLL_ENG_LIST 0 7, unfolded ex_replies(2) cs(4)]
    by auto
qed

text \<open>
  C7. The same for a table of red-black trees, which besides leaves the old nodes and keys in use:
  one block and two more for every entry.
\<close>

theorem rbtree_rehash_keeps_map:
  assumes "key_order V cmp" and "set_ok cmp s" and "set_coll_eng s = COLL_ENG_RBTREE"
    and "no_oom hp" and "0 \<le> set_rehash_threshold s"
    and "\<forall>c \<in> set (cs @ cs'). V (cmd_key c)" and "length (cs @ cs') \<le> max_objects"
    and "snd (spec_cmds Map.empty cs) \<noteq> Map.empty" and "n \<noteq> 0"
  shows "\<exists>hp1 h1 hp2 h2 hp3 h3 hp4 h4. hi_create hp s = Some (SUCCESS, hp1, Some h1) \<and>
    hi_run hp1 h1 cs = Some (fst (spec_cmds Map.empty cs), hp2, h2) \<and>
    hi_rehash hp2 h2 n = Some (SUCCESS, hp3, h3) \<and> table_size h3 = n \<and>
    no_objects h3 = no_objects h2 \<and> live hp3 = live hp2 + 1 + 2 * int (unat (no_objects h2)) \<and>
    hi_run hp3 h3 cs' = Some (fst (spec_cmds (snd (spec_cmds Map.empty cs)) cs'), hp4, h4)"
  by (rule key_order.rbtree_rehash_client [OF assms])

theorem rbtree_rehash_keeps_map_witness:
  "\<exists>hp1 h1 rs hp2 h2 hp3 h3 hp4 h4.
    hi_create ex_heap (ex_set COLL_ENG_RBTREE 0) = Some (SUCCESS, hp1, Some h1) \<and>
    hi_run hp1 h1 ex_cmds = Some (rs, hp2, h2) \<and>
    hi_rehash hp2 h2 7 = Some (SUCCESS, hp3, h3) \<and> table_size h3 = 7 \<and>
    hi_run hp3 h3 [Get [98, 0], Get [99, 0]] =
      Some ([(SUCCESS, Some 2), (HI_ERR_NOKEY, None)], hp4, h4)"
proof -
  have cs: "\<forall>c \<in> set (ex_cmds @ [Get [98, 0], Get [99, 0]]). str_key (cmd_key c)"
    "length (ex_cmds @ [Get [98, 0], Get [99, 0]]) \<le> max_objects"
    "snd (spec_cmds Map.empty ex_cmds) \<noteq> Map.empty"
    "fst (spec_cmds [[98, 0] \<mapsto> 2] [Get [98, 0], Get [99, 0]]) =
       [(SUCCESS, Some 2), (HI_ERR_NOKEY, None)]"
    by (simp_all add: ex_replies(2)) (auto simp: ex_cmds_def str_key_def max_objects_def)
  show ?thesis
    using rbtree_rehash_keeps_map [OF ex_keys(2) _ _ ex_ok(1,2) cs(1-3),
        of COLL_ENG_RBTREE 0 7, unfolded ex_replies(2) cs(4)]
    by auto
qed

section \<open>Visiting all entries\<close>

text \<open>
  C8. The iterator over a table of chains delivers every entry of the abstract map exactly once,
  then reports the end, and gives back every block it used.
\<close>

theorem list_visit_all:
  assumes "key_domain V cmp" and "set_ok cmp s"
    and "set_coll_eng s = COLL_ENG_LIST \<or> set_coll_eng s = COLL_ENG_LIST_MTF"
    and "no_oom hp" and "0 \<le> set_rehash_threshold s"
    and "\<forall>c \<in> set cs. V (cmd_key c)" and "length cs \<le> max_objects"
  shows "\<exists>hp1 h1 rs hp2 h2 hp3 es. hi_create hp s = Some (SUCCESS, hp1, Some h1) \<and>
    hi_run hp1 h1 cs = Some (rs, hp2, h2) \<and>
    hi_visit hp2 h2 = Some (HI_ERR_NODATA, hp3, es) \<and> live hp3 = live hp2 \<and>
    distinct (map fst es) \<and> map_of es = snd (spec_cmds Map.empty cs)"
proof (rule key_domain.list_client [OF assms])
  fix hp1 h1 hp2 h2
  assume c: "hi_create hp s = Some (SUCCESS, hp1, Some h1)"
    "hi_run hp1 h1 cs = Some (fst (spec_cmds Map.empty cs), hp2, h2)" "no_oom hp2"
    "list_inv V cmp h2" "map_of_table (list_table h2) = snd (spec_cmds Map.empty cs)"
  show ?thesis
    using key_domain.list_visit_map [OF assms(1) c(4,3)] c by auto
qed

theorem list_visit_all_witness:
  "\<exists>hp1 h1 rs hp2 h2 hp3 es. hi_create ex_heap (ex_set COLL_ENG_LIST 1) = Some (SUCCESS, hp1, Some h1) \<and>
    hi_run hp1 h1 ex_cmds = Some (rs, hp2, h2) \<and>
    hi_visit hp2 h2 = Some (HI_ERR_NODATA, hp3, es) \<and> distinct (map fst es) \<and> map_of es = [[98, 0] \<mapsto> 2]"
  using list_visit_all [OF ex_keys(1), of "ex_set COLL_ENG_LIST 1" ex_heap ex_cmds]
  by (auto simp: ex_replies)

text \<open>
  C9. The same for a table of red-black trees: the iterator delivers every entry exactly once.
\<close>

theorem rbtree_visit_all:
  assumes "key_order V cmp" and "set_ok cmp s" and "set_coll_eng s = COLL_ENG_RBTREE"
    and "no_oom hp" and "0 \<le> set_rehash_threshold s"
    and "\<forall>c \<in> set cs. V (cmd_key c)" and "length cs \<le> max_objects"
  shows "\<exists>hp1 h1 rs hp2 h2 hp3 es. hi_create hp s = Some (SUCCESS, hp1, Some h1) \<and>
    hi_run hp1 h1 cs = Some (rs, hp2, h2) \<and>
    hi_visit hp2 h2 = Some (HI_ERR_NODATA, hp3, es) \<and> live hp3 = live hp2 \<and>
    distinct (map fst es) \<and> map_of es = snd (spec_cmds Map.empty cs)"
proof (rule key_order.rbtree_client [OF assms])
  fix hp1 h1 hp2 h2
  assume c: "hi_create hp s = Some (SUCCESS, hp1, Some h1)"
    "hi_run hp1 h1 cs = Some (fst (spec_cmds Map.empty cs), hp2, h2)" "no_oom hp2"
    "rbtree_inv V cmp h2" "map_of_table (rbtree_table h2) = snd (spec_cmds Map.empty cs)"
  show ?thesis
    using key_order.rbtree_visit_map [OF assms(1) c(4,3)] c by auto
qed

theorem rbtree_visit_all_witness:
  "\<exists>hp1 h1 rs hp2 h2 hp3 es. hi_create ex_heap (ex_set COLL_ENG_RBTREE 1) = Some (SUCCESS, hp1, Some h1) \<and>
    hi_run hp1 h1 ex_cmds = Some (rs, hp2, h2) \<and>
    hi_visit hp2 h2 = Some (HI_ERR_NODATA, hp3, es) \<and> distinct (map fst es) \<and> map_of es = [[98, 0] \<mapsto> 2]"
  using rbtree_visit_all [OF ex_keys(2), of "ex_set COLL_ENG_RBTREE 1" ex_heap ex_cmds]
  by (auto simp: ex_replies)

section \<open>Destroying a table\<close>

text \<open>
  Destroying a table of chains that was not rehashed gives back every block that creating and
  using it took.
\<close>

lemma list_no_leak:
  assumes "key_domain V cmp" and "set_ok cmp s"
    and "set_coll_eng s = COLL_ENG_LIST \<or> set_coll_eng s = COLL_ENG_LIST_MTF"
    and "no_oom hp" and "set_rehash_auto s = 0" and "0 \<le> set_rehash_threshold s"
    and "\<forall>c \<in> set cs. V (cmd_key c)" and "length cs \<le> max_objects"
  shows "\<exists>hp1 h1 rs hp2 h2 hp3. hi_create hp s = Some (SUCCESS, hp1, Some h1) \<and>
    hi_run hp1 h1 cs = Some (rs, hp2, h2) \<and> hi_fini hp2 h2 = Some (SUCCESS, hp3) \<and> live hp3 = live hp"
  by (rule key_domain.list_destroy [OF assms])

text \<open>
  The same for a table of arrays, with the arrays that grew.
\<close>

lemma array_no_leak:
  assumes "key_domain V cmp" and "set_ok cmp s" and "set_coll_eng s = COLL_ENG_ARRAY"
    and "no_oom hp" and "set_rehash_auto s = 0"
    and "\<forall>c \<in> set cs. V (cmd_key c)" and "length cs \<le> max_objects"
  shows "\<exists>hp1 h1 rs hp2 h2 hp3. hi_create hp s = Some (SUCCESS, hp1, Some h1) \<and>
    hi_run hp1 h1 cs = Some (rs, hp2, h2) \<and> hi_fini hp2 h2 = Some (SUCCESS, hp3) \<and> live hp3 = live hp"
  by (rule key_domain.array_destroy [OF assms])

text \<open>
  C11. Destroying a table of red-black trees does not give back all blocks: \<open>lhi_fini_rbtree\<close> frees
  neither nodes nor keys, so two blocks for every entry stay in use.
\<close>

theorem rbtree_fini_leak:
  assumes "key_order V cmp" and "set_ok cmp s" and "set_coll_eng s = COLL_ENG_RBTREE"
    and "no_oom hp" and "set_rehash_auto s = 0" and "0 \<le> set_rehash_threshold s"
    and "\<forall>c \<in> set cs. V (cmd_key c)" and "length cs \<le> max_objects"
  shows "\<exists>hp1 h1 rs hp2 h2 hp3. hi_create hp s = Some (SUCCESS, hp1, Some h1) \<and>
    hi_run hp1 h1 cs = Some (rs, hp2, h2) \<and> hi_fini hp2 h2 = Some (SUCCESS, hp3) \<and>
    live hp3 = live hp + 2 * int (card (dom (snd (spec_cmds Map.empty cs))))"
  by (rule key_order.rbtree_destroy [OF assms])

theorem rbtree_fini_leak_witness:
  "\<exists>hp1 h1 rs hp2 h2 hp3. hi_create ex_heap (ex_set COLL_ENG_RBTREE 0) = Some (SUCCESS, hp1, Some h1) \<and>
    hi_run hp1 h1 ex_cmds = Some (rs, hp2, h2) \<and> hi_fini hp2 h2 = Some (SUCCESS, hp3) \<and> live hp3 = 2"
  using rbtree_fini_leak [OF ex_keys(2), of "ex_set COLL_ENG_RBTREE 0" ex_heap ex_cmds]
  by (simp add: ex_replies(2) ex_heap_def [THEN arg_cong [of _ _ live]])

section \<open>Memory exhaustion\<close>

text \<open>
  C10. Insertion into a table of plain or move-to-front chains that was made without automatic
  rehashing is atomic: whatever the allocator does at the time of the insertion, it either stores
  the new entry, or returns an error, leaves the table as it was and gives back what it had
  allocated.
\<close>

theorem list_insert_all_or_nothing:
  assumes "key_domain V cmp" and "set_ok cmp s"
    and "set_coll_eng s = COLL_ENG_LIST \<or> set_coll_eng s = COLL_ENG_LIST_MTF"
    and "no_oom hp" and "set_rehash_auto s = 0" and "0 \<le> set_rehash_threshold s"
    and "\<forall>c \<in> set cs. V (cmd_key c)" and "length cs < max_objects" and "V k"
  shows "\<exists>hp1 h1 rs hp2 h2. hi_create hp s = Some (SUCCESS, hp1, Some h1) \<and>
    hi_run hp1 h1 cs = Some (rs, hp2, h2) \<and>
    (\<forall>hp. \<exists>ret hp' h'. hi_insert hp h2 k d = Some (ret, hp', h') \<and>
      (if ret = SUCCESS then map_of_table (list_table h2) k = None \<and> live hp' = live hp + 2 \<and>
         map_of_table (list_table h') = (map_of_table (list_table h2))(k \<mapsto> d)
       else h' = h2 \<and> live hp' = live hp))"
  by (rule key_domain.list_insert_client [OF assms])

theorem list_insert_all_or_nothing_witness:
  "\<exists>hp1 h1 rs hp2 h2. hi_create ex_heap (ex_set COLL_ENG_LIST 0) = Some (SUCCESS, hp1, Some h1) \<and>
    hi_run hp1 h1 ex_cmds = Some (rs, hp2, h2) \<and>
    (\<exists>ret hp' h'. hi_insert (ex_heap\<lparr>outcome := (\<lambda>n. if n = 0 then Malloc_block 0 else Malloc_fail)\<rparr>)
        h2 [99, 0] 5 = Some (ret, hp', h') \<and> (ret \<noteq> SUCCESS \<longrightarrow> h' = h2))"
proof -
  have "str_key [99, 0]" "length ex_cmds < max_objects"
    by (auto simp: str_key_def ex_cmds_def max_objects_def)
  then show ?thesis
    using list_insert_all_or_nothing [OF ex_keys(1) _ _ ex_ok(1) _ ex_ok(2) ex_ok(5), of COLL_ENG_LIST 0 "[99, 0]" 5]
    by simp meson
qed

text \<open>
  The same for a table of red-black trees.
\<close>

lemma rbtree_insert_all_or_nothing:
  assumes "key_order V cmp" and "set_ok cmp s" and "set_coll_eng s = COLL_ENG_RBTREE"
    and "no_oom hp" and "set_rehash_auto s = 0" and "0 \<le> set_rehash_threshold s"
    and "\<forall>c \<in> set cs. V (cmd_key c)" and "length cs < max_objects" and "V k"
  shows "\<exists>hp1 h1 rs hp2 h2. hi_create hp s = Some (SUCCESS, hp1, Some h1) \<and>
    hi_run hp1 h1 cs = Some (rs, hp2, h2) \<and>
    (\<forall>hp. \<exists>ret hp' h'. hi_insert hp h2 k d = Some (ret, hp', h') \<and>
      (if ret = SUCCESS then map_of_table (rbtree_table h2) k = None \<and> live hp' = live hp + 2 \<and>
         map_of_table (rbtree_table h') = (map_of_table (rbtree_table h2))(k \<mapsto> d)
       else h' = h2 \<and> live hp' = live hp))"
  by (rule key_order.rbtree_insert_client [OF assms])

end
