(* ===== verification/Hi_faults.thy ===== *)
theory Hi_faults
  imports Hi_correct
begin

text \<open>
  Where the code does not do what it means to: the engines and operations that the theorems of
  theory \<open>Hi_correct\<close> leave out, and why they have to.
\<close>

context key_domain
begin

lemmas list_rehash_empty = list_table.rehash_empty

end

section \<open>Second hash of the chains\<close>

lemma create_hash_list:
  assumes "blank cmp h" and "list_eng (coll_eng h)" and "no_oom hp"
  obtains hp' h' where "create_eng hp h = Some (SUCCESS, hp', h')" and "no_oom hp'"
    and "bucket_table h' = replicate (unat (table_size h)) []"
    and "bucket_size h' = replicate (unat (table_size h)) 0" and "same_settings h h'"
proof -
  obtain junk hp' where hp': "xalloc_align hp = (0, junk, hp')" "no_oom hp'"
    by (rule xalloc_no_oom [OF assms(3)])
  have "create_eng hp h = Some (SUCCESS, hp', h\<lparr>bucket_table := replicate (unat (table_size h)) [],
      bucket_size := replicate (unat (table_size h)) 0\<rparr>)"
    using assms(1,2) hp'(1) by (simp add: create_eng_def lhi_create_eng_list_def blank_def)
  then show thesis
    by (rule that [OF _ hp'(2)]) (simp_all add: same_settings_def)
qed

text \<open>
  C38. \<open>lhi_insert_list\<close> never stores the second hash of the key, so whether a table of
  COLL_ENG_LIST_HASH finds an entry it just stored depends on what the allocated block held: it
  does so exactly when that happens to be the hash. COLL_ENG_LIST_MTF_HASH, whose get operation
  compares the hashes with \<open>!=\<close>, finds it exactly when it is not the hash.
\<close>

theorem list_hash_get_depends_on_junk:
  assumes "key_domain V cmp" and "set_ok cmp s"
    and "set_coll_eng s = COLL_ENG_LIST_HASH \<or> set_coll_eng s = COLL_ENG_LIST_MTF_HASH"
    and "set_hash2_func s = Some g" and "no_oom hp" and "set_rehash_auto s = 0" and "V k"
  shows "\<exists>hp1 h1 junk hp2 h2. hi_create hp s = Some (SUCCESS, hp1, Some h1) \<and>
    fst (malloc hp1) = Some junk \<and> hi_insert hp1 h1 k d = Some (SUCCESS, hp2, h2) \<and>
    map_option (\<lambda>(ret, data, h). (ret, data)) (hi_get h2 k) =
      Some (if (junk = fp_fun g k) = (set_coll_eng s = COLL_ENG_LIST_HASH) then (SUCCESS, Some d)
            else (HI_ERR_NOKEY, None))"
proof (rule hi_create_blank [OF assms(2,5)])
  fix hp1 h1
  assume c: "hi_create hp s = do {
      (ret, hp, h) \<leftarrow> create_eng hp1 h1;
      if ret \<noteq> SUCCESS then Some (ret, hp, None) else Some (SUCCESS, hp, Some h)
    }" "blank cmp h1" "no_oom hp1" "coll_eng h1 = set_coll_eng s"
    "rehash_auto h1 = set_rehash_auto s" "hash2_func h1 = set_hash2_func s"
  have eng: "list_eng (coll_eng h1)"
    using assms(3) c(4) by auto
  obtain hp2 h2 where e: "create_eng hp1 h1 = Some (SUCCESS, hp2, h2)" "no_oom hp2"
    "bucket_table h2 = replicate (unat (table_size h1)) []"
    "bucket_size h2 = replicate (unat (table_size h1)) 0" "same_settings h1 h2"
    by (rule create_hash_list [OF c(2) eng c(3)])
  obtain f where "hash_func h1 = Some f" "table_size h1 \<noteq> 0" "fp_call (key_cmp h1) = Some cmp"
    using c(2) by (auto simp: blank_def)
  then have set: "hash_func h2 = Some f" "table_size h2 \<noteq> 0" "table_size h2 = table_size h1"
    "fp_call (key_cmp h2) = Some cmp" "hash2_func h2 = Some g" "rehash_auto h2 = 0"
    "coll_eng h2 = set_coll_eng s" "list_eng (coll_eng h2)"
    using e(5) c(4-6) assms(4,6) eng by (simp_all add: same_settings_def)
  define b where "b = unat (fp_fun f k mod table_size h1)"
  have b: "b < unat (table_size h1)" "hash_bucket h2 k = Some b"
    using set(2,3) by (simp_all add: b_def hash_bucket_def set(1) unat_mod word_gt_0 unat_gt_0)
  have self: "cmp k k = Some 0"
    using key_domain.cmp_eq [OF assms(1) assms(7,7)] by auto
  obtain junk hp3 where x1: "malloc hp2 = (Some junk, hp3)" "no_oom hp3"
    by (rule malloc_no_oom [OF e(2)])
  obtain junk' hp4 where x2: "xalloc_align hp3 = (0, junk', hp4)"
    by (rule xalloc_no_oom [OF x1(2)])
  define obj where "obj = \<lparr>key_len = word_of_nat (length k), obj_key = k, obj_data = d, key_hash = junk\<rparr>"
  define h3 where "h3 = h2\<lparr>bucket_table := (bucket_table h2)[b := [obj]],
    bucket_size := (bucket_size h2)[b := 1], no_objects := no_objects h2 + 1\<rparr>"
  have "hi_lookup h2 k = Some HI_ERR_NOKEY"
    using assms(3) b e(3) set by (auto simp: hi_lookup_def lhi_lookup_list_def rd_def)
  moreover have "insert_eng hp2 h2 k d = Some (SUCCESS, hp4, h3)"
    using b e(3,4) set(8) x1 x2
    by (simp add: insert_eng_def lhi_insert_list_def xalloc_align_def rd_def h3_def obj_def)
  ultimately have "hi_insert hp2 h2 k d = Some (SUCCESS, hp4, h3)"
    using hi_insert_at_off [OF set(6), of 1] set(6)
    by (simp add: hi_insert_def hi_insert_at_0 hi_defs)
  moreover have h3: "coll_eng h3 = set_coll_eng s" "hash2_func h3 = Some g" "hash_bucket h3 k = Some b"
    "fp_call (key_cmp h3) = Some cmp" "rd (bucket_table h3) b = Some [obj]"
    using b e(3) set by (simp_all add: h3_def hash_bucket_def rd_def)
  have "match_key h3 k obj = Some True"
    by (simp add: match_key_def h3(4) obj_def self)
  then have "map_option (\<lambda>(ret, data, h). (ret, data)) (hi_get h3 k) =
      Some (if (junk = fp_fun g k) = (set_coll_eng s = COLL_ENG_LIST_HASH) then (SUCCESS, Some d)
            else (HI_ERR_NOKEY, None))"
    using assms(3) h3
    by (auto simp: hi_get_def lhi_get_list_def match_hash_def match_other_hash_def obj_def)
  ultimately show ?thesis
    using c(1) e(1) x1(1) by auto
qed

theorem list_hash_get_depends_on_junk_witness:
  "\<exists>hp1 h1 junk hp2 h2. hi_create ex_heap
       ((ex_set COLL_ENG_LIST_HASH 0)\<lparr>set_hash2_func := Some (Fptr 3 lhi_hash_djb2)\<rparr>) =
         Some (SUCCESS, hp1, Some h1) \<and>
    fst (malloc hp1) = Some junk \<and> hi_insert hp1 h1 [97, 0] 1 = Some (SUCCESS, hp2, h2) \<and>
    map_option (\<lambda>(ret, data, h). (ret, data)) (hi_get h2 [97, 0]) =
      Some (if junk = lhi_hash_djb2 [97, 0] then (SUCCESS, Some 1) else (HI_ERR_NOKEY, None))"
proof -
  let ?s = "(ex_set COLL_ENG_LIST_HASH 0)\<lparr>set_hash2_func := Some (Fptr 3 lhi_hash_djb2)\<rparr>"
  have "set_ok hi_cmp_str ?s" "set_coll_eng ?s = COLL_ENG_LIST_HASH" "str_key [97, 0]"
    "set_rehash_auto ?s = 0" "set_hash2_func ?s = Some (Fptr 3 lhi_hash_djb2)"
    by (auto simp: set_ok_def lhi_set_sanity_check_def lhi_set_sanity_hash2_def fp_same_def
        ex_set_def str_key_def)
  then show ?thesis
    using list_hash_get_depends_on_junk [OF ex_keys(1), of ?s _ ex_heap "[97, 0]" 1] by simp
qed

section \<open>Array engines without operations\<close>

text \<open>
  In a table of COLL_ENG_ARRAY_HASH, COLL_ENG_ARRAY_DYN or COLL_ENG_ARRAY_DYN_HASH no key is
  ever found or removed, whatever the table holds: both operations report that there is no such key.
\<close>

lemma array_variants_find_nothing:
  assumes "coll_eng h \<in> {COLL_ENG_ARRAY_HASH, COLL_ENG_ARRAY_DYN, COLL_ENG_ARRAY_DYN_HASH}"
    and "hash_func h = Some f" and "table_size h \<noteq> 0"
  shows "hi_get h k = Some (HI_ERR_NOKEY, None, h) \<and>
    hi_remove hp h k = Some (HI_ERR_NOKEY, None, hp, h)"
  using assms
  by (auto simp: hi_get_def hi_remove_def lhi_get_array_def lhi_remove_array_def hash_bucket_def)

text \<open>A table with the settings of the example, after some commands.\<close>

definition ex_run :: "heap \<Rightarrow> hi_init_set \<Rightarrow> cmd list \<Rightarrow> (reply list \<times> heap \<times> hi_handle) option" where
  "ex_run hp s cs = do {
     (ret, hp, h) \<leftarrow> hi_create hp s;
     (case h of None \<Rightarrow> None | Some h \<Rightarrow> hi_run hp h cs)
   }"

text \<open>
  So insertion, which looks for the key first, stores one key twice.
\<close>

lemma array_variants_store_twice:
  "map_option (\<lambda>(rs, hp, h). (rs, map_of_table (array_table h) [97, 0], no_objects h))
     (ex_run ex_heap ((ex_set COLL_ENG_ARRAY_HASH 0)\<lparr>set_table_size := 1\<rparr>)
       [Ins [97, 0] 1, Ins [97, 0] 2, Get [97, 0]]) =
   Some ([(SUCCESS, None), (SUCCESS, None), (HI_ERR_NOKEY, None)], Some 1, 2)"
  by code_simp

section \<open>The iterator over arrays\<close>

text \<open>
  After two insertions into one bucket of an array table and the removal of the first key, the
  iterator scans only the first slot, now unused, and reads entries it never filled: visiting the
  table is undefined, although the table still holds the second entry.
\<close>

lemma array_iterator_hole:
  "map_option (\<lambda>(rs, hp, h). (rs, map_of_table (array_table h) [98, 0],
       map_option (\<lambda>(ret, hp, es). (ret, es)) (hi_visit hp h)))
     (ex_run ex_heap ((ex_set COLL_ENG_ARRAY 0)\<lparr>set_table_size := 1\<rparr>)
       [Ins [97, 0] 1, Ins [98, 0] 2, Rem [97, 0]]) =
   Some ([(SUCCESS, None), (SUCCESS, None), (SUCCESS, Some 1)], Some 2, None)"
  by code_simp

section \<open>Unsigned 32-bit keys in a tree\<close>

text \<open>
  A tree of keys compared by \<open>hi_cmp_uint32_t\<close>, whose sign is not an order, loses keys: with
  three keys stored and one of them removed, one of the others is no longer found.
\<close>

lemma uint32_tree_loses_key:
  "map_option (\<lambda>(rs, hp, h). (map fst rs, no_objects h))
     (ex_run ex_heap ((ex_set COLL_ENG_RBTREE 0)\<lparr>set_table_size := 1,
         set_key_cmp := Some (Fptr 3 hi_cmp_uint32_t)\<rparr>)
       [Ins (bytes32 0) 1, Ins (bytes32 0x10000000) 2, Ins (bytes32 0x90000000) 3, Rem (bytes32 0),
        Get (bytes32 0x10000000)]) =
   Some ([SUCCESS, SUCCESS, SUCCESS, SUCCESS, HI_ERR_NOKEY], 2)"
  by code_simp

section \<open>Rehashing\<close>

text \<open>
  \<open>hi_rehash\<close> of a table of chains without entries fails with HI_ERR_NODATA, keeps the old size,
  and loses the three blocks it allocated for the new table.
\<close>

lemma rehash_empty_fails:
  assumes "key_domain V cmp" and "set_ok cmp s"
    and "set_coll_eng s = COLL_ENG_LIST \<or> set_coll_eng s = COLL_ENG_LIST_MTF"
    and "no_oom hp" and "n \<noteq> 0"
  shows "\<exists>hp1 h1 hp2. hi_create hp s = Some (SUCCESS, hp1, Some h1) \<and>
    hi_rehash hp1 h1 n = Some (HI_ERR_NODATA, hp2, h1) \<and> live hp2 = live hp1 + 3"
proof (rule key_domain.list_create [OF assms(1-4)])
  fix hp1 h1
  assume c: "hi_create hp s = Some (SUCCESS, hp1, Some h1)" "list_inv V cmp h1" "no_oom hp1"
    "no_objects h1 = 0"
  show ?thesis
    using key_domain.list_rehash_empty [OF assms(1) c(2,3) assms(5) c(4), of 0] c(1)
    by (auto simp: hi_rehash_def)
qed

text \<open>
  When the memory for the eighth allocation of \<open>hi_rehash\<close>, the first node of the new table,
  is missing, the error path frees the new handle and then writes to it: the behaviour is undefined.
\<close>

lemma rehash_failed_insert_undefined:
  "(case ex_run ex_heap (ex_set COLL_ENG_LIST 0) [Ins [97, 0] 1] of
      None \<Rightarrow> False
    | Some (_, hp, h) \<Rightarrow>
        hi_rehash (hp\<lparr>outcome := (\<lambda>n. if n < tick hp + 7 then Malloc_block 0 else Malloc_fail)\<rparr>) h 4 = None \<and>
        hi_rehash hp h 4 \<noteq> None)"
  by code_simp

end
