(* ===== verification/Hi_codes.thy ===== *)
theory Hi_codes
  imports Hi_faults
begin

text \<open>
  The result codes as a type discipline: whatever table, key and heap an operation is called with,
  each of its defined results carries one of the codes listed here for that operation, the data
  pointer is stored exactly on success, and the engine of the table does not change. All of them are
  codes of \<open>include/libhashish.h\<close>; the allocator's positive \<open>ENOMEM\<close>, which comes out of a chained
  insertion, is not, and is stated as the exception it is.
\<close>

section \<open>All defined results satisfy a condition\<close>

definition yields :: "('a \<Rightarrow> bool) \<Rightarrow> 'a option \<Rightarrow> bool" where
  "yields P m = (case m of None \<Rightarrow> True | Some r \<Rightarrow> P r)"

named_theorems yields_rules \<open>introduction rules for the results of composed operations\<close>

lemma yields_simps [simp]: "yields P None" "yields P (Some r) = P r"
  by (simp_all add: yields_def)

lemma yields_bind [yields_rules]:
  "(\<And>x. m = Some x \<Longrightarrow> yields P (f x)) \<Longrightarrow> yields P (Option.bind m f)"
  by (cases m) simp_all

lemma yields_Some [yields_rules]: "P r \<Longrightarrow> yields P (Some r)"
  by simp

lemma yields_None [yields_rules]: "yields P None"
  by simp

lemma yields_if [yields_rules]:
  "(b \<Longrightarrow> yields P m) \<Longrightarrow> (\<not> b \<Longrightarrow> yields P m') \<Longrightarrow> yields P (if b then m else m')"
  by simp

lemma yields_option [yields_rules]:
  "(x = None \<Longrightarrow> yields P m) \<Longrightarrow> (\<And>y. x = Some y \<Longrightarrow> yields P (f y)) \<Longrightarrow>
     yields P (case x of None \<Rightarrow> m | Some y \<Rightarrow> f y)"
  by (cases x) simp_all

lemma yields_pair [yields_rules]:
  "(\<And>a b. x = (a, b) \<Longrightarrow> yields P (f a b)) \<Longrightarrow> yields P (case x of (a, b) \<Rightarrow> f a b)"
  by (cases x) simp

lemma yields_tree [yields_rules]:
  "(t = RB_NULL \<Longrightarrow> yields P m) \<Longrightarrow>
     (\<And>c l e r. t = RB_NODE c l e r \<Longrightarrow> yields P (f c l e r)) \<Longrightarrow>
     yields P (case t of RB_NODE c l e r \<Rightarrow> f c l e r | RB_NULL \<Rightarrow> m)"
  by (cases t) simp_all

lemma yields_mono: "yields P m \<Longrightarrow> (\<And>r. P r \<Longrightarrow> Q r) \<Longrightarrow> yields Q m"
  by (cases m) simp_all

lemma yieldsD: "yields P m \<Longrightarrow> m = Some r \<Longrightarrow> P r"
  by simp

section \<open>The frame of an operation\<close>

text \<open>The allocator and the build stay what they are.\<close>

definition same_build :: "heap \<Rightarrow> heap \<Rightarrow> bool" where
  "same_build hp hp' \<longleftrightarrow> have_posix_memalign hp' = have_posix_memalign hp"

lemma same_build_simps [simp]:
  "same_build hp hp" "same_build hp (free hp') = same_build hp hp'"
  "same_build (free hp) hp' = same_build hp hp'"
  by (simp_all add: same_build_def free_def)

lemma same_build_trans: "same_build hp hp' \<Longrightarrow> same_build hp' hp'' \<Longrightarrow> same_build hp hp''"
  by (simp add: same_build_def)

lemma malloc_build: "malloc hp = (r, hp') \<Longrightarrow> same_build hp hp'"
  by (auto simp: malloc_def same_build_def Let_def split: malloc_result.splits)

text \<open>The code of the allocator's failure.\<close>

definition oom_code :: "heap \<Rightarrow> int" where
  "oom_code hp = (if have_posix_memalign hp then ENOMEM else HI_ERR_SYSTEM)"

lemma oom_code_build: "same_build hp hp' \<Longrightarrow> oom_code hp' = oom_code hp"
  by (simp add: oom_code_def same_build_def)

lemma xalloc_code:
  "xalloc_align hp = (r, j, hp') \<Longrightarrow> (r = 0 \<or> r = oom_code hp) \<and> same_build hp hp'"
  by (auto simp: xalloc_align_def oom_code_def hi_defs split: prod.splits option.splits
      dest: malloc_build)

section \<open>Lookup, get and remove\<close>

definition found_codes :: "int set" where
  "found_codes = {SUCCESS, HI_ERR_NOKEY, HI_ERR_INTERNAL}"

lemma lookup_code:
  "yields (\<lambda>r. r \<in> {SUCCESS, FAILURE, HI_ERR_NOKEY, HI_ERR_INTERNAL}) (hi_lookup h key)"
  unfolding hi_lookup_def lhi_lookup_list_def by (intro yields_rules) simp_all

text \<open>A get stores a data pointer exactly when it returns \<open>SUCCESS\<close>.\<close>

definition get_result :: "hi_handle \<Rightarrow> int \<times> ptr option \<times> hi_handle \<Rightarrow> bool" where
  "get_result h = (\<lambda>(r, data, h'). r \<in> found_codes \<and> (r = SUCCESS \<longleftrightarrow> data \<noteq> None) \<and>
     same_settings h h' \<and> no_objects h' = no_objects h)"

lemmas result_defs = found_codes_def hi_defs same_settings_def

lemma get_code: "yields (get_result h) (hi_get h key)"
proof -
  have "yields (get_result h) (lhi_get_list h key)"
    unfolding lhi_get_list_def
    by (cases "coll_eng h"; simp only: coll_eng.case; intro yields_rules)
      (simp_all add: get_result_def result_defs)
  moreover have "yields (get_result h) (lhi_get_rbtree h key)"
    unfolding lhi_get_rbtree_def by (intro yields_rules) (simp_all add: get_result_def result_defs)
  moreover have "yields (get_result h) (lhi_get_array h key)"
    unfolding lhi_get_array_def by (intro yields_rules) (simp_all add: get_result_def result_defs)
  ultimately show ?thesis
    unfolding hi_get_def by (intro yields_rules) (simp_all add: get_result_def result_defs)
qed

text \<open>
  A removal that fails changes nothing; one that succeeds gives one or two blocks back.
\<close>

definition remove_result :: "heap \<Rightarrow> hi_handle \<Rightarrow> int \<times> ptr option \<times> heap \<times> hi_handle \<Rightarrow> bool" where
  "remove_result hp h = (\<lambda>(r, data, hp', h'). r \<in> found_codes \<and> (r = SUCCESS \<longleftrightarrow> data \<noteq> None) \<and>
     (if r = SUCCESS then same_settings h h' \<and> same_build hp hp' \<and> live hp' < live hp \<and>
        no_objects h' = no_objects h - 1
      else hp' = hp \<and> h' = h))"

lemma remove_code: "yields (remove_result hp h) (hi_remove hp h key)"
proof -
  have "yields (remove_result hp h) (lhi_remove_list hp h key)"
    unfolding lhi_remove_list_def unlink_def
    by (intro yields_rules) (simp_all add: remove_result_def result_defs)
  moreover have "yields (remove_result hp h) (lhi_remove_rbtree hp h key)"
    unfolding lhi_remove_rbtree_def
    by (intro yields_rules) (simp_all add: remove_result_def result_defs)
  moreover have "yields (remove_result hp h) (lhi_remove_array hp h key)"
    unfolding lhi_remove_array_def
    by (intro yields_rules) (simp_all add: remove_result_def result_defs)
  ultimately show ?thesis
    unfolding hi_remove_def by (intro yields_rules) (simp_all add: remove_result_def result_defs)
qed

section \<open>Insertion and rehashing\<close>

text \<open>
  The codes of an insertion, all of the header. Out of the chained engines the allocator's own code
  comes besides.
\<close>

definition insert_codes :: "int set" where
  "insert_codes = {SUCCESS, HI_ERR_DUPKEY, HI_ERR_SYSTEM, HI_ERR_INTERNAL}"

definition insert_result :: "heap \<Rightarrow> hi_handle \<Rightarrow> int \<times> heap \<times> hi_handle \<Rightarrow> bool" where
  "insert_result hp h = (\<lambda>(r, hp', h').
     (r \<in> insert_codes \<or> list_eng (coll_eng h) \<and> r = oom_code hp) \<and>
     same_build hp hp' \<and> coll_eng h' = coll_eng h)"

lemma list_insert_code:
  "list_eng (coll_eng h) \<Longrightarrow> yields (insert_result hp h) (lhi_insert_list hp h key data)"
  unfolding lhi_insert_list_def Let_def
  by (intro yields_rules)
    (auto simp: insert_result_def insert_codes_def dest!: xalloc_code dest: same_build_trans
      oom_code_build)

lemma rbtree_insert_code: "yields (insert_result hp h) (lhi_insert_rbtree hp h key data)"
proof -
  have new: "same_build hp hp'" if "lhi_rb_entry_new hp key data = (e, hp')" for e hp'
    using that by (auto simp: lhi_rb_entry_new_def split: prod.splits option.splits
        dest!: malloc_build dest: same_build_trans)
  show ?thesis
    unfolding lhi_insert_rbtree_def
    by (intro yields_rules) (auto simp: insert_result_def insert_codes_def dest!: new)
qed

definition frame :: "heap \<Rightarrow> hi_handle \<Rightarrow> heap \<Rightarrow> hi_handle \<Rightarrow> bool" where
  "frame hp h hp' h' \<longleftrightarrow> same_build hp hp' \<and> coll_eng h' = coll_eng h"

lemma insert_result_frame:
  assumes "frame hp h hp1 h1" and "yields (insert_result hp1 h1) m"
  shows "yields (insert_result hp h) m"
  using assms(2)
proof (rule yields_mono)
  fix r
  assume "insert_result hp1 h1 r"
  then show "insert_result hp h r"
    using assms(1) by (auto simp: insert_result_def insert_codes_def frame_def oom_code_build
        dest: same_build_trans)
qed

lemma realloc_build: "realloc_slots hp arr n = Some (p, hp') \<Longrightarrow> same_build hp hp'"
  by (auto simp: realloc_slots_def bind_Some_iff Let_def
      split: malloc_result.split_asm if_split_asm prod.split_asm option.split_asm dest: malloc_build)
    (auto simp: same_build_def)

lemma array_grow_frame: "yields (\<lambda>(g, hp', h'). frame hp h hp' h') (array_grow hp h b)"
  unfolding array_grow_def Let_def
  by (intro yields_rules) (auto simp: frame_def dest: realloc_build)

lemma array_put_code: "yields (insert_result hp h) (array_put hp h b key data)"
  unfolding array_put_def Let_def
  by (intro yields_rules) (auto simp: insert_result_def insert_codes_def dest!: xalloc_code)

lemma array_insert_code:
  "array_eng (coll_eng h) \<Longrightarrow> yields (insert_result hp h) (lhi_insert_array hp h key data)"
  unfolding lhi_insert_array_def
  by (intro yields_rules; (rule insert_result_frame [OF _ array_put_code])?)
    (auto simp: insert_result_def insert_codes_def frame_def dest!: yieldsD [OF array_grow_frame])

lemma insert_eng_code: "yields (insert_result hp h) (insert_eng hp h key data)"
  unfolding insert_eng_def
  by (intro yields_rules list_insert_code rbtree_insert_code array_insert_code)
    (simp_all add: insert_result_def insert_codes_def)

lemma frame_refl: "frame hp h hp h"
  by (simp add: frame_def)

lemma frame_trans: "frame hp h hp1 h1 \<Longrightarrow> frame hp1 h1 hp2 h2 \<Longrightarrow> frame hp h hp2 h2"
  by (auto simp: frame_def dest: same_build_trans)

lemma alloc_buckets_build: "alloc_buckets hp n m = (r, hp', bs) \<Longrightarrow> same_build hp hp'"
  by (induction m arbitrary: hp bs)
    (auto split: prod.splits if_split_asm dest!: xalloc_code intro: same_build_trans)

text \<open>An engine's data exists only for an engine the header names.\<close>

definition named_eng :: "coll_eng \<Rightarrow> bool" where
  "named_eng e \<longleftrightarrow> list_eng e \<or> array_eng e \<or> e = COLL_ENG_RBTREE"

definition create_codes :: "int set" where
  "create_codes = {SUCCESS, HI_ERR_SYSTEM, HI_ERR_INTERNAL}"

lemma create_eng_code:
  "yields (\<lambda>(r, hp', h'). r \<in> create_codes \<and> frame hp h hp' h' \<and>
     (r = SUCCESS \<longrightarrow> named_eng (coll_eng h'))) (create_eng hp h)" (is "yields ?Q _")
proof -
  have "yields ?Q (lhi_create_eng_list hp h)" if "list_eng (coll_eng h)"
    unfolding lhi_create_eng_list_def using that
    by (intro yields_rules) (auto simp: frame_def create_codes_def named_eng_def hi_defs dest!: xalloc_code)
  moreover have "yields ?Q (lhi_create_eng_rbtree hp h)" if "coll_eng h = COLL_ENG_RBTREE"
    unfolding lhi_create_eng_rbtree_def using that
    by (intro yields_rules) (auto simp: frame_def create_codes_def named_eng_def hi_defs dest!: malloc_build)
  moreover have "?Q (lhi_create_eng_array hp h)" if "array_eng (coll_eng h)"
    using that by (auto simp: lhi_create_eng_array_def frame_def create_codes_def named_eng_def hi_defs
        split: prod.splits dest!: xalloc_code alloc_buckets_build dest: same_build_trans)
  ultimately show ?thesis
    unfolding create_eng_def
    by (intro yields_rules) (auto simp: frame_def create_codes_def hi_defs)
qed

section \<open>The iterator\<close>

definition it_codes :: "int set" where
  "it_codes = {0, HI_ERR_SYSTEM, HI_ERR_NODATA, HI_ERR_RANGE, HI_ERR_INTERNAL}"

lemma array_alloc_code:
  "yields (\<lambda>(r, hp', a'). r \<in> it_codes \<and> same_build hp hp') (lhi_bucket_array_alloc hp a n)"
  unfolding lhi_bucket_array_alloc_def
  by (intro yields_rules) (auto simp: it_codes_def dest!: malloc_build dest: same_build_trans)

lemma array_free_build: "lhi_bucket_array_free hp a = (hp', a') \<Longrightarrow> same_build hp hp'"
  by (auto simp: lhi_bucket_array_free_def Let_def free_ptr_def split: option.splits)

lemma to_array_code:
  "yields (\<lambda>(r, hp', a'). r \<in> it_codes \<and> same_build hp hp') (lhi_list_bucket_to_array hp h b a)"
  "yields (\<lambda>(r, hp', a'). r \<in> it_codes \<and> same_build hp hp') (lhi_array_bucket_to_array hp h b a)"
  "yields (\<lambda>(r, hp', a'). r \<in> it_codes \<and> same_build hp hp') (lhi_rbtree_bucket_to_array hp h b a)"
  unfolding lhi_list_bucket_to_array_def lhi_array_bucket_to_array_def lhi_rbtree_bucket_to_array_def
  by (intro yields_rules; auto simp: it_codes_def dest!: yieldsD [OF array_alloc_code])+

lemma next_bucket_code:
  assumes "\<And>hp h b a. yields (\<lambda>(r, hp', a'). r \<in> it_codes \<and> same_build hp hp') (to_array hp h b a)"
  shows "yields (\<lambda>(r, hp', i'). r \<in> it_codes \<and> same_build hp hp') (next_bucket to_array hp h i)"
  using assms
proof (induction to_array hp h i rule: next_bucket.induct)
  case (1 to_array hp h i)
  have step: "yields (\<lambda>(r, hp', i'). r \<in> it_codes \<and> same_build hp hp')
      (next_bucket to_array hp1 h (i\<lparr>it_a := a, it_bucket := it_bucket i + 1\<rparr>))"
    if "it_bucket i < unat (table_size h)" and r: "r \<noteq> 0" "\<not> r \<noteq> HI_ERR_NODATA"
      and got: "to_array hp h (it_bucket i) (it_a i) = Some (r, hp1, a)" for r hp1 a
  proof (rule yields_mono [OF "1.IH" [OF that(1) got refl refl r "1.prems"]])
    show "case r of (r, hp', i') \<Rightarrow> r \<in> it_codes \<and> same_build hp hp'"
      if "case r of (r, hp', i') \<Rightarrow> r \<in> it_codes \<and> same_build hp1 hp'" for r
      using that yieldsD [OF "1.prems" got] by (auto dest: same_build_trans)
  qed
  show ?case
    by (subst next_bucket.simps, intro yields_rules step)
      (auto dest!: yieldsD [OF "1.prems"] simp: it_codes_def)
qed

lemma get_next_code:
  assumes "get_next e = Some next"
  shows "yields (\<lambda>(r, hp', i'). r \<in> it_codes \<and> same_build hp hp') (next hp h i)"
proof -
  consider "next = list_get_next_bucket" | "next = array_get_next_bucket" | "next = rbtree_get_next_tree"
    using assms by (auto simp: get_next_def split: if_splits)
  then show ?thesis
    by cases (simp_all only: list_get_next_bucket_def array_get_next_bucket_def
        rbtree_get_next_tree_def next_bucket_code to_array_code)
qed

text \<open>An iterator is made, and an entry handed out, exactly with the code 0.\<close>

definition iterator_result :: "heap \<Rightarrow> int \<times> heap \<times> 'a option \<Rightarrow> bool" where
  "iterator_result hp = (\<lambda>(r, hp', e). r \<in> it_codes \<and> (r = 0 \<longleftrightarrow> e \<noteq> None) \<and> same_build hp hp')"

lemma iterator_create_code: "yields (iterator_result hp) (hi_iterator_create hp h)"
  unfolding hi_iterator_create_def Let_def
  by (intro yields_rules)
    (auto simp: iterator_result_def it_codes_def hi_defs dest!: malloc_build
      yieldsD [OF get_next_code] intro: same_build_trans)

lemma getnext_code:
  "yields (\<lambda>(r, hp', i', e). iterator_result hp (r, hp', e)) (hi_iterator_getnext hp h i)"
  unfolding hi_iterator_getnext_def iterator_out_def Let_def
  by (intro yields_rules)
    (auto simp: iterator_result_def it_codes_def hi_defs dest!: array_free_build
      yieldsD [OF get_next_code] intro: same_build_trans)

lemma iterator_fini_build: "same_build hp (hi_iterator_fini hp' i) = same_build hp hp'"
  by (simp add: hi_iterator_fini_def lhi_bucket_array_free_def Let_def free_ptr_def split: option.split)

section \<open>Destroying and creating a table\<close>

lemma free_chain_build: "same_build hp (free_chain chain hp') = same_build hp hp'"
  by (induction chain arbitrary: hp') simp_all

lemma fini_list_loop_build: "yields (same_build hp) (fini_list_loop h is hp)"
proof -
  have "yields (same_build hp) (fini_list_loop h is hp')" if "same_build hp hp'" for hp'
    using that
    by (induction "is" arbitrary: hp') (auto intro!: yields_rules simp: free_chain_build)
  then show ?thesis by simp
qed

lemma free_slots_build: "same_build hp hp' \<Longrightarrow> yields (same_build hp) (free_slots arr is hp')"
  by (induction "is" arbitrary: hp') (auto intro!: yields_rules split: option.split)

lemma fini_array_loop_build: "same_build hp hp' \<Longrightarrow> yields (same_build hp) (fini_array_loop h is hp')"
proof (induction "is" arbitrary: hp')
  case (Cons i "is")
  have "same_build hp (free_ptr arr hp1)" if "free_slots arr js hp' = Some hp1" for arr js hp1
    using yieldsD [OF free_slots_build [OF Cons.prems] that]
    by (simp add: free_ptr_def split: option.split)
  then show ?case
    by (auto intro!: yields_rules Cons.IH)
qed simp

text \<open>\<open>hi_fini\<close> succeeds exactly for an engine of the header.\<close>

lemma fini_internal_code:
  "yields (\<lambda>(r, hp', h'). r = (if named_eng (coll_eng h) then 0 else HI_ERR_INTERNAL) \<and> same_build hp hp')
     (lhi_fini_internal hp h)"
  unfolding lhi_fini_internal_def lhi_fini_list_def lhi_fini_array_def lhi_fini_rbtree_def Let_def
  by (auto simp: named_eng_def intro!: yields_rules
      dest: yieldsD [OF fini_list_loop_build] yieldsD [OF fini_array_loop_build [OF same_build_simps(1)]])

lemma fini_code:
  "yields (\<lambda>(r, hp'). r = (if named_eng (coll_eng h) then 0 else HI_ERR_INTERNAL) \<and> same_build hp hp')
     (hi_fini hp h)"
  unfolding hi_fini_def by (intro yields_rules) (auto dest!: yieldsD [OF fini_internal_code])

lemma vanilla_code:
  "lhi_create_vanilla_hdnl hp = (r, hp', e) \<Longrightarrow>
     (r = SUCCESS \<longleftrightarrow> e \<noteq> None) \<and> (r = SUCCESS \<or> r = HI_ERR_SYSTEM) \<and> same_build hp hp'"
  by (auto simp: lhi_create_vanilla_hdnl_def hi_defs split: prod.splits if_split_asm dest!: xalloc_code)

definition init_codes :: "int set" where
  "init_codes = {SUCCESS, HI_ERR_SYSTEM, HI_ERR_NODATA, HI_ERR_INTERNAL}"

lemma sanity_code: "lhi_set_sanity_check s \<in> init_codes"
  by (simp add: lhi_set_sanity_check_def lhi_set_sanity_hash2_def lhi_set_sanity_array_def
      init_codes_def split: coll_eng.split)

text \<open>A new table has an engine of the header.\<close>

definition create_result :: "heap \<Rightarrow> int \<times> heap \<times> hi_handle option \<Rightarrow> bool" where
  "create_result hp = (\<lambda>(r, hp', oh). r \<in> init_codes \<and> (r = SUCCESS \<longleftrightarrow> oh \<noteq> None) \<and>
     (\<forall>h \<in> set_option oh. named_eng (coll_eng h)) \<and> same_build hp hp')"

lemma init_codes_of: "r \<in> create_codes \<Longrightarrow> r \<in> init_codes"
  by (auto simp: create_codes_def init_codes_def)

lemma hi_create_code: "yields (create_result hp) (hi_create hp s)"
proof -
  have sys: "HI_ERR_SYSTEM \<in> init_codes" "SUCCESS \<in> init_codes" "HI_ERR_SYSTEM \<noteq> SUCCESS"
    by (simp_all add: init_codes_def hi_defs)
  show ?thesis
    unfolding hi_create_def lhi_transform_set_2_hndl_def Let_def
    by (intro yields_rules)
      (auto simp: create_result_def frame_def sanity_code sys split: if_split_asm
        dest!: vanilla_code xalloc_code yieldsD [OF create_eng_code]
        intro: same_build_trans init_codes_of)
qed

section \<open>Rehashing\<close>

text \<open>A loop over the entries stops with a code of the iterator or with one of its body.\<close>

lemma visit_loop_code:
  assumes "\<And>s hp k l d. yields (\<lambda>(r, hp', s'). frame hp s hp' s') (body s hp k l d)"
  shows "yields (\<lambda>(failed, r, hp', i', s'). frame hp s hp' s' \<and> (failed \<or> r \<in> it_codes \<and> r \<noteq> SUCCESS))
    (visit_loop body hp h i s)"
  using assms
proof (induction body hp h i s rule: visit_loop.induct)
  case (1 body hp h i s)
  obtain ret hp1 i1 e where got: "hi_iterator_getnext hp h i = Some (ret, hp1, i1, e) \<or>
      hi_iterator_getnext hp h i = None"
    by (cases "hi_iterator_getnext hp h i") auto
  show ?case
  proof (cases "hi_iterator_getnext hp h i")
    case None
    then show ?thesis by (simp add: visit_loop.simps [of _ hp])
  next
    case (Some r)
    with got have got: "hi_iterator_getnext hp h i = Some (ret, hp1, i1, e)" by simp
    have res: "iterator_result hp (ret, hp1, e)"
      using yieldsD [OF getnext_code got] by simp
    show ?thesis
    proof (cases e)
      case None
      then show ?thesis
        using res by (simp add: visit_loop.simps [of _ hp] got iterator_result_def frame_def hi_defs)
    next
      case (Some d)
      obtain data k l where d: "d = (data, k, l)"
        by (cases d)
      note got = got [unfolded Some d]
      have build: "same_build hp hp1"
        using res by (simp add: iterator_result_def)
      show ?thesis
      proof (cases "body s hp1 k l data")
        case None
        then show ?thesis by (simp add: visit_loop.simps [of _ hp] got)
      next
        case (Some q)
        obtain r2 hp2 s2 where q: "body s hp1 k l data = Some (r2, hp2, s2)"
          using Some by (cases q) auto
        have fr: "frame hp s hp2 s2"
          using yieldsD [OF "1.prems" q] build by (auto simp: frame_def dest: same_build_trans)
        show ?thesis
        proof (cases "r2 = SUCCESS")
          case True
          note rest = "1.IH" [OF got refl refl refl refl refl refl q refl refl _ "1.prems"]
          show ?thesis
            using rest [unfolded True] fr
            by (auto simp: visit_loop.simps [of _ hp] got q True elim!: yields_mono
                intro: frame_trans)
        next
          case False
          then show ?thesis
            using fr by (simp add: visit_loop.simps [of _ hp] got q)
        qed
      qed
    qed
  qed
qed

text \<open>
  A rehash reports that it succeeded, a failed allocation, an engine the header does not name, or
  what the iterator reports, among it \<open>HI_ERR_NODATA\<close> for an empty table. It never reports a code
  of the insertions it does: when one of them fails it is undefined.
\<close>

definition rehash_result :: "heap \<Rightarrow> hi_handle \<Rightarrow> int \<times> heap \<times> hi_handle \<Rightarrow> bool" where
  "rehash_result hp h = (\<lambda>(r, hp', h'). r \<in> it_codes \<and> (if r = SUCCESS then frame hp h hp' h'
     else h' = h \<and> same_build hp hp'))"

lemma rehash_code:
  assumes "\<And>hp h k d. yields (\<lambda>(r, hp', h'). frame hp h hp' h') (ins hp h k d)"
  shows "yields (rehash_result hp h) (hi_rehash_with ins hp h n)"
proof -
  have body: "yields (\<lambda>(r, hp', s'). frame hp s hp' s') (rehash_body ins s hp k l d)" for s hp k l d
    unfolding rehash_body_def by (intro yields_rules assms)
  have sys: "HI_ERR_SYSTEM \<in> it_codes" "SUCCESS \<in> it_codes" "HI_ERR_SYSTEM \<noteq> SUCCESS"
    "HI_ERR_NODATA \<noteq> SUCCESS" "\<And>r. r \<in> create_codes \<Longrightarrow> r \<in> it_codes"
    by (auto simp: it_codes_def create_codes_def hi_defs)
  have eng: "coll_eng (lhi_transform_hndl_2_hndl h x) = coll_eng h" for x
    by (simp add: lhi_transform_hndl_2_hndl_def)
  have fini: "same_build (hi_iterator_fini hp' i) hp'' = same_build hp' hp''" for hp' hp'' i
    using iterator_fini_build [of hp' hp' i] by (auto simp: same_build_def)
  have it: "r \<in> it_codes \<and> (r = SUCCESS \<longleftrightarrow> e \<noteq> None) \<and> same_build hp hp'"
    if "hi_iterator_create hp h = Some (r, hp', e)" for hp r hp' e
    using yieldsD [OF iterator_create_code that] by (simp add: iterator_result_def hi_defs)
  show ?thesis
    unfolding hi_rehash_with_def Let_def
    by (intro yields_rules)
      (auto simp: rehash_result_def frame_def sys eng fini iterator_fini_build
        dest!: vanilla_code xalloc_code it yieldsD [OF create_eng_code]
        yieldsD [OF fini_code] yieldsD [OF fini_internal_code] yieldsD [OF visit_loop_code [OF body]],
       simp_all add: same_build_def)
qed

text \<open>The depth of the recursion does not matter: no level adds a code.\<close>

lemma do_rehash_frame:
  assumes "\<And>hp h k d. yields (\<lambda>(r, hp', h'). frame hp h hp' h') (ins hp h k d)"
  shows "yields (\<lambda>(hp', h'). frame hp h hp' h') (do_rehash_with ins hp h)"
  unfolding do_rehash_with_def Let_def
  by (intro yields_rules)
    (auto simp: rehash_result_def frame_def split: if_split_asm dest!: yieldsD [OF rehash_code [OF assms]])

lemma insert_at_code: "yields (insert_result hp h) (hi_insert_at d hp h key data)"
proof (induction d arbitrary: hp h key data)
  case 0
  show ?case
    unfolding hi_insert_at_0
    by (intro yields_rules insert_eng_code) (simp add: insert_result_def insert_codes_def)
next
  case (Suc d)
  have "yields (\<lambda>(r, hp', h'). frame hp h hp' h') (hi_insert_at d hp h k v)" for hp h k v
    by (rule yields_mono [OF Suc.IH]) (auto simp: insert_result_def frame_def)
  note rehash = do_rehash_frame [OF this]
  show ?case
    unfolding hi_insert_at_Suc
    by (intro yields_rules; (rule insert_result_frame [OF _ insert_eng_code])?)
      (auto simp: insert_result_def insert_codes_def dest!: yieldsD [OF rehash])
qed

lemma insert_frame: "yields (\<lambda>(r, hp', h'). frame hp h hp' h') (hi_insert_at d hp h k v)"
  by (rule yields_mono [OF insert_at_code]) (auto simp: insert_result_def frame_def)

section \<open>The discipline\<close>

text \<open>
  C28. Whatever the table, the keys and the heap, every defined result of a public operation has one
  of the codes listed for it. A lookup answers \<open>SUCCESS\<close>, \<open>FAILURE\<close>, \<open>HI_ERR_NOKEY\<close> or
  \<open>HI_ERR_INTERNAL\<close>. Get and remove answer \<open>SUCCESS\<close>, \<open>HI_ERR_NOKEY\<close> or \<open>HI_ERR_INTERNAL\<close>, never
  the \<open>FAILURE\<close> of their comments, store a data pointer exactly when they return \<open>SUCCESS\<close>, and a
  removal that fails leaves everything as it was. A table is made, an iterator is made and an entry
  is handed out exactly with the code 0; \<open>hi_fini\<close> fails exactly for an engine the header does not
  name. An insertion gives 0 or one of three negative codes of the header, except that a chained
  table can give the code of the allocator instead, which its comment excludes when it is positive.
  A rehash gives a code of the header. \<open>hi_strerror\<close> knows the codes from -8 to -1 and no other.
\<close>

theorem operation_codes:
  "yields (\<lambda>r. r \<in> {SUCCESS, FAILURE, HI_ERR_NOKEY, HI_ERR_INTERNAL}) (hi_lookup h key) \<and>
   yields (get_result h) (hi_get h key) \<and>
   yields (remove_result hp h) (hi_remove hp h key) \<and>
   yields (insert_result hp h) (hi_insert hp h key data) \<and>
   yields (rehash_result hp h) (hi_rehash hp h n) \<and>
   yields (create_result hp) (hi_create hp s) \<and>
   yields (\<lambda>(r, hp'). r = (if named_eng (coll_eng h) then 0 else HI_ERR_INTERNAL)) (hi_fini hp h) \<and>
   yields (iterator_result hp) (hi_iterator_create hp h) \<and>
   yields (\<lambda>(r, hp', i', e). iterator_result hp (r, hp', e)) (hi_iterator_getnext hp h i) \<and>
   (hi_strerror code = ''Unknown error'') = (code \<notin> {-8 .. -1})"
proof (intro conjI)
  show "yields (\<lambda>(r, hp'). r = (if named_eng (coll_eng h) then 0 else HI_ERR_INTERNAL)) (hi_fini hp h)"
    by (rule yields_mono [OF fini_code]) auto
  show "yields (insert_result hp h) (hi_insert hp h key data)"
    unfolding hi_insert_def by (rule insert_at_code)
  show "yields (rehash_result hp h) (hi_rehash hp h n)"
    unfolding hi_rehash_def by (rule rehash_code [OF insert_frame])
  have "{-8 .. -1 :: int} = {-8, -7, -6, -5, -4, -3, -2, -1}"
    by auto
  then show "(hi_strerror code = ''Unknown error'') = (code \<notin> {-8 .. -1})"
    by (simp add: hi_strerror_def lhi_error_values_def hi_defs)
qed (fact lookup_code get_code remove_code hi_create_code iterator_create_code getnext_code)+

text \<open>
  C29. A chained insertion that gets no memory from \<open>posix_memalign\<close> changes nothing and returns
  the positive 12 of the allocator: a caller that tests for negative codes, which is what the
  functions document, takes it for success, and \<open>hi_strerror\<close> does not know it. This is the only
  positive code: in a table of trees or arrays, and in a build without \<open>posix_memalign\<close>, an
  insertion returns 0 or a negative code.
\<close>

theorem list_oom_is_positive:
  assumes "list_eng (coll_eng h)" and "rehash_auto h = 0" and "outcome hp (tick hp) = Malloc_fail"
    and "have_posix_memalign hp" and "hi_lookup h key = Some HI_ERR_NOKEY"
  shows "(\<exists>r hp'. hi_insert hp h key data = Some (r, hp', h) \<and> 0 < r \<and> live hp' = live hp \<and>
      hi_strerror r = ''Unknown error'') \<and>
    yields (\<lambda>(r, hp', h'). r \<le> 0 \<or> r = ENOMEM \<and> list_eng (coll_eng h0) \<and> have_posix_memalign hp0)
      (hi_insert hp0 h0 key0 data0)"
proof
  obtain b where b: "hash_bucket h key = Some b"
    using assms(1,5) by (auto simp: hi_lookup_def lhi_lookup_list_def bind_Some_iff)
  obtain hp' where hp': "xalloc_align hp = (ENOMEM, 0, hp')" "live hp' = live hp"
    using assms(3,4) by (simp add: xalloc_align_def malloc_def)
  have "hi_insert hp h key data = Some (ENOMEM, hp', h)"
    unfolding hi_insert_def hi_insert_at_off [OF assms(2), of 1] hi_insert_at_0
    using assms(1,2,5) b hp'(1) by (simp add: insert_eng_def lhi_insert_list_def hi_defs)
  moreover have "hi_strerror ENOMEM = ''Unknown error''"
    by (simp add: hi_strerror_def lhi_error_values_def hi_defs)
  ultimately show "\<exists>r hp'. hi_insert hp h key data = Some (r, hp', h) \<and> 0 < r \<and> live hp' = live hp \<and>
      hi_strerror r = ''Unknown error''"
    using hp'(2) by (auto simp: ENOMEM_def)
  show "yields (\<lambda>(r, hp', h'). r \<le> 0 \<or> r = ENOMEM \<and> list_eng (coll_eng h0) \<and> have_posix_memalign hp0)
      (hi_insert hp0 h0 key0 data0)"
    unfolding hi_insert_def
    by (rule yields_mono [OF insert_at_code])
      (auto simp: insert_result_def insert_codes_def oom_code_def hi_defs split: if_split_asm)
qed

text \<open>An empty table with one chain, and an allocator that always fails.\<close>

definition oom_heap :: heap where
  "oom_heap = \<lparr>outcome = (\<lambda>_. Malloc_fail), tick = 0, live = 7, have_posix_memalign = True\<rparr>"

definition oom_table :: hi_handle where
  "oom_table = zero_handle\<lparr>coll_eng := COLL_ENG_LIST, table_size := 1,
     hash_func := Some (Fptr 0 (\<lambda>_. 0)), bucket_size := [0], bucket_table := [[]]\<rparr>"

theorem list_oom_is_positive_witness:
  "\<exists>r hp'. hi_insert oom_heap oom_table [97] 5 = Some (r, hp', oom_table) \<and> 0 < r \<and> live hp' = 7"
proof -
  have "hi_lookup oom_table [97] = Some HI_ERR_NOKEY"
    by (simp add: hi_lookup_def lhi_lookup_list_def hash_bucket_def oom_table_def zero_handle_def rd_def)
  moreover have "rehash_auto oom_table = 0" "list_eng (coll_eng oom_table)"
    by (simp_all add: oom_table_def zero_handle_def)
  moreover have "outcome oom_heap (tick oom_heap) = Malloc_fail" "have_posix_memalign oom_heap"
    "live oom_heap = 7"
    by (simp_all add: oom_heap_def)
  ultimately show ?thesis
    using list_oom_is_positive [of oom_table oom_heap "[97]" 5, THEN conjunct1] by auto
qed

end
