(* ===== verification/Hi_reach.thy ===== *)
theory Hi_reach
  imports Hi_correct
begin

text \<open>
  The states a table can reach when the allocator may fail at any time: a step relation of the
  public operations, and the invariants of all reachable states by rule induction. In a tree the
  invariants bound the length of every search.
\<close>

section \<open>Steps of a table\<close>

text \<open>
  Any operation with any valid key and any result, and any change of what the allocator will do.
\<close>

inductive table_step :: "(key \<Rightarrow> bool) \<Rightarrow> heap \<times> hi_handle \<Rightarrow> heap \<times> hi_handle \<Rightarrow> bool" for V where
  insert: "V k \<Longrightarrow> unat (no_objects h) < max_objects \<Longrightarrow> hi_insert hp h k d = Some (ret, hp', h') \<Longrightarrow>
    table_step V (hp, h) (hp', h')"
| get: "V k \<Longrightarrow> hi_get h k = Some (ret, d, h') \<Longrightarrow> table_step V (hp, h) (hp, h')"
| remove: "V k \<Longrightarrow> hi_remove hp h k = Some (ret, d, hp', h') \<Longrightarrow> table_step V (hp, h) (hp', h')"
| memory: "table_step V (hp, h) (hp\<lparr>outcome := f\<rparr>, h)"

definition reaches :: "(key \<Rightarrow> bool) \<Rightarrow> heap \<times> hi_handle \<Rightarrow> heap \<times> hi_handle \<Rightarrow> bool" where
  "reaches V = (table_step V)\<^sup>*\<^sup>*"

lemma reaches_trans: "reaches V s s' \<Longrightarrow> table_step V s' s'' \<Longrightarrow> reaches V s s''"
  by (simp add: reaches_def rtranclp.rtrancl_into_rtrancl)

lemma reaches_refl: "reaches V s s"
  by (simp add: reaches_def)

text \<open>The next operation, whichever it is, is defined.\<close>

definition ops_defined :: "(key \<Rightarrow> bool) \<Rightarrow> heap \<times> hi_handle \<Rightarrow> bool" where
  "ops_defined V s = (\<forall>k. V k \<longrightarrow> hi_get (snd s) k \<noteq> None \<and> hi_remove (fst s) (snd s) k \<noteq> None \<and>
     (unat (no_objects (snd s)) < max_objects \<longrightarrow> (\<forall>d. hi_insert (fst s) (snd s) k d \<noteq> None)))"

context atomic_engine
begin

text \<open>The blocks in use are those of the entries and a constant number more.\<close>

definition good :: "int \<Rightarrow> heap \<times> hi_handle \<Rightarrow> bool" where
  "good base s \<longleftrightarrow> inv (snd s) \<and> rehash_auto (snd s) = 0 \<and>
     live (fst s) = base + blocks * int (unat (no_objects (snd s)))"

lemma size_card: "inv h \<Longrightarrow> unat (no_objects h) = card (dom (map_of_table (table h)))"
  using handle_ok_card [OF inv_ok] by blast

lemma good_insert:
  assumes "good base (hp, h)" and "V k" and "unat (no_objects h) < max_objects"
  shows "\<exists>ret hp' h'. hi_insert hp h k d = Some (ret, hp', h') \<and> good base (hp', h')"
proof -
  have g: "inv h" "rehash_auto h = 0" "live hp = base + blocks * int (unat (no_objects h))"
    using assms(1) by (simp_all add: good_def)
  obtain ret hp' h' where i: "hi_insert hp h k d = Some (ret, hp', h')"
    "if ret = SUCCESS then map_of_table (table h) k = None \<and> live hp' = live hp + blocks \<and>
       inv h' \<and> same_settings h h' \<and> map_of_table (table h') = (map_of_table (table h))(k \<mapsto> d)
     else h' = h \<and> live hp' = live hp"
    using insert_full [OF g(1) assms(2,3) g(2)] by blast
  have "good base (hp', h')"
  proof (cases "ret = SUCCESS")
    case True
    with i(2) have s: "map_of_table (table h) k = None" "live hp' = live hp + blocks" "inv h'"
      "same_settings h h'" "map_of_table (table h') = (map_of_table (table h))(k \<mapsto> d)"
      by simp_all
    have "finite (dom (map_of_table (table h)))"
      using handle_ok_card [OF inv_ok [OF g(1)]] by blast
    then have "unat (no_objects h') = unat (no_objects h) + 1"
      using s(1) by (simp add: size_card g(1) s(3,5) domIff)
    then show ?thesis
      using s(2-4) g by (simp add: good_def same_settings_def algebra_simps)
  next
    case False
    then show ?thesis
      using i(2) assms(1) by (simp add: good_def)
  qed
  then show ?thesis
    using i(1) by blast
qed

lemma good_get:
  assumes "good base (hp, h)" and "V k"
  shows "\<exists>ret d h'. hi_get h k = Some (ret, d, h') \<and> good base (hp, h')"
proof (cases "map_of_table (table h) k")
  case None
  then show ?thesis
    using get_missing [OF _ assms(2) None] assms by (simp add: good_def api_get)
next
  case (Some v)
  then show ?thesis
    using get_found [OF _ assms(2) Some] assms by (fastforce simp: good_def api_get same_settings_def)
qed

lemma good_remove:
  assumes "good base (hp, h)" and "V k"
  shows "\<exists>ret d hp' h'. hi_remove hp h k = Some (ret, d, hp', h') \<and> good base (hp', h')"
proof (cases "map_of_table (table h) k")
  case None
  then show ?thesis
    using rem_missing [OF _ assms(2) None] assms by (simp add: good_def api_remove)
next
  case (Some v)
  have g: "inv h" "rehash_auto h = 0" "live hp = base + blocks * int (unat (no_objects h))"
    using assms(1) by (simp_all add: good_def)
  obtain hp' h' where r: "hi_remove hp h k = Some (SUCCESS, Some v, hp', h')" "live hp' = live hp - blocks"
    "inv h'" "same_settings h h'" "no_objects h' = no_objects h - 1"
    using rem_found [OF g(1) assms(2) Some, of hp] g(1) by (auto simp: api_remove)
  have "card (dom (map_of_table (table h))) \<noteq> 0"
    using handle_ok_card [OF inv_ok [OF g(1)]] Some by auto
  then have "no_objects h \<noteq> 0"
    using size_card [OF g(1)] by (auto simp: unat_eq_0)
  then have "int (unat (no_objects h')) = int (unat (no_objects h)) - 1"
    using r(5) by (simp add: unat_minus_one_u32 unat_gt_0 of_nat_diff Suc_le_eq)
  then have n: "uint (no_objects h') = uint (no_objects h) - 1"
    by simp
  have "good base (hp', h')"
    unfolding good_def using r(2-4) g by (simp add: n right_diff_distrib same_settings_def)
  then show ?thesis
    using r(1) by blast
qed

lemma good_step: "table_step V s s' \<Longrightarrow> good base s \<Longrightarrow> good base s'"
proof (induction rule: table_step.induct)
  case (insert k h hp d ret hp' h')
  then show ?case
    using good_insert [of base hp h k d] by simp
next
  case (get k h ret d h' hp)
  then show ?case
    using good_get [of base hp h k] by simp
next
  case (remove k hp h ret d hp' h')
  then show ?case
    using good_remove [of base hp h k] by simp
next
  case (memory hp h f)
  then show ?case
    by (simp add: good_def)
qed

lemma good_reaches: "reaches V s s' \<Longrightarrow> good base s \<Longrightarrow> good base s'"
  unfolding reaches_def by (induction rule: rtranclp_induct) (auto intro: good_step)

lemma good_defined: "good base s \<Longrightarrow> ops_defined V s"
  using good_insert [of base "fst s" "snd s"] good_get [of base "fst s" "snd s"] good_remove [of base "fst s" "snd s"]
  unfolding ops_defined_def by fastforce

end

section \<open>The depth of a search\<close>

lemma invh_size: "invh n t \<Longrightarrow> 2 ^ n \<le> length (inorder t) + 1"
proof (induction t arbitrary: n)
  case RB_NULL
  then show ?case by simp
next
  case (RB_NODE c l e r)
  show ?case
  proof (cases "c = RB_BLACK")
    case True
    then obtain m where n: "n = Suc m" "invh m l" "invh m r"
      using RB_NODE.prems by (cases n) auto
    then show ?thesis
      using RB_NODE.IH(1) [OF n(2)] RB_NODE.IH(2) [OF n(3)] by simp
  next
    case False
    then show ?thesis
      using RB_NODE.IH(1) [of n] RB_NODE.prems by simp
  qed
qed

lemma rb_search_depth:
  assumes "rb_search h k t path = Some (t', path')" and "invc t" and "invh n t"
  shows "length path' \<le> length path + 2 * n + (if rb_is_red t then 1 else 0)"
  using assms
proof (induction t arbitrary: path n)
  case RB_NULL
  then show ?case by simp
next
  case (RB_NODE c l e r)
  have kids: "invc l" "invc r" "c = RB_RED \<longrightarrow> \<not> rb_is_red l \<and> \<not> rb_is_red r"
    using RB_NODE.prems(2) by simp_all
  obtain m where m: "invh m l" "invh m r" "n = (if c = RB_BLACK then Suc m else m)"
    using RB_NODE.prems(3) by (cases n) (auto split: if_splits)
  consider "path' = path" | "rb_search h k r (RB_RIGHT c l e # path) = Some (t', path')"
    | "rb_search h k l (RB_LEFT c e r # path) = Some (t', path')"
    using RB_NODE.prems(1) by (auto split: if_splits bind_splits)
  then show ?case
  proof cases
    case 1
    then show ?thesis by simp
  next
    case 2
    then show ?thesis
      using RB_NODE.IH(2) [OF 2 kids(2) m(2)] m(3) kids(3) by (cases c) (auto split: if_splits)
  next
    case 3
    then show ?thesis
      using RB_NODE.IH(1) [OF 3 kids(1) m(1)] m(3) kids(3) by (cases c) (auto split: if_splits)
  qed
qed

lemma rb_ok_search_depth:
  assumes "rb_search h k t [] = Some (t', path)" and "rb_ok t"
  shows "2 ^ ((length path + 1) div 2) \<le> length (inorder t) + 1"
proof -
  obtain n where n: "invc t" "\<not> rb_is_red t" "invh n t"
    using assms(2) by (auto simp: rb_ok_def)
  have "length path \<le> 2 * n"
    using rb_search_depth [OF assms(1) n(1,3)] n(2) by simp
  then have "(2 :: nat) ^ ((length path + 1) div 2) \<le> 2 ^ n"
    by (intro power_increasing) simp_all
  also have "\<dots> \<le> length (inorder t) + 1"
    by (rule invh_size [OF n(3)])
  finally show ?thesis .
qed

context key_order
begin

lemma rbtree_search_depth:
  assumes inv: "rbtree_inv V cmp h" and "V k"
  shows "\<exists>t path. rb_search h k (trees h ! slot_of h k) [] = Some (t, path) \<and>
    2 ^ ((length path + 1) div 2) \<le> unat (no_objects h) + 1"
proof -
  note bucket = rbtree_inv_bucket(2,8) [OF inv, of k]
  obtain t path where s: "rb_search h k (trees h ! slot_of h k) [] = Some (t, path)"
    by (cases rule: rbtree_search [OF inv \<open>V k\<close>]) auto
  have "length (inorder (trees h ! slot_of h k)) \<le> entry_count (rbtree_table h)"
    using entry_count_ge [of "slot_of h k" "rbtree_table h"] bucket(1)
    by (simp add: rbtree_table_def tree_entries_def)
  moreover have "unat (no_objects h) = entry_count (rbtree_table h)"
    using inv by (simp add: rbtree_inv_def handle_ok_def)
  ultimately show ?thesis
    using s rb_ok_search_depth [OF s bucket(2)] by (intro exI [of _ t] exI [of _ path]) simp
qed

end

section \<open>From the creation of a table on\<close>

context key_domain
begin

lemma list_reach:
  assumes "set_ok cmp s" and "set_coll_eng s = COLL_ENG_LIST \<or> set_coll_eng s = COLL_ENG_LIST_MTF"
    and "no_oom hp" and "set_rehash_auto s = 0"
    and "hi_create hp s = Some (SUCCESS, hp1, Some h1)" and "reaches V (hp1, h1) (hp2, h2)"
  shows "list_inv V cmp h2 \<and> live hp2 = live hp + 3 + 2 * int (unat (no_objects h2)) \<and> ops_defined V (hp2, h2)"
proof (rule list_create [OF assms(1-3)])
  fix hp' h
  assume "hi_create hp s = Some (SUCCESS, hp', Some h)" "list_inv V cmp h" "live hp' = live hp + 3"
    "no_objects h = 0" "rehash_auto h = set_rehash_auto s"
  then have "list_atomic.good (live hp + 3) (hp1, h1)"
    using assms(4,5) by (simp add: list_atomic.good_def)
  then have "list_atomic.good (live hp + 3) (hp2, h2)"
    by (rule list_atomic.good_reaches [OF assms(6)])
  then show ?thesis
    using list_atomic.good_defined by (auto simp: list_atomic.good_def)
qed

end

context key_order
begin

lemma rbtree_reach:
  assumes "set_ok cmp s" and "set_coll_eng s = COLL_ENG_RBTREE" and "no_oom hp" and "set_rehash_auto s = 0"
    and "hi_create hp s = Some (SUCCESS, hp1, Some h1)" and "reaches V (hp1, h1) (hp2, h2)"
  shows "rbtree_inv V cmp h2 \<and> live hp2 = live hp + 3 + 2 * int (unat (no_objects h2)) \<and> ops_defined V (hp2, h2)"
proof (rule rbtree_create [OF assms(1-3)])
  fix hp' h
  assume "hi_create hp s = Some (SUCCESS, hp', Some h)" "rbtree_inv V cmp h" "live hp' = live hp + 3"
    "no_objects h = 0" "rehash_auto h = set_rehash_auto s"
  then have "rbtree_atomic.good (live hp + 3) (hp1, h1)"
    using assms(4,5) by (simp add: rbtree_atomic.good_def)
  then have "rbtree_atomic.good (live hp + 3) (hp2, h2)"
    by (rule rbtree_atomic.good_reaches [OF assms(6)])
  then show ?thesis
    using rbtree_atomic.good_defined by (auto simp: rbtree_atomic.good_def)
qed

end

section \<open>Properties\<close>

text \<open>
  C5. A table of plain or move-to-front chains that \<open>hi_create\<close> made with enough memory and without
  automatic rehashing: every state it reaches by insertions, gets and removals (\<open>hi_rehash\<close> is none
  of them), with any behaviour of the allocator, is well formed: each chain holds each of its keys
  once and only keys of its bucket, the counters are exact, the blocks in use are two for each entry
  and the three of the empty table, and the next insertion, get or removal is defined.
\<close>

theorem list_reachable:
  assumes "key_domain V cmp" and "set_ok cmp s"
    and "set_coll_eng s = COLL_ENG_LIST \<or> set_coll_eng s = COLL_ENG_LIST_MTF"
    and "no_oom hp" and "set_rehash_auto s = 0"
    and "hi_create hp s = Some (SUCCESS, hp1, Some h1)" and "reaches V (hp1, h1) (hp2, h2)"
  shows "list_inv V cmp h2 \<and> live hp2 = live hp + 3 + 2 * int (unat (no_objects h2)) \<and> ops_defined V (hp2, h2)"
  by (rule key_domain.list_reach [OF assms])

text \<open>A state that is reached by an insertion for which there is no memory.\<close>

lemma failed_insert_reached:
  assumes "\<And>hp2 h2. reaches str_key (hp1, h1) (hp2, h2) \<Longrightarrow> ops_defined str_key (hp2, h2)"
    and "no_objects h1 = 0"
  shows "\<exists>ret hp2 h2. hi_insert (hp1\<lparr>outcome := (\<lambda>_. Malloc_fail)\<rparr>) h1 [97, 0] 1 = Some (ret, hp2, h2) \<and>
    reaches str_key (hp1, h1) (hp2, h2)"
proof -
  let ?hp = "hp1\<lparr>outcome := (\<lambda>_. Malloc_fail)\<rparr>"
  have k: "str_key [97, 0]" "unat (no_objects h1) < max_objects"
    by (simp_all add: str_key_def max_objects_def assms(2))
  have r: "reaches str_key (hp1, h1) (?hp, h1)"
    by (rule reaches_trans [OF reaches_refl table_step.memory])
  then obtain ret hp2 h2 where i: "hi_insert ?hp h1 [97, 0] 1 = Some (ret, hp2, h2)"
    using assms(1) [OF r] k unfolding ops_defined_def by fastforce
  then show ?thesis
    using reaches_trans [OF r table_step.insert [of str_key, OF k i]] by blast
qed

theorem list_reachable_witness:
  "\<exists>hp1 h1 ret hp2 h2. hi_create ex_heap (ex_set COLL_ENG_LIST 0) = Some (SUCCESS, hp1, Some h1) \<and>
    hi_insert (hp1\<lparr>outcome := (\<lambda>_. Malloc_fail)\<rparr>) h1 [97, 0] 1 = Some (ret, hp2, h2) \<and>
    live hp2 = 3 + 2 * int (unat (no_objects h2)) \<and> ops_defined str_key (hp2, h2)"
proof (rule key_domain.list_create [OF ex_keys(1), of "ex_set COLL_ENG_LIST 0" ex_heap])
  fix hp1 h1
  assume c: "hi_create ex_heap (ex_set COLL_ENG_LIST 0) = Some (SUCCESS, hp1, Some h1)" "no_objects h1 = 0"
  note r = list_reachable [OF ex_keys(1) _ _ ex_ok(1) _ c(1)]
  obtain ret hp2 h2 where "hi_insert (hp1\<lparr>outcome := (\<lambda>_. Malloc_fail)\<rparr>) h1 [97, 0] 1 = Some (ret, hp2, h2)"
    "reaches str_key (hp1, h1) (hp2, h2)"
    using failed_insert_reached [of hp1 h1] r c(2) by auto
  then show ?thesis
    using c(1) r [of hp2 h2] by (auto simp: ex_heap_def)
qed simp_all

text \<open>
  C4. The same for a table of trees that \<open>hi_create\<close> made with enough memory and without automatic
  rehashing, for keys that the compare function orders: in every state reached by insertions, gets and
  removals, with any behaviour of the allocator, every tree is a red-black tree in the order of the
  keys, the blocks in use are two for each entry and the three of the empty table, the next insertion,
  get or removal is defined, and a search in a table of \<open>n\<close> entries follows at most \<open>2 log (n + 1)\<close> links
  (base 2).
\<close>

theorem rbtree_reachable:
  assumes "key_order V cmp" and "set_ok cmp s" and "set_coll_eng s = COLL_ENG_RBTREE"
    and "no_oom hp" and "set_rehash_auto s = 0"
    and "hi_create hp s = Some (SUCCESS, hp1, Some h1)" and "reaches V (hp1, h1) (hp2, h2)"
  shows "rbtree_inv V cmp h2 \<and> live hp2 = live hp + 3 + 2 * int (unat (no_objects h2)) \<and>
    ops_defined V (hp2, h2) \<and>
    (\<forall>k. V k \<longrightarrow> (\<exists>t path. rb_search h2 k (trees h2 ! slot_of h2 k) [] = Some (t, path) \<and>
      2 ^ ((length path + 1) div 2) \<le> unat (no_objects h2) + 1))"
  using key_order.rbtree_reach [OF assms] key_order.rbtree_search_depth [OF assms(1)] by blast

theorem rbtree_reachable_witness:
  "\<exists>hp1 h1 ret hp2 h2. hi_create ex_heap (ex_set COLL_ENG_RBTREE 0) = Some (SUCCESS, hp1, Some h1) \<and>
    hi_insert (hp1\<lparr>outcome := (\<lambda>_. Malloc_fail)\<rparr>) h1 [97, 0] 1 = Some (ret, hp2, h2) \<and>
    live hp2 = 3 + 2 * int (unat (no_objects h2)) \<and> ops_defined str_key (hp2, h2) \<and>
    (\<exists>t path. rb_search h2 [97, 0] (trees h2 ! slot_of h2 [97, 0]) [] = Some (t, path) \<and>
      2 ^ ((length path + 1) div 2) \<le> unat (no_objects h2) + 1)"
proof (rule key_order.rbtree_create [OF ex_keys(2), of "ex_set COLL_ENG_RBTREE 0" ex_heap])
  fix hp1 h1
  assume c: "hi_create ex_heap (ex_set COLL_ENG_RBTREE 0) = Some (SUCCESS, hp1, Some h1)" "no_objects h1 = 0"
  note r = rbtree_reachable [OF ex_keys(2) _ _ ex_ok(1) _ c(1)]
  obtain ret hp2 h2 where "hi_insert (hp1\<lparr>outcome := (\<lambda>_. Malloc_fail)\<rparr>) h1 [97, 0] 1 = Some (ret, hp2, h2)"
    "reaches str_key (hp1, h1) (hp2, h2)"
    using failed_insert_reached [of hp1 h1] r c(2) by auto
  moreover have "str_key [97, 0]"
    by (simp add: str_key_def)
  ultimately show ?thesis
    using c(1) r [of hp2 h2] by (intro exI [of _ hp1] exI [of _ h1] exI [of _ ret] exI [of _ hp2] exI [of _ h2])
      (auto simp: ex_heap_def)
qed simp_all

end
