(* ===== verification/Hash_jenkins3.thy ===== *)
theory Hash_jenkins3
  imports Hash_func
begin

text \<open>
  Jenkins' lookup3 (\<open>lib/hash_func_jenkins3.c\<close>, little-endian branch). \<open>hashlittle\<close> has three
  bodies, chosen by the alignment of the key pointer: whole 32-bit words, 16-bit halves, or single
  bytes. The alignment is an argument of the model (\<open>u.i & 0x3\<close>).
\<close>

definition rot :: "u32 \<Rightarrow> nat \<Rightarrow> u32" where
  "rot x k = push_bit k x OR drop_bit (32 - k) x"

definition mix :: "abc \<Rightarrow> abc" where
  "mix s =
     (let (a, b, c) = s;
          a = a - c; a = a XOR rot c 4; c = c + b;
          b = b - a; b = b XOR rot a 6; a = a + c;
          c = c - b; c = c XOR rot b 8; b = b + a;
          a = a - c; a = a XOR rot c 16; c = c + b;
          b = b - a; b = b XOR rot a 19; a = a + c;
          c = c - b; c = c XOR rot b 4; b = b + a
      in (a, b, c))"

definition final :: "abc \<Rightarrow> abc" where
  "final s =
     (let (a, b, c) = s;
          c = c XOR b; c = c - rot b 14;
          a = a XOR c; a = a - rot c 11;
          b = b XOR a; b = b - rot a 25;
          c = c XOR b; c = c - rot b 16;
          a = a XOR c; a = a - rot c 4;
          b = b XOR a; b = b - rot a 14;
          c = c XOR b; c = c - rot b 24
      in (a, b, c))"

section \<open>The three bodies\<close>

text \<open>Aligned key: \<open>k[0], k[1], k[2]\<close> are 32-bit words. All loops run while \<open>length > 12\<close>.\<close>

definition word32_at :: "key \<Rightarrow> nat \<Rightarrow> u32" where
  "word32_at k i = le32 (k ! (4 * i)) (k ! (4 * i + 1)) (k ! (4 * i + 2)) (k ! (4 * i + 3))"

definition word16_at :: "key \<Rightarrow> nat \<Rightarrow> u32" where
  "word16_at k i = ucast (le16 (k ! (2 * i)) (k ! (2 * i + 1)))"

definition block32 :: "key \<Rightarrow> abc \<Rightarrow> abc" where
  "block32 k s =
     (let (a, b, c) = s in (a + word32_at k 0, b + word32_at k 1, c + word32_at k 2))"

definition block16 :: "key \<Rightarrow> abc \<Rightarrow> abc" where
  "block16 k s =
     (let (a, b, c) = s
      in (a + (word16_at k 0 + push_bit 16 (word16_at k 1)),
          b + (word16_at k 2 + push_bit 16 (word16_at k 3)),
          c + (word16_at k 4 + push_bit 16 (word16_at k 5))))"

definition block8 :: "key \<Rightarrow> abc \<Rightarrow> abc" where
  "block8 k s =
     (let (a, b, c) = s;
          a = a + ucast (k ! 0); a = a + push_bit 8 (ucast (k ! 1));
          a = a + push_bit 16 (ucast (k ! 2)); a = a + push_bit 24 (ucast (k ! 3));
          b = b + ucast (k ! 4); b = b + push_bit 8 (ucast (k ! 5));
          b = b + push_bit 16 (ucast (k ! 6)); b = b + push_bit 24 (ucast (k ! 7));
          c = c + ucast (k ! 8); c = c + push_bit 8 (ucast (k ! 9));
          c = c + push_bit 16 (ucast (k ! 10)); c = c + push_bit 24 (ucast (k ! 11))
      in (a, b, c))"

function hashlittle_loop :: "(key \<Rightarrow> abc \<Rightarrow> abc) \<Rightarrow> key \<Rightarrow> abc \<Rightarrow> abc \<times> key" where
  "hashlittle_loop block k s =
     (if 12 < length k then hashlittle_loop block (drop 12 k) (mix (block k s)) else (s, k))"
  by pat_completeness auto
termination
  by (relation "measure (\<lambda>(block, k, s). length k)") auto

text \<open>
  The \<open>switch\<close> on the length of the last block (1 to 12 bytes). In the first two bodies cases
  12, 8 and 4 (and 10, 6, 2) end in \<open>break\<close>; the other cases fall through.
\<close>

definition tail32 :: "key \<Rightarrow> abc \<Rightarrow> abc" where
  "tail32 k s =
     (let (a, b, c) = s; n = length k
      in if n = 12 then (a + word32_at k 0, b + word32_at k 1, c + word32_at k 2)
         else if 8 \<le> n then
           (let c = (if 11 \<le> n then c + push_bit 16 (ucast (k ! 10)) else c);
                c = (if 10 \<le> n then c + push_bit 8 (ucast (k ! 9)) else c);
                c = (if 9 \<le> n then c + ucast (k ! 8) else c)
            in (a + word32_at k 0, b + word32_at k 1, c))
         else if 4 \<le> n then
           (let b = (if 7 \<le> n then b + push_bit 16 (ucast (k ! 6)) else b);
                b = (if 6 \<le> n then b + push_bit 8 (ucast (k ! 5)) else b);
                b = (if 5 \<le> n then b + ucast (k ! 4) else b)
            in (a + word32_at k 0, b, c))
         else
           (let a = (if 3 \<le> n then a + push_bit 16 (ucast (k ! 2)) else a);
                a = (if 2 \<le> n then a + push_bit 8 (ucast (k ! 1)) else a);
                a = (if 1 \<le> n then a + ucast (k ! 0) else a)
            in (a, b, c)))"

definition tail16 :: "key \<Rightarrow> abc \<Rightarrow> abc" where
  "tail16 k s =
     (let (a, b, c) = s; n = length k;
          a2 = a + (word16_at k 0 + push_bit 16 (word16_at k 1));
          b2 = b + (word16_at k 2 + push_bit 16 (word16_at k 3))
      in if n = 12 then (a2, b2, c + (word16_at k 4 + push_bit 16 (word16_at k 5)))
         else if 10 \<le> n then
           (let c = (if 11 \<le> n then c + push_bit 16 (ucast (k ! 10)) else c)
            in (a2, b2, c + word16_at k 4))
         else if 8 \<le> n then
           (let c = (if 9 \<le> n then c + ucast (k ! 8) else c) in (a2, b2, c))
         else if 6 \<le> n then
           (let b = (if 7 \<le> n then b + push_bit 16 (ucast (k ! 6)) else b)
            in (a2, b + word16_at k 2, c))
         else if 4 \<le> n then
           (let b = (if 5 \<le> n then b + ucast (k ! 4) else b) in (a2, b, c))
         else if 2 \<le> n then
           (let a = (if 3 \<le> n then a + push_bit 16 (ucast (k ! 2)) else a)
            in (a + word16_at k 0, b, c))
         else (if 1 \<le> n then a + ucast (k ! 0) else a, b, c))"

definition tail8 :: "key \<Rightarrow> abc \<Rightarrow> abc" where
  "tail8 k s =
     (let (a, b, c) = s; n = length k;
          c = (if 12 \<le> n then c + push_bit 24 (ucast (k ! 11)) else c);
          c = (if 11 \<le> n then c + push_bit 16 (ucast (k ! 10)) else c);
          c = (if 10 \<le> n then c + push_bit 8 (ucast (k ! 9)) else c);
          c = (if 9 \<le> n then c + ucast (k ! 8) else c);
          b = (if 8 \<le> n then b + push_bit 24 (ucast (k ! 7)) else b);
          b = (if 7 \<le> n then b + push_bit 16 (ucast (k ! 6)) else b);
          b = (if 6 \<le> n then b + push_bit 8 (ucast (k ! 5)) else b);
          b = (if 5 \<le> n then b + ucast (k ! 4) else b);
          a = (if 4 \<le> n then a + push_bit 24 (ucast (k ! 3)) else a);
          a = (if 3 \<le> n then a + push_bit 16 (ucast (k ! 2)) else a);
          a = (if 2 \<le> n then a + push_bit 8 (ucast (k ! 1)) else a);
          a = (if 1 \<le> n then a + ucast (k ! 0) else a)
      in (a, b, c))"

text \<open>One body: the loop, the last block, then \<open>final\<close>; an empty rest returns \<open>c\<close> unmixed.\<close>

definition hashlittle_body ::
  "(key \<Rightarrow> abc \<Rightarrow> abc) \<Rightarrow> (key \<Rightarrow> abc \<Rightarrow> abc) \<Rightarrow> key \<Rightarrow> abc \<Rightarrow> u32" where
  "hashlittle_body block tail key s =
     (let (s, k) = hashlittle_loop block key s
      in if k = [] then snd (snd s) else snd (snd (final (tail k s))))"

definition hashlittle :: "nat \<Rightarrow> key \<Rightarrow> u32 \<Rightarrow> u32" where
  "hashlittle align key initval =
     (let v = 0xdeadbeef + word_of_nat (length key) + initval; s = (v, v, v)
      in if align mod 4 = 0 then hashlittle_body block32 tail32 key s
         else if align mod 2 = 0 then hashlittle_body block16 tail16 key s
         else hashlittle_body block8 tail8 key s)"

definition lhi_hash_jenkins3 :: "nat \<Rightarrow> key \<Rightarrow> u32" where
  "lhi_hash_jenkins3 align b = hashlittle align b 0"

declare hashlittle_loop.simps [simp del]

section \<open>The alignment does not matter\<close>

lemma le16_eq_add: "(ucast (le16 b0 b1) :: u32) = ucast b0 + push_bit 8 (ucast b1)"
proof -
  have "(ucast b0 :: u32) AND push_bit 8 (ucast b1) = 0"
    by (rule bit_word_eqI) (auto simp: bit_simps dest: bit_imp_le_length)
  moreover have "(ucast (le16 b0 b1) :: u32) = ucast b0 OR push_bit 8 (ucast b1)"
    by (rule bit_word_eqI) (auto simp: bit_simps le16_def dest: bit_imp_le_length)
  ultimately show ?thesis by (simp add: disjunctive_add_eq_or)
qed

lemma le32_eq_add: "le32 b0 b1 b2 b3 = add4 b0 b1 b2 b3"
proof -
  let ?b0 = "ucast b0 :: u32" and ?b1 = "push_bit 8 (ucast b1) :: u32"
  let ?b2 = "push_bit 16 (ucast b2) :: u32" and ?b3 = "push_bit 24 (ucast b3) :: u32"
  have "?b0 AND ?b1 = 0" and "(?b0 OR ?b1) AND ?b2 = 0" and "(?b0 OR ?b1 OR ?b2) AND ?b3 = 0"
    by (rule bit_word_eqI; auto simp: bit_simps dest: bit_imp_le_length)+
  then show ?thesis
    by (simp add: le32_def add4_def disjunctive_add_eq_or or.assoc)
qed

lemma half_words_add:
  "ucast (le16 b0 b1) + push_bit 16 (ucast (le16 b2 b3)) = add4 b0 b1 b2 b3"
  by (simp add: le16_eq_add add4_def push_bit_add)

lemmas block_defs = block32_def block16_def block8_def word32_at_def word16_at_def
  le32_eq_add half_words_add le16_eq_add add4_def push_bit_add Let_def numeral_2_eq_2 [symmetric]

lemma block32_block8: "block32 = block8"
  by (simp add: block_defs fun_eq_iff split: prod.split del: One_nat_def)

lemma block16_block8: "block16 = block8"
  by (simp add: block_defs fun_eq_iff split: prod.split del: One_nat_def)

lemma last_block_length:
  fixes n :: nat
  assumes "n \<le> 12"
  obtains "n = 0" | "n = 1" | "n = 2" | "n = 3" | "n = 4" | "n = 5" | "n = 6" | "n = 7" | "n = 8"
    | "n = 9" | "n = 10" | "n = 11" | "n = 12"
proof -
  have "n = 0 \<or> n = 1 \<or> n = 2 \<or> n = 3 \<or> n = 4 \<or> n = 5 \<or> n = 6 \<or> n = 7 \<or> n = 8 \<or>
      n = 9 \<or> n = 10 \<or> n = 11 \<or> n = 12"
    using assms by presburger
  then show ?thesis using that by blast
qed

lemma tail32_tail8: "length k \<le> 12 \<Longrightarrow> tail32 k (a, b, c) = tail8 k (a, b, c)"
  unfolding tail32_def tail8_def Let_def prod.case
  by (erule last_block_length; simp add: block_defs del: One_nat_def)

lemma tail16_tail8: "length k \<le> 12 \<Longrightarrow> tail16 k (a, b, c) = tail8 k (a, b, c)"
  unfolding tail16_def tail8_def Let_def prod.case
  by (erule last_block_length; simp add: block_defs del: One_nat_def)

lemma hashlittle_loop_rest: "hashlittle_loop block k s = (s', k') \<Longrightarrow> length k' \<le> 12"
proof (induction block k s rule: hashlittle_loop.induct)
  case (1 block k s)
  then show ?case by (auto simp: hashlittle_loop.simps [of block k s] split: if_splits)
qed

lemma hashlittle_body_cong:
  assumes "\<And>k a b c. length k \<le> 12 \<Longrightarrow> tail k (a, b, c) = tail' k (a, b, c)"
  shows "hashlittle_body block tail key s = hashlittle_body block tail' key s"
  using assms by (auto simp: hashlittle_body_def dest: hashlittle_loop_rest split: prod.split)

section \<open>The mixing functions lose nothing\<close>

text \<open>
  \<open>mix\<close> and \<open>final\<close> repeat one step with the roles of \<open>a\<close>, \<open>b\<close>, \<open>c\<close> rotated, and each step can
  be undone. The comment of the source ("mix 3 32-bit values reversibly") is the statement that
  \<open>mix\<close> is a bijection.
\<close>

definition mix_step :: "nat \<Rightarrow> abc \<Rightarrow> abc" where
  "mix_step r s = (let (a, b, c) = s in (b, c + b, (a - c) XOR rot c r))"

definition unmix_step :: "nat \<Rightarrow> abc \<Rightarrow> abc" where
  "unmix_step r s = (let (b, c', a') = s in ((a' XOR rot (c' - b) r) + (c' - b), b, c' - b))"

definition final_step :: "nat \<Rightarrow> abc \<Rightarrow> abc" where
  "final_step r s = (let (a, b, c) = s in (b, (c XOR b) - rot b r, a))"

definition unfinal_step :: "nat \<Rightarrow> abc \<Rightarrow> abc" where
  "unfinal_step r s = (let (b, c', a) = s in (a, b, (c' + rot b r) XOR b))"

lemma bij_mix_step: "bij (mix_step r)"
  by (rule bij_betw_byWitness [where f' = "unmix_step r"])
    (auto simp: mix_step_def unmix_step_def xor.assoc)

lemma bij_final_step: "bij (final_step r)"
  by (rule bij_betw_byWitness [where f' = "unfinal_step r"])
    (auto simp: final_step_def unfinal_step_def xor.assoc)

lemma mix_steps:
  "mix = mix_step 4 \<circ> mix_step 19 \<circ> mix_step 16 \<circ> mix_step 8 \<circ> mix_step 6 \<circ> mix_step 4"
  by (rule ext) (simp only: mix_def mix_step_def Let_def comp_def split: prod.split, simp)

definition rotate_abc :: "abc \<Rightarrow> abc" where
  "rotate_abc s = (let (b, c, a) = s in (a, b, c))"

lemma bij_rotate_abc: "bij rotate_abc"
  by (rule bij_betw_byWitness [where f' = "\<lambda>(a, b, c). (b, c, a)"]) (auto simp: rotate_abc_def)

lemma final_steps:
  "final = rotate_abc \<circ> final_step 24 \<circ> final_step 14 \<circ> final_step 4 \<circ> final_step 16 \<circ>
     final_step 25 \<circ> final_step 11 \<circ> final_step 14"
  by (rule ext)
    (simp only: final_def final_step_def rotate_abc_def Let_def comp_def split: prod.split, simp)

section \<open>Properties\<close>

text \<open>
  \<open>hashlittle\<close> gives the same value for a key at any address: the two wide-read bodies are
  equivalent to the byte-at-a-time body.
\<close>

lemma jenkins3_alignment_independent:
  "lhi_hash_jenkins3 align key = lhi_hash_jenkins3 align' key"
proof -
  have 1: "hashlittle_body block32 tail32 key s = hashlittle_body block8 tail8 key s" for s
    unfolding block32_block8 by (rule hashlittle_body_cong) (rule tail32_tail8)
  have 2: "hashlittle_body block16 tail16 key s = hashlittle_body block8 tail8 key s" for s
    unfolding block16_block8 by (rule hashlittle_body_cong) (rule tail16_tail8)
  show ?thesis
    by (simp only: lhi_hash_jenkins3_def hashlittle_def Let_def 1 2 if_cancel)
qed

text \<open>
  The mixing functions of lookup3 are reversible: \<open>mix\<close> and \<open>final\<close> are bijections on the
  96-bit state, so no two states are merged before the last word is returned.
\<close>

lemma jenkins3_mix_final_bij: "bij mix \<and> bij final"
  unfolding mix_steps final_steps
  by (intro conjI bij_comp bij_mix_step bij_final_step bij_rotate_abc)

end
