(* ===== verification/Hash_murmur.thy ===== *)
theory Hash_murmur
  imports Hash_func
begin

text \<open>
  MurmurHash2 with aligned reads (\<open>lib/hash_func_murmur.c\<close>). A key at an address that is not a
  multiple of four is hashed by \<open>murmur_hash_unaligned\<close>, which reads aligned words and shifts the
  stream together. The alignment (\<open>(uintptr_t)data & 3\<close>) is an argument of the model.
\<close>

definition murmur_magic :: u32 where
  "murmur_magic = 0x5bd1e995"

text \<open>The macro \<open>MIX(h,k,m)\<close>, as the new value of \<open>h\<close>.\<close>

definition murmur_MIX :: "u32 \<Rightarrow> u32 \<Rightarrow> u32" where
  "murmur_MIX h k =
     (let k = k * murmur_magic;
          k = k XOR drop_bit 24 k;
          k = k * murmur_magic;
          h = h * murmur_magic
      in h XOR k)"

definition murmur_fini :: "u32 \<Rightarrow> u32" where
  "murmur_fini h =
     (let h = h XOR drop_bit 13 h;
          h = h * murmur_magic
      in h XOR drop_bit 15 h)"

text \<open>
  The \<open>switch (len)\<close> over up to three tail bytes, falling through from case \<open>len\<close> to case 1;
  with no byte left it does nothing.
\<close>

definition murmur_tail :: "key \<Rightarrow> u32 \<Rightarrow> u32" where
  "murmur_tail data h =
     (let len = length data;
          h = (if 3 \<le> len then h XOR push_bit 16 (ucast (data ! 2)) else h);
          h = (if 2 \<le> len then h XOR push_bit 8 (ucast (data ! 1)) else h)
      in if 1 \<le> len then (h XOR ucast (data ! 0)) * murmur_magic else h)"

text \<open>The \<open>while (len >= 4)\<close> loop of \<open>murmur_hash2\<close> with its tail.\<close>

fun murmur_loop :: "key \<Rightarrow> u32 \<Rightarrow> u32" where
  "murmur_loop (d0 # d1 # d2 # d3 # data) h = murmur_loop data (murmur_MIX h (le32 d0 d1 d2 d3))"
| "murmur_loop data h = murmur_tail data h"

text \<open>
  Up to three bytes as the two \<open>switch (align)\<close> and \<open>switch (len)\<close> statements of the unaligned
  body collect them into \<open>t\<close> and \<open>d\<close>: \<open>data[2] << 16 | data[1] << 8 | data[0]\<close>.
\<close>

definition murmur_bytes :: "key \<Rightarrow> u32" where
  "murmur_bytes data =
     (let len = length data;
          d = (if 3 \<le> len then push_bit 16 (ucast (data ! 2)) else 0);
          d = (if 2 \<le> len then d OR push_bit 8 (ucast (data ! 1)) else d)
      in if 1 \<le> len then d OR ucast (data ! 0) else d)"

text \<open>The leftover code after the unaligned loop, with \<open>t\<close>, the rest of the data and \<open>h\<close>.\<close>

definition murmur_leftover :: "nat \<Rightarrow> u32 \<Rightarrow> key \<Rightarrow> u32 \<Rightarrow> u32" where
  "murmur_leftover align t data h =
     (let sl = 8 * (4 - align); sr = 8 * align
      in if align \<le> length data then
           (let d = murmur_bytes (take align data);
                k = drop_bit sr t OR push_bit sl d;
                h = murmur_MIX h k
            in murmur_tail (drop align data) h)
         else
           (let d = murmur_bytes data
            in (h XOR (drop_bit sr t OR push_bit sl d)) * murmur_magic))"

fun murmur_unaligned_loop :: "nat \<Rightarrow> u32 \<Rightarrow> key \<Rightarrow> u32 \<Rightarrow> u32" where
  "murmur_unaligned_loop align t (d0 # d1 # d2 # d3 # data) h =
     (let sl = 8 * (4 - align); sr = 8 * align;
          d = le32 d0 d1 d2 d3;
          t = drop_bit sr t OR push_bit sl d;
          h = murmur_MIX h t
      in murmur_unaligned_loop align d data h)"
| "murmur_unaligned_loop align t data h = murmur_leftover align t data h"

definition murmur_hash_unaligned :: "nat \<Rightarrow> key \<Rightarrow> u32 \<Rightarrow> u32" where
  "murmur_hash_unaligned align data h =
     (let t = murmur_bytes (take (4 - align) data);
          t = push_bit (8 * align) t
      in murmur_fini (murmur_unaligned_loop align t (drop (4 - align) data) h))"

definition murmur_hash2 :: "nat \<Rightarrow> key \<Rightarrow> u32 \<Rightarrow> u32" where
  "murmur_hash2 align data seed =
     (let h = seed XOR word_of_nat (length data)
      in if align mod 4 \<noteq> 0 \<and> 4 \<le> length data then murmur_hash_unaligned (align mod 4) data h
         else murmur_fini (murmur_loop data h))"

definition lhi_hash_murmur :: "nat \<Rightarrow> key \<Rightarrow> u32" where
  "lhi_hash_murmur align key = murmur_hash2 align key 0"

section \<open>The unaligned body computes the same hash\<close>

text \<open>
  In the loop, the bytes read but not yet hashed are the \<open>4 - align\<close> bytes \<open>p\<close> that \<open>t\<close> holds in
  its upper part.
\<close>

definition pending :: "nat \<Rightarrow> u32 \<Rightarrow> key \<Rightarrow> bool" where
  "pending align t p \<longleftrightarrow> length p = 4 - align \<and> drop_bit (8 * align) t = murmur_bytes p"

lemma byte_cases:
  assumes "align \<in> {1, 2, 3}" and "pending align t p"
  obtains (one) p0 p1 p2 where "align = 1" "p = [p0, p1, p2]"
    | (two) p0 p1 where "align = 2" "p = [p0, p1]"
    | (three) p0 where "align = 3" "p = [p0]"
  using assms by (auto simp: pending_def length_Suc_conv numeral_3_eq_3 numeral_2_eq_2)

lemma bit_le32:
  "bit (le32 b0 b1 b2 b3) n =
     (if n < 8 then bit b0 n else if n < 16 then bit b1 (n - 8)
      else if n < 24 then bit b2 (n - 16) else bit b3 (n - 24))"
proof -
  consider "n < 8" | "8 \<le> n \<and> n < 16" | "16 \<le> n \<and> n < 24" | "24 \<le> n \<and> n < 32" | "32 \<le> n"
    by linarith
  then show ?thesis
    by cases (auto simp: le32_def bit_simps dest: bit_imp_le_length)
qed

lemma push_le32:
  "push_bit 24 (le32 d0 d1 d2 d3) = push_bit 24 (ucast d0)"
  "push_bit 16 (le32 d0 d1 d2 d3) = push_bit 16 (ucast d0 OR push_bit 8 (ucast d1))"
  "push_bit 8 (le32 d0 d1 d2 d3) =
     push_bit 8 (ucast d0 OR push_bit 8 (ucast d1) OR push_bit 16 (ucast d2))"
  by (rule bit_word_eqI; auto simp: le32_def bit_simps)+

lemma drop_le32:
  "drop_bit 8 (le32 d0 d1 d2 d3) = ucast d1 OR push_bit 8 (ucast d2) OR push_bit 16 (ucast d3)"
  "drop_bit 16 (le32 d0 d1 d2 d3) = ucast d2 OR push_bit 8 (ucast d3)"
  "drop_bit 24 (le32 d0 d1 d2 d3) = ucast d3"
  by (rule bit_word_eqI; auto simp: bit_le32 bit_simps dest: bit_imp_le_length)+

lemmas murmur_words = push_le32 drop_le32 murmur_bytes_def Let_def push_bit_or ac_simps

lemma pending_step:
  assumes "align \<in> {1, 2, 3}" and "pending align t p"
  obtains e p' where "pending align (le32 d0 d1 d2 d3) p'"
    and "p @ d0 # d1 # d2 # d3 # data = e @ p' @ data"
    and "length e = 4"
    and "drop_bit (8 * align) t OR push_bit (8 * (4 - align)) (le32 d0 d1 d2 d3) =
      le32 (e ! 0) (e ! 1) (e ! 2) (e ! 3)"
  using assms
proof (cases rule: byte_cases)
  case (one p0 p1 p2)
  show ?thesis
    by (rule that [of "[d1, d2, d3]" "[p0, p1, p2, d0]"])
      (use one assms(2) in \<open>simp_all add: pending_def murmur_words\<close>,
        simp add: le32_def ac_simps)
next
  case (two p0 p1)
  show ?thesis
    by (rule that [of "[d2, d3]" "[p0, p1, d0, d1]"])
      (use two assms(2) in \<open>simp_all add: pending_def murmur_words\<close>,
        simp add: le32_def ac_simps)
next
  case (three p0)
  show ?thesis
    by (rule that [of "[d3]" "[p0, d0, d1, d2]"])
      (use three assms(2) in \<open>simp_all add: pending_def murmur_words\<close>,
        simp add: le32_def ac_simps)
qed

lemma or_xor_bytes:
  "(ucast (b0 :: byte) :: u32) OR push_bit 8 (ucast (b1 :: byte)) =
     ucast b0 XOR push_bit 8 (ucast b1)"
  "(ucast (b0 :: byte) :: u32) OR push_bit 8 (ucast (b1 :: byte)) OR push_bit 16 (ucast (b2 :: byte)) =
     ucast b0 XOR push_bit 8 (ucast b1) XOR push_bit 16 (ucast b2)"
  by (rule bit_word_eqI; auto simp: bit_simps dest: bit_imp_le_length)+

lemmas murmur_tail_words = pending_def murmur_leftover_def murmur_tail_def murmur_words

lemma pending_tail:
  assumes "align \<in> {1, 2, 3}" and "pending align t p" and "length data < 4"
  shows "murmur_leftover align t data h = murmur_loop (p @ data) h"
proof -
  consider "data = []" | d0 where "data = [d0]" | d0 d1 where "data = [d0, d1]"
    | d0 d1 d2 where "data = [d0, d1, d2]"
    using assms(3) by (cases data rule: list.exhaust;
        auto simp: less_Suc_eq numeral_eq_Suc length_Suc_conv)
  note data = this
  show ?thesis
    using assms(1,2)
  proof (cases rule: byte_cases)
    case (one p0 p1 p2)
    then show ?thesis
      using assms(2) by (cases rule: data)
        (simp_all add: murmur_tail_words, simp_all add: le32_def or_xor_bytes ac_simps)
  next
    case (two p0 p1)
    then show ?thesis
      using assms(2) by (cases rule: data)
        (simp_all add: murmur_tail_words, simp_all add: le32_def or_xor_bytes ac_simps)
  next
    case (three p0)
    then show ?thesis
      using assms(2) by (cases rule: data)
        (simp_all add: murmur_tail_words, simp_all add: le32_def or_xor_bytes ac_simps)
  qed
qed

lemma murmur_loop_block:
  "length e = 4 \<Longrightarrow>
     murmur_loop (e @ data) h = murmur_loop data (murmur_MIX h (le32 (e ! 0) (e ! 1) (e ! 2) (e ! 3)))"
  by (auto simp: length_Suc_conv numeral_eq_Suc)

lemma unaligned_loop_eq:
  assumes "align \<in> {1, 2, 3}" and "pending align t p"
  shows "murmur_unaligned_loop align t data h = murmur_loop (p @ data) h"
  using assms
proof (induction align t data h arbitrary: p rule: murmur_unaligned_loop.induct)
  case (1 align t d0 d1 d2 d3 data h)
  obtain e p' where p': "pending align (le32 d0 d1 d2 d3) p'"
    and app: "p @ d0 # d1 # d2 # d3 # data = e @ p' @ data" and len: "length e = 4"
    and word: "drop_bit (8 * align) t OR push_bit (8 * (4 - align)) (le32 d0 d1 d2 d3) =
        le32 (e ! 0) (e ! 1) (e ! 2) (e ! 3)"
    by (rule pending_step [OF "1.prems"])
  have "murmur_unaligned_loop align t (d0 # d1 # d2 # d3 # data) h =
      murmur_unaligned_loop align (le32 d0 d1 d2 d3) data
        (murmur_MIX h (le32 (e ! 0) (e ! 1) (e ! 2) (e ! 3)))"
    by (simp only: murmur_unaligned_loop.simps Let_def word)
  also have "\<dots> = murmur_loop (p' @ data) (murmur_MIX h (le32 (e ! 0) (e ! 1) (e ! 2) (e ! 3)))"
    unfolding word [symmetric]
    by (rule "1.IH" [OF refl refl refl refl refl "1.prems"(1) p'])
  also have "\<dots> = murmur_loop (p @ d0 # d1 # d2 # d3 # data) h"
    unfolding app by (rule murmur_loop_block [OF len, symmetric])
  finally show ?case .
qed (simp_all add: pending_tail)

lemma drop_push_bytes:
  "drop_bit 8 (push_bit 8 (murmur_bytes [d0, d1, d2])) = murmur_bytes [d0, d1, d2]"
  "drop_bit 16 (push_bit 16 (murmur_bytes [d0, d1])) = murmur_bytes [d0, d1]"
  "drop_bit 24 (push_bit 24 (murmur_bytes [d0])) = murmur_bytes [d0]"
  by (simp_all add: murmur_bytes_def)
    (rule bit_word_eqI; auto simp: bit_simps dest: bit_imp_le_length)+

lemma pending_start:
  assumes "align \<in> {1, 2, 3}" and "4 \<le> length data"
  shows "pending align (push_bit (8 * align) (murmur_bytes (take (4 - align) data)))
    (take (4 - align) data)"
proof -
  obtain d0 d1 d2 d3 rest where "data = d0 # d1 # d2 # d3 # rest"
    using assms(2) by (auto simp: Suc_le_length_iff numeral_eq_Suc)
  then show ?thesis
    using assms(1) by (elim insertE emptyE)
      (simp_all add: pending_def drop_push_bytes)
qed

text \<open>
  The hash of a key does not depend on the address it is stored at: the shifting body for
  unaligned keys is equivalent to the plain loop, for every length and every tail.
\<close>

lemma murmur_alignment_independent:
  "lhi_hash_murmur align key = lhi_hash_murmur align' key"
proof -
  have "murmur_hash2 a key 0 = murmur_fini (murmur_loop key (0 XOR word_of_nat (length key)))" for a
  proof (cases "a mod 4 \<noteq> 0 \<and> 4 \<le> length key")
    case True
    then have a: "a mod 4 \<in> {1, 2, 3}" by auto
    from unaligned_loop_eq [OF this pending_start [OF this]] True show ?thesis
      by (simp add: murmur_hash2_def murmur_hash_unaligned_def Let_def)
  next
    case False
    then show ?thesis by (auto simp: murmur_hash2_def Let_def)
  qed
  then show ?thesis by (simp add: lhi_hash_murmur_def)
qed

end
