(* ===== verification/Hash_cube.thy ===== *)
theory Hash_cube
  imports Hi_prelude
begin

text \<open>
  CubeHash8/1 with 224 bits (\<open>lib/hash_func_cube.c\<close>). The state is a list of 32 words; a loop
  \<open>for (i = 0;i < 16;++i)\<close> is a fold over the indices, with the assignment as list update.
\<close>

section \<open>The permutation\<close>

definition ROTATE :: "u32 \<Rightarrow> nat \<Rightarrow> u32" where
  "ROTATE a b = push_bit b a OR drop_bit (32 - b) a"

definition for16 :: "(nat \<Rightarrow> u32 list \<Rightarrow> u32 list) \<Rightarrow> u32 list \<Rightarrow> u32 list" where
  "for16 body x = fold body [0 ..< 16] x"

text \<open>The kinds of loops of \<open>transform\<close>; \<open>swap_lo\<close> and \<open>swap_hi\<close> go through the local array \<open>y\<close>.\<close>

definition add_lo :: "u32 list \<Rightarrow> u32 list" where
  "add_lo x = for16 (\<lambda>i x. x[i + 16 := x ! (i + 16) + x ! i]) x"

definition swap_lo :: "nat \<Rightarrow> nat \<Rightarrow> u32 list \<Rightarrow> u32 list" where
  "swap_lo m b x =
     (let y = for16 (\<lambda>i y. y[i XOR m := x ! i]) (replicate 16 0)
      in for16 (\<lambda>i x. x[i := ROTATE (y ! i) b]) x)"

definition xor_hi :: "u32 list \<Rightarrow> u32 list" where
  "xor_hi x = for16 (\<lambda>i x. x[i := x ! i XOR x ! (i + 16)]) x"

definition swap_hi :: "nat \<Rightarrow> u32 list \<Rightarrow> u32 list" where
  "swap_hi m x =
     (let y = for16 (\<lambda>i y. y[i XOR m := x ! (i + 16)]) (replicate 16 0)
      in for16 (\<lambda>i x. x[i + 16 := y ! i]) x)"

definition cube_round :: "u32 list \<Rightarrow> u32 list" where
  "cube_round x =
     (let x = add_lo x;
          x = swap_lo 8 7 x;
          x = xor_hi x;
          x = swap_hi 2 x;
          x = add_lo x;
          x = swap_lo 4 11 x;
          x = xor_hi x
      in swap_hi 1 x)"

definition CUBEHASH_ROUNDS :: nat where
  "CUBEHASH_ROUNDS = 8"

definition transform :: "u32 list \<Rightarrow> u32 list" where
  "transform x = (cube_round ^^ CUBEHASH_ROUNDS) x"

section \<open>Hashing\<close>

text \<open>\<open>hashState\<close>; the member \<open>hashbitlen\<close> is the argument of \<open>Init\<close> and is passed on.\<close>

record cube_state =
  cpos :: nat
  cx :: "u32 list"

definition CUBEHASH_BLOCKBYTES :: nat where
  "CUBEHASH_BLOCKBYTES = 1"

definition cube_Init :: "int \<Rightarrow> cube_state option" where
  "cube_Init hashbitlen =
     (if hashbitlen < 8 then None
      else if 512 < hashbitlen then None
      else if hashbitlen \<noteq> 8 * (hashbitlen div 8) then None
      else Some \<lparr>cpos = 0, cx = (transform ^^ 10) ((replicate 32 0)
        [0 := word_of_int (hashbitlen div 8), 1 := word_of_nat CUBEHASH_BLOCKBYTES,
         2 := word_of_nat CUBEHASH_ROUNDS])\<rparr>)"

text \<open>Xoring a byte into the state at a position.\<close>

definition xor_at :: "nat \<Rightarrow> u32 \<Rightarrow> u32 list \<Rightarrow> u32 list" where
  "xor_at pos u x =
     x[pos div 32 := x ! (pos div 32) XOR push_bit (8 * ((pos div 8) mod 4)) u]"

text \<open>\<open>Update\<close>; data that ends before \<open>databitlen\<close> bits are read is undefined.\<close>

function cube_Update :: "cube_state \<Rightarrow> byte list \<Rightarrow> nat \<Rightarrow> cube_state option" where
  "cube_Update state data databitlen =
     (if 8 \<le> databitlen then
        (case data of
           [] \<Rightarrow> None
         | b # data \<Rightarrow>
             (let x = xor_at (cpos state) (ucast b) (cx state); pos = cpos state + 8
              in if pos = 8 * CUBEHASH_BLOCKBYTES
                 then cube_Update \<lparr>cpos = 0, cx = transform x\<rparr> data (databitlen - 8)
                 else cube_Update \<lparr>cpos = pos, cx = x\<rparr> data (databitlen - 8)))
      else if 0 < databitlen then
        (case data of
           [] \<Rightarrow> None
         | b # data \<Rightarrow> Some \<lparr>cpos = cpos state + databitlen, cx = xor_at (cpos state) (ucast b) (cx state)\<rparr>)
      else Some state)"
  by pat_completeness auto
termination
  by (relation "measure (\<lambda>(state, data, n). n)") auto

declare cube_Update.simps [simp del]

text \<open>\<open>Final\<close>: the padding, the last transformations and the bytes of the hash value.\<close>

definition cube_Final :: "int \<Rightarrow> cube_state \<Rightarrow> byte list" where
  "cube_Final hashbitlen state =
     (let x = xor_at (cpos state) (drop_bit (cpos state mod 8) 128) (cx state);
          x = transform x;
          x = x[31 := x ! 31 XOR 1];
          x = (transform ^^ 10) x
      in map (\<lambda>i. ucast (drop_bit (8 * (i mod 4)) (x ! (i div 4)))) [0 ..< nat (hashbitlen div 8)])"

definition cube_Hash :: "int \<Rightarrow> byte list \<Rightarrow> nat \<Rightarrow> byte list option" where
  "cube_Hash hashbitlen data databitlen = do {
     state \<leftarrow> cube_Init hashbitlen;
     state \<leftarrow> cube_Update state data databitlen;
     Some (cube_Final hashbitlen state)
   }"

definition CUBE_BLOCK_SIZE :: int where
  "CUBE_BLOCK_SIZE = 28"

text \<open>
  \<open>lhi_hash_cube\<close>: the length in bits is computed as a 32-bit integer, before it is converted to
  \<open>DataLength\<close>.
\<close>

definition cube_hash :: "key \<Rightarrow> u32 option" where
  "cube_hash data = do {
     h \<leftarrow> cube_Hash (CUBE_BLOCK_SIZE * 8) data (unat (word_of_nat (length data) * 8 :: u32));
     b0 \<leftarrow> rd h 0; b1 \<leftarrow> rd h 1; b2 \<leftarrow> rd h 2; b3 \<leftarrow> rd h 3;
     Some (le32 b0 b1 b2 b3)
   }"

definition lhi_hash_cube :: "key \<Rightarrow> u32" where
  "lhi_hash_cube data = the (cube_hash data)"

section \<open>The permutation loses nothing\<close>

lemma upt_16: "[0 ..< 16] = [0, 1, 2, 3, 4, 5, 6, 7, 8, 9, 10, 11, 12, 13, 14, 15 :: nat]"
  by (simp add: upt_conv_Cons)

lemma length_fold_update:
  "length (fold (\<lambda>i x. x[p i := f i x]) is x) = length (x :: 'a list)"
  by (induction "is" arbitrary: x) auto

lemma length_loops [simp]:
  "length (add_lo x) = length x" "length (swap_lo m b x) = length x"
  "length (xor_hi x) = length x" "length (swap_hi m x) = length x"
  by (simp_all add: add_lo_def swap_lo_def xor_hi_def swap_hi_def for16_def length_fold_update Let_def)

lemma length_round [simp]: "length (cube_round x) = length x"
  by (simp add: cube_round_def Let_def)

lemma length_transform [simp]: "length (transform x) = length x"
proof -
  have "length ((cube_round ^^ n) x) = length x" for n
    by (induction n) simp_all
  then show ?thesis by (simp add: transform_def)
qed

lemma length_transforms [simp]: "length ((transform ^^ n) x) = length x"
  by (induction n) simp_all

lemma bit_ROTATE:
  assumes "b \<le> 32" and "n < 32"
  shows "bit (ROTATE a b) n = (if n < b then bit a (32 - b + n) else bit a (n - b))"
proof (cases "n < b")
  case True
  then show ?thesis
    using assms by (simp add: ROTATE_def bit_simps)
next
  case False
  then have "\<not> bit a (32 - b + n)"
    using assms bit_imp_le_length [of a "32 - b + n"] by auto
  then show ?thesis
    using assms False by (simp add: ROTATE_def bit_simps)
qed

lemma ROTATE_eq [simp]:
  assumes "b \<le> 32"
  shows "ROTATE a b = ROTATE a' b \<longleftrightarrow> a = a'"
proof
  assume eq: "ROTATE a b = ROTATE a' b"
  show "a = a'"
  proof (rule bit_word_eqI)
    fix n :: nat
    assume n: "n < LENGTH(32)"
    show "bit a n = bit a' n"
    proof (cases "n + b < 32")
      case True
      then show ?thesis
        using bit_ROTATE [OF assms, of "n + b" a] bit_ROTATE [OF assms, of "n + b" a'] eq by simp
    next
      case False
      then have "n + b - 32 < 32" "n + b - 32 < b" "32 - b + (n + b - 32) = n"
        using n assms by simp_all
      then show ?thesis
        using bit_ROTATE [OF assms, of "n + b - 32" a] bit_ROTATE [OF assms, of "n + b - 32" a'] eq
        by simp
    qed
  qed
qed simp

text \<open>Single loops: what they leave at an index.\<close>

lemma fold_const_update:
  assumes "n + c \<le> length x" and "j < length x"
  shows "fold (\<lambda>i x. x[i + c := g i]) [0 ..< n] x ! j =
    (if c \<le> j \<and> j < n + c then g (j - c) else x ! j)"
  using assms(1)
proof (induction n)
  case 0
  then show ?case by auto
next
  case (Suc n)
  have "length (fold (\<lambda>i x. x[i + c := g i]) [0 ..< n] x) = length x"
    by (rule length_fold_update)
  then show ?case
    using Suc assms(2) by (auto simp: nth_list_update)
qed

lemma fold_swap_update:
  assumes "\<And>i. i < 16 \<Longrightarrow> i XOR m < 16" and "length y = 16" and "n \<le> 16" and "j < 16"
  shows "fold (\<lambda>i y. y[i XOR m := g i]) [0 ..< n] y ! j = (if j XOR m < n then g (j XOR m) else y ! j)"
  using assms(3)
proof (induction n)
  case 0
  then show ?case by simp
next
  case (Suc n)
  have len: "length (fold (\<lambda>i y. y[i XOR m := g i]) [0 ..< n] y) = 16"
    by (simp add: length_fold_update assms(2))
  have "n XOR m = j \<longleftrightarrow> j XOR m = n"
    by (metis xor.assoc xor.right_neutral xor_self_eq)
  then show ?case
    using Suc assms(1) [of n] len by (auto simp: nth_list_update)
qed

lemma nth_add_lo:
  assumes "length x = 32" and "j < 32"
  shows "add_lo x ! j = (if j < 16 then x ! j else x ! j + x ! (j - 16))"
proof -
  have "fold (\<lambda>i x. x[i + 16 := x ! (i + 16) + x ! i]) [0 ..< n] x =
      map (\<lambda>j. if 16 \<le> j \<and> j < n + 16 then x ! j + x ! (j - 16) else x ! j) [0 ..< 32]" if "n \<le> 16" for n
    using that
  proof (induction n)
    case 0
    then show ?case using assms(1) by (intro nth_equalityI) auto
  next
    case (Suc n)
    then show ?case
      by (intro nth_equalityI) (auto simp: nth_list_update less_Suc_eq)
  qed
  from this [of 16] show ?thesis
    using assms(2) by (auto simp: add_lo_def for16_def)
qed

lemma nth_xor_hi:
  assumes "length x = 32" and "j < 32"
  shows "xor_hi x ! j = (if j < 16 then x ! j XOR x ! (j + 16) else x ! j)"
proof -
  have "fold (\<lambda>i x. x[i := x ! i XOR x ! (i + 16)]) [0 ..< n] x =
      map (\<lambda>j. if j < n then x ! j XOR x ! (j + 16) else x ! j) [0 ..< 32]" if "n \<le> 16" for n
    using that
  proof (induction n)
    case 0
    then show ?case using assms(1) by (intro nth_equalityI) auto
  next
    case (Suc n)
    then show ?case
      by (intro nth_equalityI) (auto simp: nth_list_update less_Suc_eq)
  qed
  from this [of 16] show ?thesis
    using assms(2) by (auto simp: xor_hi_def for16_def)
qed

lemma nth_swap_lo:
  assumes "length x = 32" and "j < 32" and "\<And>i. i < 16 \<Longrightarrow> i XOR m < 16"
  shows "swap_lo m b x ! j = (if j < 16 then ROTATE (x ! (j XOR m)) b else x ! j)"
  using assms fold_const_update [of 16 0 x j]
    fold_swap_update [OF assms(3), of "replicate 16 0" 16 j "\<lambda>i. x ! i"]
  by (simp add: swap_lo_def for16_def Let_def)

lemma nth_swap_hi:
  assumes "length x = 32" and "j < 32" and "\<And>i. i < 16 \<Longrightarrow> i XOR m < 16"
  shows "swap_hi m x ! j = (if j < 16 then x ! j else x ! (((j - 16) XOR m) + 16))"
  using assms fold_const_update [of 16 16 x j]
    fold_swap_update [OF assms(3), of "replicate 16 0" 16 "j - 16" "\<lambda>i. x ! (i + 16)"]
  by (simp add: swap_hi_def for16_def Let_def)

lemma swap_index:
  fixes i :: nat
  assumes "i < 16"
  shows "i XOR 8 < 16" "i XOR 4 < 16" "i XOR 2 < 16" "i XOR 1 < 16"
proof -
  have "\<forall>i \<in> set [0 ..< 16]. i XOR 8 < 16 \<and> i XOR 4 < 16 \<and> i XOR 2 < 16 \<and> i XOR (1 :: nat) < 16"
    unfolding upt_16 by simp
  then show "i XOR 8 < 16" "i XOR 4 < 16" "i XOR 2 < 16" "i XOR 1 < 16"
    using assms by auto
qed

lemma xor_cancel: "a XOR c = b XOR c \<Longrightarrow> a = (b :: u32)"
proof -
  assume "a XOR c = b XOR c"
  then have "(a XOR c) XOR c = (b XOR c) XOR c"
    by simp
  then show ?thesis
    by (simp add: xor.assoc)
qed

text \<open>Each loop is injective on states of 32 words.\<close>

lemma add_lo_inj: "inj_on add_lo {x. length x = 32}"
proof (rule inj_onI)
  fix x y :: "u32 list"
  assume len: "x \<in> {x. length x = 32}" "y \<in> {x. length x = 32}" and eq: "add_lo x = add_lo y"
  have nth: "(if j < 16 then x ! j else x ! j + x ! (j - 16)) =
      (if j < 16 then y ! j else y ! j + y ! (j - 16))" if "j < 32" for j
    using nth_add_lo [of x j] nth_add_lo [of y j] len eq that by simp
  have lo: "x ! j = y ! j" if "j < 16" for j
    using nth [of j] that by simp
  have "x ! j = y ! j" if "j < 32" for j
    using nth [OF that] lo [of "j - 16"] lo [of j] that by (auto split: if_splits)
  then show "x = y"
    using len by (auto intro: nth_equalityI)
qed

lemma xor_hi_inj: "inj_on xor_hi {x. length x = 32}"
proof (rule inj_onI)
  fix x y :: "u32 list"
  assume len: "x \<in> {x. length x = 32}" "y \<in> {x. length x = 32}" and eq: "xor_hi x = xor_hi y"
  have nth: "(if j < 16 then x ! j XOR x ! (j + 16) else x ! j) =
      (if j < 16 then y ! j XOR y ! (j + 16) else y ! j)" if "j < 32" for j
    using nth_xor_hi [of x j] nth_xor_hi [of y j] len eq that by simp
  have hi: "x ! j = y ! j" if "16 \<le> j" "j < 32" for j
    using nth [of j] that by simp
  have "x ! j = y ! j" if "j < 32" for j
  proof (cases "j < 16")
    case True
    then have "x ! j XOR x ! (j + 16) = y ! j XOR x ! (j + 16)"
      using nth [of j] hi [of "j + 16"] by simp
    then show ?thesis
      by (rule xor_cancel)
  qed (use hi that in simp)
  then show "x = y"
    using len by (auto intro: nth_equalityI)
qed

lemma swap_lo_inj:
  assumes m: "\<And>i. i < 16 \<Longrightarrow> i XOR m < 16" and "b \<le> 32"
  shows "inj_on (swap_lo m b) {x. length x = 32}"
proof (rule inj_onI)
  fix x y :: "u32 list"
  assume len: "x \<in> {x. length x = 32}" "y \<in> {x. length x = 32}" and eq: "swap_lo m b x = swap_lo m b y"
  have nth: "(if j < 16 then ROTATE (x ! (j XOR m)) b else x ! j) =
      (if j < 16 then ROTATE (y ! (j XOR m)) b else y ! j)" if "j < 32" for j
    using nth_swap_lo [OF _ that m, of x b] nth_swap_lo [OF _ that m, of y b] len eq by simp
  have "x ! j = y ! j" if "j < 32" for j
  proof (cases "j < 16")
    case True
    have "(j XOR m) XOR m = j"
      by (simp add: xor.assoc)
    then show ?thesis
      using nth [of "j XOR m"] m [OF True] assms(2) by simp
  qed (use nth [OF that] in simp)
  then show "x = y"
    using len by (auto intro: nth_equalityI)
qed

lemma swap_hi_inj:
  assumes m: "\<And>i. i < 16 \<Longrightarrow> i XOR m < 16"
  shows "inj_on (swap_hi m) {x. length x = 32}"
proof (rule inj_onI)
  fix x y :: "u32 list"
  assume len: "x \<in> {x. length x = 32}" "y \<in> {x. length x = 32}" and eq: "swap_hi m x = swap_hi m y"
  have nth: "(if j < 16 then x ! j else x ! (((j - 16) XOR m) + 16)) =
      (if j < 16 then y ! j else y ! (((j - 16) XOR m) + 16))" if "j < 32" for j
    using nth_swap_hi [OF _ that m, of x] nth_swap_hi [OF _ that m, of y] len eq by simp
  have "x ! j = y ! j" if "j < 32" for j
  proof (cases "j < 16")
    case False
    define k where "k = (j - 16) XOR m"
    have "k < 16" "k XOR m = j - 16"
      using m [of "j - 16"] that False by (simp_all add: k_def xor.assoc)
    then show ?thesis
      using nth [of "k + 16"] False that by simp
  qed (use nth [OF that] in simp)
  then show "x = y"
    using len by (auto intro: nth_equalityI)
qed

text \<open>
  The permutation of CubeHash is one: \<open>transform\<close> maps the states of 32 words to themselves
  without collisions, so that absorbing a byte never merges two states.
\<close>

lemma cube_transform_bij: "bij_betw transform {x. length x = 32} {x. length x = 32}"
proof -
  let ?S = "{x :: u32 list. length x = 32}"
  have into: "f ` ?S \<subseteq> ?S" if "\<And>x. length (f x) = length x" for f :: "u32 list \<Rightarrow> u32 list"
    using that by auto
  have "cube_round = swap_hi 1 \<circ> xor_hi \<circ> swap_lo 4 11 \<circ> add_lo \<circ> swap_hi 2 \<circ> xor_hi \<circ> swap_lo 8 7 \<circ> add_lo"
    by (simp add: fun_eq_iff cube_round_def Let_def)
  moreover have "inj_on (swap_hi 1 \<circ> xor_hi \<circ> swap_lo 4 11 \<circ> add_lo \<circ> swap_hi 2 \<circ> xor_hi \<circ> swap_lo 8 7 \<circ> add_lo) ?S"
    by (intro comp_inj_on add_lo_inj xor_hi_inj swap_lo_inj swap_hi_inj swap_index
        inj_on_subset [OF _ into]) simp_all
  ultimately have round: "inj_on cube_round ?S"
    by simp
  have "inj_on (cube_round ^^ n) ?S \<and> (cube_round ^^ n) ` ?S \<subseteq> ?S" for n
  proof (induction n)
    case 0
    show ?case by simp
  next
    case (Suc n)
    have "inj_on (cube_round \<circ> (cube_round ^^ n)) ?S"
      by (rule comp_inj_on) (use Suc round in \<open>auto intro: inj_on_subset\<close>)
    then show ?case
      using Suc by (auto simp: comp_def)
  qed
  then have "inj_on transform ?S"
    by (simp add: transform_def [abs_def])
  moreover have "transform ` ?S \<subseteq> ?S"
    by (rule into) simp
  moreover have "finite ?S"
    using finite_lists_length_eq [of "UNIV :: u32 set" 32] by simp
  ultimately show ?thesis
    by (metis bij_betw_def endo_inj_surj)
qed

section \<open>The hash as a sponge\<close>

text \<open>Bytes are absorbed one by one into the first word, then the end is marked.\<close>

definition cube_iv :: "u32 list" where
  "cube_iv = (transform ^^ 10) ([28, 1, 8] @ replicate 29 0)"

definition cube_absorb :: "u32 list \<Rightarrow> byte \<Rightarrow> u32 list" where
  "cube_absorb x b = transform (x[0 := x ! 0 XOR ucast b])"

definition cube_finish :: "u32 list \<Rightarrow> u32 list" where
  "cube_finish x =
     (let x = transform (x[0 := x ! 0 XOR 128]) in (transform ^^ 10) (x[31 := x ! 31 XOR 1]))"

lemma cube_Update_bytes:
  "m \<le> length data \<Longrightarrow> cube_Update \<lparr>cpos = 0, cx = x\<rparr> data (8 * m) =
     Some \<lparr>cpos = 0, cx = foldl cube_absorb x (take m data)\<rparr>"
proof (induction m arbitrary: x data)
  case 0
  then show ?case by (simp add: cube_Update.simps)
next
  case (Suc m)
  then obtain b data' where "data = b # data'" "m \<le> length data'"
    by (cases data) auto
  then show ?case
    using Suc.IH [of data'] cube_Update.simps [of _ data "8 * Suc m"]
    by (simp add: CUBEHASH_BLOCKBYTES_def xor_at_def cube_absorb_def Let_def)
qed

lemma cube_Init_iv: "cube_Init 224 = Some \<lparr>cpos = 0, cx = cube_iv\<rparr>"
proof -
  have "(replicate 32 0)[0 := 28, 1 := 1, 2 := 8] = [28, 1, 8 :: u32] @ replicate 29 0"
    by (simp add: numeral_eq_Suc)
  then show ?thesis
    by (simp add: cube_Init_def cube_iv_def CUBEHASH_BLOCKBYTES_def CUBEHASH_ROUNDS_def)
qed

lemma cube_Final_bytes:
  "take 4 (cube_Final 224 \<lparr>cpos = 0, cx = x\<rparr>) = bytes32 (cube_finish x ! 0)"
  by (simp add: cube_Final_def cube_finish_def xor_at_def bytes32_def Let_def upt_conv_Cons take_map)

text \<open>
  The hash absorbs the key byte by byte. The length in bits is computed in 32 bits: of a key of
  \<open>2 ^ 29\<close> bytes or more only the first \<open>length mod 2 ^ 29\<close> bytes are hashed.
\<close>

lemma cube_hash_sponge:
  "cube_hash key = Some (cube_finish (foldl cube_absorb cube_iv (take (length key mod 2 ^ 29) key)) ! 0)"
proof -
  define m where "m = length key mod 2 ^ 29"
  have "m \<le> length key"
    by (simp add: m_def)
  define h where "h = cube_Final 224 \<lparr>cpos = 0, cx = foldl cube_absorb cube_iv (take m key)\<rparr>"
  have hash: "cube_Hash (CUBE_BLOCK_SIZE * 8) key (unat (word_of_nat (length key) * 8 :: u32)) = Some h"
    unfolding length_in_bits m_def [symmetric] using cube_Update_bytes [OF \<open>m \<le> length key\<close>, of cube_iv]
    by (simp add: cube_Hash_def CUBE_BLOCK_SIZE_def cube_Init_iv h_def)
  define w where "w = cube_finish (foldl cube_absorb cube_iv (take m key)) ! 0"
  have h: "take 4 h = bytes32 w" "length h = 28"
    using cube_Final_bytes by (simp_all add: h_def w_def) (simp add: cube_Final_def Let_def)
  have "rd h i = Some (take 4 h ! i)" if "i < 4" for i
    using that h(2) by (simp add: rd_def)
  then have "rd h 0 = Some (ucast w)" "rd h 1 = Some (ucast (drop_bit 8 w))"
    "rd h 2 = Some (ucast (drop_bit 16 w))" "rd h 3 = Some (ucast (drop_bit 24 w))"
    by (simp_all add: h(1) bytes32_def)
  then show ?thesis
    unfolding cube_hash_def hash m_def [symmetric] w_def [symmetric]
    by (simp add: le32_bytes32)
qed

end
