(* ===== verification/Hash_skein256.thy ===== *)
theory Hash_skein256
  imports Hi_prelude
begin

text \<open>
  Skein-256 (\<open>lib/hash_func_skein256.c\<close>): the block function with its unrolled rounds, the context
  with its buffer, the incremental operations, the interface of the competition (\<open>Init\<close>, \<open>Update\<close>,
  \<open>Final\<close>, \<open>Hash\<close>) and the wrapper. The file is compiled with its defaults: 72 rounds, fully
  unrolled, no debugging, no error checks (\<open>Skein_Assert\<close> is empty). \<open>None\<close> is undefined behaviour.
\<close>

section \<open>Words in memory\<close>

definition RotL_64 :: "u64 \<Rightarrow> nat \<Rightarrow> u64" where
  "RotL_64 x N = push_bit N x OR drop_bit (64 - N) x"

definition SKEIN_MK_64 :: "u64 \<Rightarrow> u64 \<Rightarrow> u64" where
  "SKEIN_MK_64 hi32 lo32 = lo32 + push_bit 32 hi32"

text \<open>The portable versions; on a little-endian machine the macros copy memory instead.\<close>

definition get64 :: "byte list \<Rightarrow> nat \<Rightarrow> u64" where
  "get64 src n =
     ucast (src ! n) + push_bit 8 (ucast (src ! (n + 1))) + push_bit 16 (ucast (src ! (n + 2))) +
     push_bit 24 (ucast (src ! (n + 3))) + push_bit 32 (ucast (src ! (n + 4))) +
     push_bit 40 (ucast (src ! (n + 5))) + push_bit 48 (ucast (src ! (n + 6))) +
     push_bit 56 (ucast (src ! (n + 7)))"

definition Skein_Get64_LSB_First :: "byte list \<Rightarrow> nat \<Rightarrow> u64 list" where
  "Skein_Get64_LSB_First src wCnt = map (\<lambda>i. get64 src (8 * i)) [0 ..< wCnt]"

definition Skein_Put64_LSB_First :: "u64 list \<Rightarrow> nat \<Rightarrow> byte list" where
  "Skein_Put64_LSB_First src bCnt = map (\<lambda>n. ucast (drop_bit (8 * (n mod 8)) (src ! (n div 8)))) [0 ..< bCnt]"

section \<open>Constants\<close>

definition SKEIN_KS_PARITY :: u64 where
  "SKEIN_KS_PARITY = SKEIN_MK_64 0x55555555 0x55555555"

definition SKEIN_SCHEMA_VER :: u64 where
  "SKEIN_SCHEMA_VER = SKEIN_MK_64 1 0x33414853"

definition SKEIN_T1_FLAG_FIRST :: u64 where
  "SKEIN_T1_FLAG_FIRST = push_bit (126 - 64) 1"

definition SKEIN_T1_FLAG_FINAL :: u64 where
  "SKEIN_T1_FLAG_FINAL = push_bit (127 - 64) 1"

definition SKEIN_T1_FLAG_BIT_PAD :: u64 where
  "SKEIN_T1_FLAG_BIT_PAD = push_bit (119 - 64) 1"

definition SKEIN_T1_BLK_TYPE :: "u64 \<Rightarrow> u64" where
  "SKEIN_T1_BLK_TYPE t = push_bit (120 - 64) t"

definition SKEIN_BLK_TYPE_KEY :: u64 where "SKEIN_BLK_TYPE_KEY = 0"
definition SKEIN_BLK_TYPE_CFG :: u64 where "SKEIN_BLK_TYPE_CFG = 4"
definition SKEIN_BLK_TYPE_MSG :: u64 where "SKEIN_BLK_TYPE_MSG = 48"
definition SKEIN_BLK_TYPE_OUT :: u64 where "SKEIN_BLK_TYPE_OUT = 63"

definition SKEIN_CFG_TREE_INFO_SEQUENTIAL :: u64 where "SKEIN_CFG_TREE_INFO_SEQUENTIAL = 0"

definition SKEIN_256_IV_128 :: "u64 list" where
  "SKEIN_256_IV_128 =
     [SKEIN_MK_64 0x302F7EA2 0x3D7FE2E1, SKEIN_MK_64 0xADE4683A 0x6913752B,
      SKEIN_MK_64 0x975CFABE 0xF208AB0A, SKEIN_MK_64 0x2AF4BA95 0xF831F55B]"

definition SKEIN_256_IV_160 :: "u64 list" where
  "SKEIN_256_IV_160 =
     [SKEIN_MK_64 0xA38A0D80 0xA3687723, SKEIN_MK_64 0xB73CDB6A 0x5963FFC9,
      SKEIN_MK_64 0x9633E8EA 0x07A1B447, SKEIN_MK_64 0xCA0ED09E 0xC9529C22]"

definition SKEIN_256_IV_224 :: "u64 list" where
  "SKEIN_256_IV_224 =
     [SKEIN_MK_64 0xB8092969 0x9AE0F431, SKEIN_MK_64 0xD340DC14 0xA06929DC,
      SKEIN_MK_64 0xAE866594 0xBDE4DC5A, SKEIN_MK_64 0x339767C2 0x5A60EA1D]"

definition SKEIN_256_IV_256 :: "u64 list" where
  "SKEIN_256_IV_256 =
     [SKEIN_MK_64 0x38851268 0x0E660046, SKEIN_MK_64 0x4B72D5DE 0xC5A8FF01,
      SKEIN_MK_64 0x281A9298 0xCA5EB3A5, SKEIN_MK_64 0x54CA5249 0xF46070C4]"

section \<open>The block function\<close>

text \<open>The working variables \<open>X0\<close> to \<open>X3\<close> are a list of four words, indexed by the macro arguments.\<close>

definition Round256 :: "nat \<Rightarrow> nat \<Rightarrow> nat \<Rightarrow> nat \<Rightarrow> nat \<times> nat \<Rightarrow> u64 list \<Rightarrow> u64 list" where
  "Round256 p0 p1 p2 p3 ROT X =
     (let X = X[p0 := X ! p0 + X ! p1];
          X = X[p1 := RotL_64 (X ! p1) (fst ROT)];
          X = X[p1 := X ! p1 XOR X ! p0];
          X = X[p2 := X ! p2 + X ! p3];
          X = X[p3 := RotL_64 (X ! p3) (snd ROT)]
      in X[p3 := X ! p3 XOR X ! p2])"

definition I256 :: "u64 list \<Rightarrow> u64 list \<Rightarrow> nat \<Rightarrow> u64 list \<Rightarrow> u64 list" where
  "I256 ks ts R X =
     (let X = X[0 := X ! 0 + ks ! ((R + 1) mod 5)];
          X = X[1 := X ! 1 + (ks ! ((R + 2) mod 5) + ts ! ((R + 1) mod 3))];
          X = X[2 := X ! 2 + (ks ! ((R + 3) mod 5) + ts ! ((R + 2) mod 3))]
      in X[3 := X ! 3 + (ks ! ((R + 4) mod 5) + word_of_nat R + 1)])"

definition R_256_0 :: "nat \<times> nat" where "R_256_0 = (5, 56)"
definition R_256_1 :: "nat \<times> nat" where "R_256_1 = (36, 28)"
definition R_256_2 :: "nat \<times> nat" where "R_256_2 = (13, 46)"
definition R_256_3 :: "nat \<times> nat" where "R_256_3 = (58, 44)"
definition R_256_4 :: "nat \<times> nat" where "R_256_4 = (26, 20)"
definition R_256_5 :: "nat \<times> nat" where "R_256_5 = (53, 35)"
definition R_256_6 :: "nat \<times> nat" where "R_256_6 = (11, 42)"
definition R_256_7 :: "nat \<times> nat" where "R_256_7 = (59, 50)"

definition R256_8_rounds :: "u64 list \<Rightarrow> u64 list \<Rightarrow> nat \<Rightarrow> u64 list \<Rightarrow> u64 list" where
  "R256_8_rounds ks ts R X =
     (let X = Round256 0 1 2 3 R_256_0 X;
          X = Round256 0 3 2 1 R_256_1 X;
          X = Round256 0 1 2 3 R_256_2 X;
          X = Round256 0 3 2 1 R_256_3 X;
          X = I256 ks ts (2 * R) X;
          X = Round256 0 1 2 3 R_256_4 X;
          X = Round256 0 3 2 1 R_256_5 X;
          X = Round256 0 1 2 3 R_256_6 X;
          X = Round256 0 3 2 1 R_256_7 X
      in I256 ks ts (2 * R + 1) X)"

definition SKEIN_256_ROUNDS_TOTAL :: nat where
  "SKEIN_256_ROUNDS_TOTAL = 72"

text \<open>One pass of the loop: the key schedule, the first injection, the rounds, the feed forward.\<close>

definition block256 :: "u64 list \<Rightarrow> u64 \<Rightarrow> u64 \<Rightarrow> byte list \<Rightarrow> u64 list" where
  "block256 cX t0 t1 blk =
     (let ks = [cX ! 0, cX ! 1, cX ! 2, cX ! 3,
                cX ! 0 XOR cX ! 1 XOR cX ! 2 XOR cX ! 3 XOR SKEIN_KS_PARITY];
          ts = [t0, t1, t0 XOR t1];
          w = Skein_Get64_LSB_First blk 4;
          X = [w ! 0 + ks ! 0, w ! 1 + ks ! 1 + ts ! 0, w ! 2 + ks ! 2 + ts ! 1, w ! 3 + ks ! 3];
          X = fold (R256_8_rounds ks ts) [0 ..< SKEIN_256_ROUNDS_TOTAL div 8] X
      in [X ! 0 XOR w ! 0, X ! 1 XOR w ! 1, X ! 2 XOR w ! 2, X ! 3 XOR w ! 3])"

record Skein_256_Ctxt =
  hashBitLen :: u64
  bCnt :: nat
  T0 :: u64
  T1 :: u64
  ctxX :: "u64 list"
  ctxb :: "byte list"

text \<open>
  \<open>blkCnt = 0\<close> would wrap around in the loop condition and read \<open>2 ^ 64\<close> blocks; so would data
  shorter than the blocks be read out of bounds.
\<close>

fun Skein_256_Process_Block :: "Skein_256_Ctxt \<Rightarrow> byte list \<Rightarrow> nat \<Rightarrow> nat \<Rightarrow> Skein_256_Ctxt option" where
  "Skein_256_Process_Block ctx blkPtr 0 byteCntAdd = None"
| "Skein_256_Process_Block ctx blkPtr (Suc blkCnt) byteCntAdd =
     (if length blkPtr < 32 then None
      else
        (let t0 = T0 ctx + word_of_nat byteCntAdd;
             ctx = ctx\<lparr>ctxX := block256 (ctxX ctx) t0 (T1 ctx) blkPtr, T0 := t0,
                       T1 := T1 ctx AND NOT SKEIN_T1_FLAG_FIRST\<rparr>
         in if blkCnt = 0 then Some ctx
            else Skein_256_Process_Block ctx (drop 32 blkPtr) blkCnt byteCntAdd))"

section \<open>Incremental hashing\<close>

definition Skein_Start_New_Type :: "Skein_256_Ctxt \<Rightarrow> u64 \<Rightarrow> Skein_256_Ctxt" where
  "Skein_Start_New_Type ctx ty = ctx\<lparr>T0 := 0, T1 := SKEIN_T1_FLAG_FIRST OR ty, bCnt := 0\<rparr>"

definition CFG_FINAL :: u64 where
  "CFG_FINAL = SKEIN_T1_BLK_TYPE SKEIN_BLK_TYPE_CFG OR SKEIN_T1_FLAG_FINAL"

definition OUT_FINAL :: u64 where
  "OUT_FINAL = SKEIN_T1_BLK_TYPE SKEIN_BLK_TYPE_OUT OR SKEIN_T1_FLAG_FINAL"

text \<open>The configuration block as bytes: the union \<open>cfg\<close> is written as words and read as bytes.\<close>

definition cfg_block :: "u64 \<Rightarrow> u64 \<Rightarrow> byte list" where
  "cfg_block len treeInfo = Skein_Put64_LSB_First [SKEIN_SCHEMA_VER, len, treeInfo, 0] 32"

definition Skein_256_Init :: "Skein_256_Ctxt \<Rightarrow> u64 \<Rightarrow> Skein_256_Ctxt option" where
  "Skein_256_Init ctx hashbits =
     (let ctx = ctx\<lparr>hashBitLen := hashbits\<rparr>
      in do {
        ctx \<leftarrow> (if hashbits = 256 then Some (ctx\<lparr>ctxX := SKEIN_256_IV_256\<rparr>)
                else if hashbits = 224 then Some (ctx\<lparr>ctxX := SKEIN_256_IV_224\<rparr>)
                else if hashbits = 160 then Some (ctx\<lparr>ctxX := SKEIN_256_IV_160\<rparr>)
                else if hashbits = 128 then Some (ctx\<lparr>ctxX := SKEIN_256_IV_128\<rparr>)
                else
                  (let ctx = Skein_Start_New_Type ctx CFG_FINAL;
                       cfg = cfg_block hashbits SKEIN_CFG_TREE_INFO_SEQUENTIAL;
                       ctx = ctx\<lparr>ctxX := [0, 0, 0, 0]\<rparr>
                   in Skein_256_Process_Block ctx cfg 1 32));
        Some (Skein_Start_New_Type ctx (SKEIN_T1_BLK_TYPE SKEIN_BLK_TYPE_MSG))
      })"

definition Skein_256_Update :: "Skein_256_Ctxt \<Rightarrow> byte list \<Rightarrow> nat \<Rightarrow> Skein_256_Ctxt option" where
  "Skein_256_Update ctx msg msgByteCnt =
     (if length msg < msgByteCnt \<or> 32 < bCnt ctx then None
      else do {
        (ctx, msg, msgByteCnt) \<leftarrow>
          (if 32 < msgByteCnt + bCnt ctx then do {
             (ctx, msg, msgByteCnt) \<leftarrow>
               (if bCnt ctx \<noteq> 0 then
                  (let n = 32 - bCnt ctx
                   in do {
                     b \<leftarrow> buffer_write (ctxb ctx) (bCnt ctx) (take n msg);
                     let ctx = ctx\<lparr>ctxb := b, bCnt := bCnt ctx + n\<rparr>;
                     ctx \<leftarrow> Skein_256_Process_Block ctx (ctxb ctx) 1 32;
                     Some (ctx\<lparr>bCnt := 0\<rparr>, drop n msg, msgByteCnt - n)
                   })
                else Some (ctx, msg, msgByteCnt));
             (if 32 < msgByteCnt then
                (let n = (msgByteCnt - 1) div 32
                 in do {
                   ctx \<leftarrow> Skein_256_Process_Block ctx msg n 32;
                   Some (ctx, drop (n * 32) msg, msgByteCnt - n * 32)
                 })
              else Some (ctx, msg, msgByteCnt))
           } else Some (ctx, msg, msgByteCnt));
        (if msgByteCnt \<noteq> 0 then do {
           b \<leftarrow> buffer_write (ctxb ctx) (bCnt ctx) (take msgByteCnt msg);
           Some (ctx\<lparr>ctxb := b, bCnt := bCnt ctx + msgByteCnt\<rparr>)
         } else Some ctx)
      })"

text \<open>The loop of \<open>Skein_256_Final\<close>: the output function in counter mode.\<close>

function output_loop :: "nat \<Rightarrow> nat \<Rightarrow> u64 list \<Rightarrow> Skein_256_Ctxt \<Rightarrow> byte list \<Rightarrow> (Skein_256_Ctxt \<times> byte list) option" where
  "output_loop byteCnt i X ctx hashVal =
     (if i * 32 < byteCnt then
        (let ctx = ctx\<lparr>ctxb := Skein_Put64_LSB_First [word_of_nat i] 8 @ drop 8 (ctxb ctx)\<rparr>;
             ctx = Skein_Start_New_Type ctx OUT_FINAL
         in do {
           ctx \<leftarrow> Skein_256_Process_Block ctx (ctxb ctx) 1 8;
           let n = (if 32 \<le> byteCnt - i * 32 then 32 else byteCnt - i * 32);
           hashVal \<leftarrow> buffer_write hashVal (i * 32) (Skein_Put64_LSB_First (ctxX ctx) n);
           output_loop byteCnt (i + 1) X (ctx\<lparr>ctxX := X\<rparr>) hashVal
         })
      else Some (ctx, hashVal))"
  by pat_completeness auto
termination
  by (relation "measure (\<lambda>(byteCnt, i, _). byteCnt - i * 32)") auto

declare output_loop.simps [simp del]

definition Skein_256_Final :: "Skein_256_Ctxt \<Rightarrow> byte list \<Rightarrow> (Skein_256_Ctxt \<times> byte list) option" where
  "Skein_256_Final ctx hashVal =
     (let ctx = ctx\<lparr>T1 := T1 ctx OR SKEIN_T1_FLAG_FINAL\<rparr>;
          ctx = (if bCnt ctx < 32 then ctx\<lparr>ctxb := take (bCnt ctx) (ctxb ctx) @ replicate (32 - bCnt ctx) 0\<rparr> else ctx)
      in do {
        ctx \<leftarrow> Skein_256_Process_Block ctx (ctxb ctx) 1 (bCnt ctx);
        let byteCnt = unat (drop_bit 3 (hashBitLen ctx + 7));
        let ctx = ctx\<lparr>ctxb := replicate 32 0\<rparr>;
        output_loop byteCnt 0 (ctxX ctx) ctx hashVal
      })"

text \<open>Initialisation with a key; \<open>cfgb\<close> is what the local union holds at first.\<close>

definition Skein_256_InitExt ::
  "Skein_256_Ctxt \<Rightarrow> u64 \<Rightarrow> u64 \<Rightarrow> byte list \<Rightarrow> nat \<Rightarrow> byte list \<Rightarrow> Skein_256_Ctxt option" where
  "Skein_256_InitExt ctx hashbits treeInfo key keyBytes cfgb = do {
     ctx \<leftarrow>
       (if keyBytes = 0 then Some (ctx\<lparr>ctxX := [0, 0, 0, 0]\<rparr>)
        else
          (let ctx = ctx\<lparr>hashBitLen := 8 * 32\<rparr>;
               ctx = Skein_Start_New_Type ctx (SKEIN_T1_BLK_TYPE SKEIN_BLK_TYPE_KEY);
               ctx = ctx\<lparr>ctxX := [0, 0, 0, 0]\<rparr>
           in do {
             ctx \<leftarrow> Skein_256_Update ctx key keyBytes;
             (ctx, cfgb) \<leftarrow> Skein_256_Final ctx cfgb;
             Some (ctx\<lparr>ctxX := Skein_Get64_LSB_First cfgb 4\<rparr>)
           }));
     let ctx = Skein_Start_New_Type (ctx\<lparr>hashBitLen := hashbits\<rparr>) CFG_FINAL;
     ctx \<leftarrow> Skein_256_Process_Block ctx (cfg_block hashbits treeInfo) 1 32;
     let ctx = ctx\<lparr>bCnt := 0\<rparr>;
     Some (Skein_Start_New_Type ctx (SKEIN_T1_BLK_TYPE SKEIN_BLK_TYPE_MSG))
   }"

section \<open>The interface of the competition\<close>

datatype HashReturn = SKEIN_SUCCESS | SKEIN_FAIL | SKEIN_BAD_HASHLEN

record hashState =
  statebits :: u32
  ctx_256 :: Skein_256_Ctxt

definition SKEIN_256_NIST_MAX_HASHBITS :: int where
  "SKEIN_256_NIST_MAX_HASHBITS = 256"

definition skein_Init :: "hashState \<Rightarrow> int \<Rightarrow> (HashReturn \<times> hashState) option" where
  "skein_Init state hashbitlen =
     (if hashbitlen \<le> SKEIN_256_NIST_MAX_HASHBITS then do {
        ctx \<leftarrow> Skein_256_Init (ctx_256 state) (word_of_int hashbitlen);
        Some (SKEIN_SUCCESS, \<lparr>statebits = 64 * 4, ctx_256 = ctx\<rparr>)
      } else Some (SKEIN_FAIL, state))"

definition skein_Update :: "hashState \<Rightarrow> byte list \<Rightarrow> nat \<Rightarrow> (HashReturn \<times> hashState) option" where
  "skein_Update state data databitlen =
     (if databitlen mod 8 = 0 then
        (if drop_bit 8 (statebits state) AND 3 = 1 then do {
           ctx \<leftarrow> Skein_256_Update (ctx_256 state) data (databitlen div 8);
           Some (SKEIN_SUCCESS, state\<lparr>ctx_256 := ctx\<rparr>)
         } else Some (SKEIN_FAIL, state))
      else
        (let n = databitlen div 8 + 1
         in do {
           last \<leftarrow> rd data (n - 1);
           let mask = (push_bit (7 - databitlen mod 8) 1 :: byte);
           let b = (last AND (0 - mask)) OR mask;
           (if drop_bit 8 (statebits state) AND 3 = 1 then do {
              ctx \<leftarrow> Skein_256_Update (ctx_256 state) data (n - 1);
              ctx \<leftarrow> Skein_256_Update ctx [b] 1;
              Some (SKEIN_SUCCESS, state\<lparr>ctx_256 := ctx\<lparr>T1 := T1 ctx OR SKEIN_T1_FLAG_BIT_PAD\<rparr>\<rparr>)
            } else Some (SKEIN_FAIL, state))
         }))"

definition skein_Final :: "hashState \<Rightarrow> byte list \<Rightarrow> (HashReturn \<times> hashState \<times> byte list) option" where
  "skein_Final state hashval =
     (if drop_bit 8 (statebits state) AND 3 = 1 then do {
        (ctx, hashval) \<leftarrow> Skein_256_Final (ctx_256 state) hashval;
        Some (SKEIN_SUCCESS, state\<lparr>ctx_256 := ctx\<rparr>, hashval)
      } else Some (SKEIN_FAIL, state, hashval))"

text \<open>\<open>junk\<close> is what the local state holds at first; the result of \<open>Final\<close> is dropped.\<close>

definition skein_Hash :: "hashState \<Rightarrow> int \<Rightarrow> byte list \<Rightarrow> nat \<Rightarrow> byte list \<Rightarrow> (HashReturn \<times> byte list) option" where
  "skein_Hash junk hashbitlen data databitlen hashval = do {
     (r, state) \<leftarrow> skein_Init junk hashbitlen;
     (if r = SKEIN_SUCCESS then do {
        (r, state) \<leftarrow> skein_Update state data databitlen;
        (_, _, hashval) \<leftarrow> skein_Final state hashval;
        Some (r, hashval)
      } else Some (r, hashval))
   }"

section \<open>The wrapper\<close>

definition SKEIN_BLOCK_SIZE :: nat where
  "SKEIN_BLOCK_SIZE = 32"

text \<open>The length in bits is computed in 32 bits.\<close>

definition skein256_hash :: "hashState \<Rightarrow> byte list \<Rightarrow> key \<Rightarrow> u32 option" where
  "skein256_hash junk out data = do {
     (_, hash) \<leftarrow> skein_Hash junk (int (SKEIN_BLOCK_SIZE * 8)) data (unat (word_of_nat (length data) * 8 :: u32)) out;
     b0 \<leftarrow> rd hash 0; b1 \<leftarrow> rd hash 1; b2 \<leftarrow> rd hash 2; b3 \<leftarrow> rd hash 3;
     Some (le32 b0 b1 b2 b3)
   }"

definition skein_junk :: hashState where
  "skein_junk = \<lparr>statebits = 0, ctx_256 =
     \<lparr>hashBitLen = 0, bCnt = 0, T0 = 0, T1 = 0, ctxX = replicate 4 0, ctxb = replicate 32 0\<rparr>\<rparr>"

definition lhi_hash_skein256 :: "key \<Rightarrow> u32" where
  "lhi_hash_skein256 data = the (skein256_hash skein_junk (replicate SKEIN_BLOCK_SIZE 0) data)"

end
