(* ===== verification/Hi_set.thy ===== *)
theory Hi_set
  imports Lib_init Hash_func Hash_jenkins3 Hash_murmur Hash_goulburn Hash_cube Hash_sha1 Hash_skein256
begin

text \<open>
  Settings of a new table (\<open>lib/hi_set.c\<close>) and the registry of hash functions
  (\<open>lhi_hashfunc_map\<close> of \<open>lib/lib_init.c\<close>, \<open>enum hash_alg\<close> of \<open>include/libhashish.h\<close>).
\<close>

section \<open>The registry of hash functions\<close>

text \<open>A variable of type \<open>enum hash_alg\<close> can also hold a number that names no algorithm.\<close>

datatype hash_alg =
    HI_HASH_DJB2 | HI_HASH_DUMB1 | HI_HASH_ELF | HI_HASH_GOULBURN | HI_HASH_HSIEH
  | HI_HASH_JENKINS2 | HI_HASH_JENKINS3 | HI_HASH_PHONG | HI_HASH_TOREK | HI_HASH_XOR
  | HI_HASH_KORZENDORFER1 | HI_HASH_KORZENDORFER2 | HI_HASH_SHA1 | HI_HASH_MURMUR
  | HI_HASH_CUBE | HI_HASH_SKEIN256 | HI_HASH_OTHER u32

fun hash_alg_no :: "hash_alg \<Rightarrow> u32" where
  "hash_alg_no HI_HASH_DJB2 = 0" | "hash_alg_no HI_HASH_DUMB1 = 1" | "hash_alg_no HI_HASH_ELF = 2"
| "hash_alg_no HI_HASH_GOULBURN = 3" | "hash_alg_no HI_HASH_HSIEH = 4"
| "hash_alg_no HI_HASH_JENKINS2 = 5" | "hash_alg_no HI_HASH_JENKINS3 = 6"
| "hash_alg_no HI_HASH_PHONG = 7" | "hash_alg_no HI_HASH_TOREK = 8" | "hash_alg_no HI_HASH_XOR = 9"
| "hash_alg_no HI_HASH_KORZENDORFER1 = 10" | "hash_alg_no HI_HASH_KORZENDORFER2 = 11"
| "hash_alg_no HI_HASH_SHA1 = 12" | "hash_alg_no HI_HASH_MURMUR = 13"
| "hash_alg_no HI_HASH_CUBE = 14" | "hash_alg_no HI_HASH_SKEIN256 = 15"
| "hash_alg_no (HI_HASH_OTHER n) = n"

definition HI_HASH_DEFAULT :: hash_alg where
  "HI_HASH_DEFAULT = HI_HASH_HSIEH"

definition HI_HASH_MAX :: nat where
  "HI_HASH_MAX = 15"

text \<open>
  Number, name and function. The two functions that look at the alignment of the key enter with
  an aligned key; their value does not depend on it (\<open>hash_alignment_independent\<close>).
\<close>

definition lhi_hashfunc_map :: "(u32 \<times> string \<times> hash_fn fptr) list" where
  "lhi_hashfunc_map = [
     (hash_alg_no HI_HASH_DJB2, ''djb2'', Fptr 100 lhi_hash_djb2),
     (hash_alg_no HI_HASH_DUMB1, ''dumb1'', Fptr 101 lhi_hash_dumb1),
     (hash_alg_no HI_HASH_ELF, ''elf'', Fptr 102 lhi_hash_elf),
     (hash_alg_no HI_HASH_GOULBURN, ''goulburn'', Fptr 103 lhi_hash_goulburn),
     (hash_alg_no HI_HASH_HSIEH, ''hsieh'', Fptr 104 lhi_hash_hsieh),
     (hash_alg_no HI_HASH_JENKINS2, ''jenkins2'', Fptr 105 lhi_hash_jenkins2),
     (hash_alg_no HI_HASH_JENKINS3, ''jenkins3'', Fptr 106 (lhi_hash_jenkins3 0)),
     (hash_alg_no HI_HASH_PHONG, ''phong'', Fptr 107 lhi_hash_phong),
     (hash_alg_no HI_HASH_TOREK, ''torek'', Fptr 108 lhi_hash_torek),
     (hash_alg_no HI_HASH_XOR, ''xor'', Fptr 109 lhi_hash_xor),
     (hash_alg_no HI_HASH_KORZENDORFER1, ''korzendorfer1'', Fptr 110 lhi_hash_korzendorfer1),
     (hash_alg_no HI_HASH_KORZENDORFER2, ''korzendorfer2'', Fptr 111 lhi_hash_korzendorfer2),
     (hash_alg_no HI_HASH_SHA1, ''sha1'', Fptr 112 lhi_hash_sha1),
     (hash_alg_no HI_HASH_MURMUR, ''murmur'', Fptr 113 (lhi_hash_murmur 0)),
     (hash_alg_no HI_HASH_CUBE, ''cube'', Fptr 114 lhi_hash_cube),
     (hash_alg_no HI_HASH_SKEIN256, ''skein256'', Fptr 115 lhi_hash_skein256)]"

text \<open>The loop of \<open>hi_set_hash_alg\<close> over the remaining indices.\<close>

fun hash_alg_loop :: "nat list \<Rightarrow> u32 \<Rightarrow> hash_fn fptr option option" where
  "hash_alg_loop [] alg = Some None"
| "hash_alg_loop (i # is) alg = do {
     (no, _, hashfunc) \<leftarrow> rd lhi_hashfunc_map i;
     if alg = no then Some (Some hashfunc) else hash_alg_loop is alg
   }"

text \<open>
  C35. The two registered functions that choose their code by the address of the key, lookup3 and
  MurmurHash2, are functions of its bytes: the three bodies of \<open>hashlittle\<close> and the two of
  \<open>murmur_hash2\<close> give the same value for every key at every address.
\<close>

theorem hash_alignment_independent:
  "lhi_hash_jenkins3 align key = lhi_hash_jenkins3 align' key \<and>
   lhi_hash_murmur align key = lhi_hash_murmur align' key"
  by (intro conjI jenkins3_alignment_independent murmur_alignment_independent)

section \<open>The operations\<close>

text \<open>Every operation returns the code and the settings.\<close>

definition hi_set_zero :: "hi_init_set \<Rightarrow> hi_init_set" where
  "hi_set_zero s =
     \<lparr>set_table_size = 0, set_rehash_auto = 0, set_rehash_threshold = 3 / 4,
      set_coll_eng_array_size = 0, set_coll_eng = COLL_ENG_OTHER 0, set_hash_func = None,
      set_hash2_func = None, set_key_cmp = None\<rparr>"

definition hi_set_bucket_size :: "hi_init_set \<Rightarrow> u32 \<Rightarrow> int \<times> hi_init_set" where
  "hi_set_bucket_size s n =
     (if n = 0 then (HI_ERR_RANGE, s) else (SUCCESS, s\<lparr>set_table_size := n\<rparr>))"

definition hi_set_coll_eng_array_size :: "hi_init_set \<Rightarrow> u32 \<Rightarrow> int \<times> hi_init_set" where
  "hi_set_coll_eng_array_size s n =
     (if n = 0 then (HI_ERR_RANGE, s) else (SUCCESS, s\<lparr>set_coll_eng_array_size := n\<rparr>))"

definition hi_set_hash_alg :: "hi_init_set \<Rightarrow> hash_alg \<Rightarrow> (int \<times> hi_init_set) option" where
  "hi_set_hash_alg s alg = do {
     found \<leftarrow> hash_alg_loop [0 ..< HI_HASH_MAX + 1] (hash_alg_no alg);
     case found of
       Some f \<Rightarrow> Some (SUCCESS, s\<lparr>set_hash_func := Some f\<rparr>)
     | None \<Rightarrow> Some (HI_ERR_NOFUNC, s)
   }"

definition hi_set_hash_func :: "hi_init_set \<Rightarrow> hash_fn fptr option \<Rightarrow> int \<times> hi_init_set" where
  "hi_set_hash_func s f =
     (if f = None then (HI_ERR_NODATA, s) else (SUCCESS, s\<lparr>set_hash_func := f\<rparr>))"

definition hi_set_hash2_alg :: "hi_init_set \<Rightarrow> hash_alg \<Rightarrow> (int \<times> hi_init_set) option" where
  "hi_set_hash2_alg s alg = do {
     found \<leftarrow> hash_alg_loop [0 ..< HI_HASH_MAX + 1] (hash_alg_no alg);
     case found of
       Some f \<Rightarrow> Some (SUCCESS, s\<lparr>set_hash2_func := Some f\<rparr>)
     | None \<Rightarrow> Some (HI_ERR_NOFUNC, s)
   }"

definition hi_set_hash2_func :: "hi_init_set \<Rightarrow> hash_fn fptr option \<Rightarrow> int \<times> hi_init_set" where
  "hi_set_hash2_func s f =
     (if f = None then (HI_ERR_NODATA, s) else (SUCCESS, s\<lparr>set_hash2_func := f\<rparr>))"

text \<open>The number behind \<open>enum coll_eng\<close>, and \<open>COLL_ENG_MAX\<close>.\<close>

fun coll_eng_no :: "coll_eng \<Rightarrow> u32" where
  "coll_eng_no COLL_ENG_LIST = 1" | "coll_eng_no COLL_ENG_LIST_HASH = 2"
| "coll_eng_no COLL_ENG_LIST_MTF = 3" | "coll_eng_no COLL_ENG_LIST_MTF_HASH = 4"
| "coll_eng_no COLL_ENG_ARRAY = 5" | "coll_eng_no COLL_ENG_ARRAY_HASH = 6"
| "coll_eng_no COLL_ENG_ARRAY_DYN = 7" | "coll_eng_no COLL_ENG_ARRAY_DYN_HASH = 8"
| "coll_eng_no COLL_ENG_RBTREE = 9" | "coll_eng_no (COLL_ENG_OTHER n) = n"

definition COLL_ENG_MAX :: u32 where
  "COLL_ENG_MAX = 9"

definition hi_set_coll_eng :: "hi_init_set \<Rightarrow> coll_eng \<Rightarrow> int \<times> hi_init_set" where
  "hi_set_coll_eng s eng =
     (if COLL_ENG_MAX < coll_eng_no eng then (HI_ERR_NOFUNC, s) else (SUCCESS, s\<lparr>set_coll_eng := eng\<rparr>))"

definition hi_set_rehash_auto :: "hi_init_set \<Rightarrow> int \<Rightarrow> hi_init_set" where
  "hi_set_rehash_auto s choice = s\<lparr>set_rehash_auto := choice\<rparr>"

definition hi_set_key_cmp_func :: "hi_init_set \<Rightarrow> cmp_fn fptr option \<Rightarrow> int \<times> hi_init_set" where
  "hi_set_key_cmp_func s cmp =
     (if cmp = None then (HI_ERR_NODATA, s) else (SUCCESS, s\<lparr>set_key_cmp := cmp\<rparr>))"

section \<open>Which algorithms and settings are accepted\<close>

lemma registry_numbers: "map fst lhi_hashfunc_map = map word_of_nat [0 ..< 16]"
  by (simp add: lhi_hashfunc_map_def upt_conv_Cons)

lemma registry_nth:
  assumes "i \<le> HI_HASH_MAX"
  shows "i < length lhi_hashfunc_map" and "fst (lhi_hashfunc_map ! i) = word_of_nat i"
proof -
  have len: "length lhi_hashfunc_map = 16"
    by (simp add: lhi_hashfunc_map_def)
  then show "i < length lhi_hashfunc_map"
    using assms by (simp add: HI_HASH_MAX_def)
  then show "fst (lhi_hashfunc_map ! i) = word_of_nat i"
    using arg_cong [OF registry_numbers, of "\<lambda>xs. xs ! i"] len by simp
qed

lemma hash_alg_loop_upt:
  "j \<le> HI_HASH_MAX + 1 \<Longrightarrow> hash_alg_loop [i ..< j] alg =
     Some (if i \<le> unat alg \<and> unat alg < j then Some (snd (snd (lhi_hashfunc_map ! unat alg))) else None)"
proof (induction "j - i" arbitrary: i)
  case 0
  then show ?case by simp
next
  case (Suc d)
  obtain no name f where e: "lhi_hashfunc_map ! i = (no, name, f)"
    by (cases "lhi_hashfunc_map ! i")
  have "i \<le> HI_HASH_MAX"
    using Suc by simp
  note nth = registry_nth [OF this]
  have no: "alg = no \<longleftrightarrow> unat alg = i"
    using nth(2) e \<open>i \<le> HI_HASH_MAX\<close> by (auto simp: HI_HASH_MAX_def)
  have "[i ..< j] = i # [Suc i ..< j]"
    using Suc.hyps(2) by (simp add: upt_conv_Cons)
  moreover have "hash_alg_loop [Suc i ..< j] alg =
      Some (if Suc i \<le> unat alg \<and> unat alg < j then Some (snd (snd (lhi_hashfunc_map ! unat alg))) else None)"
    using Suc by simp
  ultimately show ?case
    using nth(1) e no Suc.hyps(2) by (auto simp: rd_Some)
qed

lemma set_hash_alg_eq:
  "hi_set_hash_alg s alg =
     Some (if hash_alg_no alg \<le> 15
           then (SUCCESS, s\<lparr>set_hash_func := Some (snd (snd (lhi_hashfunc_map ! unat (hash_alg_no alg))))\<rparr>)
           else (HI_ERR_NOFUNC, s))"
proof -
  have "unat (hash_alg_no alg) < HI_HASH_MAX + 1 \<longleftrightarrow> hash_alg_no alg \<le> 15"
    by (simp add: HI_HASH_MAX_def word_le_nat_alt) linarith
  then show ?thesis
    by (simp add: hi_set_hash_alg_def hash_alg_loop_upt del: upt_Suc)
qed

lemma set_hash_alg_default:
  "hi_set_hash_alg s HI_HASH_DEFAULT = Some (SUCCESS, s\<lparr>set_hash_func := Some (Fptr 104 lhi_hash_hsieh)\<rparr>)"
  by (simp add: set_hash_alg_eq HI_HASH_DEFAULT_def lhi_hashfunc_map_def)

text \<open>
  The registry search stays inside the table and finds exactly the sixteen algorithms of the
  enumeration, each with the entry of its number; any other number is refused with
  \<open>HI_ERR_NOFUNC\<close> and changes nothing.
\<close>

lemma hash_alg_registered:
  "hi_set_hash_alg s alg =
     Some (if hash_alg_no alg \<le> 15
           then (SUCCESS, s\<lparr>set_hash_func := Some (snd (snd (lhi_hashfunc_map ! unat (hash_alg_no alg))))\<rparr>)
           else (HI_ERR_NOFUNC, s)) \<and>
   map fst lhi_hashfunc_map = map word_of_nat [0 ..< 16] \<and>
   distinct (map (fst \<circ> snd) lhi_hashfunc_map)"
proof -
  have "distinct (map (fst \<circ> snd) lhi_hashfunc_map)"
    by (simp add: lhi_hashfunc_map_def)
  then show ?thesis
    using registry_numbers by (simp only: set_hash_alg_eq simp_thms)
qed

section \<open>Creating a table from settings\<close>

lemma create_eng_total:
  assumes "length (bucket_size h) = unat (table_size h)"
  shows "\<exists>ret hp' h'. create_eng hp h = Some (ret, hp', h')"
proof (cases "lhi_create_eng_array hp h")
  case (fields ret hp' h')
  then show ?thesis
    using assms by (auto simp: create_eng_def lhi_create_eng_list_def lhi_create_eng_rbtree_def
        split: prod.split option.split)
qed

text \<open>
  C27. Whatever the settings and the allocator, \<open>hi_create\<close> is defined. It gives a handle exactly
  when it returns \<open>SUCCESS\<close>, and then the settings have passed the sanity check. When they do not
  pass it, the code of the check is returned, and the block of the handle is lost.
\<close>

theorem hi_create_outcome:
  "\<exists>ret hp' oh. hi_create hp s = Some (ret, hp', oh) \<and>
     (oh = None \<longleftrightarrow> ret \<noteq> SUCCESS) \<and>
     (ret = SUCCESS \<longrightarrow> lhi_set_sanity_check s = SUCCESS) \<and>
     (lhi_set_sanity_check s \<noteq> SUCCESS \<and> outcome hp (tick hp) \<noteq> Malloc_fail \<longrightarrow>
        ret = lhi_set_sanity_check s \<and> live hp' = live hp + 1)"
proof (cases rule: xalloc_cases [of hp])
  case (fail e hp1)
  then have "hi_create hp s = Some (HI_ERR_SYSTEM, hp1, None)"
    by (simp add: hi_create_def lhi_create_vanilla_hdnl_def)
  moreover have "outcome hp (tick hp) = Malloc_fail"
    using fail by (auto simp: xalloc_align_def malloc_def Let_def split: malloc_result.splits)
  ultimately show ?thesis
    by (simp add: hi_defs)
next
  case (ok junk hp1)
  show ?thesis
  proof (cases "lhi_set_sanity_check s = SUCCESS")
    case False
    then have "hi_create hp s = Some (lhi_set_sanity_check s, hp1, None)"
      using ok(1) by (simp add: hi_create_def lhi_create_vanilla_hdnl_def lhi_transform_set_2_hndl_def Let_def)
    then show ?thesis
      using False ok(2) by simp
  next
    case True
    obtain h where h: "lhi_transform_set_2_hndl zero_handle s = (SUCCESS, h)"
      using True by (simp add: lhi_transform_set_2_hndl_def Let_def)
    show ?thesis
    proof (cases rule: xalloc_cases [of hp1])
      case (fail e hp2)
      then have "hi_create hp s = Some (HI_ERR_SYSTEM, hp2, None)"
        using ok(1) h by (simp add: hi_create_def lhi_create_vanilla_hdnl_def)
      then show ?thesis
        using True by (simp add: hi_defs)
    next
      case 2: (ok junk2 hp2)
      let ?h = "h\<lparr>bucket_size := replicate (unat (table_size h)) junk2, no_objects := 0\<rparr>"
      obtain ret hp' h' where "create_eng hp2 ?h = Some (ret, hp', h')"
        using create_eng_total [of ?h hp2] by auto
      then have "hi_create hp s = Some (if ret \<noteq> SUCCESS then (ret, hp', None) else (SUCCESS, hp', Some h'))"
        using ok(1) h 2(1) by (simp add: hi_create_def lhi_create_vanilla_hdnl_def)
      then show ?thesis
        using True by (cases "ret = SUCCESS") simp_all
    qed
  qed
qed

text \<open>The settings that \<open>hi_set_zero\<close> leaves, with a size, a compare and a hash function, name no engine.\<close>

definition no_engine_set :: hi_init_set where
  "no_engine_set = (hi_set_zero undefined)\<lparr>set_table_size := 8, set_key_cmp := Some (Fptr 200 hi_cmp_str),
     set_hash_func := Some (Fptr 104 lhi_hash_hsieh)\<rparr>"

theorem hi_create_outcome_witness:
  "\<exists>hp' oh. hi_create \<lparr>outcome = (\<lambda>_. Malloc_block 0), tick = 0, live = 0, have_posix_memalign = True\<rparr>
     no_engine_set = Some (HI_ERR_INTERNAL, hp', oh) \<and> live hp' = 1"
proof -
  have "lhi_set_sanity_check no_engine_set = HI_ERR_INTERNAL"
    by (simp add: no_engine_set_def hi_set_zero_def lhi_set_sanity_check_def)
  then show ?thesis
    using hi_create_outcome [of "\<lparr>outcome = (\<lambda>_. Malloc_block 0), tick = 0, live = 0, have_posix_memalign = True\<rparr>" no_engine_set]
    by (auto simp: hi_defs)
qed

end
