(* ===== verification/Hi_key.thy ===== *)
theory Hi_key
  imports Hi_client Hi_set
begin

text \<open>
  Tables with keys of one C type (\<open>lib/hi_key_str.c\<close>, \<open>lib/hi_key_int16_t.c\<close>,
  \<open>lib/hi_key_uint16_t.c\<close>, \<open>lib/hi_key_int32_t.c\<close>, \<open>lib/hi_key_uint32_t.c\<close>): initialisation with
  default settings, and the operations that pass a key as the bytes of the variable. A \<open>char *\<close>
  is the memory from the pointer on; an integer is the word, whose bytes are its little-endian
  representation.
\<close>

section \<open>Strings\<close>

text \<open>The local settings start as \<open>junk\<close>, and the codes of the calls are dropped.\<close>

definition hi_init_str :: "hi_init_set \<Rightarrow> heap \<Rightarrow> u32 \<Rightarrow> (int \<times> heap \<times> hi_handle option) option" where
  "hi_init_str junk hp n = do {
     let s = hi_set_zero junk;
     let (_, s) = hi_set_bucket_size s n;
     (_, s) \<leftarrow> hi_set_hash_alg s HI_HASH_DEFAULT;
     let (_, s) = hi_set_coll_eng s COLL_ENG_LIST;
     let (_, s) = hi_set_key_cmp_func s (Some (Fptr 200 hi_cmp_str));
     hi_create hp s
   }"

text \<open>The length is converted to \<open>uint32_t\<close>.\<close>

definition str_arg :: "byte list \<Rightarrow> key option" where
  "str_arg m = do { n \<leftarrow> strlen m; Some (take (unat (word_of_nat (n + 1) :: u32)) m) }"

definition hi_insert_str :: "heap \<Rightarrow> hi_handle \<Rightarrow> byte list \<Rightarrow> ptr \<Rightarrow> (int \<times> heap \<times> hi_handle) option" where
  "hi_insert_str hp h k d = do { k \<leftarrow> str_arg k; hi_insert hp h k d }"

definition hi_get_str :: "hi_handle \<Rightarrow> byte list \<Rightarrow> (int \<times> ptr option \<times> hi_handle) option" where
  "hi_get_str h k = do { k \<leftarrow> str_arg k; hi_get h k }"

definition hi_remove_str :: "heap \<Rightarrow> hi_handle \<Rightarrow> byte list \<Rightarrow> (int \<times> ptr option \<times> heap \<times> hi_handle) option" where
  "hi_remove_str hp h k = do { k \<leftarrow> str_arg k; hi_remove hp h k }"

section \<open>Integers\<close>

definition hi_init_int16_t :: "hi_init_set \<Rightarrow> heap \<Rightarrow> u32 \<Rightarrow> (int \<times> heap \<times> hi_handle option) option" where
  "hi_init_int16_t junk hp n = do {
     let s = hi_set_zero junk;
     let (_, s) = hi_set_bucket_size s n;
     (_, s) \<leftarrow> hi_set_hash_alg s HI_HASH_DEFAULT;
     let (_, s) = hi_set_coll_eng s COLL_ENG_LIST;
     let (_, s) = hi_set_key_cmp_func s (Some (Fptr 201 hi_cmp_int16_t));
     hi_create hp s
   }"

definition hi_insert_int16_t :: "heap \<Rightarrow> hi_handle \<Rightarrow> u16 \<Rightarrow> ptr \<Rightarrow> (int \<times> heap \<times> hi_handle) option" where
  "hi_insert_int16_t hp h k d = hi_insert hp h (bytes16 k) d"

definition hi_get_int16_t :: "hi_handle \<Rightarrow> u16 \<Rightarrow> (int \<times> ptr option \<times> hi_handle) option" where
  "hi_get_int16_t h k = hi_get h (bytes16 k)"

definition hi_remove_int16_t :: "heap \<Rightarrow> hi_handle \<Rightarrow> u16 \<Rightarrow> (int \<times> ptr option \<times> heap \<times> hi_handle) option" where
  "hi_remove_int16_t hp h k = hi_remove hp h (bytes16 k)"

definition hi_init_uint16_t :: "hi_init_set \<Rightarrow> heap \<Rightarrow> u32 \<Rightarrow> (int \<times> heap \<times> hi_handle option) option" where
  "hi_init_uint16_t junk hp n = do {
     let s = hi_set_zero junk;
     let (_, s) = hi_set_bucket_size s n;
     (_, s) \<leftarrow> hi_set_hash_alg s HI_HASH_DEFAULT;
     let (_, s) = hi_set_coll_eng s COLL_ENG_LIST;
     let (_, s) = hi_set_key_cmp_func s (Some (Fptr 202 hi_cmp_uint16_t));
     hi_create hp s
   }"

definition hi_insert_uint16_t :: "heap \<Rightarrow> hi_handle \<Rightarrow> u16 \<Rightarrow> ptr \<Rightarrow> (int \<times> heap \<times> hi_handle) option" where
  "hi_insert_uint16_t hp h k d = hi_insert hp h (bytes16 k) d"

definition hi_get_uint16_t :: "hi_handle \<Rightarrow> u16 \<Rightarrow> (int \<times> ptr option \<times> hi_handle) option" where
  "hi_get_uint16_t h k = hi_get h (bytes16 k)"

definition hi_remove_uint16_t :: "heap \<Rightarrow> hi_handle \<Rightarrow> u16 \<Rightarrow> (int \<times> ptr option \<times> heap \<times> hi_handle) option" where
  "hi_remove_uint16_t hp h k = hi_remove hp h (bytes16 k)"

definition hi_init_int32_t :: "hi_init_set \<Rightarrow> heap \<Rightarrow> u32 \<Rightarrow> (int \<times> heap \<times> hi_handle option) option" where
  "hi_init_int32_t junk hp n = do {
     let s = hi_set_zero junk;
     let (_, s) = hi_set_bucket_size s n;
     (_, s) \<leftarrow> hi_set_hash_alg s HI_HASH_DEFAULT;
     let (_, s) = hi_set_coll_eng s COLL_ENG_LIST;
     let (_, s) = hi_set_key_cmp_func s (Some (Fptr 203 hi_cmp_int32_t));
     hi_create hp s
   }"

definition hi_insert_int32_t :: "heap \<Rightarrow> hi_handle \<Rightarrow> u32 \<Rightarrow> ptr \<Rightarrow> (int \<times> heap \<times> hi_handle) option" where
  "hi_insert_int32_t hp h k d = hi_insert hp h (bytes32 k) d"

definition hi_get_int32_t :: "hi_handle \<Rightarrow> u32 \<Rightarrow> (int \<times> ptr option \<times> hi_handle) option" where
  "hi_get_int32_t h k = hi_get h (bytes32 k)"

definition hi_remove_int32_t :: "heap \<Rightarrow> hi_handle \<Rightarrow> u32 \<Rightarrow> (int \<times> ptr option \<times> heap \<times> hi_handle) option" where
  "hi_remove_int32_t hp h k = hi_remove hp h (bytes32 k)"

definition hi_init_uint32_t :: "hi_init_set \<Rightarrow> heap \<Rightarrow> u32 \<Rightarrow> (int \<times> heap \<times> hi_handle option) option" where
  "hi_init_uint32_t junk hp n = do {
     let s = hi_set_zero junk;
     let (_, s) = hi_set_bucket_size s n;
     (_, s) \<leftarrow> hi_set_hash_alg s HI_HASH_DEFAULT;
     let (_, s) = hi_set_coll_eng s COLL_ENG_LIST;
     let (_, s) = hi_set_key_cmp_func s (Some (Fptr 204 hi_cmp_uint32_t));
     hi_create hp s
   }"

definition hi_insert_uint32_t :: "heap \<Rightarrow> hi_handle \<Rightarrow> u32 \<Rightarrow> ptr \<Rightarrow> (int \<times> heap \<times> hi_handle) option" where
  "hi_insert_uint32_t hp h k d = hi_insert hp h (bytes32 k) d"

definition hi_get_uint32_t :: "hi_handle \<Rightarrow> u32 \<Rightarrow> (int \<times> ptr option \<times> hi_handle) option" where
  "hi_get_uint32_t h k = hi_get h (bytes32 k)"

definition hi_remove_uint32_t :: "heap \<Rightarrow> hi_handle \<Rightarrow> u32 \<Rightarrow> (int \<times> ptr option \<times> heap \<times> hi_handle) option" where
  "hi_remove_uint32_t hp h k = hi_remove hp h (bytes32 k)"

section \<open>Commands on keys of a type\<close>

datatype 'a kcmd = KIns 'a ptr | KGet 'a | KRem 'a

fun kcmd_key :: "'a kcmd \<Rightarrow> 'a" where
  "kcmd_key (KIns k d) = k"
| "kcmd_key (KGet k) = k"
| "kcmd_key (KRem k) = k"

type_synonym 'a init_op = "heap \<Rightarrow> u32 \<Rightarrow> (int \<times> heap \<times> hi_handle option) option"
type_synonym 'a insert_op = "heap \<Rightarrow> hi_handle \<Rightarrow> 'a \<Rightarrow> ptr \<Rightarrow> (int \<times> heap \<times> hi_handle) option"
type_synonym 'a get_op = "hi_handle \<Rightarrow> 'a \<Rightarrow> (int \<times> ptr option \<times> hi_handle) option"
type_synonym 'a remove_op = "heap \<Rightarrow> hi_handle \<Rightarrow> 'a \<Rightarrow> (int \<times> ptr option \<times> heap \<times> hi_handle) option"

text \<open>A run: the table is created with \<open>n\<close> buckets and answers the commands.\<close>

fun run_keys :: "'a insert_op \<Rightarrow> 'a get_op \<Rightarrow> 'a remove_op \<Rightarrow> heap \<Rightarrow> hi_handle \<Rightarrow> 'a kcmd list \<Rightarrow>
    (reply list \<times> heap \<times> hi_handle) option" where
  "run_keys ins get rem hp h [] = Some ([], hp, h)"
| "run_keys ins get rem hp h (KIns k d # cs) = do {
     (r, hp, h) \<leftarrow> ins hp h k d;
     (rs, hp, h) \<leftarrow> run_keys ins get rem hp h cs;
     Some ((r, None) # rs, hp, h)
   }"
| "run_keys ins get rem hp h (KGet k # cs) = do {
     (r, d, h) \<leftarrow> get h k;
     (rs, hp, h) \<leftarrow> run_keys ins get rem hp h cs;
     Some ((r, d) # rs, hp, h)
   }"
| "run_keys ins get rem hp h (KRem k # cs) = do {
     (r, d, hp, h) \<leftarrow> rem hp h k;
     (rs, hp, h) \<leftarrow> run_keys ins get rem hp h cs;
     Some ((r, d) # rs, hp, h)
   }"

definition run_table :: "'a init_op \<Rightarrow> 'a insert_op \<Rightarrow> 'a get_op \<Rightarrow> 'a remove_op \<Rightarrow> heap \<Rightarrow> u32 \<Rightarrow>
    'a kcmd list \<Rightarrow> (int \<times> reply list) option" where
  "run_table init ins get rem hp n cs = do {
     (ret, hp, h) \<leftarrow> init hp n;
     case h of
       None \<Rightarrow> Some (ret, [])
     | Some h \<Rightarrow> do { (rs, _, _) \<leftarrow> run_keys ins get rem hp h cs; Some (ret, rs) }
   }"

text \<open>The abstract map over the type, and its replies.\<close>

fun spec_keys :: "('a \<Rightarrow> ptr option) \<Rightarrow> 'a kcmd list \<Rightarrow> reply list" where
  "spec_keys m [] = []"
| "spec_keys m (KIns k d # cs) =
     (if m k = None then (SUCCESS, None) # spec_keys (m(k \<mapsto> d)) cs
      else (HI_ERR_DUPKEY, None) # spec_keys m cs)"
| "spec_keys m (KGet k # cs) = (if m k = None then HI_ERR_NOKEY else SUCCESS, m k) # spec_keys m cs"
| "spec_keys m (KRem k # cs) =
     (if m k = None then HI_ERR_NOKEY else SUCCESS, m k) # spec_keys (m(k := None)) cs"

section \<open>The contract of a typed table\<close>

fun enc_cmd :: "('a \<Rightarrow> key) \<Rightarrow> 'a kcmd \<Rightarrow> cmd" where
  "enc_cmd e (KIns k d) = Ins (e k) d"
| "enc_cmd e (KGet k) = Get (e k)"
| "enc_cmd e (KRem k) = Rem (e k)"

text \<open>The settings all the initialisation functions use.\<close>

definition default_set :: "u32 \<Rightarrow> cmp_fn fptr \<Rightarrow> hi_init_set" where
  "default_set n cmp =
     \<lparr>set_table_size = n, set_rehash_auto = 0, set_rehash_threshold = 3 / 4,
      set_coll_eng_array_size = 0, set_coll_eng = COLL_ENG_LIST,
      set_hash_func = Some (Fptr 104 lhi_hash_hsieh), set_hash2_func = None, set_key_cmp = Some cmp\<rparr>"

locale typed_table = key_domain V cmp for V :: "key \<Rightarrow> bool" and cmp :: cmp_fn +
  fixes addr :: nat
    and D :: "'a \<Rightarrow> bool"
    and enc :: "'a \<Rightarrow> key"
    and init :: "'a init_op"
    and ins :: "'a insert_op"
    and get :: "'a get_op"
    and rem :: "'a remove_op"
  assumes enc_V: "D a \<Longrightarrow> V (enc a)"
    and enc_inj: "D a \<Longrightarrow> D b \<Longrightarrow> enc a = enc b \<longleftrightarrow> a = b"
    and init_eq: "init hp n = hi_create hp (default_set n (Fptr addr cmp))"
    and ins_eq: "D a \<Longrightarrow> ins hp h a d = hi_insert hp h (enc a) d"
    and get_eq: "D a \<Longrightarrow> get h a = hi_get h (enc a)"
    and rem_eq: "D a \<Longrightarrow> rem hp h a = hi_remove hp h (enc a)"
begin

lemma run_keys_hi_run:
  "\<forall>c \<in> set cs. D (kcmd_key c) \<Longrightarrow> run_keys ins get rem hp h cs = hi_run hp h (map (enc_cmd enc) cs)"
proof (induction cs arbitrary: hp h)
  case Nil
  then show ?case by (simp add: hi_run_def)
next
  case (Cons c cs)
  then show ?case
    by (cases c) (simp_all add: hi_run_def ins_eq get_eq rem_eq Option.bind_assoc case_prod_unfold)
qed

lemma spec_keys_spec_cmds:
  "\<forall>c \<in> set cs. D (kcmd_key c) \<Longrightarrow> \<forall>a. D a \<longrightarrow> M (enc a) = m a \<Longrightarrow>
     fst (spec_cmds M (map (enc_cmd enc) cs)) = spec_keys m cs"
proof (induction cs arbitrary: M m)
  case Nil
  then show ?case by simp
next
  case (Cons c cs)
  then show ?case
    by (cases c) (simp_all add: Let_def case_prod_beta enc_inj)
qed

lemma table_is_map:
  assumes "no_oom hp" and "n \<noteq> 0" and "\<forall>c \<in> set cs. D (kcmd_key c)" and "length cs \<le> max_objects"
  shows "run_table init ins get rem hp n cs = Some (SUCCESS, spec_keys Map.empty cs)"
proof -
  let ?s = "default_set n (Fptr addr cmp)" and ?cs = "map (enc_cmd enc) cs"
  have "cmd_key (enc_cmd enc c) = enc (kcmd_key c)" for c
    by (cases c) simp_all
  then have V: "\<forall>c \<in> set ?cs. V (cmd_key c)"
    using assms(3) enc_V by auto
  have set: "set_ok cmp ?s" "set_coll_eng ?s = COLL_ENG_LIST \<or> set_coll_eng ?s = COLL_ENG_LIST_MTF"
    "0 \<le> set_rehash_threshold ?s"
    using assms(2) by (simp_all add: set_ok_def default_set_def lhi_set_sanity_check_def)
  have len: "length ?cs \<le> max_objects"
    using assms(4) by simp
  obtain hp1 h1 hp2 h2 where "hi_create hp ?s = Some (SUCCESS, hp1, Some h1)"
    "hi_run hp1 h1 ?cs = Some (fst (spec_cmds Map.empty ?cs), hp2, h2)"
    by (rule list_client [OF set(1,2) assms(1) set(3) V len])
  moreover have "fst (spec_cmds Map.empty ?cs) = spec_keys Map.empty cs"
    by (rule spec_keys_spec_cmds [OF assms(3)]) simp
  ultimately show ?thesis
    by (simp add: run_table_def init_eq run_keys_hi_run [OF assms(3)])
qed

end

section \<open>The five types\<close>

lemmas init_simps = hi_set_zero_def hi_set_bucket_size_def hi_set_coll_eng_def hi_set_key_cmp_func_def
  set_hash_alg_default COLL_ENG_MAX_def default_set_def Let_def

lemma init_default:
  "hi_init_str junk hp n = hi_create hp (default_set n (Fptr 200 hi_cmp_str))"
  "hi_init_int16_t junk hp n = hi_create hp (default_set n (Fptr 201 hi_cmp_int16_t))"
  "hi_init_uint16_t junk hp n = hi_create hp (default_set n (Fptr 202 hi_cmp_uint16_t))"
  "hi_init_int32_t junk hp n = hi_create hp (default_set n (Fptr 203 hi_cmp_int32_t))"
  "hi_init_uint32_t junk hp n = hi_create hp (default_set n (Fptr 204 hi_cmp_uint32_t))"
  by (simp_all add: hi_init_str_def hi_init_int16_t_def hi_init_uint16_t_def hi_init_int32_t_def
      hi_init_uint32_t_def init_simps)

text \<open>A C string in memory: its bytes, the terminator, and whatever follows.\<close>

definition c_string :: "byte list \<Rightarrow> bool" where
  "c_string s \<longleftrightarrow> 0 \<notin> set s \<and> length s + 1 < 2 ^ 32"

lemma str_arg_string: "c_string s \<Longrightarrow> str_arg (s @ 0 # rest) = Some (s @ [0])"
proof -
  assume s: "c_string s"
  then have "takeWhile (\<lambda>b. b \<noteq> 0) (s @ 0 # rest) = s"
    by (subst takeWhile_append2) (auto simp: c_string_def)
  moreover have "unat (word_of_nat (length s + 1) :: u32) = length s + 1"
    using s unfolding c_string_def by (intro unat_of_nat_u32) blast
  ultimately show ?thesis
    by (simp add: str_arg_def strlen_def del: of_nat_add of_nat_Suc)
qed

interpretation str_table: typed_table str_key hi_cmp_str 200 c_string "\<lambda>s. s @ [0]" "hi_init_str junk"
  "\<lambda>hp h s. hi_insert_str hp h (s @ 0 # rest)" "\<lambda>h s. hi_get_str h (s @ 0 # rest)"
  "\<lambda>hp h s. hi_remove_str hp h (s @ 0 # rest)" for junk rest
  by unfold_locales
    (simp_all add: init_default hi_insert_str_def hi_get_str_def hi_remove_str_def str_arg_string,
     auto simp: str_key_def c_string_def)

interpretation int16_table: typed_table key16 hi_cmp_int16_t 201 "\<lambda>_. True" bytes16 "hi_init_int16_t junk"
  hi_insert_int16_t hi_get_int16_t hi_remove_int16_t for junk
  by unfold_locales
    (simp_all add: init_default hi_insert_int16_t_def hi_get_int16_t_def hi_remove_int16_t_def bytes_inj)

interpretation uint16_table: typed_table key16 hi_cmp_uint16_t 202 "\<lambda>_. True" bytes16 "hi_init_uint16_t junk"
  hi_insert_uint16_t hi_get_uint16_t hi_remove_uint16_t for junk
  by unfold_locales
    (simp_all add: init_default hi_insert_uint16_t_def hi_get_uint16_t_def hi_remove_uint16_t_def bytes_inj)

text \<open>The difference of two \<open>int32_t\<close> keys must fit an \<open>int\<close>: keys of one half of the range.\<close>

definition half_range :: "u32 \<Rightarrow> bool" where
  "half_range w \<longleftrightarrow> - (2 ^ 30) \<le> sint w \<and> sint w < 2 ^ 30"

interpretation int32_table: typed_table key32_half hi_cmp_int32_t 203 half_range bytes32 "hi_init_int32_t junk"
  hi_insert_int32_t hi_get_int32_t hi_remove_int32_t for junk
  by unfold_locales
    (simp_all add: init_default hi_insert_int32_t_def hi_get_int32_t_def hi_remove_int32_t_def bytes_inj
      key32_half_def half_range_def deref_bytes)

interpretation uint32_table: typed_table key32 hi_cmp_uint32_t 204 "\<lambda>_. True" bytes32 "hi_init_uint32_t junk"
  hi_insert_uint32_t hi_get_uint32_t hi_remove_uint32_t for junk
  by unfold_locales
    (simp_all add: init_default hi_insert_uint32_t_def hi_get_uint32_t_def hi_remove_uint32_t_def bytes_inj)

text \<open>
  C21. A table of strings made by \<open>hi_init_str\<close> answers every sequence of insertions, lookups and
  removals as a map on strings, whatever follows the strings in memory and whatever the local
  settings held before: two strings are the same key exactly when they are equal.
\<close>

theorem str_table_is_map:
  assumes "no_oom hp" and "n \<noteq> 0" and "\<forall>c \<in> set cs. c_string (kcmd_key c)" and "length cs \<le> max_objects"
  shows "run_table (hi_init_str junk) (\<lambda>hp h s. hi_insert_str hp h (s @ 0 # rest))
    (\<lambda>h s. hi_get_str h (s @ 0 # rest)) (\<lambda>hp h s. hi_remove_str hp h (s @ 0 # rest)) hp n cs =
    Some (SUCCESS, spec_keys Map.empty cs)"
  by (rule str_table.table_is_map [OF assms])

theorem str_table_is_map_witness:
  "run_table (hi_init_str no_engine_set) (\<lambda>hp h s. hi_insert_str hp h (s @ 0 # [7]))
    (\<lambda>h s. hi_get_str h (s @ 0 # [7])) (\<lambda>hp h s. hi_remove_str hp h (s @ 0 # [7]))
    \<lparr>outcome = (\<lambda>_. Malloc_block 0), tick = 0, live = 0, have_posix_memalign = True\<rparr> 8
    [KIns [97] 1, KIns [] 2, KIns [97] 3, KGet [97, 98], KRem [97], KGet []] =
   Some (SUCCESS, [(SUCCESS, None), (SUCCESS, None), (HI_ERR_DUPKEY, None), (HI_ERR_NOKEY, None),
     (SUCCESS, Some 1), (SUCCESS, Some 2)])"
  by (subst str_table_is_map) (simp_all add: no_oom_def c_string_def max_objects_def)

text \<open>
  C22. The tables of integers are maps on the integers: for the 16-bit types and for \<open>uint32_t\<close> on all
  values, for \<open>int32_t\<close> on the values from \<open>- 2 ^ 30\<close> to \<open>2 ^ 30 - 1\<close>, whose differences the
  compare function can represent.
\<close>

theorem int_tables_are_maps:
  assumes "no_oom hp" and "n \<noteq> 0" and "length ds \<le> max_objects" and "length cs \<le> max_objects"
  shows "run_table (hi_init_int16_t junk) hi_insert_int16_t hi_get_int16_t hi_remove_int16_t hp n ds =
      Some (SUCCESS, spec_keys Map.empty ds) \<and>
    run_table (hi_init_uint16_t junk) hi_insert_uint16_t hi_get_uint16_t hi_remove_uint16_t hp n ds =
      Some (SUCCESS, spec_keys Map.empty ds) \<and>
    run_table (hi_init_uint32_t junk) hi_insert_uint32_t hi_get_uint32_t hi_remove_uint32_t hp n cs =
      Some (SUCCESS, spec_keys Map.empty cs) \<and>
    ((\<forall>c \<in> set cs. half_range (kcmd_key c)) \<longrightarrow>
      run_table (hi_init_int32_t junk) hi_insert_int32_t hi_get_int32_t hi_remove_int32_t hp n cs =
      Some (SUCCESS, spec_keys Map.empty cs))"
  using assms by (simp add: int16_table.table_is_map uint16_table.table_is_map uint32_table.table_is_map
      int32_table.table_is_map)

theorem int_tables_are_maps_witness:
  "run_table (hi_init_int32_t no_engine_set) hi_insert_int32_t hi_get_int32_t hi_remove_int32_t
     \<lparr>outcome = (\<lambda>_. Malloc_block 0), tick = 0, live = 0, have_posix_memalign = True\<rparr> 8
     [KIns 5 1, KIns (- 1) 2, KGet 5, KRem (- 1), KGet (- 1)] =
   Some (SUCCESS, [(SUCCESS, None), (SUCCESS, None), (SUCCESS, Some 1), (SUCCESS, Some 2), (HI_ERR_NOKEY, None)])"
proof -
  have "half_range 5" "half_range (- 1)"
    by (simp_all add: half_range_def)
  then show ?thesis
    using int_tables_are_maps [of "\<lparr>outcome = (\<lambda>_. Malloc_block 0), tick = 0, live = 0, have_posix_memalign = True\<rparr>"
        8 "[]" "[KIns 5 1, KIns (- 1) 2, KGet 5, KRem (- 1), KGet (- 1)]" no_engine_set]
    by (simp add: no_oom_def max_objects_def)
qed

end
