(* ===== verification/Sha1_ref.thy ===== *)
theory Sha1_ref
  imports Hash_sha1
begin

section \<open>The standard\<close>

text \<open>SHA-1 of FIPS 180 on 32-bit words: schedule, functions, constants, steps, compression.\<close>

definition be32 :: "byte list \<Rightarrow> nat \<Rightarrow> u32" where
  "be32 b i =
     push_bit 24 (ucast (b ! i)) OR push_bit 16 (ucast (b ! (i + 1))) OR
     push_bit 8 (ucast (b ! (i + 2))) OR ucast (b ! (i + 3))"

fun fips_W :: "byte list \<Rightarrow> nat \<Rightarrow> u32" where
  "fips_W M t =
     (if t < 16 then be32 M (4 * t)
      else word_rotl 1 (fips_W M (t - 3) XOR fips_W M (t - 8) XOR fips_W M (t - 14) XOR fips_W M (t - 16)))"

declare fips_W.simps [simp del]

definition fips_f :: "nat \<Rightarrow> u32 \<Rightarrow> u32 \<Rightarrow> u32 \<Rightarrow> u32" where
  "fips_f t x y z =
     (if t < 20 then (x AND y) XOR (NOT x AND z)
      else if t < 40 then x XOR y XOR z
      else if t < 60 then (x AND y) XOR (x AND z) XOR (y AND z)
      else x XOR y XOR z)"

definition fips_K :: "nat \<Rightarrow> u32" where
  "fips_K t =
     (if t < 20 then 0x5a827999 else if t < 40 then 0x6ed9eba1
      else if t < 60 then 0x8f1bbcdc else 0xca62c1d6)"

type_synonym regs = "u32 \<times> u32 \<times> u32 \<times> u32 \<times> u32"

definition fips_step :: "byte list \<Rightarrow> nat \<Rightarrow> regs \<Rightarrow> regs" where
  "fips_step M t = (\<lambda>(a, b, c, d, e).
     (word_rotl 5 a + fips_f t b c d + e + fips_K t + fips_W M t, a, word_rotl 30 b, c, d))"

definition fips_compress :: "u32 list \<Rightarrow> byte list \<Rightarrow> u32 list" where
  "fips_compress H M =
     (let (a, b, c, d, e) = fold (fips_step M) [0 ..< 80] (H ! 0, H ! 1, H ! 2, H ! 3, H ! 4)
      in [H ! 0 + a, H ! 1 + b, H ! 2 + c, H ! 3 + d, H ! 4 + e])"

section \<open>The lower halves of the registers\<close>

lemma low_add: "(ucast (a + b :: u64) :: u32) = ucast a + ucast b"
proof -
  have "take_bit 32 (x + y) = take_bit 32 (take_bit 64 x + take_bit 64 y)" for x y :: int
    using take_bit_add [of 32 x y] take_bit_add [of 32 "take_bit 64 x" "take_bit 64 y"] by simp
  then show ?thesis
    by transfer simp
qed

lemma low_and: "(ucast (a AND b :: u64) :: u32) = ucast a AND ucast b"
  and low_or: "(ucast (a OR b :: u64) :: u32) = ucast a OR ucast b"
  and low_xor: "(ucast (a XOR b :: u64) :: u32) = ucast a XOR ucast b"
  by (rule bit_word_eqI; auto simp: bit_simps)+

lemma low_high: "(ucast (ucast (w :: u32) :: u64) :: u32) = w"
  by (rule bit_word_eqI) (auto simp: bit_simps)

lemma low_mask: "x AND 0xFFFFFFFF = take_bit 32 (x :: u64)"
proof -
  have "(0xFFFFFFFF :: u64) = mask 32"
    by (simp add: mask_numeral)
  then show ?thesis
    by (simp only: take_bit_eq_mask)
qed

lemma low_S_macro:
  assumes "0 < n" and "n < 32"
  shows "(ucast (S_macro x n) :: u32) = word_rotl n (ucast x)"
proof (rule bit_word_eqI)
  fix j :: nat
  assume j: "j < LENGTH(32)"
  show "bit (ucast (S_macro x n) :: u32) j = bit (word_rotl n (ucast x) :: u32) j"
  proof (cases "j < n")
    case True
    then have "(j + (32 - n)) mod 32 = 32 - n + j"
      using assms j by simp
    then show ?thesis
      using True assms j
      by (simp add: S_macro_def low_mask bit_or_iff bit_push_bit_iff bit_drop_bit_eq bit_take_bit_iff
          bit_ucast_iff bit_word_rotl_iff)
  next
    case False
    then have "(j + (32 - n)) mod 32 = j - n"
      using assms j by (simp add: mod_if)
    then show ?thesis
      using False assms j
      by (auto simp add: S_macro_def low_mask bit_or_iff bit_push_bit_iff bit_drop_bit_eq bit_take_bit_iff
          bit_ucast_iff bit_word_rotl_iff)
  qed
qed

lemma low_F: "(ucast (F_macro t x y z) :: u32) = fips_f t (ucast x) (ucast y) (ucast z)"
proof -
  have "c XOR (a AND (b XOR c)) = (a AND b) XOR (NOT a AND c)"
    "(a AND b) OR (c AND (a OR b)) = (a AND b) XOR (a AND c) XOR (b AND c)" for a b c :: u32
    by (rule bit_word_eqI; auto simp: bit_simps)+
  then show ?thesis
    by (simp add: F_macro_def fips_f_def low_and low_or low_xor)
qed

lemma low_K: "(ucast (K_macro t) :: u32) = fips_K t"
  by (simp add: K_macro_def fips_K_def)

lemma low_GET: "(ucast (GET_ULONG_BE b i) :: u32) = be32 b i"
proof -
  have "(ucast (push_bit n (ucast (c :: byte) :: u64)) :: u32) = push_bit n (ucast c)" if "n \<le> 24" for n c
    using that by (intro bit_word_eqI) (auto simp: bit_simps)
  moreover have "(ucast (ucast (c :: byte) :: u64) :: u32) = ucast c" for c
    by (rule bit_word_eqI) (auto simp: bit_simps)
  ultimately show ?thesis
    by (simp add: GET_ULONG_BE_def be32_def low_or)
qed

section \<open>The circular schedule\<close>

lemma and_15: "n AND 15 = n mod (16 :: nat)"
proof -
  have "(15 :: nat) = mask 4"
    by (simp add: mask_numeral)
  then have "n AND 15 = take_bit 4 n"
    by (simp only: take_bit_eq_mask)
  then show ?thesis
    by (simp add: take_bit_eq_mod)
qed

text \<open>Before round \<open>t\<close> the array holds the 16 words before \<open>t\<close>, at first the first 16.\<close>

definition window :: "byte list \<Rightarrow> nat \<Rightarrow> u64 list \<Rightarrow> bool" where
  "window M t W \<longleftrightarrow> length W = 16 \<and>
     (\<forall>j. max t 16 - 16 \<le> j \<and> j < max t 16 \<longrightarrow> ucast (W ! (j mod 16)) = fips_W M j)"

lemma round_operand_window:
  assumes "window M t W" and "round_operand t W = (x, W')"
  shows "ucast x = fips_W M t" and "window M (t + 1) W'"
proof -
  have "ucast x = fips_W M t \<and> window M (t + 1) W'"
  proof (cases "t < 16")
    case True
    then have "x = W ! t" "W' = W"
      using assms(2) by (auto simp: round_operand_def)
    moreover have "ucast (W ! (t mod 16)) = fips_W M t"
      using assms(1) True by (simp add: window_def)
    ultimately show ?thesis
      using assms(1) True by (simp add: window_def max_def)
  next
    case False
    then have W: "length W = 16" "ucast (W ! (j mod 16)) = fips_W M j" if "t - 16 \<le> j" "j < t" for j
      using assms(1) that by (auto simp: window_def)
    have len: "length W = 16"
      using assms(1) by (simp add: window_def)
    have x: "x = S_macro (W ! ((t - 3) mod 16) XOR W ! ((t - 8) mod 16) XOR W ! ((t - 14) mod 16) XOR
        W ! (t mod 16)) 1" and W': "W' = W[t mod 16 := x]"
      using assms(2) False by (auto simp: round_operand_def R_macro_def and_15 Let_def)
    have "t mod 16 = (t - 16) mod 16"
      using False by (simp add: le_mod_geq)
    then have "ucast x = fips_W M t"
      using False W(2) [of "t - 3"] W(2) [of "t - 8"] W(2) [of "t - 14"] W(2) [of "t - 16"]
      by (simp add: x low_S_macro low_xor fips_W.simps [of M t])
    moreover have "ucast (W' ! (j mod 16)) = fips_W M j" if "t - 15 \<le> j" "j < t + 1" for j
    proof (cases "j = t")
      case True
      then show ?thesis
        using \<open>ucast x = fips_W M t\<close> len by (simp add: W')
    next
      case False
      then have "j < t" "t < j + 16"
        using that \<open>\<not> t < 16\<close> by auto
      then have "j mod 16 \<noteq> t mod 16"
        by (metis add_diff_cancel_left' less_imp_add_positive mod_eq_dvd_iff_nat nat_dvd_not_less
            nat_add_left_cancel_less less_imp_le)
      then show ?thesis
        using W(2) [of j] that \<open>j < t\<close> by (simp add: W')
    qed
    ultimately show ?thesis
      using len False by (auto simp: window_def W')
  qed
  then show "ucast x = fips_W M t" and "window M (t + 1) W'"
    by simp_all
qed

section \<open>Rounds\<close>

definition low5 :: "u64 \<times> u64 \<times> u64 \<times> u64 \<times> u64 \<Rightarrow> regs" where
  "low5 = (\<lambda>(a, b, c, d, e). (ucast a, ucast b, ucast c, ucast d, ucast e))"

lemma P_macro_step:
  assumes "P_macro t a b c d e x = (e', b')" and "ucast x = fips_W M t"
  shows "fips_step M t (ucast a, ucast b, ucast c, ucast d, ucast e) =
    (ucast e', ucast a, ucast b', ucast c, ucast d)"
  using assms by (auto simp: P_macro_def fips_step_def low_add low_S_macro low_F low_K algebra_simps)

lemma five_rounds_steps:
  assumes "window M t W" and "five_rounds t (r, W) = (r', W')"
  shows "fold (fips_step M) [t ..< t + 5] (low5 r) = low5 r' \<and> window M (t + 5) W'"
proof -
  obtain A B C D E where r: "r = (A, B, C, D, E)"
    by (cases r)
  obtain x0 W0 where o0: "round_operand t W = (x0, W0)" by fastforce
  obtain E' B' where p0: "P_macro t A B C D E x0 = (E', B')" by fastforce
  obtain x1 W1 where o1: "round_operand (t + 1) W0 = (x1, W1)" by fastforce
  obtain D' A' where p1: "P_macro (t + 1) E' A B' C D x1 = (D', A')" by fastforce
  obtain x2 W2 where o2: "round_operand (t + 2) W1 = (x2, W2)" by fastforce
  obtain C' E'' where p2: "P_macro (t + 2) D' E' A' B' C x2 = (C', E'')" by fastforce
  obtain x3 W3 where o3: "round_operand (t + 3) W2 = (x3, W3)" by fastforce
  obtain B'' D'' where p3: "P_macro (t + 3) C' D' E'' A' B' x3 = (B'', D'')" by fastforce
  obtain x4 W4 where o4: "round_operand (t + 4) W3 = (x4, W4)" by fastforce
  obtain A'' C'' where p4: "P_macro (t + 4) B'' C' D'' E'' A' x4 = (A'', C'')" by fastforce
  have r': "r' = (A'', B'', C'', D'', E'')" "W' = W4"
    using assms(2) unfolding five_rounds_def r
    by (simp_all only: o0 p0 o1 p1 o2 p2 o3 p3 o4 p4 prod.case Let_def prod.inject)
  note w0 = round_operand_window [OF assms(1) o0]
  note w1 = round_operand_window [OF w0(2) o1]
  have "window M (t + 2) W1" using w1(2) by simp
  note w2 = round_operand_window [OF this o2]
  have "window M (t + 3) W2" using w2(2) by (simp add: numeral_eq_Suc)
  note w3 = round_operand_window [OF this o3]
  have "window M (t + 4) W3" using w3(2) by (simp add: numeral_eq_Suc)
  note w4 = round_operand_window [OF this o4]
  have "window M (t + 5) W4" using w4(2) by (simp add: numeral_eq_Suc)
  moreover have "[t ..< t + 5] = [t, t + 1, t + 2, t + 3, t + 4]"
    by (simp add: upt_rec [of t] upt_rec [of "Suc t"] numeral_eq_Suc)
  moreover note P_macro_step [OF p0 w0(1)] P_macro_step [OF p1 w1(1)] P_macro_step [OF p2 w2(1)]
    P_macro_step [OF p3 w3(1)] P_macro_step [OF p4 w4(1)]
  ultimately show ?thesis
    by (simp only: r r' low5_def prod.case fold.simps comp_apply id_apply simp_thms)
qed

lemma all_rounds:
  assumes "window M 0 W" and "fold five_rounds (map (\<lambda>i. 5 * i) [0 ..< n]) (r, W) = (r', W')"
  shows "fold (fips_step M) [0 ..< 5 * n] (low5 r) = low5 r' \<and> window M (5 * n) W'"
  using assms(2)
proof (induction n arbitrary: r' W')
  case 0
  then show ?case using assms(1) by simp
next
  case (Suc n)
  obtain r1 W1 where 1: "fold five_rounds (map (\<lambda>i. 5 * i) [0 ..< n]) (r, W) = (r1, W1)"
    by fastforce
  then have "five_rounds (5 * n) (r1, W1) = (r', W')"
    using Suc.prems by simp
  moreover have "[0 ..< 5 * Suc n] = [0 ..< 5 * n] @ [5 * n ..< 5 * n + 5]" "5 * Suc n = 5 * n + 5"
    using upt_add_eq_append [of 0 "5 * n" 5] by (simp_all add: add.commute)
  ultimately show ?case
    using Suc.IH [OF 1] five_rounds_steps [of M "5 * n" W1 r1 r' W']
    by (simp only: fold_append comp_apply simp_thms)
qed

lemma sha1_process_compress: "sha1_process H M = fips_compress H M"
proof -
  let ?W = "map (\<lambda>i. GET_ULONG_BE M (4 * i)) [0 ..< 16]"
  let ?r = "(ucast (H ! 0), ucast (H ! 1), ucast (H ! 2), ucast (H ! 3), ucast (H ! 4)) :: u64 \<times> u64 \<times> u64 \<times> u64 \<times> u64"
  obtain A B C D E W where f: "fold five_rounds (map (\<lambda>i. 5 * i) [0 ..< 16]) (?r, ?W) = ((A, B, C, D, E), W)"
    by (metis prod.exhaust)
  have "window M 0 ?W"
    by (auto simp: window_def low_GET fips_W.simps)
  from all_rounds [OF this f]
  have "fold (fips_step M) [0 ..< 80] (H ! 0, H ! 1, H ! 2, H ! 3, H ! 4) =
      (ucast A, ucast B, ucast C, ucast D, ucast E)"
    by (simp add: low5_def low_high)
  then show ?thesis
    unfolding sha1_process_def fips_compress_def f Let_def by (simp add: low_add low_high)
qed

section \<open>Messages\<close>

text \<open>Whole blocks of a message, what is left over, padding, and the digest.\<close>

function blocks64 :: "byte list \<Rightarrow> byte list list" where
  "blocks64 p = (if 64 \<le> length p then take 64 p # blocks64 (drop 64 p) else [])"
  by pat_completeness auto
termination
  by (relation "measure length") auto

declare blocks64.simps [simp del]

definition fips_pad :: "byte list \<Rightarrow> byte list" where
  "fips_pad p =
     (let l = length p mod 64
      in p @ [0x80] @ replicate ((if l < 56 then 56 - l else 120 - l) - 1) 0 @
         put_be (word_of_nat (8 * length p div 2 ^ 32)) @ put_be (word_of_nat (8 * length p)))"

definition sha1_iv :: "u32 list" where
  "sha1_iv = [0x67452301, 0xEFCDAB89, 0x98BADCFE, 0x10325476, 0xC3D2E1F0]"

definition fips_sha1 :: "byte list \<Rightarrow> u32 list" where
  "fips_sha1 p = foldl fips_compress sha1_iv (blocks64 (fips_pad p))"

definition rest64 :: "byte list \<Rightarrow> byte list" where
  "rest64 p = drop (64 * (length p div 64)) p"

lemma length_rest64 [simp]: "length (rest64 p) = length p mod 64"
  by (simp add: rest64_def minus_mult_div_eq_mod)

lemma rest64_short: "length p < 64 \<Longrightarrow> rest64 p = p"
  by (simp add: rest64_def)

lemma blocks64_short: "length p < 64 \<Longrightarrow> blocks64 p = []"
  by (simp add: blocks64.simps [of p])

lemma rest64_long: "64 \<le> length p \<Longrightarrow> rest64 p = rest64 (drop 64 p)"
  by (simp add: rest64_def le_div_geq add.commute)

lemma blocks64_append: "blocks64 (p @ q) = blocks64 p @ blocks64 (rest64 p @ q)"
proof (induction p rule: blocks64.induct)
  case (1 p)
  then show ?case
    by (cases "64 \<le> length p")
      (simp_all add: blocks64.simps [of "p @ q"] blocks64.simps [of p] rest64_short rest64_long [of p])
qed

lemma rest64_append: "rest64 (p @ q) = rest64 (rest64 p @ q)"
proof (induction p rule: blocks64.induct)
  case (1 p)
  then show ?case
    by (cases "64 \<le> length p")
      (simp_all add: rest64_short rest64_long [of p] rest64_long [of "p @ q"])
qed

lemma process_blocks_eq: "process_blocks H p = (foldl sha1_process H (blocks64 p), rest64 p)"
proof (induction H p rule: process_blocks.induct)
  case (1 H p)
  then show ?case
    by (cases "64 \<le> length p")
      (simp_all add: process_blocks.simps [of H p] blocks64.simps [of p] rest64_short rest64_long [of p])
qed

text \<open>The context after the bytes \<open>p\<close>.\<close>

definition absorbed :: "sha1_context \<Rightarrow> byte list \<Rightarrow> bool" where
  "absorbed ctx p \<longleftrightarrow> total0 ctx = word_of_nat (length p) \<and> total1 ctx = 0 \<and>
     sha_state ctx = foldl sha1_process sha1_iv (blocks64 p) \<and>
     length (sha_buffer ctx) = 64 \<and> take (length p mod 64) (sha_buffer ctx) = rest64 p"

lemma low_six_bits: "n < 2 ^ 32 \<Longrightarrow> unat (word_of_nat n AND 0x3F :: u32) = n mod 64"
proof -
  assume "n < 2 ^ 32"
  have "word_of_nat n AND 0x3F = take_bit 6 (word_of_nat n :: u32)"
    by (simp add: take_bit_eq_mask mask_numeral)
  then show ?thesis
    using \<open>n < 2 ^ 32\<close> by (simp only: unsigned_take_bit_eq unat_of_nat_u32) (simp add: take_bit_eq_mod)
qed

lemma sha1_update_absorbs:
  assumes abs: "absorbed ctx p" and n: "0 < n" "n \<le> length input" "length p + n < 2 ^ 32"
  shows "\<exists>ctx'. sha1_update ctx input (int n) = Some ctx' \<and> absorbed ctx' (p @ take n input)"
proof -
  define q where "q = take n input"
  define left where "left = length p mod 64"
  have len: "length q = n" "left < 64"
    using n by (simp_all add: q_def left_def)
  note ctx = abs [unfolded absorbed_def left_def [symmetric]]
  have t: "total0 ctx + word_of_int (int n) = word_of_nat (length (p @ q))"
    using ctx len by simp
  have "unat (word_of_nat (length (p @ q)) :: u32) = length p + n"
    using n len by (simp del: of_nat_add)
  moreover have "uint w = int (unat w)" for w :: u32
    by simp
  ultimately have "uint (word_of_nat (length (p @ q)) :: u32) = int (length p + n)"
    by (simp only:)
  then have carry: "\<not> uint (word_of_nat (length (p @ q)) :: u32) < int n"
    by simp
  have left: "unat (total0 ctx AND 0x3F) = left"
    using ctx n by (simp add: low_six_bits left_def)
  have whole: "blocks64 (p @ q) = blocks64 p @ blocks64 (rest64 p @ q)"
    "rest64 (p @ q) = rest64 (rest64 p @ q)" "length (rest64 p) = left"
    by (rule blocks64_append, rule rest64_append) (simp add: left_def)
  have total: "length (p @ q) mod 64 = length (rest64 (rest64 p @ q))"
    using length_rest64 [of "p @ q"] by (simp only: whole(2))
  have start: "sha1_update ctx input (int n) = do {
      (state, buffer, left, input) \<leftarrow>
        (if left \<noteq> 0 \<and> 64 - left \<le> length q then do {
           buffer \<leftarrow> buffer_write (sha_buffer ctx) left (take (64 - left) q);
           Some (sha1_process (sha_state ctx) buffer, buffer, 0, drop (64 - left) q)
         } else Some (sha_state ctx, sha_buffer ctx, left, q));
      buffer \<leftarrow> (if rest64 input \<noteq> [] then buffer_write buffer left (rest64 input) else Some buffer);
      Some \<lparr>total0 = word_of_nat (length (p @ q)), total1 = 0,
        sha_state = foldl sha1_process state (blocks64 input), sha_buffer = buffer\<rparr>
    }"
  proof -
    have "\<not> int n \<le> 0" "\<not> length input < n" "total1 ctx = 0"
      using n ctx by simp_all
    then show ?thesis
      unfolding sha1_update_def
      by (simp only: nat_int if_False left t carry q_def [symmetric] process_blocks_eq Let_def prod.case)
  qed
  show ?thesis
  proof (cases "left \<noteq> 0 \<and> 64 - left \<le> length q")
    case True
    define b where "b = rest64 p @ take (64 - left) q"
    define r where "r = rest64 (drop (64 - left) q)"
    have b: "length b = 64" "buffer_write (sha_buffer ctx) left (take (64 - left) q) = Some b"
      using True ctx len whole(3) by (auto simp: buffer_write_def b_def)
    have "64 \<le> length (rest64 p @ q)" "take 64 (rest64 p @ q) = b" "drop 64 (rest64 p @ q) = drop (64 - left) q"
      using True len whole(3) by (auto simp: b_def simp del: length_rest64)
    then have q: "blocks64 (rest64 p @ q) = b # blocks64 (drop (64 - left) q)" "rest64 (rest64 p @ q) = r"
      by (simp_all add: blocks64.simps [of "rest64 p @ q"] rest64_long r_def)
    have r: "length r < 64" "buffer_write b 0 r = Some (r @ drop (length r) b)"
      using b(1) by (simp_all add: r_def buffer_write_def less_imp_le)
    have "sha1_update ctx input (int n) = Some \<lparr>total0 = word_of_nat (length (p @ q)), total1 = 0,
        sha_state = foldl sha1_process sha1_iv (blocks64 (p @ q)), sha_buffer = r @ drop (length r) b\<rparr>"
      using True b(2) r(2) ctx by (simp add: start whole(1) q(1) r_def [symmetric])
    moreover have "length (p @ q) mod 64 = length r"
      using total by (simp only: q(2))
    ultimately show ?thesis
      using b(1) r(1) whole(2) q(2) by (simp add: absorbed_def q_def [symmetric])
  next
    case False
    then have cases: "left = 0 \<or> length (rest64 p @ q) < 64"
      using len whole(3) by auto
    have q: "blocks64 q = blocks64 (rest64 p @ q)" "rest64 p @ rest64 q = rest64 (rest64 p @ q)"
      using cases whole(3) by (auto simp: blocks64_short rest64_short simp del: length_rest64)
    define r where "r = rest64 p @ rest64 q"
    have fits: "left + length (rest64 q) \<le> 64"
      using cases
    proof
      assume "length (rest64 p @ q) < 64"
      then show ?thesis
        using whole(3) by (simp add: rest64_short del: length_rest64)
    qed (simp add: less_imp_le)
    have w: "(if rest64 q \<noteq> [] then buffer_write (sha_buffer ctx) left (rest64 q) else Some (sha_buffer ctx)) =
        Some (r @ drop (length r) (sha_buffer ctx))"
      using ctx fits whole(3) append_take_drop_id [of left "sha_buffer ctx"]
      by (auto simp: buffer_write_def r_def simp del: length_rest64)
    have "sha1_update ctx input (int n) = Some \<lparr>total0 = word_of_nat (length (p @ q)), total1 = 0,
        sha_state = foldl sha1_process sha1_iv (blocks64 (p @ q)),
        sha_buffer = r @ drop (length r) (sha_buffer ctx)\<rparr>"
      using False ctx w by (auto simp add: start whole(1) q(1))
    moreover have "length (p @ q) mod 64 = length r" "length r \<le> 64"
      using total fits whole(3) by (simp_all add: r_def q(2) [symmetric] del: length_rest64)
    ultimately show ?thesis
      using ctx whole(2) q(2) by (simp add: absorbed_def q_def [symmetric] r_def [symmetric])
  qed
qed

section \<open>The whole hash\<close>

lemma padding_words:
  assumes "n < 2 ^ 32"
  shows "drop_bit 29 (word_of_nat n) OR push_bit 3 0 = (word_of_nat (8 * n div 2 ^ 32) :: u32)"
    and "push_bit 3 (word_of_nat n) = (word_of_nat (8 * n) :: u32)"
proof -
  have "8 * n div 2 ^ 32 = n div 2 ^ 29"
    using div_mult_mult1 [of 8 n "2 ^ 29"] by simp
  moreover have "n div 2 ^ 29 < 2 ^ 32"
    using assms div_le_dividend [of n "2 ^ 29"] by linarith
  ultimately have "unat (word_of_nat (8 * n div 2 ^ 32) :: u32) = n div 2 ^ 29"
    by simp
  moreover have "unat (drop_bit 29 (word_of_nat n :: u32)) = n div 2 ^ 29"
    using assms by (simp add: drop_bit_eq_div unat_div)
  ultimately show "drop_bit 29 (word_of_nat n) OR push_bit 3 0 = (word_of_nat (8 * n div 2 ^ 32) :: u32)"
    by (simp add: word_unat_eq_iff)
  show "push_bit 3 (word_of_nat n) = (word_of_nat (8 * n) :: u32)"
    by (simp add: push_bit_eq_mult mult.commute)
qed

lemma sha1_finish_pads:
  assumes abs: "absorbed ctx p" and len: "length p + 72 < 2 ^ 32"
  shows "sha1_finish ctx = Some (concat (map put_be (foldl sha1_process sha1_iv (blocks64 (fips_pad p)))))"
proof -
  define l where "l = length p mod 64"
  define padn where "padn = (if l < 56 then 56 - l else 120 - l)"
  have padn: "0 < padn" "padn \<le> 64"
    by (auto simp: padn_def l_def)
  have l: "unat (total0 ctx AND 0x3F) = l"
    using abs len by (simp add: absorbed_def low_six_bits l_def)
  have pad: "take padn sha1_padding = 0x80 # replicate (padn - 1) 0" "length sha1_padding = 64"
    using padn by (auto simp: sha1_padding_def take_Cons' min_def)
  define msglen where "msglen = put_be (word_of_nat (8 * length p div 2 ^ 32)) @ put_be (word_of_nat (8 * length p))"
  have msglen: "put_be (drop_bit 29 (total0 ctx) OR push_bit 3 (total1 ctx)) @ put_be (push_bit 3 (total0 ctx)) = msglen"
    "length msglen = 8"
    using abs len padding_words [of "length p"] by (simp_all add: absorbed_def msglen_def put_be_def)
  obtain ctx1 where 1: "sha1_update ctx sha1_padding (int padn) = Some ctx1"
    "absorbed ctx1 (p @ take padn sha1_padding)"
    using sha1_update_absorbs [OF abs padn(1), of sha1_padding] padn(2) pad(2) len by auto
  obtain ctx2 where 2: "sha1_update ctx1 msglen (int 8) = Some ctx2"
    "absorbed ctx2 ((p @ take padn sha1_padding) @ take 8 msglen)"
    using sha1_update_absorbs [OF 1(2), of 8 msglen] padn(2) pad(2) msglen(2) len by auto
  have "(p @ take padn sha1_padding) @ take 8 msglen = fips_pad p"
    using msglen(2) pad(1) by (simp add: fips_pad_def Let_def msglen_def l_def [symmetric] padn_def [symmetric])
  moreover have "int 8 = 8" by simp
  ultimately show ?thesis
    using 1(1) 2 unfolding sha1_finish_def Let_def l padn_def [symmetric] msglen(1)
    by (simp add: absorbed_def)
qed

lemma sint_length:
  "sint (word_of_nat n :: u32) =
     (if n mod 2 ^ 32 < 2 ^ 31 then int (n mod 2 ^ 32) else int (n mod 2 ^ 32) - 2 ^ 32)"
proof -
  define m where "m = n mod 2 ^ 32"
  have m: "m < 2 ^ 32"
    by (simp add: m_def)
  have "(word_of_nat n :: u32) = word_of_nat m"
    by (simp add: m_def word_unat_eq_iff unat_of_nat take_bit_eq_mod)
  moreover have "uint (word_of_nat m :: u32) = int m"
    using m unat_of_nat_u32 [of m] by (metis uint_nat)
  ultimately have sint: "sint (word_of_nat n :: u32) = signed_take_bit 31 (int m)"
    by (simp add: sint_uint)
  show ?thesis
  proof (cases "m < 2 ^ 31")
    case True
    then have "\<not> bit (int m) 31" "take_bit 31 (int m) = int m"
      by (simp_all add: bit_iff_odd take_bit_eq_mod)
    then show ?thesis
      using True sint by (simp add: m_def signed_take_bit_eq_if_positive)
  next
    case False
    have "int m div 2 ^ 31 = 1"
      using False m by (intro int_div_pos_eq [of _ _ _ "int m - 2 ^ 31"]) auto
    moreover have "int m mod 2 ^ 31 = int m - 2 ^ 31"
      using False m by (intro int_mod_pos_eq [of _ _ 1]) auto
    ultimately have "bit (int m) 31" "take_bit 31 (int m) = int m - 2 ^ 31"
      by (simp_all add: bit_iff_odd take_bit_eq_mod)
    then show ?thesis
      using False sint m by (simp add: m_def signed_take_bit_eq_take_bit_minus take_bit_eq_mod)
  qed
qed

lemma starts_absorbed: "length junk = 64 \<Longrightarrow> absorbed (sha1_starts junk) []"
  by (simp add: absorbed_def sha1_starts_def sha1_iv_def blocks64.simps rest64_def)

text \<open>The bytes of the key that \<open>sha1_update\<close> takes in when the length is converted to \<open>int\<close>.\<close>

definition sha1_message :: "key \<Rightarrow> key" where
  "sha1_message key = (let n = length key mod 2 ^ 32 in if n < 2 ^ 31 then take n key else [])"

lemma update_absorbs_message:
  assumes "length junk = 64"
  obtains ctx where "sha1_update (sha1_starts junk) key (sint (word_of_nat (length key) :: u32)) = Some ctx"
    and "absorbed ctx (sha1_message key)"
proof -
  define n where "n = length key mod 2 ^ 32"
  have msg: "sha1_message key = (if n < 2 ^ 31 then take n key else [])"
    by (simp add: sha1_message_def n_def Let_def)
  have n: "n \<le> length key" "n < 2 ^ 32"
    by (simp_all add: n_def)
  show thesis
  proof (cases "0 < n \<and> n < 2 ^ 31")
    case True
    then have "sint (word_of_nat (length key) :: u32) = int n" "sha1_message key = take n key"
      by (simp_all only: sint_length n_def [symmetric] msg if_True simp_thms)
    then show thesis
      using True that sha1_update_absorbs [OF starts_absorbed [OF assms], of n key] n by auto
  next
    case False
    then have "(if n < 2 ^ 31 then int n else int n - 2 ^ 32) \<le> 0" "sha1_message key = []"
      using n(2) by (auto simp: msg)
    then have "sint (word_of_nat (length key) :: u32) \<le> 0" "sha1_message key = []"
      by (simp_all only: sint_length n_def [symmetric])
    then show thesis
      using that starts_absorbed [OF assms] by (simp add: sha1_update_def)
  qed
qed

lemma length_fips_sha1: "length (fips_sha1 msg) = 5"
proof -
  have "length (foldl fips_compress H bs) = 5" if "length H = 5" for H bs
    using that by (induction bs arbitrary: H) (auto simp: fips_compress_def split: prod.split)
  then show ?thesis
    by (simp add: fips_sha1_def sha1_iv_def)
qed

text \<open>
  C24. \<open>lhi_hash_sha1\<close> is the first word of the SHA-1 of the standard, in the byte order of the
  digest, for keys shorter than \<open>2 ^ 31\<close> bytes, whatever the buffer of the context held before: the
  64-bit registers, the circular schedule, the incremental buffering and the padding agree with the
  standard. A longer length is negative as an \<open>int\<close>, and the empty message is hashed instead.
\<close>

theorem sha1_standard:
  assumes "length junk = 64"
  shows "\<exists>h. sha1_hash junk key = Some h \<and>
    bytes32 h = put_be (fips_sha1 (let n = length key mod 2 ^ 32 in if n < 2 ^ 31 then take n key else []) ! 0)"
proof -
  have msg: "length (sha1_message key) < 2 ^ 31"
    by (auto simp: sha1_message_def Let_def)
  obtain ctx where ctx: "sha1_update (sha1_starts junk) key (sint (word_of_nat (length key) :: u32)) = Some ctx"
    "absorbed ctx (sha1_message key)"
    by (rule update_absorbs_message [OF assms])
  define d where "d = fips_sha1 (sha1_message key)"
  have "sha1_process = fips_compress"
    by (intro ext) (rule sha1_process_compress)
  then have out: "sha1_finish ctx = Some (concat (map put_be d))"
    using sha1_finish_pads [OF ctx(2)] msg by (simp add: d_def fips_sha1_def)
  obtain w ws where d: "d = w # ws"
    using length_fips_sha1 [of "sha1_message key"] by (cases d) (auto simp: d_def)
  have "sha1_hash junk key = Some (le32 (ucast (drop_bit 24 w)) (ucast (drop_bit 16 w)) (ucast (drop_bit 8 w)) (ucast w))"
    using ctx(1) out by (simp add: sha1_hash_def sha1_def d put_be_def rd_def)
  moreover have "w = fips_sha1 (sha1_message key) ! 0"
    using d by (simp add: d_def [symmetric])
  ultimately show ?thesis
    unfolding sha1_message_def [symmetric] by (simp add: bytes32_le32 put_be_def)
qed

theorem sha1_standard_witness:
  "\<exists>h. sha1_hash (replicate 64 7) [97, 98, 99] = Some h \<and>
    bytes32 h = put_be (fips_sha1 (let n = length [97, 98, 99 :: byte] mod 2 ^ 32 in
      if n < 2 ^ 31 then take n [97, 98, 99] else []) ! 0)"
  by (rule sha1_standard) simp

end
