(* ===== verification/Sha1_selftest.thy ===== *)
theory Sha1_selftest
  imports Sha1_ref
begin

text \<open>
  The self test of SHA-1 (\<open>lib/hash_func_sha1.c\<close>, built with \<open>XYSSL_SELF_TEST\<close>) and the incremental
  interface it uses: however a message is cut into pieces, the digest is that of the whole.
\<close>

section \<open>Evaluation of the compression function\<close>

text \<open>The steps from \<open>t\<close> on, over the next sixteen words of the schedule.\<close>

function steps_from :: "nat \<Rightarrow> u32 list \<Rightarrow> u32 \<Rightarrow> u32 \<Rightarrow> u32 \<Rightarrow> u32 \<Rightarrow> u32 \<Rightarrow> u32 list" where
  "steps_from t ws a b c d e =
     (if t < 80 then
        steps_from (t + 1) (tl ws @ [word_rotl 1 (ws ! 13 XOR ws ! 8 XOR ws ! 2 XOR ws ! 0)])
          (word_rotl 5 a + fips_f t b c d + e + fips_K t + hd ws) a (word_rotl 30 b) c d
      else [a, b, c, d, e])"
  by pat_completeness auto
termination
  by (relation "measure (\<lambda>(t, _). 80 - t)") auto

declare steps_from.simps [simp del]

lemma steps_from_fold:
  "t \<le> 80 \<Longrightarrow> ws = map (fips_W M) [t ..< t + 16] \<Longrightarrow> steps_from t ws a b c d e =
     (case fold (fips_step M) [t ..< 80] (a, b, c, d, e) of (a, b, c, d, e) \<Rightarrow> [a, b, c, d, e])"
proof (induction t ws a b c d e rule: steps_from.induct)
  case (1 t ws a b c d e)
  show ?case
  proof (cases "t < 80")
    case False
    then show ?thesis
      using "1.prems"(1) by (simp add: steps_from.simps)
  next
    case True
    have nth: "ws ! i = fips_W M (t + i)" if "i < 16" for i
      using that by (simp add: "1.prems"(2))
    have "ws = fips_W M t # map (fips_W M) [t + 1 ..< t + 16]"
      by (simp add: "1.prems"(2) upt_conv_Cons)
    then have hd: "hd ws = fips_W M t" and tl: "tl ws = map (fips_W M) [t + 1 ..< t + 16]"
      by simp_all
    have "fips_W M (t + 16) = word_rotl 1 (fips_W M (t + 13) XOR fips_W M (t + 8) XOR fips_W M (t + 2) XOR fips_W M t)"
      by (subst fips_W.simps) (simp add: numeral_eq_Suc)
    then have "tl ws @ [word_rotl 1 (ws ! 13 XOR ws ! 8 XOR ws ! 2 XOR ws ! 0)] = map (fips_W M) [t + 1 ..< t + 1 + 16]"
      by (simp add: tl nth upt_Suc_append [of "t + 1" "t + 16", simplified])
    note IH = "1.IH" [OF True _ this]
    have "[t ..< 80] = t # [t + 1 ..< 80]"
      using True by (simp add: upt_conv_Cons)
    moreover have "fips_step M t (a, b, c, d, e) =
        (word_rotl 5 a + fips_f t b c d + e + fips_K t + hd ws, a, word_rotl 30 b, c, d)"
      by (simp add: fips_step_def hd)
    ultimately show ?thesis
      using True IH by (subst steps_from.simps) simp
  qed
qed

lemma fips_compress_eval:
  "fips_compress H M = map2 (+) [H ! 0, H ! 1, H ! 2, H ! 3, H ! 4]
     (steps_from 0 (map (\<lambda>i. be32 M (4 * i)) [0 ..< 16]) (H ! 0) (H ! 1) (H ! 2) (H ! 3) (H ! 4))"
proof -
  have "map (\<lambda>i. be32 M (4 * i)) [0 ..< 16] = map (fips_W M) [0 ..< 0 + 16]"
    by (simp add: fips_W.simps)
  from steps_from_fold [OF _ this] show ?thesis
    by (simp add: fips_compress_def split: prod.split)
qed

lemma word_rotl_eval:
  "n < 32 \<Longrightarrow> word_rotl n (x :: u32) = push_bit n (take_bit (32 - n) x) OR drop_bit (32 - n) (take_bit 32 x)"
proof (rule bit_word_eqI)
  assume n: "n < 32"
  have idx: "(i + 32 - n) mod 32 = (if n \<le> i then i - n else 32 + i - n)" if "i < 32" for i
    using n that by (auto simp: mod_if)
  show "bit (word_rotl n x) i = bit (push_bit n (take_bit (32 - n) x) OR drop_bit (32 - n) (take_bit 32 x)) i"
    if "i < LENGTH(32)" for i
    using that n idx [of i] by (auto simp: bit_simps bit_word_rotl_iff)
qed

lemmas steps_eval = steps_from.simps [of 0] steps_from.simps [of "Suc 0"]
  steps_from.simps [of "numeral n" for n] numeral_2_eq_2 [symmetric] fips_f_def fips_K_def word_rotl_eval

section \<open>Pieces of a message\<close>

text \<open>The loop of the caller of the incremental interface.\<close>

fun updates :: "sha1_context \<Rightarrow> byte list list \<Rightarrow> sha1_context option" where
  "updates ctx [] = Some ctx"
| "updates ctx (piece # pieces) = do {
     ctx \<leftarrow> sha1_update ctx piece (int (length piece));
     updates ctx pieces
   }"

lemma updates_absorb:
  assumes "absorbed ctx p" and "length p + length (concat pieces) < 2 ^ 32"
  shows "\<exists>ctx'. updates ctx pieces = Some ctx' \<and> absorbed ctx' (p @ concat pieces)"
  using assms
proof (induction pieces arbitrary: ctx p)
  case Nil
  then show ?case by simp
next
  case (Cons piece pieces)
  obtain ctx1 where 1: "sha1_update ctx piece (int (length piece)) = Some ctx1" "absorbed ctx1 (p @ piece)"
  proof (cases "piece = []")
    case True
    then show thesis
      using that [of ctx] Cons.prems(1) by (simp add: sha1_update_def)
  next
    case False
    then show thesis
      using that sha1_update_absorbs [OF Cons.prems(1), of "length piece" piece] Cons.prems(2) by auto
  qed
  obtain ctx2 where "updates ctx1 pieces = Some ctx2" "absorbed ctx2 ((p @ piece) @ concat pieces)"
    using Cons.IH [OF 1(2)] Cons.prems(2) by auto
  then show ?case
    using 1(1) by simp
qed

text \<open>The digest of the standard as bytes.\<close>

definition fips_digest :: "byte list \<Rightarrow> byte list" where
  "fips_digest p = concat (map put_be (fips_sha1 p))"

lemma finish_digest:
  assumes "absorbed ctx p" and "length p + 72 < 2 ^ 32"
  shows "sha1_finish ctx = Some (fips_digest p)"
proof -
  have "sha1_process = fips_compress"
    by (intro ext) (rule sha1_process_compress)
  then show ?thesis
    using sha1_finish_pads [OF assms] by (simp add: fips_digest_def fips_sha1_def)
qed

section \<open>The self test\<close>

definition abc :: "byte list" where
  "abc = [97, 98, 99]"

definition abc56 :: "byte list" where
  "abc56 =
    [97, 98, 99, 100, 98, 99, 100, 101, 99, 100, 101, 102, 100, 101, 102, 103, 101, 102, 103,
     104, 102, 103, 104, 105, 103, 104, 105, 106, 104, 105, 106, 107, 105, 106, 107, 108,
     106, 107, 108, 109, 107, 108, 109, 110, 108, 109, 110, 111, 109, 110, 111, 112, 110,
     111, 112, 113]"

definition sha1_test_str :: "byte list list" where
  "sha1_test_str = [abc @ replicate 54 0, abc56 @ [0], replicate 57 0]"

definition sha1_test_sum :: "byte list list" where
  "sha1_test_sum = [
     [0xA9, 0x99, 0x3E, 0x36, 0x47, 0x06, 0x81, 0x6A, 0xBA, 0x3E, 0x25, 0x71, 0x78, 0x50,
      0xC2, 0x6C, 0x9C, 0xD0, 0xD8, 0x9D],
     [0x84, 0x98, 0x3E, 0x44, 0x1C, 0x3B, 0xD2, 0x6E, 0xBA, 0xAE, 0x4A, 0xA1, 0xF9, 0x51,
      0x29, 0xE5, 0xE5, 0x46, 0x70, 0xF1],
     [0x34, 0xAA, 0x97, 0x3C, 0xD4, 0xC4, 0xDA, 0xA4, 0xF6, 0x1E, 0xEB, 0x2B, 0xDB, 0xAD,
      0x27, 0x31, 0x65, 0x34, 0x01, 0x6F]]"

text \<open>The loop over \<open>j\<close>, which passes the whole buffer each time.\<close>

fun update_times :: "nat \<Rightarrow> byte list \<Rightarrow> sha1_context \<Rightarrow> sha1_context option" where
  "update_times 0 buf ctx = Some ctx"
| "update_times (Suc j) buf ctx = do { ctx \<leftarrow> sha1_update ctx buf 1000; update_times j buf ctx }"

text \<open>
  The loop over \<open>i\<close> without its messages: \<open>sha1_starts\<close> resets the counters and the registers;
  \<open>junk i\<close> is what the buffer of the context holds then.
\<close>

fun self_test_loop :: "(nat \<Rightarrow> nat \<Rightarrow> byte) \<Rightarrow> nat list \<Rightarrow> int option" where
  "self_test_loop junk [] = Some 0"
| "self_test_loop junk (i # is) = do {
     let ctx = sha1_starts (map (junk i) [0 ..< 64]);
     ctx \<leftarrow> (if i < 2 then do {
         str \<leftarrow> rd sha1_test_str i;
         len \<leftarrow> strlen str;
         sha1_update ctx str (int len)
       } else update_times 1000 (replicate 1000 97) ctx);
     sha1sum \<leftarrow> sha1_finish ctx;
     expected \<leftarrow> rd sha1_test_sum i;
     if sha1sum \<noteq> expected then Some 1 else self_test_loop junk is
   }"

definition sha1_self_test :: "(nat \<Rightarrow> nat \<Rightarrow> byte) \<Rightarrow> int option" where
  "sha1_self_test junk = self_test_loop junk [0 ..< 3]"

lemma update_times_updates:
  "length buf = 1000 \<Longrightarrow> update_times n buf ctx = updates ctx (replicate n buf)"
  by (induction n arbitrary: ctx) (auto intro: Option.bind_cong)

lemma blocks64_one: "length p = 64 \<Longrightarrow> blocks64 p = [p]"
  by (simp add: blocks64.simps [of p] blocks64_short)

lemma blocks64_two: "length p = 64 \<Longrightarrow> length q = 64 \<Longrightarrow> blocks64 (p @ q) = [p, q]"
  by (simp add: blocks64.simps [of "p @ q"] blocks64_one)

definition abc_block :: "byte list" where
  "abc_block = [97, 98, 99, 0x80] @ replicate 59 0 @ [24]"

lemma abc_words:
  "map (\<lambda>i. be32 abc_block (4 * i)) [0 ..< 16] = [0x61626380, 0, 0, 0, 0, 0, 0, 0, 0, 0, 0, 0, 0, 0, 0, 24]"
  by (simp add: abc_block_def be32_def upt_conv_Cons nth_append)

lemma abc_compress:
  "fips_compress sha1_iv abc_block = [0xA9993E36, 0x4706816A, 0xBA3E2571, 0x7850C26C, 0x9CD0D89D]"
  unfolding fips_compress_eval abc_words sha1_iv_def by (simp add: steps_eval)

lemma zeros:
  "replicate n 0 @ [0, 0, 0, 0, 0, 0] = replicate (n + 6) (0 :: byte)"
  "replicate n 0 @ [0, 0, 0, 0, 0, 0, 0] = replicate (n + 7) (0 :: byte)"
proof -
  have "[0, 0, 0, 0, 0, 0] = replicate 6 (0 :: byte)" "[0, 0, 0, 0, 0, 0, 0] = replicate 7 (0 :: byte)"
    by (simp_all add: numeral_eq_Suc)
  then show "replicate n 0 @ [0, 0, 0, 0, 0, 0] = replicate (n + 6) (0 :: byte)"
    "replicate n 0 @ [0, 0, 0, 0, 0, 0, 0] = replicate (n + 7) (0 :: byte)"
    by (simp_all only: replicate_add)
qed

lemma abc_pad: "fips_pad abc = abc_block"
  using zeros(2) [of 52]
  by (simp add: fips_pad_def abc_def abc_block_def put_be_def replicate_append_same)

lemma abc_digest: "fips_digest abc = sha1_test_sum ! 0"
proof -
  have "length abc_block = 64"
    by (simp add: abc_block_def)
  then have "fips_sha1 abc = fips_compress sha1_iv abc_block"
    by (simp add: fips_sha1_def abc_pad blocks64_one)
  then show ?thesis
    unfolding fips_digest_def abc_compress by (simp add: put_be_def sha1_test_sum_def)
qed

definition abc56_block :: "byte list" where
  "abc56_block = abc56 @ 0x80 # replicate 7 0"

definition len_block :: "byte list" where
  "len_block = replicate 62 0 @ [1, 0xC0]"

lemma abc56_words:
  "map (\<lambda>i. be32 abc56_block (4 * i)) [0 ..< 16] =
     [0x61626364, 0x62636465, 0x63646566, 0x64656667, 0x65666768, 0x66676869, 0x6768696A, 0x68696A6B, 0x696A6B6C, 0x6A6B6C6D, 0x6B6C6D6E, 0x6C6D6E6F, 0x6D6E6F70, 0x6E6F7071, 0x80000000, 0]"
  "map (\<lambda>i. be32 len_block (4 * i)) [0 ..< 16] = [0, 0, 0, 0, 0, 0, 0, 0, 0, 0, 0, 0, 0, 0, 0, 448]"
  by (simp_all add: abc56_block_def abc56_def len_block_def be32_def upt_conv_Cons nth_append)

lemma abc56_compress_1:
  "fips_compress sha1_iv abc56_block = [0xF4286818, 0xC37B27AE, 0x0408F581, 0x84677148, 0x4A566572]"
  unfolding fips_compress_eval abc56_words sha1_iv_def by (simp add: steps_eval)

lemma abc56_compress_2:
  "fips_compress [0xF4286818, 0xC37B27AE, 0x0408F581, 0x84677148, 0x4A566572] len_block =
     [0x84983E44, 0x1C3BD26E, 0xBAAE4AA1, 0xF95129E5, 0xE54670F1]"
  unfolding fips_compress_eval abc56_words by (simp add: steps_eval)

lemma length_abc56 [simp]: "length abc56 = 56"
  by (simp add: abc56_def)

lemma abc56_pad: "fips_pad abc56 = abc56_block @ len_block"
  using zeros(1) [of 63] replicate_add [of 7 62 "0 :: byte"]
  by (simp add: fips_pad_def abc56_block_def len_block_def put_be_def)

lemma abc56_digest: "fips_digest abc56 = sha1_test_sum ! 1"
proof -
  have "length abc56_block = 64" "length len_block = 64"
    by (simp_all add: abc56_block_def len_block_def)
  then have "fips_sha1 abc56 = fips_compress (fips_compress sha1_iv abc56_block) len_block"
    by (simp add: fips_sha1_def abc56_pad blocks64_two)
  then show ?thesis
    unfolding fips_digest_def abc56_compress_1 abc56_compress_2 by (simp add: put_be_def sha1_test_sum_def)
qed

text \<open>The million of \<open>a\<close>s of the third test.\<close>

definition million_a :: "byte list" where
  "million_a = concat (replicate 1000 (replicate 1000 97))"

lemma concat_replicate_const: "concat (replicate n (replicate m x)) = replicate (n * m) x"
  by (induction n) (simp_all add: replicate_add)

lemma length_million: "length million_a = 1000000"
  by (simp add: million_a_def concat_replicate_const)

lemma set_million: "set million_a = {97}"
  by (simp add: million_a_def concat_replicate_const)

lemma test_digest:
  assumes "length junk = 64"
  shows "\<exists>ctx. sha1_update (sha1_starts junk) (abc @ replicate 54 0) 3 = Some ctx \<and>
      sha1_finish ctx = Some (fips_digest abc)"
    and "\<exists>ctx. sha1_update (sha1_starts junk) (abc56 @ [0]) 56 = Some ctx \<and>
      sha1_finish ctx = Some (fips_digest abc56)"
    and "\<exists>ctx. update_times 1000 (replicate 1000 97) (sha1_starts junk) = Some ctx \<and>
      sha1_finish ctx = Some (fips_digest million_a)"
proof -
  note start = starts_absorbed [OF assms]
  have "take 3 (abc @ replicate 54 0) = abc" "take 56 (abc56 @ [0]) = abc56"
    by (simp_all add: abc_def)
  then show "\<exists>ctx. sha1_update (sha1_starts junk) (abc @ replicate 54 0) 3 = Some ctx \<and>
      sha1_finish ctx = Some (fips_digest abc)"
    "\<exists>ctx. sha1_update (sha1_starts junk) (abc56 @ [0]) 56 = Some ctx \<and>
      sha1_finish ctx = Some (fips_digest abc56)"
    using sha1_update_absorbs [OF start, of 3 "abc @ replicate 54 0"]
      sha1_update_absorbs [OF start, of 56 "abc56 @ [0]"] finish_digest [of _ abc] finish_digest [of _ abc56]
    by (auto simp: abc_def)
  obtain ctx where "updates (sha1_starts junk) (replicate 1000 (replicate 1000 97)) = Some ctx"
    "absorbed ctx million_a"
    using updates_absorb [OF start, of "replicate 1000 (replicate 1000 97)"] length_million
    by (auto simp: million_a_def)
  then show "\<exists>ctx. update_times 1000 (replicate 1000 97) (sha1_starts junk) = Some ctx \<and>
      sha1_finish ctx = Some (fips_digest million_a)"
    using finish_digest [of ctx million_a] length_million by (simp add: update_times_updates)
qed

text \<open>
  Wherever a message of less than \<open>2 ^ 32 - 72\<close> bytes is cut, the incremental operations
  give the digest of the standard for the whole message.
\<close>

lemma sha1_incremental:
  assumes "length junk = 64" and "length (concat pieces) + 72 < 2 ^ 32"
  shows "do { ctx \<leftarrow> updates (sha1_starts junk) pieces; sha1_finish ctx } = Some (fips_digest (concat pieces))"
proof -
  obtain ctx where "updates (sha1_starts junk) pieces = Some ctx" "absorbed ctx (concat pieces)"
    using updates_absorb [OF starts_absorbed [OF assms(1)], of pieces] assms(2) by auto
  then show ?thesis
    using finish_digest [of ctx "concat pieces"] assms(2) by simp
qed

lemma strlen_tests: "strlen (abc @ replicate 54 0) = Some 3" "strlen (abc56 @ [0]) = Some 56"
  by (simp_all add: strlen_def abc_def abc56_def)

text \<open>
  C25. The self test is defined, whatever the buffer of its context holds. Its first two tests
  pass, on the messages of one and of two blocks; so it succeeds exactly when its last digest is
  that of the standard for a million times the letter a.
\<close>

theorem sha1_self_test_result:
  "sha1_self_test junk = Some (if fips_digest million_a = sha1_test_sum ! 2 then 0 else 1) \<and>
   length million_a = 1000000 \<and> set million_a = {97}"
proof -
  have nth: "rd sha1_test_str 0 = Some (abc @ replicate 54 0)" "rd sha1_test_str 1 = Some (abc56 @ [0])"
    "i < 3 \<Longrightarrow> rd sha1_test_sum i = Some (sha1_test_sum ! i)" for i
    by (simp_all add: sha1_test_str_def sha1_test_sum_def rd_def)
  have upt: "[0 ..< 3] = [0, 1, 2 :: nat]"
    by (simp add: upt_conv_Cons)
  have junk: "length (map (junk i) [0 ..< 64]) = 64" for i
    by simp
  obtain c0 c1 c2 where c: "sha1_update (sha1_starts (map (junk 0) [0 ..< 64])) (abc @ replicate 54 0) 3 = Some c0"
    "sha1_finish c0 = Some (sha1_test_sum ! 0)"
    "sha1_update (sha1_starts (map (junk 1) [0 ..< 64])) (abc56 @ [0]) 56 = Some c1"
    "sha1_finish c1 = Some (sha1_test_sum ! 1)"
    "update_times 1000 (replicate 1000 97) (sha1_starts (map (junk 2) [0 ..< 64])) = Some c2"
    "sha1_finish c2 = Some (fips_digest million_a)"
    using test_digest(1) [OF junk [of 0]] test_digest(2) [OF junk [of 1]] test_digest(3) [OF junk [of 2]]
    unfolding abc_digest abc56_digest by blast
  have "sha1_self_test junk = Some (if fips_digest million_a = sha1_test_sum ! 2 then 0 else 1)"
    unfolding sha1_self_test_def upt self_test_loop.simps Let_def
    by (simp add: nth strlen_tests c del: update_times.simps One_nat_def)
  then show ?thesis
    by (simp add: length_million set_million)
qed

end
