(* ===== verification/Skein_loop.thy ===== *)
theory Skein_loop
  imports Hash_skein256
begin

text \<open>
  The other build of the block function of Skein-256 (\<open>SKEIN_UNROLL_256 > 0\<close> in
  \<open>lib/hash_func_skein256.c\<close>), in which the rounds are a loop and the key schedule is a sliding
  window over one array, and the macros for the fields of the tweak and of the tree information.
\<close>

section \<open>The looping version\<close>

text \<open>
  One array \<open>kw\<close> holds both schedules: \<open>ts\<close> starts at its element 0 and \<open>ks\<close> at its element 3, so
  that \<open>ts[3]\<close> is \<open>ks[0]\<close>. An access at a computed index is guarded.
\<close>

definition KW_KEY_BASE :: nat where "KW_KEY_BASE = 3"

definition RCNT :: nat where "RCNT = SKEIN_256_ROUNDS_TOTAL div 8"

definition wr :: "'a list \<Rightarrow> nat \<Rightarrow> 'a \<Rightarrow> 'a list option" where
  "wr xs i x = (if i < length xs then Some (xs[i := x]) else None)"

text \<open>
  The injection of the looping version. The oldest key word moves to the front of the window
  before its place is taken by a tweak word.
\<close>

definition I256_loop :: "nat \<Rightarrow> nat \<Rightarrow> u64 list \<times> u64 list \<Rightarrow> (u64 list \<times> u64 list) option" where
  "I256_loop r R = (\<lambda>(kw, X). do {
     k0 \<leftarrow> rd kw (KW_KEY_BASE + (r + R + 0));
     let X = X[0 := X ! 0 + k0];
     k1 \<leftarrow> rd kw (KW_KEY_BASE + (r + R + 1)); t0 \<leftarrow> rd kw (r + R + 0);
     let X = X[1 := X ! 1 + (k1 + t0)];
     k2 \<leftarrow> rd kw (KW_KEY_BASE + (r + R + 2)); t1 \<leftarrow> rd kw (r + R + 1);
     let X = X[2 := X ! 2 + (k2 + t1)];
     k3 \<leftarrow> rd kw (KW_KEY_BASE + (r + R + 3));
     let X = X[3 := X ! 3 + (k3 + word_of_nat r + word_of_nat R)];
     k \<leftarrow> rd kw (KW_KEY_BASE + (r + R - 1)); kw \<leftarrow> wr kw (KW_KEY_BASE + (r + R + 4)) k;
     t \<leftarrow> rd kw (r + R - 1); kw \<leftarrow> wr kw (r + R + 2) t;
     Some (kw, X)
   })"

definition R256_8_rounds_loop ::
  "nat \<Rightarrow> nat \<Rightarrow> u64 list \<times> u64 list \<Rightarrow> (u64 list \<times> u64 list) option" where
  "R256_8_rounds_loop r R = (\<lambda>(kw, X). do {
     let X = Round256 0 1 2 3 R_256_0 X;
     let X = Round256 0 3 2 1 R_256_1 X;
     let X = Round256 0 1 2 3 R_256_2 X;
     let X = Round256 0 3 2 1 R_256_3 X;
     (kw, X) \<leftarrow> I256_loop r (2 * R) (kw, X);
     let X = Round256 0 1 2 3 R_256_4 X;
     let X = Round256 0 3 2 1 R_256_5 X;
     let X = Round256 0 1 2 3 R_256_6 X;
     let X = Round256 0 3 2 1 R_256_7 X;
     I256_loop r (2 * R + 1) (kw, X)
   })"

text \<open>The lines \<open>R256_8_rounds(0)\<close>, \<open>R256_8_rounds(1)\<close>, ... that the preprocessor keeps.\<close>

fun unrolled :: "nat \<Rightarrow> nat list \<Rightarrow> u64 list \<times> u64 list \<Rightarrow> (u64 list \<times> u64 list) option" where
  "unrolled r [] s = Some s"
| "unrolled r (R # Rs) s = do { s \<leftarrow> R256_8_rounds_loop r R s; unrolled r Rs s }"

text \<open>
  \<open>for (r = 1; r < 2 * RCNT; r += 2 * SKEIN_UNROLL_256)\<close>, compiled only when \<open>SKEIN_UNROLL_256\<close>
  (here \<open>U\<close>) is not 0.
\<close>

function rounds_loop :: "nat \<Rightarrow> nat \<Rightarrow> u64 list \<times> u64 list \<Rightarrow> (u64 list \<times> u64 list) option" where
  "rounds_loop U r s =
     (if U \<noteq> 0 \<and> r < 2 * RCNT then do { s \<leftarrow> unrolled r [0 ..< U] s; rounds_loop U (r + 2 * U) s }
      else Some s)"
  by pat_completeness auto
termination
  by (relation "measure (\<lambda>(U, r, s). 2 * RCNT - r)") auto

declare rounds_loop.simps [simp del]

text \<open>The body of the loop over the blocks, with the array that the next block finds.\<close>

definition block256_loop ::
  "nat \<Rightarrow> u64 list \<Rightarrow> u64 list \<Rightarrow> nat \<Rightarrow> byte list \<Rightarrow> (u64 list \<times> u64 list) option" where
  "block256_loop U kw cX byteCntAdd blk =
     (let kw = kw[0 := kw ! 0 + word_of_nat byteCntAdd];
          kw = kw[3 := cX ! 0, 4 := cX ! 1, 5 := cX ! 2, 6 := cX ! 3];
          kw = kw[7 := kw ! 3 XOR kw ! 4 XOR kw ! 5 XOR kw ! 6 XOR SKEIN_KS_PARITY];
          kw = kw[2 := kw ! 0 XOR kw ! 1];
          w = Skein_Get64_LSB_First blk 4;
          X = [w ! 0 + kw ! 3, w ! 1 + kw ! 4 + kw ! 0, w ! 2 + kw ! 5 + kw ! 1, w ! 3 + kw ! 6]
      in do {
        (kw, X) \<leftarrow> rounds_loop U 1 (kw, X);
        Some (kw[1 := kw ! 1 AND NOT SKEIN_T1_FLAG_FIRST],
          [X ! 0 XOR w ! 0, X ! 1 XOR w ! 1, X ! 2 XOR w ! 2, X ! 3 XOR w ! 3])
      })"

fun blocks_loop :: "nat \<Rightarrow> u64 list \<Rightarrow> u64 list \<Rightarrow> byte list \<Rightarrow> nat \<Rightarrow> nat \<Rightarrow> (u64 list \<times> u64 list) option" where
  "blocks_loop U kw cX blkPtr 0 byteCntAdd = None"
| "blocks_loop U kw cX blkPtr (Suc blkCnt) byteCntAdd =
     (if length blkPtr < 32 then None
      else do {
        (kw, cX) \<leftarrow> block256_loop U kw cX byteCntAdd blkPtr;
        if blkCnt = 0 then Some (kw, cX)
        else blocks_loop U kw cX (drop 32 blkPtr) blkCnt byteCntAdd
      })"

text \<open>\<open>Skein_256_Process_Block\<close> of this build; \<open>junk\<close> is what the local array holds at first.\<close>

definition Process_Block_loop ::
  "nat \<Rightarrow> (nat \<Rightarrow> u64) \<Rightarrow> Skein_256_Ctxt \<Rightarrow> byte list \<Rightarrow> nat \<Rightarrow> nat \<Rightarrow> Skein_256_Ctxt option" where
  "Process_Block_loop U junk ctx blkPtr blkCnt byteCntAdd = do {
     let kw = map junk [0 ..< 4 + 4 + RCNT * 2];
     (kw, cX) \<leftarrow> blocks_loop U (kw[0 := T0 ctx, 1 := T1 ctx]) (ctxX ctx) blkPtr blkCnt byteCntAdd;
     Some (ctx\<lparr>ctxX := cX, T0 := kw ! 0, T1 := kw ! 1\<rparr>)
   }"

section \<open>The window over the key schedule\<close>

text \<open>
  After \<open>m\<close> injections the array holds, from its element \<open>m\<close> on, three tweak words and five key
  words; its first two elements are still the tweak.
\<close>

definition window :: "u64 list \<Rightarrow> u64 list \<Rightarrow> nat \<Rightarrow> u64 list \<Rightarrow> bool" where
  "window ks ts m kw \<longleftrightarrow> length kw = 8 + 2 * RCNT \<and> kw ! 0 = ts ! 0 \<and> kw ! 1 = ts ! 1 \<and>
     (\<forall>i < 3. kw ! (m + i) = ts ! ((m + i) mod 3)) \<and>
     (\<forall>i < 5. kw ! (m + 3 + i) = ks ! ((m + i) mod 5))"

lemma window_rd:
  assumes "window ks ts m kw" and "m < 2 * RCNT"
  shows "i < 3 \<Longrightarrow> rd kw (m + i) = Some (ts ! ((m + i) mod 3))"
    and "i < 5 \<Longrightarrow> rd kw (m + 3 + i) = Some (ks ! ((m + i) mod 5))"
  using assms by (simp_all add: window_def rd_def)

lemma window_step:
  assumes win: "window ks ts m kw" and "m < 2 * RCNT"
  shows "window ks ts (m + 1) (kw[m + 8 := ks ! (m mod 5), m + 3 := ts ! (m mod 3)])"
    (is "window _ _ _ ?kw")
proof -
  have "?kw ! (m + 1 + i) = ts ! ((m + 1 + i) mod 3)" if "i < 3" for i
  proof (cases "i = 2")
    case True
    have "(m + 3) mod 3 = m mod 3" by simp
    moreover have "m + 1 + i = m + 3"
      using True by simp
    ultimately show ?thesis
      using win \<open>m < 2 * RCNT\<close> by (simp only: window_def) simp
  next
    case False
    then have "i + 1 < 3" using that by simp
    then have "kw ! (m + (i + 1)) = ts ! ((m + (i + 1)) mod 3)"
      using win by (simp only: window_def)
    then show ?thesis
      using \<open>i + 1 < 3\<close> by (simp add: add.assoc)
  qed
  moreover have "?kw ! (m + 1 + 3 + i) = ks ! ((m + 1 + i) mod 5)" if "i < 5" for i
  proof (cases "i = 4")
    case True
    have "(m + 5) mod 5 = m mod 5" by simp
    moreover have "m + 1 + 3 + i = m + 8" "m + 1 + i = m + 5"
      using True by simp_all
    ultimately show ?thesis
      using win \<open>m < 2 * RCNT\<close> by (simp only: window_def) simp
  next
    case False
    then have "i + 1 < 5" using that by simp
    then have "kw ! (m + 3 + (i + 1)) = ks ! ((m + (i + 1)) mod 5)"
      using win by (simp only: window_def)
    then show ?thesis
      using \<open>i + 1 < 5\<close> by (simp add: ac_simps)
  qed
  ultimately show ?thesis
    using win by (simp add: window_def)
qed

lemma inject_loop:
  assumes win: "window ks ts m kw" and "m < 2 * RCNT" and rR: "r + R = m + 1"
  shows "\<exists>kw'. I256_loop r R (kw, X) = Some (kw', I256 ks ts m X) \<and> window ks ts (m + 1) kw'"
proof -
  have reads: "rd kw (m + 1) = Some (ts ! ((m + 1) mod 3))" "rd kw (m + 2) = Some (ts ! ((m + 2) mod 3))"
    "rd kw (m + 3 + 1) = Some (ks ! ((m + 1) mod 5))"
    "rd kw (m + 3 + 2) = Some (ks ! ((m + 2) mod 5))" "rd kw (m + 3 + 3) = Some (ks ! ((m + 3) mod 5))"
    "rd kw (m + 3 + 4) = Some (ks ! ((m + 4) mod 5))"
    by (rule window_rd [OF win \<open>m < 2 * RCNT\<close>], simp)+
  have read0: "rd kw (m + 3) = Some (ks ! (m mod 5))"
    using window_rd(2) [OF win \<open>m < 2 * RCNT\<close>, of 0] by simp
  have idx: "r + R + 0 = m + 1" "r + R + 1 = m + 2" "r + R + 2 = m + 3" "r + R + 3 = m + 4"
    "r + R + 4 = m + 5" "r + R - 1 = m" "KW_KEY_BASE + m = m + 3" "KW_KEY_BASE + (m + 1) = m + 3 + 1"
    "KW_KEY_BASE + (m + 2) = m + 3 + 2" "KW_KEY_BASE + (m + 3) = m + 3 + 3"
    "KW_KEY_BASE + (m + 4) = m + 3 + 4" "KW_KEY_BASE + (m + 5) = m + 8"
    using rR by (simp_all add: KW_KEY_BASE_def)
  have len: "m + 8 < length kw"
    using win \<open>m < 2 * RCNT\<close> by (simp add: window_def)
  have store: "wr kw (m + 8) x = Some (kw[m + 8 := x])" "rd (kw[m + 8 := x]) m = Some (ts ! (m mod 3))"
    "wr (kw[m + 8 := x]) (m + 3) y = Some (kw[m + 8 := x, m + 3 := y])" for x y
    using len window_rd(1) [OF win \<open>m < 2 * RCNT\<close>, of 0] by (simp_all add: wr_def rd_update)
  have num: "word_of_nat r + word_of_nat R = (word_of_nat m + 1 :: u64)"
    using rR by (metis of_nat_add of_nat_1)
  have X3: "x + (k + word_of_nat r + word_of_nat R) = x + (k + word_of_nat m + 1)" for x k :: u64
    by (simp only: add.assoc num)
  have "I256_loop r R (kw, X) = Some (kw[m + 8 := ks ! (m mod 5), m + 3 := ts ! (m mod 3)], I256 ks ts m X)"
    unfolding I256_loop_def prod.case idx
    by (simp only: reads read0 store bind.bind_lunit Let_def I256_def X3)
  then show ?thesis
    using window_step [OF win \<open>m < 2 * RCNT\<close>] by blast
qed

lemma rounds_step:
  assumes "window ks ts (2 * j) kw" and "j < RCNT" and "r + 2 * R = 2 * j + 1"
  shows "\<exists>kw'. R256_8_rounds_loop r R (kw, X) = Some (kw', R256_8_rounds ks ts j X) \<and>
    window ks ts (2 * (j + 1)) kw'"
proof -
  let ?X = "Round256 0 3 2 1 R_256_3 (Round256 0 1 2 3 R_256_2 (Round256 0 3 2 1 R_256_1
    (Round256 0 1 2 3 R_256_0 X)))"
  let ?R = "\<lambda>X. Round256 0 3 2 1 R_256_7 (Round256 0 1 2 3 R_256_6 (Round256 0 3 2 1 R_256_5
    (Round256 0 1 2 3 R_256_4 X)))"
  obtain kw1 where 1: "I256_loop r (2 * R) (kw, ?X) = Some (kw1, I256 ks ts (2 * j) ?X)"
    "window ks ts (2 * j + 1) kw1"
    using inject_loop [OF assms(1)] assms(2,3) by fastforce
  let ?X1 = "?R (I256 ks ts (2 * j) ?X)"
  obtain kw2 where 2: "I256_loop r (2 * R + 1) (kw1, ?X1) = Some (kw2, I256 ks ts (2 * j + 1) ?X1)"
    "window ks ts (2 * j + 1 + 1) kw2"
    using inject_loop [OF 1(2), of r "2 * R + 1" ?X1] assms(2,3) by auto
  have "R256_8_rounds_loop r R (kw, X) = Some (kw2, R256_8_rounds ks ts j X)"
    unfolding R256_8_rounds_loop_def R256_8_rounds_def Let_def prod.case
    by (simp only: 1(1) 2(1) bind.bind_lunit prod.case)
  then show ?thesis
    using 2(2) by simp
qed

lemma unrolled_step:
  assumes "window ks ts (2 * j) kw" and "j + n \<le> RCNT" and "r + 2 * R = 2 * j + 1"
  shows "\<exists>kw'. unrolled r [R ..< R + n] (kw, X) =
      Some (kw', fold (R256_8_rounds ks ts) [j ..< j + n] X) \<and> window ks ts (2 * (j + n)) kw'"
  using assms
proof (induction n arbitrary: j R kw X)
  case 0
  then show ?case by simp
next
  case (Suc n)
  obtain kw1 where 1: "R256_8_rounds_loop r R (kw, X) = Some (kw1, R256_8_rounds ks ts j X)"
    "window ks ts (2 * (j + 1)) kw1"
    using rounds_step [OF Suc.prems(1) _ Suc.prems(3)] Suc.prems(2) by auto
  have split: "[R ..< R + Suc n] = R # [R + 1 ..< R + 1 + n]" "[j ..< j + Suc n] = j # [j + 1 ..< j + 1 + n]"
    by (simp_all add: upt_conv_Cons)
  have le: "j + 1 + n \<le> RCNT" "r + 2 * (R + 1) = 2 * (j + 1) + 1"
    using Suc.prems(2,3) by simp_all
  obtain kw2 where "unrolled r [R + 1 ..< R + 1 + n] (kw1, R256_8_rounds ks ts j X) =
      Some (kw2, fold (R256_8_rounds ks ts) [j + 1 ..< j + 1 + n] (R256_8_rounds ks ts j X))"
    "window ks ts (2 * (j + 1 + n)) kw2"
    using Suc.IH [OF 1(2) le] by blast
  then show ?case
    unfolding split using 1(1) by (intro exI [of _ kw2]) simp
qed

lemma rounds_loop_eq:
  assumes "window ks ts (2 * j) kw" and "U dvd RCNT - j" and "j \<le> RCNT" and "U \<noteq> 0"
  shows "\<exists>kw'. rounds_loop U (2 * j + 1) (kw, X) =
      Some (kw', fold (R256_8_rounds ks ts) [j ..< RCNT] X) \<and> window ks ts (2 * RCNT) kw'"
  using assms
proof (induction "RCNT - j" arbitrary: j kw X rule: less_induct)
  case less
  show ?case
  proof (cases "j = RCNT")
    case True
    then show ?thesis
      using less.prems by (simp add: rounds_loop.simps)
  next
    case False
    then have U: "U \<le> RCNT - j"
      using less.prems by (intro dvd_imp_le) auto
    have le: "j + U \<le> RCNT" "2 * j + 1 + 2 * 0 = 2 * j + 1" "RCNT - (j + U) < RCNT - j" "j < RCNT"
      using U False less.prems(3,4) by simp_all
    obtain kw1 where 1: "unrolled (2 * j + 1) [0 ..< U] (kw, X) =
        Some (kw1, fold (R256_8_rounds ks ts) [j ..< j + U] X)" "window ks ts (2 * (j + U)) kw1"
      using unrolled_step [OF less.prems(1) le(1,2)] unfolding add_0 by blast
    have dvd: "U dvd RCNT - (j + U)"
      using less.prems(2) U by (metis diff_diff_left dvd_diff_nat dvd_refl)
    obtain kw2 where 2: "rounds_loop U (2 * (j + U) + 1) (kw1, fold (R256_8_rounds ks ts) [j ..< j + U] X) =
        Some (kw2, fold (R256_8_rounds ks ts) [j + U ..< RCNT] (fold (R256_8_rounds ks ts) [j ..< j + U] X))"
      "window ks ts (2 * RCNT) kw2"
      using less.hyps [OF le(3) 1(2) dvd le(1) less.prems(4)] by blast
    have split: "[j ..< RCNT] = [j ..< j + U] @ [j + U ..< RCNT]"
      using le(1) upt_add_eq_append [of j "j + U" "RCNT - (j + U)"] by simp
    have idx: "2 * j + 1 + 2 * U = 2 * (j + U) + 1" by simp
    show ?thesis
      unfolding split
      using le(4) less.prems(4) 1(1) 2 idx by (subst rounds_loop.simps) simp
  qed
qed

section \<open>Blocks\<close>

lemma less_3_5:
  "(\<forall>i < 3 :: nat. P i) \<longleftrightarrow> P 0 \<and> P 1 \<and> P 2"
  "(\<forall>i < 5 :: nat. P i) \<longleftrightarrow> P 0 \<and> P 1 \<and> P 2 \<and> P 3 \<and> P 4"
proof -
  have less: "i < 3 \<longleftrightarrow> i = 0 \<or> i = 1 \<or> i = 2"
    "i < 5 \<longleftrightarrow> i = 0 \<or> i = 1 \<or> i = 2 \<or> i = 3 \<or> i = 4" for i :: nat
    by auto
  show "(\<forall>i < 3 :: nat. P i) \<longleftrightarrow> P 0 \<and> P 1 \<and> P 2"
    "(\<forall>i < 5 :: nat. P i) \<longleftrightarrow> P 0 \<and> P 1 \<and> P 2 \<and> P 3 \<and> P 4"
    unfolding less by (simp_all only: imp_disjL all_conj_distrib simp_thms)
qed

lemma block_loop:
  assumes "length kw = 8 + 2 * RCNT" and "kw ! 0 = t0" and "kw ! 1 = t1" and "U dvd RCNT"
  shows "\<exists>kw'. block256_loop U kw cX n blk = Some (kw', block256 cX (t0 + word_of_nat n) t1 blk) \<and>
    length kw' = 8 + 2 * RCNT \<and> kw' ! 0 = t0 + word_of_nat n \<and> kw' ! 1 = t1 AND NOT SKEIN_T1_FLAG_FIRST"
proof -
  define t where "t = t0 + word_of_nat n"
  define ks where "ks = [cX ! 0, cX ! 1, cX ! 2, cX ! 3,
    cX ! 0 XOR cX ! 1 XOR cX ! 2 XOR cX ! 3 XOR SKEIN_KS_PARITY]"
  define ts where "ts = [t, t1, t XOR t1]"
  define w where "w = Skein_Get64_LSB_First blk 4"
  define X where "X = [w ! 0 + ks ! 0, w ! 1 + ks ! 1 + ts ! 0, w ! 2 + ks ! 2 + ts ! 1, w ! 3 + ks ! 3]"
  define kw1 where "kw1 = kw[0 := t, 3 := cX ! 0, 4 := cX ! 1, 5 := cX ! 2, 6 := cX ! 3,
    7 := ks ! 4, 2 := t XOR t1]"
  have "RCNT = 9" "U \<noteq> 0"
    using assms(4) by (auto simp: RCNT_def SKEIN_256_ROUNDS_TOTAL_def intro!: Nat.gr0I)
  then have len: "length kw = 26"
    using assms(1) by simp
  have win: "window ks ts (2 * 0) kw1"
    using len assms(3) by (simp add: window_def less_3_5 kw1_def ks_def ts_def \<open>RCNT = 9\<close>)
  obtain kw2 where 2: "rounds_loop U (2 * 0 + 1) (kw1, X) = Some (kw2, fold (R256_8_rounds ks ts) [0 ..< RCNT] X)"
    "window ks ts (2 * RCNT) kw2"
    using rounds_loop_eq [OF win _ _ \<open>U \<noteq> 0\<close>] assms(4) by fastforce
  have "block256_loop U kw cX n blk = Some (kw2[1 := kw2 ! 1 AND NOT SKEIN_T1_FLAG_FIRST], block256 cX t t1 blk)"
    using 2(1) len assms(2,3) unfolding block256_loop_def block256_def Let_def
    by (simp add: t_def ks_def ts_def w_def X_def kw1_def RCNT_def)
  then show ?thesis
    using 2(2) by (auto simp: window_def ts_def t_def \<open>RCNT = 9\<close>)
qed

lemma blocks_loop_eq:
  assumes "U dvd RCNT"
  shows "length kw = 8 + 2 * RCNT \<Longrightarrow> kw ! 0 = T0 ctx \<Longrightarrow> kw ! 1 = T1 ctx \<Longrightarrow>
    map_option (\<lambda>(kw', cX). ctx\<lparr>ctxX := cX, T0 := kw' ! 0, T1 := kw' ! 1\<rparr>)
      (blocks_loop U kw (ctxX ctx) blkPtr blkCnt n) =
    Skein_256_Process_Block ctx blkPtr blkCnt n"
proof (induction blkCnt arbitrary: kw ctx blkPtr)
  case 0
  then show ?case by simp
next
  case (Suc blkCnt)
  obtain kw1 where 1: "block256_loop U kw (ctxX ctx) n blkPtr =
      Some (kw1, block256 (ctxX ctx) (T0 ctx + word_of_nat n) (T1 ctx) blkPtr)"
    "length kw1 = 8 + 2 * RCNT" "kw1 ! 0 = T0 ctx + word_of_nat n"
    "kw1 ! 1 = T1 ctx AND NOT SKEIN_T1_FLAG_FIRST"
    using block_loop [OF Suc.prems assms] by blast
  define ctx1 where "ctx1 = ctx\<lparr>ctxX := block256 (ctxX ctx) (T0 ctx + word_of_nat n) (T1 ctx) blkPtr,
    T0 := T0 ctx + word_of_nat n, T1 := T1 ctx AND NOT SKEIN_T1_FLAG_FIRST\<rparr>"
  have "map_option (\<lambda>(kw', cX). ctx1\<lparr>ctxX := cX, T0 := kw' ! 0, T1 := kw' ! 1\<rparr>)
      (blocks_loop U kw1 (ctxX ctx1) (drop 32 blkPtr) blkCnt n) =
    Skein_256_Process_Block ctx1 (drop 32 blkPtr) blkCnt n"
    using 1 by (intro Suc.IH) (simp_all add: ctx1_def)
  then show ?case
    using 1 by (simp add: ctx1_def Let_def)
qed

text \<open>
  C34. Every build of the block function with looping rounds, 1, 3 or 9 passes of eight rounds
  unrolled in the body, computes what the default build computes, whatever the array held at first:
  the sliding window stays inside the array and, although the tweak schedule overwrites the key
  schedule, no word is lost before its last use.
\<close>

theorem skein_looping_build:
  assumes "U dvd RCNT"
  shows "Process_Block_loop U junk ctx blkPtr blkCnt n = Skein_256_Process_Block ctx blkPtr blkCnt n"
proof -
  let ?kw = "(map junk [0 ..< 4 + 4 + RCNT * 2])[0 := T0 ctx, 1 := T1 ctx]"
  have "length ?kw = 8 + 2 * RCNT" "?kw ! 0 = T0 ctx" "?kw ! 1 = T1 ctx"
    by simp_all
  from blocks_loop_eq [OF assms this, of blkPtr blkCnt n] show ?thesis
    unfolding Process_Block_loop_def Let_def
    by (cases "blocks_loop U ?kw (ctxX ctx) blkPtr blkCnt n") auto
qed

theorem skein_looping_build_witness:
  "Process_Block_loop 3 (\<lambda>i. word_of_nat i) (ctx_256 skein_junk) (replicate 64 7) 2 32 =
     Skein_256_Process_Block (ctx_256 skein_junk) (replicate 64 7) 2 32"
  using skein_looping_build [of 3] by (simp add: RCNT_def SKEIN_256_ROUNDS_TOTAL_def del: Skein_256_Process_Block.simps)

section \<open>Fields of the tweak and of the tree information\<close>

text \<open>
  The macros of the file for other uses of Skein. The block types are numbers of six bits, the
  level in a hash tree one of seven.
\<close>

definition SKEIN_BLK_TYPE_PERS :: u64 where "SKEIN_BLK_TYPE_PERS = 8"
definition SKEIN_BLK_TYPE_PK :: u64 where "SKEIN_BLK_TYPE_PK = 12"
definition SKEIN_BLK_TYPE_KDF :: u64 where "SKEIN_BLK_TYPE_KDF = 16"
definition SKEIN_BLK_TYPE_NONCE :: u64 where "SKEIN_BLK_TYPE_NONCE = 20"
definition SKEIN_BLK_TYPE_MASK :: u64 where "SKEIN_BLK_TYPE_MASK = 63"

definition SKEIN_T1_BLK_TYPE_MASK :: u64 where
  "SKEIN_T1_BLK_TYPE_MASK = SKEIN_T1_BLK_TYPE SKEIN_BLK_TYPE_MASK"

definition SKEIN_T1_TREE_LVL_MASK :: u64 where
  "SKEIN_T1_TREE_LVL_MASK = push_bit (112 - 64) 0x7F"

definition SKEIN_T1_TREE_LEVEL :: "u64 \<Rightarrow> u64" where
  "SKEIN_T1_TREE_LEVEL n = push_bit (112 - 64) n"

text \<open>The arguments are of type \<open>int\<close>; the result is converted afterwards.\<close>

definition SKEIN_CFG_TREE_INFO :: "u32 \<Rightarrow> u32 \<Rightarrow> u32 \<Rightarrow> u64" where
  "SKEIN_CFG_TREE_INFO leaf node maxLevel = scast (leaf OR push_bit 8 node OR push_bit 16 maxLevel)"

definition Skein_Get_Tweak :: "Skein_256_Ctxt \<Rightarrow> nat \<Rightarrow> u64" where
  "Skein_Get_Tweak ctx TWK_NUM = [T0 ctx, T1 ctx] ! TWK_NUM"

definition Skein_Set_T0 :: "Skein_256_Ctxt \<Rightarrow> u64 \<Rightarrow> Skein_256_Ctxt" where
  "Skein_Set_T0 ctx t = ctx\<lparr>T0 := t\<rparr>"

definition Skein_Set_T1 :: "Skein_256_Ctxt \<Rightarrow> u64 \<Rightarrow> Skein_256_Ctxt" where
  "Skein_Set_T1 ctx t = ctx\<lparr>T1 := t\<rparr>"

definition Skein_Set_T0_T1 :: "Skein_256_Ctxt \<Rightarrow> u64 \<Rightarrow> u64 \<Rightarrow> Skein_256_Ctxt" where
  "Skein_Set_T0_T1 ctx t0 t1 = Skein_Set_T1 (Skein_Set_T0 ctx t0) t1"

definition Skein_Set_Type :: "Skein_256_Ctxt \<Rightarrow> u64 \<Rightarrow> Skein_256_Ctxt" where
  "Skein_Set_Type ctx BLK_TYPE = Skein_Set_T1 ctx (SKEIN_T1_BLK_TYPE BLK_TYPE)"

definition Skein_Clear_First_Flag :: "Skein_256_Ctxt \<Rightarrow> Skein_256_Ctxt" where
  "Skein_Clear_First_Flag ctx = ctx\<lparr>T1 := T1 ctx AND NOT SKEIN_T1_FLAG_FIRST\<rparr>"

definition Skein_Set_Bit_Pad_Flag :: "Skein_256_Ctxt \<Rightarrow> Skein_256_Ctxt" where
  "Skein_Set_Bit_Pad_Flag ctx = ctx\<lparr>T1 := T1 ctx OR SKEIN_T1_FLAG_BIT_PAD\<rparr>"

definition Skein_Set_Tree_Level :: "Skein_256_Ctxt \<Rightarrow> u64 \<Rightarrow> Skein_256_Ctxt" where
  "Skein_Set_Tree_Level ctx height = ctx\<lparr>T1 := T1 ctx OR SKEIN_T1_TREE_LEVEL height\<rparr>"

lemmas tweak_defs = Skein_Start_New_Type_def Skein_Set_T0_def Skein_Set_T1_def
  Skein_Set_T0_T1_def Skein_Set_Type_def Skein_Clear_First_Flag_def Skein_Set_Bit_Pad_Flag_def
  Skein_Set_Tree_Level_def Skein_Get_Tweak_def

lemmas field_defs = SKEIN_T1_BLK_TYPE_def SKEIN_T1_BLK_TYPE_MASK_def SKEIN_BLK_TYPE_MASK_def
  SKEIN_T1_TREE_LVL_MASK_def SKEIN_T1_TREE_LEVEL_def

text \<open>
  The fields do not overlap: a type of six bits and a level of seven read back as they were set,
  next to the flags, and \<open>Skein_Start_New_Type\<close> is made of the setters.
\<close>

lemma flag_bits:
  "bit SKEIN_T1_FLAG_FIRST i \<longleftrightarrow> i = 62" "bit SKEIN_T1_FLAG_FINAL i \<longleftrightarrow> i = 63"
  "bit SKEIN_T1_FLAG_BIT_PAD i \<longleftrightarrow> i = 55"
  unfolding SKEIN_T1_FLAG_FIRST_def SKEIN_T1_FLAG_FINAL_def SKEIN_T1_FLAG_BIT_PAD_def
  by (simp_all only: bit_push_bit_iff bit_1_iff) auto

lemma tweak_fields:
  fixes ctx :: Skein_256_Ctxt
  assumes "take_bit 6 t = t" and "take_bit 7 n = n"
  defines "c \<equiv> Skein_Set_Tree_Level (Skein_Set_Bit_Pad_Flag (Skein_Start_New_Type ctx (SKEIN_T1_BLK_TYPE t))) n"
  shows "T1 c AND SKEIN_T1_BLK_TYPE_MASK = SKEIN_T1_BLK_TYPE t"
    and "T1 c AND SKEIN_T1_TREE_LVL_MASK = SKEIN_T1_TREE_LEVEL n"
    and "T1 c AND SKEIN_T1_FLAG_BIT_PAD = SKEIN_T1_FLAG_BIT_PAD"
    and "T1 c AND SKEIN_T1_FLAG_FINAL = 0"
    and "T1 (Skein_Clear_First_Flag c) = SKEIN_T1_BLK_TYPE t OR SKEIN_T1_FLAG_BIT_PAD OR SKEIN_T1_TREE_LEVEL n"
proof -
  have small: "bit t i \<Longrightarrow> i < 6" "bit n i \<Longrightarrow> i < 7" for i
    using assms(1,2) by (metis bit_take_bit_iff)+
  have masks: "63 = (mask 6 :: u64)" "0x7F = (mask 7 :: u64)"
    by (simp_all add: mask_eq_exp_minus_1)
  note bits = c_def tweak_defs field_defs masks flag_bits bit_simps
  show "T1 c AND SKEIN_T1_BLK_TYPE_MASK = SKEIN_T1_BLK_TYPE t"
    by (rule bit_word_eqI) (auto simp: bits dest: small)
  show "T1 c AND SKEIN_T1_TREE_LVL_MASK = SKEIN_T1_TREE_LEVEL n"
    by (rule bit_word_eqI) (auto simp: bits dest: small)
  show "T1 c AND SKEIN_T1_FLAG_BIT_PAD = SKEIN_T1_FLAG_BIT_PAD"
    by (rule bit_word_eqI) (auto simp: bits)
  show "T1 c AND SKEIN_T1_FLAG_FINAL = 0"
    by (rule bit_word_eqI) (auto simp: bits dest!: small)
  show "T1 (Skein_Clear_First_Flag c) = SKEIN_T1_BLK_TYPE t OR SKEIN_T1_FLAG_BIT_PAD OR SKEIN_T1_TREE_LEVEL n"
    by (rule bit_word_eqI) (auto simp: bits dest: small)
qed

lemma start_new_type_setters:
  "Skein_Start_New_Type ctx ty = (Skein_Set_T0_T1 ctx 0 (SKEIN_T1_FLAG_FIRST OR ty))\<lparr>bCnt := 0\<rparr>"
  by (simp add: tweak_defs)

text \<open>A level of eight bits runs into the flag of a partial last byte.\<close>

lemma tree_level_spills: "SKEIN_T1_TREE_LEVEL 128 = SKEIN_T1_FLAG_BIT_PAD"
  by (simp add: field_defs SKEIN_T1_FLAG_BIT_PAD_def)

end
