(* ===== verification/Cube_ref.thy ===== *)
theory Cube_ref
  imports Hash_cube
begin

text \<open>
  CubeHash8/1-224 as its specification states it, and the proof that \<open>lhi_hash_cube\<close> computes its
  first word. The specification names the 32 words of the state by five bits, \<open>x[i j k l m]\<close>, and a
  round by ten steps on them; none of it is taken from the code.
\<close>

section \<open>The specification\<close>

type_synonym cube_words = "bool \<Rightarrow> bool \<Rightarrow> bool \<Rightarrow> bool \<Rightarrow> bool \<Rightarrow> u32"

text \<open>Add \<open>x[0jklm]\<close> into \<open>x[1jklm]\<close>.\<close>

definition spec_add :: "cube_words \<Rightarrow> cube_words" where
  "spec_add x = (\<lambda>i j k l m. if i then x True j k l m + x False j k l m else x i j k l m)"

text \<open>Rotate \<open>x[0jklm]\<close> upwards.\<close>

definition spec_rotate :: "nat \<Rightarrow> cube_words \<Rightarrow> cube_words" where
  "spec_rotate n x = (\<lambda>i j k l m. if i then x i j k l m else word_rotl n (x i j k l m))"

text \<open>Xor \<open>x[1jklm]\<close> into \<open>x[0jklm]\<close>.\<close>

definition spec_xor :: "cube_words \<Rightarrow> cube_words" where
  "spec_xor x = (\<lambda>i j k l m. if i then x i j k l m else x False j k l m XOR x True j k l m)"

definition spec_round :: "cube_words \<Rightarrow> cube_words" where
  "spec_round x =
     (let x = spec_add x;
          x = spec_rotate 7 x;
          x = (\<lambda>i j k l m. if i then x i j k l m else x i (\<not> j) k l m);
          x = spec_xor x;
          x = (\<lambda>i j k l m. if i then x i j k (\<not> l) m else x i j k l m);
          x = spec_add x;
          x = spec_rotate 11 x;
          x = (\<lambda>i j k l m. if i then x i j k l m else x i j (\<not> k) l m);
          x = spec_xor x
      in (\<lambda>i j k l m. if i then x i j k l (\<not> m) else x i j k l m))"

text \<open>
  The initial state: the bytes of the hash value, the bytes of a block and the rounds of a block, after
  ten times these rounds. The message is followed by a bit 1, which is the byte 128, and needs no more
  padding, as a block has one byte; at the end 1 is xored into \<open>x[11111]\<close>. The hash value is the first
  seven words, the bytes of each from the lowest on.
\<close>

definition spec_iv :: cube_words where
  "spec_iv = (spec_round ^^ 80)
     (\<lambda>i j k l m. if (i, j, k, l, m) = (False, False, False, False, False) then 28
       else if (i, j, k, l, m) = (False, False, False, False, True) then 1
       else if (i, j, k, l, m) = (False, False, False, True, False) then 8 else 0)"

definition spec_block :: "cube_words \<Rightarrow> byte \<Rightarrow> cube_words" where
  "spec_block x b = (spec_round ^^ 8)
     (\<lambda>i j k l m. if i \<or> j \<or> k \<or> l \<or> m then x i j k l m else x i j k l m XOR ucast b)"

definition spec_finish :: "cube_words \<Rightarrow> cube_words" where
  "spec_finish x = (spec_round ^^ 80)
     (\<lambda>i j k l m. if i \<and> j \<and> k \<and> l \<and> m then x i j k l m XOR 1 else x i j k l m)"

definition cubehash_224 :: "byte list \<Rightarrow> byte list" where
  "cubehash_224 M =
     (let x = spec_finish (foldl spec_block spec_iv (M @ [128])) False False
      in concat (map bytes32 [x False False False, x False False True, x False True False, x False True True,
           x True False False, x True False True, x True True False]))"

section \<open>The rounds\<close>

text \<open>The word \<open>x[i j k l m]\<close> of a list.\<close>

definition idx :: "bool \<Rightarrow> bool \<Rightarrow> bool \<Rightarrow> bool \<Rightarrow> bool \<Rightarrow> nat" where
  "idx i j k l m = 16 * of_bool i + 8 * of_bool j + 4 * of_bool k + 2 * of_bool l + of_bool m"

definition words_of :: "u32 list \<Rightarrow> cube_words" where
  "words_of x = (\<lambda>i j k l m. x ! idx i j k l m)"

lemma idx_facts:
  "idx i j k l m < 32" "idx i j k l m < 16 \<longleftrightarrow> \<not> i"
  "idx True j k l m - 16 = idx False j k l m" "idx False j k l m + 16 = idx True j k l m"
  by (cases i; simp add: idx_def of_bool_def) (simp_all add: idx_def of_bool_def)

lemma idx_8: "idx False j k l m XOR 8 = idx False (\<not> j) k l m"
  by (cases j; cases k; cases l; cases m) (simp_all add: idx_def of_bool_def flip: numeral_2_eq_2 numeral_3_eq_3)

lemma idx_4: "idx False j k l m XOR 4 = idx False j (\<not> k) l m"
  by (cases j; cases k; cases l; cases m) (simp_all add: idx_def of_bool_def flip: numeral_2_eq_2 numeral_3_eq_3)

lemma idx_2: "idx False j k l m XOR 2 = idx False j k (\<not> l) m"
  by (cases j; cases k; cases l; cases m) (simp_all add: idx_def of_bool_def flip: numeral_2_eq_2 numeral_3_eq_3)

lemma idx_1: "idx False j k l m XOR 1 = idx False j k l (\<not> m)"
  by (cases j; cases k; cases l; cases m) (simp_all add: idx_def of_bool_def flip: numeral_2_eq_2 numeral_3_eq_3)

lemma ROTATE_rotl:
  assumes "b < 32"
  shows "ROTATE a b = word_rotl b a"
proof (rule bit_word_eqI)
  fix n :: nat
  assume n: "n < LENGTH(32)"
  then have "(n + (32 - b)) mod 32 = (if n < b then 32 - b + n else n - b)"
    using assms by (auto simp: mod_if)
  then show "bit (ROTATE a b) n = bit (word_rotl b a) n"
    using n assms by (simp add: bit_ROTATE bit_word_rotl_iff)
qed

lemma words_add: "length x = 32 \<Longrightarrow> words_of (add_lo x) = spec_add (words_of x)"
  by (simp add: fun_eq_iff words_of_def spec_add_def nth_add_lo idx_facts)

lemma words_xor: "length x = 32 \<Longrightarrow> words_of (xor_hi x) = spec_xor (words_of x)"
  by (simp add: fun_eq_iff words_of_def spec_xor_def nth_xor_hi idx_facts)

text \<open>The loops with the local array: a swap of words, for the first half with a rotation.\<close>

lemma words_swap_lo:
  assumes "length x = 32" and "b < 32"
  shows "words_of (swap_lo 8 b x) = (let x = spec_rotate b (words_of x)
      in (\<lambda>i j k l m. if i then x i j k l m else x i (\<not> j) k l m))"
    and "words_of (swap_lo 4 b x) = (let x = spec_rotate b (words_of x)
      in (\<lambda>i j k l m. if i then x i j k l m else x i j (\<not> k) l m))"
  using assms swap_index
  by (simp_all add: fun_eq_iff words_of_def spec_rotate_def nth_swap_lo idx_facts idx_8 idx_4 ROTATE_rotl)

lemma words_swap_hi:
  assumes "length x = 32"
  shows "words_of (swap_hi 2 x) = (\<lambda>i j k l m. if i then words_of x i j k (\<not> l) m else words_of x i j k l m)"
    and "words_of (swap_hi 1 x) = (\<lambda>i j k l m. if i then words_of x i j k l (\<not> m) else words_of x i j k l m)"
  using assms swap_index
  by (simp_all add: fun_eq_iff words_of_def nth_swap_hi idx_facts idx_2 idx_1 del: One_nat_def)

lemma words_round: "length x = 32 \<Longrightarrow> words_of (cube_round x) = spec_round (words_of x)"
  unfolding cube_round_def spec_round_def Let_def
  by (simp only: length_loops words_add words_xor words_swap_lo words_swap_hi Let_def)

lemma words_rounds:
  "length x = 32 \<Longrightarrow> words_of ((cube_round ^^ n) x) = (spec_round ^^ n) (words_of x) \<and> length ((cube_round ^^ n) x) = 32"
  by (induction n) (simp_all add: words_round)

lemma words_transform: "length x = 32 \<Longrightarrow> words_of (transform x) = (spec_round ^^ 8) (words_of x)"
  by (simp add: transform_def CUBEHASH_ROUNDS_def words_rounds)

lemma words_transforms: "length x = 32 \<Longrightarrow> words_of ((transform ^^ 10) x) = (spec_round ^^ 80) (words_of x)"
proof -
  have "transform ^^ 10 = cube_round ^^ 80"
    using funpow_mult [of 10 8 cube_round] by (simp add: transform_def [abs_def] CUBEHASH_ROUNDS_def)
  then show "length x = 32 \<Longrightarrow> ?thesis"
    by (simp add: words_rounds)
qed

section \<open>The hash\<close>

lemma idx_ends:
  "idx i j k l m = 0 \<longleftrightarrow> \<not> (i \<or> j \<or> k \<or> l \<or> m)" "idx i j k l m = 31 \<longleftrightarrow> i \<and> j \<and> k \<and> l \<and> m"
  by (cases i; cases j; cases k; cases l; cases m; simp add: idx_def)+

lemma words_block:
  assumes "length x = 32"
  shows "words_of (cube_absorb x b) = spec_block (words_of x) b"
proof -
  have "words_of (x[0 := x ! 0 XOR ucast b]) =
      (\<lambda>i j k l m. if i \<or> j \<or> k \<or> l \<or> m then words_of x i j k l m else words_of x i j k l m XOR ucast b)"
    using assms by (auto simp: fun_eq_iff words_of_def nth_list_update idx_facts(1) idx_ends(1)) (simp_all add: idx_def)
  then show ?thesis
    using assms by (simp add: cube_absorb_def spec_block_def words_transform)
qed

lemma length_absorb: "length (cube_absorb x b) = length x"
  by (simp add: cube_absorb_def)

lemma words_blocks:
  "length x = 32 \<Longrightarrow> words_of (foldl cube_absorb x M) = foldl spec_block (words_of x) M \<and>
     length (foldl cube_absorb x M) = 32"
  by (induction M arbitrary: x) (simp_all add: words_block length_absorb)

text \<open>The initial state, the padding and the end.\<close>

lemma words_iv: "words_of cube_iv = spec_iv" "length cube_iv = 32"
proof -
  let ?x = "[28, 1, 8] @ replicate 29 0 :: u32 list"
  have "words_of ?x = (\<lambda>i j k l m. if (i, j, k, l, m) = (False, False, False, False, False) then 28
       else if (i, j, k, l, m) = (False, False, False, False, True) then 1
       else if (i, j, k, l, m) = (False, False, False, True, False) then 8 else 0)"
    unfolding words_of_def fun_eq_iff
  proof (intro allI)
    fix i j k l m
    show "?x ! idx i j k l m = (if (i, j, k, l, m) = (False, False, False, False, False) then 28
       else if (i, j, k, l, m) = (False, False, False, False, True) then 1
       else if (i, j, k, l, m) = (False, False, False, True, False) then 8 else 0)"
      by (cases i; cases j; cases k; cases l; cases m) (simp_all add: idx_def nth_append nth_Cons')
  qed
  then show "words_of cube_iv = spec_iv"
    unfolding cube_iv_def spec_iv_def using words_transforms [of ?x] by simp
  show "length cube_iv = 32"
    by (simp add: cube_iv_def)
qed

lemma words_finish:
  assumes "length x = 32"
  shows "words_of (cube_finish x) = spec_finish (spec_block (words_of x) 128)"
proof -
  define y where "y = cube_absorb x 128"
  have y: "length y = 32" "words_of y = spec_block (words_of x) 128"
    using assms by (simp_all add: y_def words_block length_absorb)
  have "words_of (y[31 := y ! 31 XOR 1]) =
      (\<lambda>i j k l m. if i \<and> j \<and> k \<and> l \<and> m then words_of y i j k l m XOR 1 else words_of y i j k l m)"
    using y(1) by (auto simp: fun_eq_iff words_of_def nth_list_update idx_facts(1) idx_ends(2)) (simp_all add: idx_def)
  then have "words_of ((transform ^^ 10) (y[31 := y ! 31 XOR 1])) = spec_finish (words_of y)"
    using y(1) by (simp add: spec_finish_def words_transforms)
  moreover have "cube_finish x = (transform ^^ 10) (y[31 := y ! 31 XOR 1])"
    by (simp add: cube_finish_def y_def cube_absorb_def Let_def)
  ultimately show ?thesis
    using y(2) by simp
qed

text \<open>
  C36. \<open>lhi_hash_cube\<close> is the first word, in the order of the bytes in memory, of CubeHash8/1-224 as
  the specification states it, by ten steps of a round on words named by bits, of the key, as long as
  the key is shorter than \<open>2 ^ 29\<close> bytes. The length in bits is computed in 32 bits: of a longer key
  only the first \<open>length mod 2 ^ 29\<close> bytes are hashed.
\<close>

theorem cube_standard:
  "\<exists>h. cube_hash key = Some h \<and> lhi_hash_cube key = h \<and>
     bytes32 h = take 4 (cubehash_224 (take (length key mod 2 ^ 29) key))"
proof -
  let ?M = "take (length key mod 2 ^ 29) key"
  define x where "x = foldl cube_absorb cube_iv ?M"
  have x: "length x = 32" "words_of x = foldl spec_block spec_iv ?M"
    using words_blocks [OF words_iv(2)] words_iv(1) by (simp_all add: x_def)
  have "words_of (cube_finish x) False False False False False = cube_finish x ! 0"
    by (simp add: words_of_def idx_def)
  then have "take 4 (cubehash_224 ?M) = bytes32 (cube_finish x ! 0)"
    using words_finish [OF x(1)] x(2) by (simp add: cubehash_224_def bytes32_def Let_def)
  then show ?thesis
    using cube_hash_sponge [of key] by (simp add: x_def lhi_hash_cube_def)
qed

end
