(* ===== verification/Skein_iv.thy ===== *)
theory Skein_iv
  imports Skein_ref
begin

text \<open>
  The precomputed initial values of \<open>lib/hash_func_skein256.c\<close> are the outputs of the block function
  on the configuration blocks, and \<open>lhi_hash_skein256\<close> is Skein-256-256.
\<close>

section \<open>Evaluation of the rounds on numerals\<close>

text \<open>Equations without \<open>let\<close>, and a rotation whose intermediate values stay below \<open>2 ^ 64\<close>.\<close>

definition xored :: "u64 \<Rightarrow> u64 \<Rightarrow> u64 \<Rightarrow> u64 \<Rightarrow> u64 list" where
  "xored a b c d = [a, b XOR a, c, d XOR c]"

lemma Round256_eval:
  "Round256 0 (Suc 0) 2 3 (m, n) [a, b, c, d] = xored (a + b) (RotL_64 b m) (c + d) (RotL_64 d n)"
  "Round256 0 3 2 (Suc 0) (m, n) [a, b, c, d] = perm (xored (a + d) (RotL_64 d m) (c + b) (RotL_64 b n))"
  by (simp_all add: Round256_def Let_def xored_def perm_def)

lemma R256_8_eval:
  "R256_8_rounds ks ts R X =
     I256 ks ts (2 * R + 1) (Round256 0 3 2 1 (59, 50) (Round256 0 1 2 3 (11, 42) (Round256 0 3 2 1 (53, 35)
       (Round256 0 1 2 3 (26, 20) (I256 ks ts (2 * R) (Round256 0 3 2 1 (58, 44) (Round256 0 1 2 3 (13, 46)
         (Round256 0 3 2 1 (36, 28) (Round256 0 1 2 3 (5, 56) X)))))))))"
  by (simp only: R256_8_rounds_def Let_def R_256_0_def R_256_1_def R_256_2_def R_256_3_def
      R_256_4_def R_256_5_def R_256_6_def R_256_7_def)

lemma I256_eval:
  "I256 ks ts R [a, b, c, d] =
    [a + ks ! ((R + 1) mod 5), b + (ks ! ((R + 2) mod 5) + ts ! ((R + 1) mod 3)),
     c + (ks ! ((R + 3) mod 5) + ts ! ((R + 2) mod 3)), d + (ks ! ((R + 4) mod 5) + word_of_nat R + 1)]"
  by (simp add: I256_def Let_def)

lemma RotL_64_eval:
  "n < 64 \<Longrightarrow> RotL_64 x n = push_bit n (take_bit (64 - n) x) OR drop_bit (64 - n) (take_bit 64 x)"
  unfolding RotL_64_def by (rule bit_word_eqI) (auto simp: bit_simps dest: bit_imp_le_length)

lemmas block_eval = R256_8_eval Round256_eval xored_def perm_def I256_eval RotL_64_eval

lemma rounds_eval:
  "fold f [0 ..< SKEIN_256_ROUNDS_TOTAL div 8] x = f 8 (f 7 (f 6 (f 5 (f 4 (f 3 (f 2 (f 1 (f 0 x))))))))"
proof -
  have "SKEIN_256_ROUNDS_TOTAL div 8 = 9"
    by (simp add: SKEIN_256_ROUNDS_TOTAL_def)
  moreover have "[0 ..< 9] = [0, 1, 2, 3, 4, 5, 6, 7, 8 :: nat]"
    by code_simp
  ultimately show ?thesis
    by (simp only: fold.simps comp_apply id_apply)
qed

section \<open>The initial values\<close>

text \<open>The rounds on a configuration block: zero key, the tweak of the configuration, a length.\<close>

abbreviation cfg_rounds :: "u64 \<Rightarrow> u64 list" where
  "cfg_rounds len \<equiv>
     fold (R256_8_rounds [0, 0, 0, 0, 0x5555555555555555] [32, 0xC400000000000000, 0xC400000000000020])
       [0 ..< SKEIN_256_ROUNDS_TOTAL div 8] [0x133414853, len + 32, 0xC400000000000000, 0]"

lemma cfg_rounds_128:
  "cfg_rounds 128 = [0x302F7EA23D7FE2E1 XOR 0x133414853, 0xADE4683A6913752B XOR 128, 0x975CFABEF208AB0A, 0x2AF4BA95F831F55B]"
  unfolding rounds_eval by (simp add: block_eval)

lemma cfg_rounds_160:
  "cfg_rounds 160 = [0xA38A0D80A3687723 XOR 0x133414853, 0xB73CDB6A5963FFC9 XOR 160, 0x9633E8EA07A1B447, 0xCA0ED09EC9529C22]"
  unfolding rounds_eval by (simp add: block_eval)

lemma cfg_rounds_224:
  "cfg_rounds 224 = [0xB80929699AE0F431 XOR 0x133414853, 0xD340DC14A06929DC XOR 224, 0xAE866594BDE4DC5A, 0x339767C25A60EA1D]"
  unfolding rounds_eval by (simp add: block_eval)

lemma cfg_rounds_256:
  "cfg_rounds 256 = [0x388512680E660046 XOR 0x133414853, 0x4B72D5DEC5A8FF01 XOR 256, 0x281A9298CA5EB3A5, 0x54CA5249F46070C4]"
  unfolding rounds_eval by (simp add: block_eval)

lemma next_byte:
  "take_bit m w + push_bit m (ucast (ucast (drop_bit m w) :: byte)) = take_bit (m + 8) (w :: u64)"
proof -
  have "(ucast (ucast v :: byte) :: u64) = take_bit 8 v" for v :: u64
    by (rule bit_word_eqI) (auto simp: bit_simps)
  then show ?thesis
    using bits_ident [of m "take_bit (m + 8) w"] by (simp add: drop_bit_take_bit add.commute)
qed

lemma get_put_word:
  "ucast (ucast w :: byte) + push_bit 8 (ucast (ucast (drop_bit 8 w) :: byte)) +
     push_bit 16 (ucast (ucast (drop_bit 16 w) :: byte)) + push_bit 24 (ucast (ucast (drop_bit 24 w) :: byte)) +
     push_bit 32 (ucast (ucast (drop_bit 32 w) :: byte)) + push_bit 40 (ucast (ucast (drop_bit 40 w) :: byte)) +
     push_bit 48 (ucast (ucast (drop_bit 48 w) :: byte)) + push_bit 56 (ucast (ucast (drop_bit 56 w) :: byte)) =
     (w :: u64)"
  using next_byte [of 0 w] next_byte [of 8 w] next_byte [of 16 w] next_byte [of 24 w] next_byte [of 32 w]
    next_byte [of 40 w] next_byte [of 48 w] next_byte [of 56 w]
    take_bit_length_eq [of w]
  by simp

lemma get_put_64:
  assumes "length ws = 4"
  shows "Skein_Get64_LSB_First (Skein_Put64_LSB_First ws 32) 4 = ws"
  using assms by (rule list4E)
    (simp add: Skein_Get64_LSB_First_def Skein_Put64_LSB_First_def get64_def upt_conv_Cons get_put_word)

lemma cfg_words: "Skein_Get64_LSB_First (cfg_block len tree) 4 = [0x133414853, len, tree, 0]"
  unfolding cfg_block_def by (simp add: get_put_64 SKEIN_SCHEMA_VER_def SKEIN_MK_64_def)

lemma cfg_tweak: "SKEIN_T1_FLAG_FIRST OR CFG_FINAL = 0xC400000000000000"
  by (simp add: SKEIN_T1_FLAG_FIRST_def CFG_FINAL_def SKEIN_T1_BLK_TYPE_def SKEIN_BLK_TYPE_CFG_def
      SKEIN_T1_FLAG_FINAL_def)

lemma block256_cfg:
  "block256 [0, 0, 0, 0] 32 (SKEIN_T1_FLAG_FIRST OR CFG_FINAL) (cfg_block len 0) =
     (let X = cfg_rounds len in [X ! 0 XOR 0x133414853, X ! 1 XOR len, X ! 2, X ! 3])"
  unfolding block256_def Let_def cfg_words cfg_tweak
  by (simp add: SKEIN_KS_PARITY_def SKEIN_MK_64_def del: fold.simps)

lemma precomputed:
  "hashbits \<in> {128, 160, 224, 256} \<Longrightarrow>
   block256 [0, 0, 0, 0] 32 (SKEIN_T1_FLAG_FIRST OR CFG_FINAL) (cfg_block hashbits 0) =
     (if hashbits = 256 then SKEIN_256_IV_256 else if hashbits = 224 then SKEIN_256_IV_224
      else if hashbits = 160 then SKEIN_256_IV_160 else SKEIN_256_IV_128)"
  unfolding block256_cfg Let_def
  by (auto simp only: insert_iff empty_iff cfg_rounds_128 cfg_rounds_160 cfg_rounds_224 cfg_rounds_256)
    (simp_all add: SKEIN_256_IV_256_def SKEIN_256_IV_224_def SKEIN_256_IV_160_def SKEIN_256_IV_128_def SKEIN_MK_64_def)

lemma length_cfg_block: "length (cfg_block len tree) = 32"
  by (simp add: cfg_block_def Skein_Put64_LSB_First_def)

text \<open>
  C33. The precomputed initial values are what the block function gives on the configuration block:
  for every output length \<open>Skein_256_InitExt\<close> without a key and without a tree leaves the same
  context as \<open>Skein_256_Init\<close>.
\<close>

theorem skein_precomputed:
  "Skein_256_InitExt ctx hashbits SKEIN_CFG_TREE_INFO_SEQUENTIAL key 0 cfgb = Skein_256_Init ctx hashbits"
proof (cases "hashbits \<in> {128, 160, 224, 256}")
  case True
  then show ?thesis
    using precomputed [OF True]
    by (auto simp add: Skein_256_InitExt_def Skein_256_Init_def Skein_Start_New_Type_def length_cfg_block
        SKEIN_CFG_TREE_INFO_SEQUENTIAL_def numeral_2_eq_2 Let_def simp del: fold.simps)
next
  case False
  then show ?thesis
    by (auto simp add: Skein_256_InitExt_def Skein_256_Init_def Skein_Start_New_Type_def length_cfg_block
        SKEIN_CFG_TREE_INFO_SEQUENTIAL_def Let_def simp del: fold.simps)
qed

section \<open>The whole hash\<close>

lemma final_flag: "SKEIN_T1_FLAG_FINAL = 2 ^ 63"
  by (simp add: SKEIN_T1_FLAG_FINAL_def)

lemma put_words: "length ws = 4 \<Longrightarrow> Skein_Put64_LSB_First ws 32 = concat (map bytes64 ws)"
  by (erule list4E) (simp add: Skein_Put64_LSB_First_def bytes64_def upt_conv_Cons)

lemma cfg_block_config: "cfg_block len 0 = skein_config len"
proof -
  have "bytes64 0 @ bytes64 0 = replicate 16 0"
    by code_simp
  then show ?thesis
    by (simp add: cfg_block_def skein_config_def put_words SKEIN_SCHEMA_VER_def SKEIN_MK_64_def)
qed

lemma iv256: "ubi 4 [0, 0, 0, 0] (skein_config 256) = SKEIN_256_IV_256"
proof -
  have "length (skein_config 256) = 32"
    by (simp add: cfg_block_config [symmetric] length_cfg_block)
  then have "ubi 4 [0, 0, 0, 0] (skein_config 256) =
      ubi_step (32, SKEIN_T1_FLAG_FIRST OR CFG_FINAL) [0, 0, 0, 0] (take 32 (skein_config 256))"
    by (simp add: ubi_def Let_def first_flag_def cfg_tweak)
  also have "\<dots> = block256 [0, 0, 0, 0] 32 (SKEIN_T1_FLAG_FIRST OR CFG_FINAL) (skein_config 256)"
    by (rule block256_threefish [symmetric]) (simp_all add: \<open>length (skein_config 256) = 32\<close>)
  also have "\<dots> = SKEIN_256_IV_256"
    using precomputed [of 256] by (simp add: cfg_block_config)
  finally show ?thesis .
qed

lemma length_ubi [simp]: "length (ubi c G p) = 4"
  by (simp add: ubi_def Let_def)

lemma final_output:
  assumes abs: "absorbing ctx (push_bit 56 c) G p" and "hashBitLen ctx = 256" and "length out = 32"
  shows "\<exists>ctx'. Skein_256_Final ctx out = Some (ctx', concat (map bytes64 (ubi 63 (ubi c G p) (bytes64 0))))"
proof -
  define k where "k = (length p - 1) div 32"
  define ty where "ty = (push_bit 56 c :: u64)"
  have al: "aligned ctx ty G p k" and cnt: "bCnt ctx = length p - 32 * k"
    and buf: "take (bCnt ctx) (ctxb ctx) = drop (32 * k) p"
    using abs unfolding absorbing_def k_def [symmetric] ty_def [symmetric] Let_def by blast+
  have k: "32 * k \<le> length p" "length p - 32 * k \<le> 32"
    unfolding k_def by linarith+
  define rest where "rest = drop (32 * k) p"
  define b where "b = rest @ replicate (32 - length rest) 0"
  have b: "length b = 32" "length rest = bCnt ctx"
    using k cnt by (simp_all add: b_def rest_def)
  define ctx1 where "ctx1 = ctx\<lparr>T1 := T1 ctx OR SKEIN_T1_FLAG_FINAL, ctxb := b\<rparr>"
  have pad: "take (bCnt ctx) (ctxb ctx) @ replicate (32 - bCnt ctx) 0 = b"
    using buf b(2) by (simp add: b_def rest_def)
  have nopad: "ctx\<lparr>T1 := T1 ctx OR SKEIN_T1_FLAG_FINAL\<rparr> = ctx1 \<and> ctxb ctx = b" if "\<not> bCnt ctx < 32"
  proof -
    have "b = ctxb ctx"
      using that buf b(2) cnt k(2) al by (simp add: b_def rest_def aligned_def)
    then show ?thesis
      by (simp add: ctx1_def)
  qed
  define H where "H = ubi c G p"
  have "T0 ctx1 + word_of_nat (bCnt ctx1) = word_of_nat (32 * k + bCnt ctx)"
    using al by (simp add: ctx1_def aligned_def)
  then have t0: "T0 ctx1 + word_of_nat (bCnt ctx1) = word_of_nat (length p)"
    using cnt k(1) by simp
  have "block256 (ctxX ctx1) (T0 ctx1 + word_of_nat (bCnt ctx1)) (T1 ctx1) b = H"
  proof -
    have "H = ubi_step (word_of_nat (length p), ty OR first_flag k OR 2 ^ 63) (ubi_prefix ty G p k) b"
      unfolding H_def ubi_def Let_def k_def [symmetric] ty_def [symmetric] rest_def [symmetric] b_def ..
    then show ?thesis
      unfolding t0 using al b(1) by (simp add: ctx1_def aligned_def block256_threefish final_flag or.assoc)
  qed
  then obtain ctx2 where 2: "Skein_256_Process_Block ctx1 (ctxb ctx1) 1 (bCnt ctx1) = Some ctx2"
    "ctxX ctx2 = H" "hashBitLen ctx2 = 256"
    using b(1) assms(2) by (simp add: ctx1_def Let_def)
  have ctx1_sel: "ctxb ctx1 = b" "bCnt ctx1 = bCnt ctx"
    by (simp_all add: ctx1_def)
  define ctx3 where "ctx3 = Skein_Start_New_Type (ctx2\<lparr>ctxb := bytes64 0 @ replicate 24 0\<rparr>) OUT_FINAL"
  have zero: "Skein_Put64_LSB_First [word_of_nat 0] 8 @ drop 8 (replicate 32 0) = bytes64 0 @ replicate 24 0"
    by (simp add: Skein_Put64_LSB_First_def bytes64_def upt_conv_Cons)
  have len: "length (bytes64 0 @ replicate 24 0) = 32"
    by (simp add: bytes64_def)
  have "block256 H 8 (SKEIN_T1_FLAG_FIRST OR OUT_FINAL) (bytes64 0 @ replicate 24 0) = ubi 63 H (bytes64 0)"
    using len by (simp add: block256_threefish H_def ubi_def Let_def first_flag_def OUT_FINAL_def final_flag
        SKEIN_T1_FLAG_FIRST_def SKEIN_T1_BLK_TYPE_def SKEIN_BLK_TYPE_OUT_def bytes64_def)
  then obtain ctx4 where 4: "Skein_256_Process_Block ctx3 (ctxb ctx3) 1 8 = Some ctx4"
    "ctxX ctx4 = ubi 63 H (bytes64 0)"
    using len 2(2) by (simp add: ctx3_def Skein_Start_New_Type_def Let_def)
  have put: "buffer_write out (0 * 32) (Skein_Put64_LSB_First (ctxX ctx4) 32) =
      Some (concat (map bytes64 (ubi 63 H (bytes64 0))))"
    using assms(3) by (simp add: buffer_write_def 4(2) put_words [symmetric]) (simp add: Skein_Put64_LSB_First_def)
  have count: "unat (drop_bit 3 (hashBitLen ctx2 + 7)) = 32"
    by (simp add: 2(3))
  have "output_loop 32 0 (ctxX ctx2) (ctx2\<lparr>ctxb := replicate 32 0\<rparr>) out =
      Some (ctx4\<lparr>ctxX := H\<rparr>, concat (map bytes64 (ubi 63 H (bytes64 0))))"
    using put 4(1) zero
    by (simp add: output_loop.simps [of _ 0] output_loop.simps [of _ "Suc 0"] ctx3_def [symmetric] Let_def 2(2)
        del: Skein_256_Process_Block.simps)
  then show ?thesis
    using 2(1) count nopad
    by (simp add: Skein_256_Final_def Let_def pad ctx1_def [symmetric] H_def ctx1_sel del: Skein_256_Process_Block.simps)
qed

lemma take4_bytes64: "take 4 (bytes64 w) = bytes32 (ucast w)"
proof -
  have "(ucast (drop_bit n (ucast w :: u32)) :: byte) = ucast (drop_bit n w)" if "n \<le> 24" for n
    using that by (intro bit_word_eqI) (auto simp: bit_simps)
  moreover have "(ucast (ucast w :: u32) :: byte) = ucast w"
    by (rule bit_word_eqI) (auto simp: bit_simps)
  ultimately show ?thesis
    by (simp add: bytes64_def bytes32_def upt_conv_Cons)
qed

lemma start_absorbing:
  assumes "length (ctxb ctx) = 32" and "length G = 4"
  shows "absorbing (Skein_Start_New_Type (ctx\<lparr>ctxX := G\<rparr>) (SKEIN_T1_BLK_TYPE SKEIN_BLK_TYPE_MSG)) (push_bit 56 48) G []"
proof -
  have "\<not> bit (push_bit 56 48 :: u64) 62"
    by (simp add: bit_push_bit_iff)
  then show ?thesis
    using assms by (simp add: absorbing_def aligned_def Skein_Start_New_Type_def first_flag_def or.commute
      SKEIN_T1_FLAG_FIRST_def SKEIN_T1_BLK_TYPE_def SKEIN_BLK_TYPE_MSG_def)
qed

text \<open>
  C23. \<open>lhi_hash_skein256\<close> is the first word of Skein-256-256 of the key: the unrolled rounds are
  Threefish-256, the buffering is the chaining of the blocks and the initial value the chaining of
  the configuration. The length in bits is computed in 32 bits: of a key of \<open>2 ^ 29\<close> bytes or more
  only the first \<open>length mod 2 ^ 29\<close> bytes are hashed.
\<close>

theorem skein_standard:
  assumes "length (ctxb (ctx_256 junk)) = 32" and "length out = SKEIN_BLOCK_SIZE"
  shows "\<exists>h. skein256_hash junk out key = Some h \<and> bytes32 h = take 4 (skein256 (take (length key mod 2 ^ 29) key))"
proof -
  define m where "m = length key mod 2 ^ 29"
  have m: "m \<le> length key"
    by (simp add: m_def)
  define ctx where "ctx = Skein_Start_New_Type
    ((ctx_256 junk)\<lparr>hashBitLen := 256, ctxX := SKEIN_256_IV_256\<rparr>) (SKEIN_T1_BLK_TYPE SKEIN_BLK_TYPE_MSG)"
  have init: "skein_Init junk 256 = Some (SKEIN_SUCCESS, \<lparr>statebits = 256, ctx_256 = ctx\<rparr>)"
    by (simp add: skein_Init_def SKEIN_256_NIST_MAX_HASHBITS_def Skein_256_Init_def ctx_def)
  have "absorbing ctx (push_bit 56 48) SKEIN_256_IV_256 []"
    using start_absorbing [of "(ctx_256 junk)\<lparr>hashBitLen := 256\<rparr>" SKEIN_256_IV_256] assms(1)
    by (simp add: ctx_def SKEIN_256_IV_256_def)
  from update_absorbs [OF this m]
  obtain ctx1 where 1: "Skein_256_Update ctx key m = Some ctx1" "hashBitLen ctx1 = 256"
    "absorbing ctx1 (push_bit 56 48) SKEIN_256_IV_256 (take m key)"
    by (auto simp: ctx_def Skein_Start_New_Type_def)
  have len: "length out = 32"
    using assms(2) by (simp add: SKEIN_BLOCK_SIZE_def)
  from final_output [OF 1(3,2) this]
  obtain ctx2 where 2: "Skein_256_Final ctx1 out = Some (ctx2, skein256 (take m key))"
    by (auto simp: skein256_def iv256)
  have hash: "skein_Hash junk 256 key (8 * m) out = Some (SKEIN_SUCCESS, skein256 (take m key))"
    using init 1(1) 2 by (simp add: skein_Hash_def skein_Update_def skein_Final_def)
  obtain w0 w1 w2 w3 where d: "ubi 63 (ubi 48 (ubi 4 [0, 0, 0, 0] (skein_config 256)) (take m key)) (bytes64 0) =
      [w0, w1, w2, w3]"
    using length_ubi by (rule list4E)
  then obtain rest where "skein256 (take m key) = bytes32 (ucast w0) @ rest"
    using append_take_drop_id [of 4 "bytes64 w0"] by (simp add: skein256_def take4_bytes64) (metis append.assoc)
  then have "skein256_hash junk out key = Some (ucast w0) \<and> take 4 (skein256 (take m key)) = bytes32 (ucast w0)"
    unfolding skein256_hash_def length_in_bits m_def [symmetric]
    using hash by (simp add: SKEIN_BLOCK_SIZE_def bytes32_def rd_def le32_bytes32)
  then show ?thesis
    unfolding m_def [symmetric] by simp
qed

theorem skein_standard_witness:
  "\<exists>h. skein256_hash skein_junk (replicate 32 0) [97, 98, 99] = Some h \<and>
     bytes32 h = take 4 (skein256 (take (length [97, 98, 99 :: byte] mod 2 ^ 29) [97, 98, 99]))"
  by (rule skein_standard) (simp_all add: skein_junk_def SKEIN_BLOCK_SIZE_def)

end
