(* ===== verification/Hash_bytes.thy ===== *)
theory Hash_bytes
  imports Skein_iv Hash_sha1
begin

text \<open>
  The conversions between words and bytes of the hash functions: the little-endian ones of
  \<open>lib/hash_func_skein256.c\<close>, the big-endian ones of \<open>lib/hash_func_sha1.c\<close>. What one direction
  writes the other reads back.
\<close>

lemma put64_nth:
  assumes "i < length ws" and "j < 8"
  shows "Skein_Put64_LSB_First ws (8 * length ws) ! (8 * i + j) = ucast (drop_bit (8 * j) (ws ! i))"
  using assms by (simp add: Skein_Put64_LSB_First_def)

lemma get_put_words: "Skein_Get64_LSB_First (Skein_Put64_LSB_First ws (8 * length ws)) (length ws) = ws"
proof (rule nth_equalityI)
  show "Skein_Get64_LSB_First (Skein_Put64_LSB_First ws (8 * length ws)) (length ws) ! i = ws ! i"
    if "i < length (Skein_Get64_LSB_First (Skein_Put64_LSB_First ws (8 * length ws)) (length ws))" for i
  proof -
    have i: "i < length ws"
      using that by (simp add: Skein_Get64_LSB_First_def)
    show ?thesis
      using put64_nth [OF i, of 0] put64_nth [OF i, of 1] put64_nth [OF i, of 2] put64_nth [OF i, of 3]
        put64_nth [OF i, of 4] put64_nth [OF i, of 5] put64_nth [OF i, of 6] put64_nth [OF i, of 7] i
      by (simp add: Skein_Get64_LSB_First_def get64_def get_put_word)
  qed
qed (simp add: Skein_Get64_LSB_First_def)

text \<open>Both sides have the same number of values, so the other direction follows by counting.\<close>

lemma put_words_onto:
  "(\<lambda>ws. Skein_Put64_LSB_First ws (8 * n)) ` {ws. length ws = n} = {bs. length bs = 8 * n}"
proof (rule card_subset_eq)
  have words: "card {ws :: u64 list. length ws = n} = (2 ^ 64) ^ n"
    using card_lists_length_eq [of "UNIV :: u64 set" n] by (simp add: card_word)
  have bytes: "card {bs :: byte list. length bs = 8 * n} = (2 ^ 8) ^ (8 * n)"
    "finite {bs :: byte list. length bs = 8 * n}"
    using card_lists_length_eq [of "UNIV :: byte set" "8 * n"] finite_lists_length_eq [of "UNIV :: byte set" "8 * n"]
    by (simp_all add: card_word)
  show "finite {bs :: byte list. length bs = 8 * n}"
    by (rule bytes)
  show "(\<lambda>ws. Skein_Put64_LSB_First ws (8 * n)) ` {ws. length ws = n} \<subseteq> {bs. length bs = 8 * n}"
    by (auto simp: Skein_Put64_LSB_First_def)
  have "inj_on (\<lambda>ws. Skein_Put64_LSB_First ws (8 * n)) {ws. length ws = n}"
    by (rule inj_on_inverseI [of _ "\<lambda>bs. Skein_Get64_LSB_First bs n"]) (auto simp: get_put_words)
  then show "card ((\<lambda>ws. Skein_Put64_LSB_First ws (8 * n)) ` {ws. length ws = n}) = card {bs :: byte list. length bs = 8 * n}"
    by (simp only: card_image words bytes(1) power_mult [symmetric]) simp
qed

lemma put_get_words: 
  assumes "length bs = 8 * n"
  shows "Skein_Put64_LSB_First (Skein_Get64_LSB_First bs n) (8 * n) = bs"
proof -
  obtain ws where "length ws = n" "bs = Skein_Put64_LSB_First ws (8 * n)"
    using put_words_onto [of n] assms by blast
  then show ?thesis
    using get_put_words [of ws] by auto
qed

lemma next_byte_or:
  "push_bit m (ucast (ucast (drop_bit m w) :: byte)) OR take_bit m (ucast (w :: u32) :: u64) = take_bit (m + 8) (ucast w)"
  by (rule bit_word_eqI) (auto simp: bit_simps dest: bit_imp_le_length)

lemma be_word:
  "push_bit 24 (ucast (ucast (drop_bit 24 w) :: byte)) OR push_bit 16 (ucast (ucast (drop_bit 16 w) :: byte)) OR
     push_bit 8 (ucast (ucast (drop_bit 8 w) :: byte)) OR ucast (ucast w :: byte) = (ucast (w :: u32) :: u64)"
proof -
  have "take_bit 32 (ucast w :: u64) = ucast w"
    by (rule bit_word_eqI) (auto simp: bit_simps dest: bit_imp_le_length)
  then show ?thesis
    using next_byte_or [of 0 w] next_byte_or [of 8 w] next_byte_or [of 16 w] next_byte_or [of 24 w]
    by (simp add: or.assoc)
qed

lemma length_put_be: "length (put_be w) = 4"
  by (simp add: put_be_def)

lemma put_be_concat_nth:
  "i < length ws \<Longrightarrow> j < 4 \<Longrightarrow> concat (map put_be ws) ! (4 * i + j) = put_be (ws ! i) ! j"
proof (induction ws arbitrary: i)
  case (Cons w ws)
  then show ?case
    by (cases i) (simp_all add: nth_append length_put_be)
qed simp

lemma get_be_put_be:
  assumes "i < length ws"
  shows "GET_ULONG_BE (concat (map put_be ws)) (4 * i) = ucast (ws ! i)"
  using put_be_concat_nth [OF assms, of 0] put_be_concat_nth [OF assms, of 1] put_be_concat_nth [OF assms, of 2]
    put_be_concat_nth [OF assms, of 3]
  by (simp add: GET_ULONG_BE_def put_be_def be_word)

text \<open>
  C40. The byte conversions of Skein are inverse to each other: any words written by
  \<open>Skein_Put64_LSB_First\<close> are read back by \<open>Skein_Get64_LSB_First\<close>, and any bytes read are written
  back; \<open>GET_ULONG_BE\<close> of SHA-1 reads what \<open>PUT_ULONG_BE\<close> wrote.
\<close>

theorem words_roundtrip:
  assumes "length bs = 8 * n" and "i < length vs"
  shows "Skein_Get64_LSB_First (Skein_Put64_LSB_First ws (8 * length ws)) (length ws) = ws \<and>
    Skein_Put64_LSB_First (Skein_Get64_LSB_First bs n) (8 * n) = bs \<and>
    GET_ULONG_BE (concat (map put_be vs)) (4 * i) = ucast (vs ! i)"
  using assms by (simp add: get_put_words put_get_words get_be_put_be)

theorem words_roundtrip_witness:
  "Skein_Put64_LSB_First (Skein_Get64_LSB_First [1, 2, 3, 4, 5, 6, 7, 8] 1) 8 = [1, 2, 3, 4, 5, 6, 7, 8] \<and>
   GET_ULONG_BE (concat (map put_be [0x01020304, 0x05060708])) 4 = 0x05060708"
  using words_roundtrip [of "[1, 2, 3, 4, 5, 6, 7, 8]" 1 1 "[0x01020304, 0x05060708]"] by simp

end
