(* ===== verification/Mt.thy ===== *)
theory Mt
  imports Hi_prelude
begin

text \<open>
  The random number generator of the test programs (\<open>localhash/mt.c\<close>, a recode of MT19937 with its
  own seeding). The static variables \<open>state\<close>, \<open>next\<close>
  and \<open>left\<close> are a record; the pointers into \<open>state\<close> are indices.
\<close>

section \<open>The generator\<close>

definition mt_N :: nat where "mt_N = 624"
definition mt_M :: nat where "mt_M = 397"
definition mt_K :: u32 where "mt_K = 0x9908B0DF"

definition hiBit :: "u32 \<Rightarrow> u32" where "hiBit u = u AND 0x80000000"
definition loBit :: "u32 \<Rightarrow> u32" where "loBit u = u AND 0x00000001"
definition loBits :: "u32 \<Rightarrow> u32" where "loBits u = u AND 0x7FFFFFFF"

definition mixBits :: "u32 \<Rightarrow> u32 \<Rightarrow> u32" where
  "mixBits u v = hiBit u OR loBits v"

record mt =
  mt_state :: "u32 list"
  mt_next :: nat
  mt_left :: int

text \<open>The static variables at program start.\<close>

definition mt_init :: mt where
  "mt_init = \<lparr>mt_state = replicate (mt_N + 1) 0, mt_next = 0, mt_left = - 1\<rparr>"

text \<open>The loop of \<open>seed_mt\<close>: iterations left, index, \<open>x\<close>.\<close>

fun seed_loop :: "nat \<Rightarrow> nat \<Rightarrow> u32 \<Rightarrow> u32 list \<Rightarrow> u32 list" where
  "seed_loop 0 s x st = st"
| "seed_loop (Suc j) s x st = (let x = x * 69069 in seed_loop j (s + 1) x (st[s := x AND 0xFFFFFFFF]))"

definition seed_mt :: "mt \<Rightarrow> u32 \<Rightarrow> mt" where
  "seed_mt m seed =
     (let x = (seed OR 1) AND 0xFFFFFFFF
      in m\<lparr>mt_left := 0, mt_state := seed_loop (mt_N - 1) 1 x ((mt_state m)[0 := x])\<rparr>)"

definition mt_twist :: "u32 \<Rightarrow> u32 \<Rightarrow> u32 \<Rightarrow> u32" where
  "mt_twist pM s0 s1 = (pM XOR drop_bit 1 (mixBits s0 s1)) XOR (if loBit s1 \<noteq> 0 then mt_K else 0)"

text \<open>Both loops of \<open>reload_mt\<close>: iterations left, \<open>p0\<close>, \<open>pM\<close>, \<open>p2\<close>, \<open>s0\<close>, \<open>s1\<close>.\<close>

fun reload_loop :: "nat \<Rightarrow> nat \<Rightarrow> nat \<Rightarrow> nat \<Rightarrow> u32 \<Rightarrow> u32 \<Rightarrow> u32 list \<Rightarrow>
    nat \<times> nat \<times> nat \<times> u32 \<times> u32 \<times> u32 list" where
  "reload_loop 0 p0 pM p2 s0 s1 st = (p0, pM, p2, s0, s1, st)"
| "reload_loop (Suc j) p0 pM p2 s0 s1 st =
     (let st = st[p0 := mt_twist (st ! pM) s0 s1]
      in reload_loop j (p0 + 1) (pM + 1) (p2 + 1) s1 (st ! p2) st)"

text \<open>\<open>reload_mt\<close> and \<open>random_mt\<close> each temper what they return.\<close>

definition reload_temper :: "u32 \<Rightarrow> u32" where
  "reload_temper s1 =
     (let s1 = s1 XOR drop_bit 11 s1;
          s1 = s1 XOR (push_bit 7 s1 AND 0x9D2C5680);
          s1 = s1 XOR (push_bit 15 s1 AND 0xEFC60000)
      in s1 XOR drop_bit 18 s1)"

definition random_temper :: "u32 \<Rightarrow> u32" where
  "random_temper y =
     (let y = y XOR drop_bit 11 y;
          y = y XOR (push_bit 7 y AND 0x9D2C5680);
          y = y XOR (push_bit 15 y AND 0xEFC60000)
      in y XOR drop_bit 18 y)"

definition reload_mt :: "mt \<Rightarrow> u32 \<times> mt" where
  "reload_mt m =
     (let m = (if mt_left m < - 1 then seed_mt m 4357 else m);
          st = mt_state m;
          (p0, pM, p2, s0, s1, st) = reload_loop (mt_N - mt_M) 0 mt_M 2 (st ! 0) (st ! 1) st;
          (p0, pM, p2, s0, s1, st) = reload_loop (mt_M - 1) p0 0 p2 s0 s1 st;
          s1 = st ! 0;
          st = st[p0 := mt_twist (st ! pM) s0 s1]
      in (reload_temper s1, m\<lparr>mt_state := st, mt_next := 1, mt_left := int mt_N - 1\<rparr>))"

definition random_mt :: "mt \<Rightarrow> u32 \<times> mt" where
  "random_mt m =
     (let m = m\<lparr>mt_left := mt_left m - 1\<rparr>
      in if mt_left m < 0 then reload_mt m
         else (random_temper (mt_state m ! mt_next m), m\<lparr>mt_next := mt_next m + 1\<rparr>))"

text \<open>The outputs of \<open>n\<close> calls, and the state after them.\<close>

fun mt_outputs :: "nat \<Rightarrow> mt \<Rightarrow> u32 list" where
  "mt_outputs 0 m = []"
| "mt_outputs (Suc n) m = (let (y, m) = random_mt m in y # mt_outputs n m)"

fun mt_calls :: "nat \<Rightarrow> mt \<Rightarrow> mt" where
  "mt_calls 0 m = m"
| "mt_calls (Suc n) m = mt_calls n (snd (random_mt m))"

section \<open>The sequence\<close>

text \<open>
  MT19937 as its authors define it, apart from the code: the parameters are those of the article, and
  words are given by their bits. A word times the matrix \<open>A\<close> is the word shifted by one, with
  \<open>a = 0x9908B0DF\<close> added when bit 0 is set; the recurrence takes the upper bit of an element and the
  lower 31 bits of the next one; an output is an element times the tempering matrix, four steps with
  \<open>u = 11\<close>, \<open>s = 7\<close>, \<open>b = 0x9D2C5680\<close>, \<open>t = 15\<close>, \<open>c = 0xEFC60000\<close> and \<open>l = 18\<close>.
\<close>

type_synonym bits = "nat \<Rightarrow> bool"

definition num_bits :: "nat \<Rightarrow> bits" where
  "num_bits n = (\<lambda>i. odd (n div 2 ^ i))"

definition mt_A :: "bits \<Rightarrow> bits" where
  "mt_A x = (\<lambda>i. (i < 31 \<and> x (i + 1)) \<noteq> (x 0 \<and> num_bits 0x9908B0DF i))"

definition right_step :: "nat \<Rightarrow> bits \<Rightarrow> bits" where
  "right_step n x = (\<lambda>i. x i \<noteq> (i + n < 32 \<and> x (i + n)))"

definition left_step :: "nat \<Rightarrow> nat \<Rightarrow> bits \<Rightarrow> bits" where
  "left_step n b x = (\<lambda>i. x i \<noteq> (n \<le> i \<and> x (i - n) \<and> num_bits b i))"

definition mt19937_temper :: "bits \<Rightarrow> bits" where
  "mt19937_temper = right_step 18 \<circ> left_step 15 0xEFC60000 \<circ> left_step 7 0x9D2C5680 \<circ> right_step 11"

fun mt19937_element :: "(nat \<Rightarrow> bits) \<Rightarrow> nat \<Rightarrow> bits" where
  "mt19937_element x k =
     (if k < 624 then x k
      else (\<lambda>i. mt19937_element x (k - 227) i \<noteq>
        mt_A (\<lambda>i. if i = 31 then mt19937_element x (k - 624) 31 else mt19937_element x (k - 623) i) i))"

declare mt19937_element.simps [simp del]

text \<open>Output number \<open>i\<close> of the generator started with the elements \<open>x\<close>, as a word.\<close>

definition of_bits :: "bits \<Rightarrow> u32" where
  "of_bits x = horner_sum of_bool 2 (map x [0 ..< 32])"

definition mt19937 :: "(nat \<Rightarrow> bits) \<Rightarrow> nat \<Rightarrow> u32" where
  "mt19937 x i = of_bits (mt19937_temper (mt19937_element x (624 + i)))"

text \<open>The elements the code starts with: a multiplicative generator from the seed, made odd.\<close>

definition mt_start :: "u32 \<Rightarrow> nat \<Rightarrow> bits" where
  "mt_start seed k = bit ((seed OR 1) * 69069 ^ k)"

text \<open>The same recurrence on words, with the step of the code.\<close>

fun mt_seq :: "u32 \<Rightarrow> nat \<Rightarrow> u32" where
  "mt_seq seed k =
     (if k < 624 then (seed OR 1) * 69069 ^ k
      else mt_twist (mt_seq seed (k - 227)) (mt_seq seed (k - 624)) (mt_seq seed (k - 623)))"

declare mt_seq.simps [simp del]

lemma num_bits_less: "num_bits n i = bit n i"
  by (simp add: num_bits_def bit_iff_odd)

lemma bit_num: "bit (word_of_nat n :: u32) i = (i < 32 \<and> num_bits n i)"
  by (auto simp: num_bits_less bit_simps)

lemma of_bits_bit: "of_bits (bit w) = w"
  by (rule bit_word_eqI) (simp add: of_bits_def bit_horner_sum_bit_word_iff)

lemma bit_high: "32 \<le> i \<Longrightarrow> \<not> bit (w :: u32) i"
  using bit_imp_le_length [of w i] by auto

lemma num_high:
  assumes "n < 2 ^ 32" and "32 \<le> i"
  shows "\<not> num_bits n i"
proof -
  have "(2 :: nat) ^ 32 \<le> 2 ^ i"
    by (rule power_increasing) (use assms(2) in simp_all)
  then have "n < 2 ^ i"
    using assms(1) by (rule order.strict_trans2 [rotated])
  then show ?thesis
    by (simp add: num_bits_def)
qed

lemma bit_right: "bit (y XOR drop_bit n y :: u32) = right_step n (bit y)"
  using bit_high [of _ y] by (auto simp: fun_eq_iff right_step_def bit_xor_iff bit_drop_bit_eq not_less add.commute)

lemma bit_left:
  assumes "b < 2 ^ 32"
  shows "bit (y XOR (push_bit n y AND word_of_nat b) :: u32) = left_step n b (bit y)"
proof
  fix i
  show "bit (y XOR (push_bit n y AND word_of_nat b)) i = left_step n b (bit y) i"
  proof (cases "i < 32")
    case True
    then show ?thesis
      by (simp add: left_step_def bit_xor_iff bit_and_iff bit_push_bit_iff bit_num)
  next
    case False
    then show ?thesis
      using bit_high num_high [OF assms] by (simp add: left_step_def not_less)
  qed
qed

lemma temper_bits: "bit (reload_temper y) = mt19937_temper (bit y)" "bit (random_temper y) = mt19937_temper (bit y)"
proof -
  have masks: "(0x9D2C5680 :: u32) = word_of_nat 0x9D2C5680" "(0xEFC60000 :: u32) = word_of_nat 0xEFC60000"
    by simp_all
  have "bit (reload_temper y) = mt19937_temper (bit y)"
    unfolding reload_temper_def mt19937_temper_def comp_apply Let_def masks
    by (subst bit_right, subst bit_left, simp, subst bit_left, simp, subst bit_right) (rule refl)
  moreover have "random_temper y = reload_temper y"
    by (simp add: random_temper_def reload_temper_def)
  ultimately show "bit (reload_temper y) = mt19937_temper (bit y)" "bit (random_temper y) = mt19937_temper (bit y)"
    by simp_all
qed

lemma bit_mixBits: "bit (mixBits s0 s1) i = (if i = 31 then bit s0 31 else bit s1 i)"
proof -
  have "(0x80000000 :: u32) = push_bit 31 1"
    by simp
  then have "bit (0x80000000 :: u32) i = (i = 31)"
    by (simp only: bit_push_bit_iff bit_1_iff) auto
  moreover have "(0x7FFFFFFF :: u32) = mask 31"
    by (simp add: mask_eq_exp_minus_1)
  then have "bit (0x7FFFFFFF :: u32) i = (i < 31)"
    by (simp only: bit_mask_iff) auto
  ultimately show ?thesis
    using bit_high [of i s1]
    by (auto simp: mixBits_def hiBit_def loBits_def bit_or_iff bit_and_iff)
qed

lemma bit_twist:
  "bit (mt_twist pM s0 s1) = (\<lambda>i. bit pM i \<noteq> mt_A (\<lambda>i. if i = 31 then bit s0 31 else bit s1 i) i)"
proof
  fix i
  have K: "mt_K = word_of_nat 0x9908B0DF"
    by (simp add: mt_K_def)
  have low: "loBit s1 \<noteq> 0 \<longleftrightarrow> bit s1 0"
    by (simp add: loBit_def and_one_eq bit_0 odd_iff_mod_2_eq_one)
  have "bit (if loBit s1 \<noteq> 0 then mt_K else 0) i \<longleftrightarrow> bit s1 0 \<and> num_bits 0x9908B0DF i"
    unfolding low K using bit_num [of "0x9908B0DF" i] num_high [of "0x9908B0DF" i] by (auto simp del: of_nat_numeral)
  moreover have "bit (drop_bit 1 (mixBits s0 s1)) i \<longleftrightarrow> i < 31 \<and> (if i + 1 = 31 then bit s0 31 else bit s1 (i + 1))"
    using bit_high [of "i + 1" s1] by (cases "i < 31") (auto simp: bit_drop_bit_eq bit_mixBits)
  ultimately show "bit (mt_twist pM s0 s1) i \<longleftrightarrow>
      bit pM i \<noteq> mt_A (\<lambda>i. if i = 31 then bit s0 31 else bit s1 i) i"
    unfolding mt_twist_def mt_A_def bit_xor_iff by auto
qed

text \<open>The two recurrences agree.\<close>

lemma seq_element: "bit (mt_seq seed k) = mt19937_element (mt_start seed) k"
proof (induction seed k rule: mt_seq.induct)
  case (1 seed k)
  show ?case
  proof (cases "k < 624")
    case True
    then show ?thesis
      by (simp add: mt_seq.simps [of seed k] mt19937_element.simps [of _ k] mt_start_def)
  next
    case False
    then show ?thesis
      using 1 [OF False]
      by (simp only: mt_seq.simps [of seed k] mt19937_element.simps [of _ k] bit_twist if_False)
  qed
qed

lemma tempered:
  "reload_temper (mt_seq seed (624 + i)) = mt19937 (mt_start seed) i"
  "random_temper (mt_seq seed (624 + i)) = mt19937 (mt_start seed) i"
  using of_bits_bit [of "reload_temper (mt_seq seed (624 + i))"] of_bits_bit [of "random_temper (mt_seq seed (624 + i))"]
  by (simp_all only: mt19937_def seq_element temper_bits)

lemma mt_seq_step: "mt_seq seed (k + 624) = mt_twist (mt_seq seed (k + 397)) (mt_seq seed k) (mt_seq seed (k + 1))"
  by (subst mt_seq.simps) (simp add: add.commute)

lemma all_ones [simp]: "x AND 0xFFFFFFFF = (x :: u32)"
proof -
  have "(0xFFFFFFFF :: u32) = - 1"
    by simp
  then show ?thesis
    by (simp only: and.right_neutral)
qed

lemma seed_loop_values:
  "length st = 625 \<Longrightarrow> s + j \<le> 624 \<Longrightarrow>
     length (seed_loop j s x st) = 625 \<and>
     (\<forall>i. seed_loop j s x st ! i = (if s \<le> i \<and> i < s + j then x * 69069 ^ (i - s + 1) else st ! i))"
proof (induction j arbitrary: s x st)
  case 0
  then show ?case by auto
next
  case (Suc j)
  have "length (st[s := x * 69069]) = 625" "s + 1 + j \<le> 624"
    using Suc.prems by simp_all
  note IH = Suc.IH [OF this, of "x * 69069"]
  have "seed_loop (Suc j) s x st ! i = (if s \<le> i \<and> i < s + Suc j then x * 69069 ^ (i - s + 1) else st ! i)" for i
  proof (cases "s < i \<and> i < s + Suc j")
    case True
    then have "i - s = Suc (i - (s + 1))"
      by linarith
    then show ?thesis
      using IH True by (simp add: Let_def mult.assoc)
  next
    case False
    then show ?thesis
      using IH Suc.prems by (auto simp: Let_def nth_list_update)
  qed
  then show ?case
    using IH by (simp add: Let_def)
qed

text \<open>The state holds batch \<open>b\<close> of the sequence, the first \<open>i\<close> elements already replaced.\<close>

definition part :: "u32 \<Rightarrow> nat \<Rightarrow> nat \<Rightarrow> u32 list \<Rightarrow> bool" where
  "part seed b i st \<longleftrightarrow> length st = 625 \<and>
     (\<forall>j < 624. st ! j = mt_seq seed (624 * b + j + (if j < i then 624 else 0)))"

lemma part_step:
  assumes "part seed b i st" and "i < 624" and "pM = i + 397 \<or> i = pM + 227" and "pM < 624"
    and "s0 = mt_seq seed (624 * b + i)" and "s1 = mt_seq seed (624 * b + i + 1)"
  shows "part seed b (i + 1) (st[i := mt_twist (st ! pM) s0 s1])"
proof -
  have "st ! pM = mt_seq seed (624 * b + i + 397)"
    using assms(1,3,4) by (auto simp: part_def algebra_simps)
  then have "mt_twist (st ! pM) s0 s1 = mt_seq seed (624 * b + i + 624)"
    using mt_seq_step [of seed "624 * b + i"] assms(5,6) by simp
  then show ?thesis
    using assms(1,2) by (auto simp: part_def nth_list_update less_Suc_eq)
qed

lemma reload_loop_part:
  assumes "part seed b p0 st" and "pM = p0 + 397 \<or> p0 = pM + 227" and "pM + j \<le> 624" and "p0 + j < 624"
    and "p2 = p0 + 2" and "s0 = mt_seq seed (624 * b + p0)" and "s1 = mt_seq seed (624 * b + p0 + 1)"
  shows "\<exists>s1' st'. reload_loop j p0 pM p2 s0 s1 st =
      (p0 + j, pM + j, p2 + j, mt_seq seed (624 * b + p0 + j), s1', st') \<and> part seed b (p0 + j) st' \<and>
      (p0 + j < 623 \<longrightarrow> s1' = mt_seq seed (624 * b + p0 + j + 1))"
  using assms
proof (induction j arbitrary: p0 pM p2 s0 s1 st)
  case 0
  then show ?case by simp
next
  case (Suc j)
  define st1 where "st1 = st[p0 := mt_twist (st ! pM) s0 s1]"
  have st1: "part seed b (p0 + 1) st1"
    unfolding st1_def by (rule part_step) (use Suc.prems in auto)
  have s1: "s1 = mt_seq seed (624 * b + (p0 + 1))"
    using Suc.prems by simp
  show ?case
  proof (cases "p0 + 2 < 624")
    case True
    then have s2: "st1 ! (p0 + 2) = mt_seq seed (624 * b + (p0 + 1) + 1)"
      using st1 by (simp add: part_def)
    have "pM + 1 = p0 + 1 + 397 \<or> p0 + 1 = pM + 1 + 227" "pM + 1 + j \<le> 624" "p0 + 1 + j < 624"
      "p2 + 1 = p0 + 1 + 2"
      using Suc.prems by auto
    from Suc.IH [OF st1 this s1 s2] show ?thesis
      using Suc.prems(5) by (simp add: st1_def [symmetric] Let_def)
  next
    case False
    then have "j = 0" "p0 = 622"
      using Suc.prems(4) by auto
    then show ?thesis
      using st1 [unfolded st1_def] s1 by (simp add: Let_def add.commute)
  qed
qed

lemma reload_part:
  assumes "part seed b 0 (mt_state m)" and "- 1 \<le> mt_left m"
  shows "\<exists>m'. reload_mt m = (reload_temper (mt_seq seed (624 * (b + 1))), m') \<and> part seed (b + 1) 0 (mt_state m') \<and>
    mt_next m' = 1 \<and> mt_left m' = 623"
proof -
  let ?st = "mt_state m"
  have s: "?st ! 0 = mt_seq seed (624 * b + 0)" "?st ! 1 = mt_seq seed (624 * b + 0 + 1)"
    using assms(1) by (simp_all add: part_def)
  obtain s1 st1 where 1: "reload_loop 227 0 397 2 (?st ! 0) (?st ! 1) ?st =
      (227, 624, 229, mt_seq seed (624 * b + 227), s1, st1)" "part seed b 227 st1"
    "s1 = mt_seq seed (624 * b + 227 + 1)"
    using reload_loop_part [OF assms(1) _ _ _ _ s, of 397 227 2] by auto
  obtain s2 st2 where 2: "reload_loop 396 227 0 229 (mt_seq seed (624 * b + 227)) s1 st1 =
      (623, 396, 625, mt_seq seed (624 * b + 623), s2, st2)" "part seed b 623 st2"
    using reload_loop_part [OF 1(2) _ _ _ _ refl 1(3), of 0 396 229] by (auto simp: add.commute)
  have first: "st2 ! 0 = mt_seq seed (624 * b + 623 + 1)"
    using 2(2) by (simp add: part_def add.commute)
  have "part seed b (623 + 1) (st2[623 := mt_twist (st2 ! 396) (mt_seq seed (624 * b + 623)) (st2 ! 0)])"
    by (rule part_step [OF 2(2)]) (use first in simp_all)
  then have "part seed (b + 1) 0 (st2[623 := mt_twist (st2 ! 396) (mt_seq seed (624 * b + 623)) (st2 ! 0)])"
    by (auto simp: part_def algebra_simps)
  moreover have "\<not> mt_left m < - 1"
    using assms(2) by simp
  ultimately show ?thesis
    using 1(1) 2(1) first by (simp add: reload_mt_def mt_N_def mt_M_def Let_def add.commute)
qed

section \<open>The outputs\<close>

text \<open>The state in which the next output is number \<open>n\<close>.\<close>

definition mt_at :: "u32 \<Rightarrow> nat \<Rightarrow> mt \<Rightarrow> bool" where
  "mt_at seed n m \<longleftrightarrow>
     (if n mod 624 = 0 then part seed (n div 624) 0 (mt_state m) \<and> mt_left m = 0
      else part seed (n div 624 + 1) 0 (mt_state m) \<and> mt_next m = n mod 624 \<and>
        mt_left m = 624 - int (n mod 624))"

lemma seed_at: "length (mt_state m) = 625 \<Longrightarrow> mt_at seed 0 (seed_mt m seed)"
proof -
  assume len: "length (mt_state m) = 625"
  then have "length ((mt_state m)[0 := seed OR 1]) = 625"
    by simp
  from seed_loop_values [OF this, of 1 623 "seed OR 1"]
  moreover have "mt_state (seed_mt m seed) = seed_loop 623 1 (seed OR 1) ((mt_state m)[0 := seed OR 1])"
    "mt_left (seed_mt m seed) = 0"
    by (simp_all add: seed_mt_def mt_N_def Let_def)
  moreover have "mt_seq seed j = (if j = 0 then seed OR 1 else (seed OR 1) * 69069 ^ (j - 1 + 1))" if "j < 624" for j
    using that by (subst mt_seq.simps) simp
  ultimately show ?thesis
    using len by (simp add: mt_at_def part_def)
qed

lemma div_mod_Suc:
  fixes n :: nat
  shows "624 * (n div 624) + n mod 624 = n"
    and "n mod 624 = 623 \<Longrightarrow> (n + 1) mod 624 = 0 \<and> (n + 1) div 624 = n div 624 + 1"
    and "n mod 624 \<noteq> 623 \<Longrightarrow> (n + 1) mod 624 = n mod 624 + 1 \<and> (n + 1) div 624 = n div 624"
  by (simp, auto simp: mod_Suc div_Suc)

lemma random_at:
  assumes "mt_at seed n m"
  shows "\<exists>m'. random_mt m = (mt19937 (mt_start seed) n, m') \<and> mt_at seed (n + 1) m'"
proof (cases "n mod 624 = 0")
  case True
  then have m: "part seed (n div 624) 0 (mt_state (m\<lparr>mt_left := - 1\<rparr>))" "mt_left m = 0"
    using assms by (simp_all add: mt_at_def)
  have n: "624 * (n div 624 + 1) = 624 + n" "(n + 1) mod 624 = 1" "(n + 1) div 624 = n div 624"
    using True div_mod_Suc(1,3) [of n] by simp_all
  obtain m' where "reload_mt (m\<lparr>mt_left := - 1\<rparr>) = (reload_temper (mt_seq seed (624 + n)), m')"
    "part seed (n div 624 + 1) 0 (mt_state m')" "mt_next m' = 1" "mt_left m' = 623"
    using reload_part [OF m(1)] unfolding n(1) by auto
  then show ?thesis
    using m(2) n(2,3) by (simp add: random_mt_def mt_at_def tempered)
next
  case False
  then have m: "part seed (n div 624 + 1) 0 (mt_state m)" "mt_next m = n mod 624" "mt_left m = 624 - int (n mod 624)"
    using assms by (simp_all add: mt_at_def)
  have "mt_state m ! (n mod 624) = mt_seq seed (624 * (n div 624 + 1) + n mod 624)"
    using m(1) by (simp add: part_def)
  also have "624 * (n div 624 + 1) + n mod 624 = 624 + n"
    by (simp only: distrib_left mult_1_right add.assoc [symmetric] add.commute [of "624 * (n div 624)"])
      (simp only: add.assoc div_mod_Suc(1))
  finally have y: "mt_state m ! (n mod 624) = mt_seq seed (624 + n)" .
  have "n mod 624 < 624"
    by simp
  then have "\<not> mt_left m - 1 < 0"
    unfolding m(3) by linarith
  then have "random_mt m = (mt19937 (mt_start seed) n, m\<lparr>mt_left := mt_left m - 1, mt_next := n mod 624 + 1\<rparr>)"
    using m(2) y by (simp add: random_mt_def Let_def tempered)
  moreover have "mt_at seed (n + 1) (m\<lparr>mt_left := mt_left m - 1, mt_next := n mod 624 + 1\<rparr>)"
  proof (cases "n mod 624 = 623")
    case True
    then have "(n + 1) mod 624 = 0" "(n + 1) div 624 = n div 624 + 1"
      using div_mod_Suc(2) [of n] by blast+
    then show ?thesis
      using True m by (simp add: mt_at_def)
  next
    case False
    then have "(n + 1) mod 624 = n mod 624 + 1" "(n + 1) div 624 = n div 624"
      using div_mod_Suc(3) [of n] by blast+
    then show ?thesis
      using m by (simp add: mt_at_def)
  qed
  ultimately show ?thesis
    by blast
qed

lemma outputs_at:
  "mt_at seed n m \<Longrightarrow> mt_outputs k m = map (\<lambda>i. mt19937 (mt_start seed) (n + i)) [0 ..< k] \<and>
     mt_at seed (n + k) (mt_calls k m)"
proof (induction k arbitrary: n m)
  case 0
  then show ?case by simp
next
  case (Suc k)
  obtain m' where "random_mt m = (mt19937 (mt_start seed) n, m')" "mt_at seed (n + 1) m'"
    using random_at [OF Suc.prems] by blast
  moreover have "map f [0 ..< Suc k] = f 0 # map (\<lambda>i. f (Suc i)) [0 ..< k]" for f :: "nat \<Rightarrow> u32"
    by (simp add: upt_conv_Cons map_Suc_upt [symmetric] o_def del: upt_Suc)
  ultimately show ?case
    using Suc.IH [of "n + 1" m'] by (simp add: add.assoc del: upt_Suc)
qed

lemma at_length: "mt_at seed n m \<Longrightarrow> length (mt_state m) = 625"
  by (auto simp: mt_at_def part_def split: if_splits)

lemma random_first: "random_mt mt_init = random_mt (seed_mt mt_init 4357)"
proof -
  have "reload_mt (mt_init\<lparr>mt_left := - 2\<rparr>) = reload_mt ((seed_mt mt_init 4357)\<lparr>mt_left := - 1\<rparr>)"
    by (simp add: reload_mt_def mt_init_def seed_mt_def Let_def)
  then show ?thesis
    by (simp add: random_mt_def) (simp add: mt_init_def seed_mt_def Let_def)
qed

text \<open>
  C39. The generator is MT19937, started by the multiplicative seeding of the code: after seeding, at
  any time, the outputs of any number of calls are those of the recurrence and the tempering of the
  article, stated bit by bit apart from the code, although the state is renewed in place, in batches,
  with wrapping pointers; a generator that was never seeded behaves as if seeded with 4357.
\<close>

theorem mt_outputs_sequence:
  "mt_outputs n mt_init = map (mt19937 (mt_start 4357)) [0 ..< n] \<and>
   mt_outputs n (seed_mt (mt_calls k mt_init) seed) = map (mt19937 (mt_start seed)) [0 ..< n]"
proof -
  have at: "mt_at 4357 0 (seed_mt mt_init 4357)"
    by (rule seed_at) (simp add: mt_init_def mt_N_def)
  have out: "mt_outputs n mt_init = mt_outputs n (seed_mt mt_init 4357)"
    by (cases n) (simp_all add: random_first)
  have "length (mt_state (mt_calls k mt_init)) = 625"
  proof (cases k)
    case 0
    then show ?thesis by (simp add: mt_init_def mt_N_def)
  next
    case (Suc j)
    then have "mt_calls k mt_init = mt_calls k (seed_mt mt_init 4357)"
      by (simp add: random_first)
    then show ?thesis
      using outputs_at [OF at, of k] at_length by auto
  qed
  then have "mt_at seed 0 (seed_mt (mt_calls k mt_init) seed)"
    by (rule seed_at)
  from outputs_at [OF this, of n] show ?thesis
    using outputs_at [OF at, of n] out by simp
qed

end
