(* ===== verification/Threads.thy ===== *)
theory Threads
  imports Hi_heap
begin

text \<open>
  The THREADSAFE build (\<open>lib/threads.h\<close>): creating and destroying locks, and threads that share a
  table. A thread is a program of lock operations and of steps on the shared state; the memory
  accesses that one thread makes while it holds the lock that guards them are one step. The mutex
  is the default one of POSIX: it is not recursive, and unlocking it without holding it is
  undefined.
\<close>

section \<open>Creating and destroying a lock\<close>

text \<open>
  The argument after the heap is the return value of the function of the thread library. The
  results: the return value, whether the lock pointer was stored, and the heap.
\<close>

definition lhi_pthread_mutex_init :: "heap \<Rightarrow> int \<Rightarrow> int \<times> bool \<times> heap" where
  "lhi_pthread_mutex_init hp pthread_mutex_init =
     (case malloc hp of
        (None, hp) \<Rightarrow> (HI_ERR_SYSTEM, False, hp)
      | (Some _, hp) \<Rightarrow>
          (let ret = pthread_mutex_init
           in if ret \<noteq> 0 then (ret, False, free hp) else (ret, True, hp)))"

definition lhi_pthread_rwlock_init :: "heap \<Rightarrow> int \<Rightarrow> int \<times> bool \<times> heap" where
  "lhi_pthread_rwlock_init hp pthread_rwlock_init =
     (case malloc hp of
        (None, hp) \<Rightarrow> (HI_ERR_SYSTEM, False, hp)
      | (Some _, hp) \<Rightarrow>
          (let ret = pthread_rwlock_init
           in if ret \<noteq> 0 then (ret, False, free hp) else (ret, True, hp)))"

definition lhi_pthread_mutex_destroy :: "heap \<Rightarrow> int \<Rightarrow> int \<times> heap" where
  "lhi_pthread_mutex_destroy hp pthread_mutex_destroy =
     (let r = pthread_mutex_destroy in if r = 0 then (r, free hp) else (r, hp))"

definition lhi_pthread_rwlock_destroy :: "heap \<Rightarrow> int \<Rightarrow> int \<times> heap" where
  "lhi_pthread_rwlock_destroy hp pthread_rwlock_destroy =
     (let r = pthread_rwlock_destroy in if r = 0 then (r, free hp) else (r, hp))"

text \<open>A lock exists, and takes one block, exactly when its creation returned 0.\<close>

lemma mutex_init_block:
  "lhi_pthread_mutex_init hp i = (ret, made, hp') \<Longrightarrow>
     made = (ret = 0) \<and> live hp' = live hp + (if ret = 0 then 1 else 0)"
  by (auto simp: lhi_pthread_mutex_init_def malloc_def free_def Let_def hi_defs
      split: malloc_result.splits if_splits)

lemma rwlock_init_block:
  "lhi_pthread_rwlock_init hp i = (ret, made, hp') \<Longrightarrow>
     made = (ret = 0) \<and> live hp' = live hp + (if ret = 0 then 1 else 0)"
  by (auto simp: lhi_pthread_rwlock_init_def malloc_def free_def Let_def hi_defs
      split: malloc_result.splits if_splits)

section \<open>Threads\<close>

text \<open>The mutex of the handle, and the lock of each tree.\<close>

datatype lock = Mutex | Rwlock nat

text \<open>
  \<open>Wrlock\<close> is \<open>lhi_pthread_mutex_lock\<close> and \<open>lhi_pthread_rwlock_wrlock\<close>, \<open>Unlock\<close> the two unlock
  functions. The rest of the program after an atomic step may depend on the state; \<open>None\<close> is
  undefined behaviour.
\<close>

datatype ('s, 'r) prog =
    Return 'r
  | Wrlock lock "('s, 'r) prog"
  | Rdlock lock "('s, 'r) prog"
  | Unlock lock "('s, 'r) prog"
  | Atomic "'s \<Rightarrow> ('s \<times> ('s, 'r) prog) option"

datatype lock_state = Readers "nat set" | Writer nat

fun holds :: "lock_state \<Rightarrow> nat \<Rightarrow> bool" where
  "holds (Readers R) t = (t \<in> R)"
| "holds (Writer u) t = (t = u)"

fun release :: "lock_state \<Rightarrow> nat \<Rightarrow> lock_state" where
  "release (Readers R) t = Readers (R - {t})"
| "release (Writer u) t = Readers {}"

record ('s, 'r) config =
  shared :: 's
  locks :: "lock \<Rightarrow> lock_state"
  threads :: "('s, 'r) prog list"

definition start :: "'s \<Rightarrow> ('s, 'r) prog list \<Rightarrow> ('s, 'r) config" where
  "start s ps = \<lparr>shared = s, locks = (\<lambda>_. Readers {}), threads = ps\<rparr>"

text \<open>Thread \<open>t\<close> moves.\<close>

inductive step :: "nat \<Rightarrow> ('s, 'r) config \<Rightarrow> ('s, 'r) config \<Rightarrow> bool" where
  wrlock: "t < length (threads c) \<Longrightarrow> threads c ! t = Wrlock l p \<Longrightarrow> locks c l = Readers {} \<Longrightarrow>
    step t c (c\<lparr>locks := (locks c)(l := Writer t), threads := (threads c)[t := p]\<rparr>)"
| rdlock: "t < length (threads c) \<Longrightarrow> threads c ! t = Rdlock l p \<Longrightarrow> locks c l = Readers R \<Longrightarrow>
    t \<notin> R \<Longrightarrow> step t c (c\<lparr>locks := (locks c)(l := Readers (insert t R)), threads := (threads c)[t := p]\<rparr>)"
| unlock: "t < length (threads c) \<Longrightarrow> threads c ! t = Unlock l p \<Longrightarrow> holds (locks c l) t \<Longrightarrow>
    step t c (c\<lparr>locks := (locks c)(l := release (locks c l) t), threads := (threads c)[t := p]\<rparr>)"
| atomic: "t < length (threads c) \<Longrightarrow> threads c ! t = Atomic f \<Longrightarrow> f (shared c) = Some (s, p) \<Longrightarrow>
    step t c (c\<lparr>shared := s, threads := (threads c)[t := p]\<rparr>)"

definition steps :: "('s, 'r) config \<Rightarrow> ('s, 'r) config \<Rightarrow> bool" where
  "steps = (\<lambda>c c'. \<exists>t. step t c c')\<^sup>*\<^sup>*"

text \<open>
  A configuration is undefined when a thread is about to unlock a lock it does not hold or to do
  an undefined step, finished when every thread has returned, and stuck when it is neither and no
  thread can move.
\<close>

definition undefined_at :: "nat \<Rightarrow> ('s, 'r) config \<Rightarrow> bool" where
  "undefined_at t c \<longleftrightarrow> t < length (threads c) \<and>
     (case threads c ! t of Unlock l p \<Rightarrow> \<not> holds (locks c l) t | Atomic f \<Rightarrow> f (shared c) = None | _ \<Rightarrow> False)"

definition finished :: "('s, 'r) config \<Rightarrow> bool" where
  "finished c \<longleftrightarrow> (\<forall>p \<in> set (threads c). \<exists>r. p = Return r)"

definition stuck :: "('s, 'r) config \<Rightarrow> bool" where
  "stuck c \<longleftrightarrow> \<not> finished c \<and> \<not> (\<exists>t. undefined_at t c) \<and> (\<forall>t c'. \<not> step t c c')"

lemma step_length: "step t c c' \<Longrightarrow> length (threads c') = length (threads c)"
  by (induction rule: step.induct) simp_all

lemma steps_induct [consumes 1, case_names start step]:
  assumes "steps c c'" and "P c"
    and "\<And>t c1 c2. steps c c1 \<Longrightarrow> P c1 \<Longrightarrow> step t c1 c2 \<Longrightarrow> P c2"
  shows "P c'"
  using assms(1) unfolding steps_def
  by (induction rule: rtranclp_induct) (use assms(2,3) in \<open>auto simp: steps_def\<close>)

lemma steps_refl [simp]: "steps c c"
  by (simp add: steps_def)

lemma steps_step: "step t c c1 \<Longrightarrow> steps c1 c' \<Longrightarrow> steps c c'"
  unfolding steps_def by (rule converse_rtranclp_into_rtranclp) auto

section \<open>Running a schedule\<close>

text \<open>The same moves as a function, to run a given interleaving.\<close>

datatype 'c outcome = Next 'c | Blocked | Undefined | Returned

definition move :: "nat \<Rightarrow> ('s, 'r) config \<Rightarrow> ('s, 'r) config outcome" where
  "move t c =
     (if length (threads c) \<le> t then Returned
      else (case threads c ! t of
        Return r \<Rightarrow> Returned
      | Wrlock l p \<Rightarrow>
          if locks c l = Readers {}
          then Next (c\<lparr>locks := (locks c)(l := Writer t), threads := (threads c)[t := p]\<rparr>) else Blocked
      | Rdlock l p \<Rightarrow> (case locks c l of
            Readers R \<Rightarrow> if t \<in> R then Blocked
              else Next (c\<lparr>locks := (locks c)(l := Readers (insert t R)), threads := (threads c)[t := p]\<rparr>)
          | Writer u \<Rightarrow> Blocked)
      | Unlock l p \<Rightarrow>
          if holds (locks c l) t
          then Next (c\<lparr>locks := (locks c)(l := release (locks c l) t), threads := (threads c)[t := p]\<rparr>)
          else Undefined
      | Atomic f \<Rightarrow> (case f (shared c) of
            Some (s, p) \<Rightarrow> Next (c\<lparr>shared := s, threads := (threads c)[t := p]\<rparr>)
          | None \<Rightarrow> Undefined)))"

fun schedule :: "nat list \<Rightarrow> ('s, 'r) config \<Rightarrow> ('s, 'r) config outcome" where
  "schedule [] c = Next c"
| "schedule (t # ts) c = (case move t c of Next c' \<Rightarrow> schedule ts c' | r \<Rightarrow> r)"

lemma step_iff_move: "step t c c' \<longleftrightarrow> move t c = Next c'"
proof
  show "step t c c' \<Longrightarrow> move t c = Next c'"
    by (induction rule: step.induct) (simp_all add: move_def)
  show "move t c = Next c' \<Longrightarrow> step t c c'"
    by (auto simp: move_def intro: step.intros
        split: if_splits prog.splits lock_state.splits option.splits)
qed

lemma undefined_at_iff_move: "undefined_at t c \<longleftrightarrow> move t c = Undefined"
  by (auto simp: move_def undefined_at_def split: prog.splits lock_state.splits option.splits)

lemma schedule_steps: "schedule ts c = Next c' \<Longrightarrow> steps c c'"
  by (induction ts c rule: schedule.induct)
    (auto split: outcome.splits intro: steps_step simp: step_iff_move)

section \<open>Lock discipline\<close>

text \<open>
  A program that takes one lock at a time, gives back the one it holds, returns with none, and,
  from shared states where \<open>Q\<close> holds, does only steps that are defined and keep \<open>Q\<close>. The first
  argument is the lock held.
\<close>

inductive disciplined :: "('s \<Rightarrow> bool) \<Rightarrow> lock option \<Rightarrow> ('s, 'r) prog \<Rightarrow> bool" for Q where
  "disciplined Q None (Return r)"
| "disciplined Q (Some l) p \<Longrightarrow> disciplined Q None (Wrlock l p)"
| "disciplined Q (Some l) p \<Longrightarrow> disciplined Q None (Rdlock l p)"
| "disciplined Q None p \<Longrightarrow> disciplined Q (Some l) (Unlock l p)"
| "(\<And>s. Q s \<Longrightarrow> \<exists>s' p. f s = Some (s', p) \<and> Q s' \<and> disciplined Q h p) \<Longrightarrow> disciplined Q h (Atomic f)"

inductive_simps disciplined_simps [simp]:
  "disciplined Q h (Return r)"
  "disciplined Q h (Wrlock l p)"
  "disciplined Q h (Rdlock l p)"
  "disciplined Q h (Unlock l p)"
  "disciplined Q h (Atomic f)"

text \<open>The locks are held as the positions of the threads in their programs say.\<close>

definition well_locked :: "('s \<Rightarrow> bool) \<Rightarrow> ('s, 'r) config \<Rightarrow> (nat \<Rightarrow> lock option) \<Rightarrow> bool" where
  "well_locked Q c held \<longleftrightarrow> Q (shared c) \<and>
     (\<forall>t < length (threads c). disciplined Q (held t) (threads c ! t)) \<and>
     (\<forall>l t. holds (locks c l) t \<longleftrightarrow> t < length (threads c) \<and> held t = Some l)"

lemma well_locked_start:
  "Q s \<Longrightarrow> \<forall>p \<in> set ps. disciplined Q None p \<Longrightarrow> well_locked Q (start s ps) (\<lambda>_. None)"
  by (simp add: well_locked_def start_def)

lemma well_locked_update:
  assumes "well_locked Q c held" and "t < length (threads c)" and "Q s" and "disciplined Q h p"
    and "\<And>l u. holds (L l) u \<longleftrightarrow> (if u = t then h = Some l else holds (locks c l) u)"
  shows "well_locked Q (c\<lparr>shared := s, locks := L, threads := (threads c)[t := p]\<rparr>) (held(t := h))"
  using assms by (auto simp: well_locked_def nth_list_update)

lemma well_lockedD:
  assumes "well_locked Q c held"
  shows "Q (shared c)" and "t < length (threads c) \<Longrightarrow> disciplined Q (held t) (threads c ! t)"
    and "holds (locks c l) t \<longleftrightarrow> t < length (threads c) \<and> held t = Some l"
  using assms by (simp_all add: well_locked_def)

lemma holds_release: "holds (release L t) u \<longleftrightarrow> holds L u \<and> u \<noteq> t" if "holds L t"
  using that by (cases L) auto

lemma well_locked_step:
  assumes "step t c c'" and "well_locked Q c held"
  shows "\<exists>held'. well_locked Q c' held'"
  using assms
proof (induction rule: step.induct)
  case (wrlock t c l p)
  note wl = well_lockedD [OF wrlock.prems]
  have d: "held t = None" "disciplined Q (Some l) p"
    using wl(2) [OF wrlock.hyps(1)] wrlock.hyps(2) by simp_all
  define L where "L = (locks c)(l := Writer t)"
  have "holds (L k) u \<longleftrightarrow>
      (if u = t then Some l = Some k else holds (locks c k) u)" for k u
    using wl(3) [of k t] d(1) wrlock.hyps(3) by (auto simp: L_def)
  from well_locked_update [OF wrlock.prems wrlock.hyps(1) wl(1) d(2), of L, OF this] show ?case
    by (intro exI) (simp add: L_def)
next
  case (rdlock t c l p R)
  note wl = well_lockedD [OF rdlock.prems]
  have d: "held t = None" "disciplined Q (Some l) p"
    using wl(2) [OF rdlock.hyps(1)] rdlock.hyps(2) by simp_all
  define L where "L = (locks c)(l := Readers (insert t R))"
  have "holds (L k) u \<longleftrightarrow>
      (if u = t then Some l = Some k else holds (locks c k) u)" for k u
    using wl(3) [of k t] d(1) rdlock.hyps(3) by (auto simp: L_def)
  from well_locked_update [OF rdlock.prems rdlock.hyps(1) wl(1) d(2), of L, OF this] show ?case
    by (intro exI) (simp add: L_def)
next
  case (unlock t c l p)
  note wl = well_lockedD [OF unlock.prems]
  have d: "held t = Some l" "disciplined Q None p"
    using wl(2) [OF unlock.hyps(1)] wl(3) [of l t] unlock.hyps(2,3) by simp_all
  define L where "L = (locks c)(l := release (locks c l) t)"
  have "holds (L k) u \<longleftrightarrow>
      (if u = t then None = Some k else holds (locks c k) u)" for k u
    using wl(3) [of k t] d(1) holds_release [OF unlock.hyps(3), of u] by (auto simp: L_def)
  from well_locked_update [OF unlock.prems unlock.hyps(1) wl(1) d(2), of L, OF this] show ?case
    by (intro exI) (simp add: L_def)
next
  case (atomic t c f s p)
  note wl = well_lockedD [OF atomic.prems]
  have "Q s" "disciplined Q (held t) p"
    using wl(1) wl(2) [OF atomic.hyps(1)] atomic.hyps(2,3) by auto
  moreover have "holds (locks c k) u \<longleftrightarrow> (if u = t then held t = Some k else holds (locks c k) u)" for k u
    using wl(3) [of k t] atomic.hyps(1) by simp
  ultimately have "well_locked Q (c\<lparr>shared := s, locks := locks c, threads := (threads c)[t := p]\<rparr>)
      (held(t := held t))"
    by (rule well_locked_update [OF atomic.prems atomic.hyps(1)])
  then show ?case
    by (intro exI) simp
qed

lemma well_locked_defined:
  assumes "well_locked Q c held"
  shows "\<not> undefined_at t c"
proof (cases "t < length (threads c)")
  case True
  note wl = well_lockedD [OF assms]
  have "disciplined Q (held t) (threads c ! t)"
    by (rule wl(2) [OF True])
  then show ?thesis
    using wl(1) wl(3) [of _ t] True by cases (fastforce simp: undefined_at_def)+
qed (simp add: undefined_at_def)

text \<open>A thread that holds a lock can move; if none does, every thread that has not returned can.\<close>

lemma can_move:
  assumes "disciplined Q h p" and "Q (shared c)" and "t < length (threads c)" and "threads c ! t = p"
    and "\<And>l. h = Some l \<Longrightarrow> holds (locks c l) t" and "\<And>l. h = None \<Longrightarrow> locks c l = Readers {}"
    and "\<And>r. p \<noteq> Return r"
  shows "\<exists>c'. step t c c'"
  using assms(1)
proof cases
  case (5 f)
  then obtain s' p' where "f (shared c) = Some (s', p')"
    using assms(2) by blast
  then show ?thesis
    using step.atomic [of t c f s' p'] assms(3,4) 5 by blast
next
  case (2 l q)
  then show ?thesis
    using step.wrlock [of t c l q] assms(3,4,6) by blast
next
  case (3 l q)
  then show ?thesis
    using step.rdlock [of t c l q "{}"] assms(3,4,6) by blast
next
  case (4 q l)
  then show ?thesis
    using step.unlock [of t c l q] assms(3,4,5) by blast
qed (use assms(7) in blast)

lemma well_locked_progress:
  assumes "well_locked Q c held"
  shows "\<not> stuck c"
proof
  assume "stuck c"
  then obtain t where t: "t < length (threads c)" "\<And>r. threads c ! t \<noteq> Return r"
    and nostep: "\<not> step u c c'" for u c'
    by (auto simp: stuck_def finished_def in_set_conv_nth)
  note wl = well_lockedD [OF assms]
  have free: "held u = None" if u: "u < length (threads c)" for u
  proof (rule ccontr)
    assume "held u \<noteq> None"
    then obtain l where l: "held u = Some l"
      by blast
    have "threads c ! u \<noteq> Return r" for r
      using wl(2) [OF u] l by auto
    then show False
      using can_move [OF wl(2) [OF u] wl(1) u refl] l wl(3) [of _ u] u nostep by auto
  qed
  have none: "\<not> holds (locks c l) u" for l u
    using wl(3) [of l u] free by auto
  have "locks c l = Readers {}" for l
    using none [of l] by (cases "locks c l") auto
  then show False
    using can_move [OF wl(2) [OF t(1)] wl(1) t(1) refl] t(2) free [OF t(1)] nostep by auto
qed

section \<open>Every schedule ends\<close>

inductive next_prog :: "('s, 'r) prog \<Rightarrow> ('s, 'r) prog \<Rightarrow> bool" where
  "next_prog p (Wrlock l p)"
| "next_prog p (Rdlock l p)"
| "next_prog p (Unlock l p)"
| "f s = Some (s', p) \<Longrightarrow> next_prog p (Atomic f)"

lemma wf_next_prog: "wfP next_prog"
proof (rule wfpUNIVI)
  fix P :: "('a, 'b) prog \<Rightarrow> bool" and p
  assume step: "\<forall>p. (\<forall>q. next_prog q p \<longrightarrow> P q) \<longrightarrow> P p"
  show "P p"
  proof (induction p)
    case (Atomic f)
    have "P q" if "next_prog q (Atomic f)" for q
      using that Atomic by (auto elim!: next_prog.cases) (metis option.set_intros prod_set_simps(2) rangeI singletonI)
    then show ?case
      using step by blast
  qed (use step in \<open>blast elim: next_prog.cases\<close>)+
qed

lemma step_next_prog:
  "step t c c' \<Longrightarrow> \<exists>p. next_prog p (threads c ! t) \<and> t < length (threads c) \<and>
     threads c' = (threads c)[t := p]"
  by (induction rule: step.induct) (force intro: next_prog.intros)+

lemma wf_step: "wfP (\<lambda>c' c. \<exists>t. step t c c')"
proof -
  let ?r = "{(p :: ('a, 'b) prog, q). next_prog p q}"
  have "(mset (threads c'), mset (threads c)) \<in> mult ?r" if st: "step t c c'" for t and c c' :: "('a, 'b) config"
  proof -
    obtain p where p: "next_prog p (threads c ! t)" "t < length (threads c)" "threads c' = (threads c)[t := p]"
      using step_next_prog [OF st] by blast
    define M where "M = mset (threads c) - {#threads c ! t#}"
    have "mset (threads c) = add_mset (threads c ! t) M" "mset (threads c') = M + {#p#}"
      using p(2,3) by (simp_all add: M_def mset_update)
    then have "(mset (threads c'), mset (threads c)) \<in> mult1 ?r"
      using p(1) by (auto intro!: mult1I)
    then show ?thesis
      by (auto simp: mult_def)
  qed
  then have "{(c' :: ('a, 'b) config, c). \<exists>t. step t c c'} \<subseteq> inv_image (mult ?r) (\<lambda>c. mset (threads c))"
    by (auto simp: inv_image_def)
  moreover have "wf (inv_image (mult ?r) (\<lambda>c :: ('a, 'b) config. mset (threads c)))"
    using wf_next_prog by (intro wf_inv_image wf_mult) (simp add: wfp_def)
  ultimately show ?thesis
    unfolding wfp_def by (rule wf_subset [rotated])
qed

text \<open>
  Threads under the lock discipline are never undefined or stuck, so, as no schedule is infinite,
  every schedule ends with all threads returned.
\<close>

lemma steps_well_locked:
  assumes "steps c c'" and "well_locked Q c held"
  shows "\<exists>held'. well_locked Q c' held'"
  using assms
proof (induction rule: steps_induct)
  case start
  then show ?case by blast
next
  case (step t c1 c2)
  then show ?case
    using well_locked_step by blast
qed

lemma disciplined_threads:
  assumes "Q s" and "\<forall>p \<in> set ps. disciplined Q None p" and "steps (start s ps) c"
  shows "Q (shared c)" and "\<not> undefined_at t c" and "\<not> stuck c"
proof -
  obtain held where "well_locked Q c held"
    using steps_well_locked [OF assms(3) well_locked_start [OF assms(1,2)]] by blast
  then show "Q (shared c)" "\<not> undefined_at t c" "\<not> stuck c"
    by (rule well_lockedD well_locked_defined well_locked_progress)+
qed

text \<open>Other threads that go on where the threads of a configuration have stopped.\<close>

definition resume :: "('s, 'q) config \<Rightarrow> ('s, 'r) prog list \<Rightarrow> ('s, 'r) config" where
  "resume c ps = \<lparr>shared = shared c, locks = locks c, threads = ps\<rparr>"

text \<open>When all threads have returned, all locks are free.\<close>

lemma finished_locks:
  assumes "Q s" and "\<forall>p \<in> set ps. disciplined Q None p" and "steps (start s ps) c" and "finished c"
  shows "resume c qs = start (shared c) qs"
proof -
  obtain held where wl: "well_locked Q c held"
    using steps_well_locked [OF assms(3) well_locked_start [OF assms(1,2)]] by blast
  have none: "\<not> holds (locks c l) t" for l t
  proof
    assume "holds (locks c l) t"
    then have t: "t < length (threads c)" "held t = Some l"
      using well_lockedD(3) [OF wl] by simp_all
    then obtain r where "threads c ! t = Return r"
      using assms(4) nth_mem unfolding finished_def by blast
    then show False
      using well_lockedD(2) [OF wl t(1)] t(2) by simp
  qed
  have "locks c l = Readers {}" for l
  proof (cases "locks c l")
    case (Readers R)
    then show ?thesis
      using none [of l] by auto
  next
    case (Writer u)
    then show ?thesis
      using none [of l u] by simp
  qed
  then show ?thesis
    by (simp add: start_def resume_def fun_eq_iff)
qed

section \<open>A thread on its own\<close>

lemma step_bound: "step t c c' \<Longrightarrow> t < length (threads c) \<and> \<not> finished c"
  by (induction rule: step.induct) (metis finished_def nth_mem prog.distinct)+

text \<open>A thread on its own takes one way: from every point of its run it reaches the end of it.\<close>

lemma sole_thread:
  assumes "steps c e" and "finished e" and "length (threads c) = 1" and "steps c c'"
  shows "steps c' e"
  using assms(4)
proof (induction rule: steps_induct)
  case start
  show ?case
    by (rule assms(1))
next
  case (step t c1 c2)
  have len: "length (threads c1) = 1"
    using step.hyps(1) by (induction rule: steps_induct) (simp_all add: assms(3) step_length)
  have "c1 \<noteq> e"
    using step_bound [OF step.hyps(2)] assms(2) by blast
  then obtain u d where d: "step u c1 d" "steps d e"
    using step.IH unfolding steps_def by (auto elim: converse_rtranclpE)
  have "t = u"
    using step_bound [OF step.hyps(2)] step_bound [OF d(1)] len by simp
  then have "d = c2"
    using step.hyps(2) d(1) by (simp add: step_iff_move)
  then show ?case
    using d(2) by simp
qed

lemma some_schedule_ends:
  assumes "\<And>c'. steps c c' \<Longrightarrow> \<not> stuck c' \<and> (\<forall>t. \<not> undefined_at t c')"
  shows "\<exists>c'. steps c c' \<and> finished c'"
  using assms
proof (induction c rule: wfp_induct_rule [OF wf_step])
  case (1 c)
  show ?case
  proof (cases "finished c")
    case True
    then show ?thesis
      using steps_refl by blast
  next
    case False
    then obtain t c1 where "step t c c1"
      using "1.prems" [of c] by (auto simp: stuck_def)
    then show ?thesis
      using "1.IH" [of c1] "1.prems" steps_step by blast
  qed
qed

lemma no_infinite_run: "\<not> (\<exists>f. \<forall>i. \<exists>t. step t (f i) (f (Suc i)))"
  using wf_step unfolding wfp_def wf_iff_no_infinite_down_chain by simp

end
