(* ===== verification/Hi_locking.thy ===== *)
theory Hi_locking
  imports Threads Hi_map
begin

text \<open>
  The table operations of the THREADSAFE build as programs of threads: which lock each operation
  takes, what it does while it holds the lock, and on which paths it gives the lock back. The steps
  under a lock are the operations of the engine theories. The bucket of a key is computed inside the
  critical section here, in the code partly before it: it depends on fields of the handle that only
  rehashing and destroying the table change. Rehashing takes no lock that covers it; where
  \<open>hi_insert\<close> starts it, it is one step of the model (\<open>Hi_rehash_ts\<close> takes \<open>hi_rehash\<close> apart), and the
  theorems about threads that share a table are about tables that do not rehash.
\<close>

type_synonym shared_table = "heap \<times> hi_handle"
type_synonym 'r table_prog = "(shared_table, 'r) prog"

text \<open>\<open>lock; ...; unlock\<close>, with the rest of the program after the result.\<close>

definition locked :: "lock \<Rightarrow> (shared_table \<Rightarrow> ('x \<times> shared_table) option) \<Rightarrow> ('x \<Rightarrow> 'r table_prog) \<Rightarrow>
    'r table_prog" where
  "locked l body k = Atomic (\<lambda>s. do { (x, s) \<leftarrow> body s; Some (s, Unlock l (k x)) })"

definition critical :: "lock \<Rightarrow> (shared_table \<Rightarrow> ('x \<times> shared_table) option) \<Rightarrow> ('x \<Rightarrow> 'r table_prog) \<Rightarrow>
    'r table_prog" where
  "critical l body k = Wrlock l (locked l body k)"

text \<open>A branch on fields of the handle that no operation of a table changes.\<close>

definition branch :: "(hi_handle \<Rightarrow> 'r table_prog) \<Rightarrow> 'r table_prog" where
  "branch p = Atomic (\<lambda>(hp, h). Some ((hp, h), p h))"

section \<open>Chains\<close>

definition lookup_body :: "key \<Rightarrow> shared_table \<Rightarrow> (int \<times> shared_table) option" where
  "lookup_body key = (\<lambda>(hp, h). do { ret \<leftarrow> lhi_lookup_list h key; Some (ret, hp, h) })"

definition get_body :: "key \<Rightarrow> shared_table \<Rightarrow> (reply \<times> shared_table) option" where
  "get_body key = (\<lambda>(hp, h). do { (ret, data, h) \<leftarrow> lhi_get_list h key; Some ((ret, data), hp, h) })"

definition remove_body :: "key \<Rightarrow> shared_table \<Rightarrow> (reply \<times> shared_table) option" where
  "remove_body key = (\<lambda>(hp, h). do {
     (ret, data, hp, h) \<leftarrow> lhi_remove_list hp h key;
     Some ((ret, data), hp, h)
   })"

definition insert_body :: "key \<Rightarrow> ptr \<Rightarrow> shared_table \<Rightarrow> (int \<times> shared_table) option" where
  "insert_body key data = (\<lambda>(hp, h). lhi_insert_list hp h key data)"

text \<open>
  The move-to-front get unlocks the mutex on both its paths and never locks it.
\<close>

definition lhi_get_list_ts :: "key \<Rightarrow> (reply \<Rightarrow> 'r table_prog) \<Rightarrow> 'r table_prog" where
  "lhi_get_list_ts key k = branch (\<lambda>h.
     case coll_eng h of
       COLL_ENG_LIST \<Rightarrow> critical Mutex (get_body key) k
     | COLL_ENG_LIST_MTF \<Rightarrow>
         Atomic (\<lambda>s. do { (r, s) \<leftarrow> get_body key s; Some (s, Unlock Mutex (k r)) })
     | COLL_ENG_LIST_HASH \<Rightarrow> critical Mutex (get_body key) k
     | COLL_ENG_LIST_MTF_HASH \<Rightarrow> critical Mutex (get_body key) k
     | _ \<Rightarrow> k (HI_ERR_INTERNAL, None))"

definition lhi_remove_list_ts :: "key \<Rightarrow> (reply \<Rightarrow> 'r table_prog) \<Rightarrow> 'r table_prog" where
  "lhi_remove_list_ts key k = critical Mutex (remove_body key) k"

definition lhi_insert_list_ts :: "key \<Rightarrow> ptr \<Rightarrow> (int \<Rightarrow> 'r table_prog) \<Rightarrow> 'r table_prog" where
  "lhi_insert_list_ts key data k = critical Mutex (insert_body key data) k"

section \<open>Arrays\<close>

definition lhi_get_array_ts :: "key \<Rightarrow> (reply \<Rightarrow> 'r table_prog) \<Rightarrow> 'r table_prog" where
  "lhi_get_array_ts key k = branch (\<lambda>h.
     if coll_eng h = COLL_ENG_ARRAY
     then critical Mutex (\<lambda>(hp, h). do { (ret, data, h) \<leftarrow> lhi_get_array h key; Some ((ret, data), hp, h) }) k
     else if array_eng (coll_eng h) then k (HI_ERR_NOKEY, None) else k (HI_ERR_INTERNAL, None))"

definition lhi_remove_array_ts :: "key \<Rightarrow> (reply \<Rightarrow> 'r table_prog) \<Rightarrow> 'r table_prog" where
  "lhi_remove_array_ts key k = branch (\<lambda>h.
     if coll_eng h = COLL_ENG_ARRAY
     then critical Mutex (\<lambda>(hp, h). do {
       (ret, data, hp, h) \<leftarrow> lhi_remove_array hp h key;
       Some ((ret, data), hp, h)
     }) k
     else k (HI_ERR_NOKEY, None))"

text \<open>
  The return after a failed allocation of the key is the one path that keeps the mutex; the return
  code of \<open>array_put\<close> tells it from the others.
\<close>

definition lhi_insert_array_ts :: "key \<Rightarrow> ptr \<Rightarrow> (int \<Rightarrow> 'r table_prog) \<Rightarrow> 'r table_prog" where
  "lhi_insert_array_ts key data k = lhi_get_array_ts key (\<lambda>(r, _).
     if r = SUCCESS then k HI_ERR_DUPKEY
     else Wrlock Mutex (Atomic (\<lambda>(hp, h). do {
       bucket \<leftarrow> hash_bucket h key;
       (grown, hp, h) \<leftarrow> array_grow hp h bucket;
       if \<not> grown then Some ((hp, h), Unlock Mutex (k HI_ERR_SYSTEM))
       else do {
         (ret, hp, h) \<leftarrow> array_put hp h bucket key data;
         Some ((hp, h), if ret = HI_ERR_SYSTEM then k ret else Unlock Mutex (k ret))
       }
     })))"

section \<open>Trees\<close>

text \<open>
  A pointer to a node is the key of its entry: nodes keep their entry while they are linked into
  the tree, and no key is in a tree twice. Following a pointer to a node that was freed is
  undefined.
\<close>

fun node_at :: "key \<Rightarrow> rb_tree \<Rightarrow> rb_tree option" where
  "node_at p RB_NULL = None"
| "node_at p (RB_NODE c l e r) =
     (if rb_key e = p then Some (RB_NODE c l e r)
      else (case node_at p l of Some n \<Rightarrow> Some n | None \<Rightarrow> node_at p r))"

definition root_ptr :: "rb_tree \<Rightarrow> key option" where
  "root_ptr t = (case t of RB_NULL \<Rightarrow> None | RB_NODE c l e r \<Rightarrow> Some (rb_key e))"

text \<open>The root is read before the lock is taken; the search starts at the node it pointed to.\<close>

definition search_from :: "key option \<Rightarrow> nat \<Rightarrow> key \<Rightarrow> shared_table \<Rightarrow> (reply \<times> shared_table) option" where
  "search_from tmp_node tree key = (\<lambda>(hp, h). do {
     root \<leftarrow> rd (trees h) tree;
     rbnode \<leftarrow> (case tmp_node of None \<Rightarrow> Some RB_NULL | Some p \<Rightarrow> node_at p root);
     (node, _) \<leftarrow> rb_search h key rbnode [];
     Some (case node of RB_NODE c l lhi_entry r \<Rightarrow> (SUCCESS, Some (rb_data lhi_entry))
       | RB_NULL \<Rightarrow> (HI_ERR_NOKEY, None), hp, h)
   })"

definition lhi_get_rbtree_ts :: "key \<Rightarrow> (reply \<Rightarrow> 'r table_prog) \<Rightarrow> 'r table_prog" where
  "lhi_get_rbtree_ts key k = Atomic (\<lambda>(hp, h). do {
     tree \<leftarrow> hash_bucket h key;
     root \<leftarrow> rd (trees h) tree;
     let tmp_node = root_ptr root;
     Some ((hp, h), Rdlock (Rwlock tree) (Atomic (\<lambda>s. do {
       (r, s) \<leftarrow> search_from tmp_node tree key s;
       Some (s, Unlock (Rwlock tree) (k r))
     })))
   })"

text \<open>
  Removal and insertion change the tree and \<open>bucket_size\<close> under the lock of the tree, and
  \<open>no_objects\<close> afterwards under the mutex.
\<close>

definition tree_remove_body :: "key \<Rightarrow> shared_table \<Rightarrow> (reply \<times> shared_table) option" where
  "tree_remove_body key = (\<lambda>(hp, h). do {
     (ret, data, hp, h') \<leftarrow> lhi_remove_rbtree hp h key;
     Some ((ret, data), hp, h'\<lparr>no_objects := no_objects h\<rparr>)
   })"

definition tree_insert_body :: "key \<Rightarrow> ptr \<Rightarrow> shared_table \<Rightarrow> (int \<times> shared_table) option" where
  "tree_insert_body key data = (\<lambda>(hp, h). do {
     (ret, hp, h') \<leftarrow> lhi_insert_rbtree hp h key data;
     Some (ret, hp, h'\<lparr>no_objects := no_objects h\<rparr>)
   })"

definition count_body :: "(u32 \<Rightarrow> u32) \<Rightarrow> shared_table \<Rightarrow> (unit \<times> shared_table) option" where
  "count_body f = (\<lambda>(hp, h). Some ((), hp, h\<lparr>no_objects := f (no_objects h)\<rparr>))"

definition lhi_remove_rbtree_ts :: "key \<Rightarrow> (reply \<Rightarrow> 'r table_prog) \<Rightarrow> 'r table_prog" where
  "lhi_remove_rbtree_ts key k = Atomic (\<lambda>(hp, h). do {
     tree \<leftarrow> hash_bucket h key;
     Some ((hp, h), critical (Rwlock tree) (tree_remove_body key) (\<lambda>r.
       if fst r = SUCCESS then critical Mutex (count_body (\<lambda>n. n - 1)) (\<lambda>_. k r) else k r))
   })"

definition lhi_insert_rbtree_ts :: "key \<Rightarrow> ptr \<Rightarrow> (int \<Rightarrow> 'r table_prog) \<Rightarrow> 'r table_prog" where
  "lhi_insert_rbtree_ts key data k = Atomic (\<lambda>(hp, h). do {
     tree \<leftarrow> hash_bucket h key;
     Some ((hp, h), critical (Rwlock tree) (tree_insert_body key data) (\<lambda>ret.
       if ret = SUCCESS then critical Mutex (count_body (\<lambda>n. n + 1)) (\<lambda>_. k ret) else k ret))
   })"

section \<open>The public operations\<close>

definition hi_lookup_ts :: "key \<Rightarrow> (int \<Rightarrow> 'r table_prog) \<Rightarrow> 'r table_prog" where
  "hi_lookup_ts key k = branch (\<lambda>h.
     if list_eng (coll_eng h) then critical Mutex (lookup_body key) k
     else if array_eng (coll_eng h) then k FAILURE
     else if coll_eng h = COLL_ENG_RBTREE then k FAILURE
     else k HI_ERR_INTERNAL)"

definition hi_get_ts :: "key \<Rightarrow> (reply \<Rightarrow> 'r table_prog) \<Rightarrow> 'r table_prog" where
  "hi_get_ts key k = branch (\<lambda>h.
     if list_eng (coll_eng h) then lhi_get_list_ts key k
     else if coll_eng h = COLL_ENG_RBTREE then lhi_get_rbtree_ts key k
     else if array_eng (coll_eng h) then lhi_get_array_ts key k
     else k (HI_ERR_INTERNAL, None))"

definition hi_remove_ts :: "key \<Rightarrow> (reply \<Rightarrow> 'r table_prog) \<Rightarrow> 'r table_prog" where
  "hi_remove_ts key k = branch (\<lambda>h.
     if list_eng (coll_eng h) then lhi_remove_list_ts key k
     else if coll_eng h = COLL_ENG_RBTREE then lhi_remove_rbtree_ts key k
     else if array_eng (coll_eng h) then lhi_remove_array_ts key k
     else k (HI_ERR_INTERNAL, None))"

definition insert_eng_ts :: "key \<Rightarrow> ptr \<Rightarrow> (int \<Rightarrow> 'r table_prog) \<Rightarrow> 'r table_prog" where
  "insert_eng_ts key data k = branch (\<lambda>h.
     if list_eng (coll_eng h) then lhi_insert_list_ts key data k
     else if array_eng (coll_eng h) then lhi_insert_array_ts key data k
     else if coll_eng h = COLL_ENG_RBTREE then lhi_insert_rbtree_ts key data k
     else k HI_ERR_INTERNAL)"

definition do_rehash_ts :: "'r table_prog \<Rightarrow> 'r table_prog" where
  "do_rehash_ts p = Atomic (\<lambda>(hp, h). do {
     (hp, h) \<leftarrow> do_rehash_with (hi_insert_at 0) hp h;
     Some ((hp, h), p)
   })"

definition hi_insert_ts :: "key \<Rightarrow> ptr \<Rightarrow> (int \<Rightarrow> 'r table_prog) \<Rightarrow> 'r table_prog" where
  "hi_insert_ts key data k = hi_lookup_ts key (\<lambda>l.
     if l = SUCCESS then k HI_ERR_DUPKEY else do_rehash_ts (insert_eng_ts key data k))"

section \<open>Creating a table\<close>

text \<open>
  No other thread knows the handle yet, so this is a function. \<open>mutex_init\<close> and \<open>rwlock_init i\<close> are what
  the thread library returns for the mutex and for the lock of tree \<open>i\<close>. The loop over the trees
  gives the tree whose lock could not be made.
\<close>

fun init_rwlocks :: "(nat \<Rightarrow> int) \<Rightarrow> heap \<Rightarrow> nat list \<Rightarrow> nat option \<times> heap" where
  "init_rwlocks rwlock_init hp [] = (None, hp)"
| "init_rwlocks rwlock_init hp (i # is) =
     (case lhi_pthread_rwlock_init hp (rwlock_init i) of (ret, made, hp) \<Rightarrow>
        if ret \<noteq> 0 then (Some i, hp) else init_rwlocks rwlock_init hp is)"

text \<open>\<open>while (i--)\<close>\<close>

fun destroy_rwlocks :: "heap \<Rightarrow> nat \<Rightarrow> heap" where
  "destroy_rwlocks hp 0 = hp"
| "destroy_rwlocks hp (Suc i) = destroy_rwlocks (snd (lhi_pthread_rwlock_destroy hp 0)) i"

text \<open>
  The second component of the result tells whether the mutex is locked on return: the error return
  keeps it, and the array of trees.
\<close>

definition lhi_create_eng_rbtree_ts ::
  "(nat \<Rightarrow> int) \<Rightarrow> heap \<Rightarrow> hi_handle \<Rightarrow> (int \<times> bool \<times> heap \<times> hi_handle) option" where
  "lhi_create_eng_rbtree_ts rwlock_init hp h =
     (case malloc hp of
        (None, hp) \<Rightarrow> Some (HI_ERR_SYSTEM, False, hp, h)
      | (Some _, hp) \<Rightarrow>
          if length (bucket_size h) < unat (table_size h) then None
          else (case init_rwlocks rwlock_init hp [0 ..< unat (table_size h)] of
              (None, hp) \<Rightarrow> Some (SUCCESS, False, hp,
                h\<lparr>trees := replicate (unat (table_size h)) RB_NULL,
                  bucket_size := replicate (unat (table_size h)) 0\<rparr>)
            | (Some i, hp) \<Rightarrow> Some (HI_ERR_SYSTEM, True, destroy_rwlocks hp i, h)))"

definition hi_create_ts ::
  "int \<Rightarrow> (nat \<Rightarrow> int) \<Rightarrow> heap \<Rightarrow> hi_init_set \<Rightarrow> (int \<times> bool \<times> heap \<times> hi_handle option) option" where
  "hi_create_ts mutex_init rwlock_init hp s =
     (case lhi_create_vanilla_hdnl hp of
        (ret, hp, None) \<Rightarrow> Some (ret, False, hp, None)
      | (ret, hp, Some h) \<Rightarrow>
          (case lhi_transform_set_2_hndl h s of (ret, h) \<Rightarrow>
             if ret \<noteq> SUCCESS then Some (ret, False, hp, None)
             else case xalloc_align hp of (ret, junk, hp) \<Rightarrow>
               if ret \<noteq> 0 then Some (HI_ERR_SYSTEM, False, hp, None)
               else case lhi_pthread_mutex_init hp mutex_init of (ret, made, hp) \<Rightarrow>
                 if ret \<noteq> 0 then Some (HI_ERR_SYSTEM, False, hp, None)
                 else do {
                   let h = h\<lparr>bucket_size := replicate (unat (table_size h)) junk, no_objects := 0\<rparr>;
                   (ret, locked, hp, h) \<leftarrow> (if coll_eng h = COLL_ENG_RBTREE
                     then lhi_create_eng_rbtree_ts rwlock_init hp h
                     else do { (ret, hp, h) \<leftarrow> create_eng hp h; Some (ret, False, hp, h) });
                   if ret \<noteq> SUCCESS then Some (ret, locked, hp, None) else Some (SUCCESS, locked, hp, Some h)
                 }))"

section \<open>Destroying a table\<close>

text \<open>\<open>lhi_fini_array\<close> takes the mutex that its caller \<open>lhi_fini_internal\<close> holds.\<close>

definition lhi_fini_array_ts :: "(int \<Rightarrow> 'r table_prog) \<Rightarrow> 'r table_prog" where
  "lhi_fini_array_ts k = critical Mutex (\<lambda>(hp, h). lhi_fini_array hp h) k"

text \<open>The loop over the trees; destroying an unlocked lock of the thread library succeeds.\<close>

fun fini_trees_ts :: "nat list \<Rightarrow> 'r table_prog \<Rightarrow> 'r table_prog" where
  "fini_trees_ts [] p = p"
| "fini_trees_ts (i # is) p = Wrlock (Rwlock i) (Unlock (Rwlock i)
     (Atomic (\<lambda>(hp, h). Some ((snd (lhi_pthread_rwlock_destroy hp 0), h), fini_trees_ts is p))))"

definition lhi_fini_rbtree_ts :: "(int \<Rightarrow> 'r table_prog) \<Rightarrow> 'r table_prog" where
  "lhi_fini_rbtree_ts k = Atomic (\<lambda>(hp, h).
     Some ((hp, h\<lparr>table_size := 0\<rparr>), fini_trees_ts [0 ..< unat (table_size h)]
       (Atomic (\<lambda>(hp, h). Some ((free hp, h\<lparr>trees := []\<rparr>), k SUCCESS)))))"

text \<open>The return for an unknown engine keeps the mutex.\<close>

definition lhi_fini_internal_ts :: "(int \<Rightarrow> 'r table_prog) \<Rightarrow> 'r table_prog" where
  "lhi_fini_internal_ts k =
     (let finish = (\<lambda>ret. Unlock Mutex (Atomic (\<lambda>(hp, h).
        Some ((free (snd (lhi_pthread_mutex_destroy hp 0)), h), k 0))))
      in Wrlock Mutex (branch (\<lambda>h.
        if list_eng (coll_eng h)
        then Atomic (\<lambda>(hp, h). do { (ret, s) \<leftarrow> lhi_fini_list hp h; Some (s, finish ret) })
        else if array_eng (coll_eng h) then lhi_fini_array_ts finish
        else if coll_eng h = COLL_ENG_RBTREE then lhi_fini_rbtree_ts finish
        else k HI_ERR_INTERNAL)))"

definition hi_fini_ts :: "(int \<Rightarrow> 'r table_prog) \<Rightarrow> 'r table_prog" where
  "hi_fini_ts k = lhi_fini_internal_ts (\<lambda>ret.
     Atomic (\<lambda>(hp, h). Some ((if ret = 0 then free hp else hp, h), k ret)))"

section \<open>Clients\<close>

text \<open>A thread that issues commands one after the other and returns the replies.\<close>

fun cmd_ts :: "cmd \<Rightarrow> (reply \<Rightarrow> 'r table_prog) \<Rightarrow> 'r table_prog" where
  "cmd_ts (Ins key data) k = hi_insert_ts key data (\<lambda>ret. k (ret, None))"
| "cmd_ts (Get key) k = hi_get_ts key k"
| "cmd_ts (Rem key) k = hi_remove_ts key k"

fun client :: "cmd list \<Rightarrow> reply list \<Rightarrow> reply list table_prog" where
  "client [] rs = Return (rev rs)"
| "client (c # cs) rs = cmd_ts c (\<lambda>r. client cs (r # rs))"

definition clients :: "shared_table \<Rightarrow> cmd list list \<Rightarrow> (shared_table, reply list) config" where
  "clients s css = start s (map (\<lambda>cs. client cs []) css)"

end
