(* ===== verification/Hi_concurrent.thy ===== *)
theory Hi_concurrent
  imports Hi_locking Hi_correct
begin

text \<open>
  Threads that share a table of the THREADSAFE build: which tables are safe to share and in which
  sense, and where the locking of the code is wrong.
\<close>

section \<open>Chains: no undefined behaviour, no deadlock\<close>

text \<open>
  What every operation on a table of chains keeps, whatever the other threads do: the arrays have
  the size of the table and the keys are valid. It does not say that keys are stored once.
\<close>

definition list_shape :: "(key \<Rightarrow> bool) \<Rightarrow> cmp_fn \<Rightarrow> hi_handle \<Rightarrow> bool" where
  "list_shape V cmp h \<longleftrightarrow>
     fp_call (hash_func h) \<noteq> None \<and> table_size h \<noteq> 0 \<and> fp_call (key_cmp h) = Some cmp \<and>
     rehash_auto h = 0 \<and>
     (coll_eng h = COLL_ENG_LIST \<or>
       (coll_eng h = COLL_ENG_LIST_HASH \<or> coll_eng h = COLL_ENG_LIST_MTF_HASH) \<and> fp_call (hash2_func h) \<noteq> None) \<and>
     length (bucket_table h) = unat (table_size h) \<and> length (bucket_size h) = unat (table_size h) \<and>
     (\<forall>chain \<in> set (bucket_table h). \<forall>b \<in> set chain. V (obj_key b))"

lemma walk_chain_defined:
  assumes "\<forall>b \<in> set chain. test b \<noteq> None"
  shows "walk_chain test passed chain = Some None \<or>
    (\<exists>before b after. walk_chain test passed chain = Some (Some (before, b, after)) \<and>
      rev passed @ chain = before @ b # after)"
  using assms
proof (induction chain arbitrary: passed)
  case Nil
  then show ?case by simp
next
  case (Cons b chain)
  then obtain m where m: "test b = Some m"
    by auto
  show ?case
  proof (cases m)
    case True
    then show ?thesis
      using m by auto
  next
    case False
    then show ?thesis
      using m Cons.IH [of "b # passed"] Cons.prems by simp
  qed
qed

lemma list_shape_bucket:
  assumes "list_shape V cmp h"
  obtains i where "hash_bucket h k = Some i" and "i < length (bucket_table h)"
    and "rd (bucket_table h) i = Some (bucket_table h ! i)"
    and "rd (bucket_size h) i = Some (bucket_size h ! i)"
    and "\<forall>b \<in> set (bucket_table h ! i). V (obj_key b)"
proof -
  obtain f where f: "fp_call (hash_func h) = Some f"
    using assms by (auto simp: list_shape_def)
  have "unat (f k mod table_size h) < unat (table_size h)"
    using assms by (simp add: list_shape_def word_mod_less_divisor word_less_nat_alt [symmetric] word_gt_0)
  then have i: "unat (f k mod table_size h) < length (bucket_table h)"
    "unat (f k mod table_size h) < length (bucket_size h)"
    using assms by (simp_all add: list_shape_def)
  show ?thesis
  proof (rule that)
    show "hash_bucket h k = Some (unat (f k mod table_size h))"
      using assms f by (simp add: list_shape_def hash_bucket_def)
    show "\<forall>b \<in> set (bucket_table h ! unat (f k mod table_size h)). V (obj_key b)"
      using assms nth_mem [OF i(1)] unfolding list_shape_def by blast
  qed (use i in \<open>simp_all add: rd_Some\<close>)
qed

lemma list_shape_chain:
  "list_shape V cmp h \<Longrightarrow> \<forall>b \<in> set chain. V (obj_key b) \<Longrightarrow>
     list_shape V cmp (h\<lparr>bucket_table := (bucket_table h)[i := chain]\<rparr>) \<and>
     list_shape V cmp (h\<lparr>bucket_table := (bucket_table h)[i := chain],
       bucket_size := (bucket_size h)[i := n], no_objects := m\<rparr>)"
  by (auto simp: list_shape_def dest!: set_update_subset_insert [THEN subsetD])

context key_domain
begin

lemma match_defined:
  assumes "list_shape V cmp h" and "V k" and "V (obj_key b)"
  shows "match_key h k b \<noteq> None" and "match_hash h kh k b \<noteq> None" and "match_other_hash h kh k b \<noteq> None"
proof -
  show m: "match_key h k b \<noteq> None"
    using assms by (auto simp: list_shape_def match_key_eq)
  then show "match_hash h kh k b \<noteq> None" "match_other_hash h kh k b \<noteq> None"
    by (auto simp: match_hash_def match_other_hash_def)
qed

text \<open>The walks of all the operations on a bucket of such a table.\<close>

lemma walk_defined:
  assumes "list_shape V cmp h" and "V k" and "\<forall>b \<in> set chain. V (obj_key b)"
    and "test \<in> {match_key h k, match_hash h kh k, match_other_hash h kh k}"
  obtains "walk_chain test [] chain = Some None"
  | before b after where "walk_chain test [] chain = Some (Some (before, b, after))"
    and "chain = before @ b # after"
  using walk_chain_defined [of chain test "[]"] match_defined [OF assms(1,2)] assms(3,4) by auto

lemma lookup_body_defined:
  assumes "list_shape V cmp h" and "V k"
  shows "\<exists>r. lookup_body k (hp, h) = Some (r, hp, h)"
proof (rule list_shape_bucket [OF assms(1), of k])
  fix i
  assume i: "hash_bucket h k = Some i" "rd (bucket_table h) i = Some (bucket_table h ! i)"
    and V: "\<forall>b \<in> set (bucket_table h ! i). V (obj_key b)"
  note walk = walk_defined [OF assms V]
  show ?thesis
  proof (cases "coll_eng h = COLL_ENG_LIST")
    case True
    show ?thesis
      by (cases rule: walk [of "match_key h k"]) (use True i in \<open>simp_all add: lookup_body_def lhi_lookup_list_def\<close>)
  next
    case False
    then obtain f where f: "coll_eng h = COLL_ENG_LIST_HASH \<or> coll_eng h = COLL_ENG_LIST_MTF_HASH"
      "fp_call (hash2_func h) = Some f"
      using assms(1) by (auto simp: list_shape_def)
    show ?thesis
      by (cases rule: walk [of "match_hash h (f k) k" "f k"])
        (use f i in \<open>auto simp: lookup_body_def lhi_lookup_list_def\<close>)
  qed
qed

lemma get_body_defined:
  assumes "list_shape V cmp h" and "V k"
  shows "\<exists>r h'. get_body k (hp, h) = Some (r, hp, h') \<and> list_shape V cmp h'"
proof (rule list_shape_bucket [OF assms(1), of k])
  fix i
  assume i: "hash_bucket h k = Some i" "rd (bucket_table h) i = Some (bucket_table h ! i)"
    and V: "\<forall>b \<in> set (bucket_table h ! i). V (obj_key b)"
  note walk = walk_defined [OF assms V]
  consider "coll_eng h = COLL_ENG_LIST"
    | f where "coll_eng h = COLL_ENG_LIST_HASH" "fp_call (hash2_func h) = Some f"
    | f where "coll_eng h = COLL_ENG_LIST_MTF_HASH" "fp_call (hash2_func h) = Some f"
    using assms(1) by (auto simp: list_shape_def)
  then show ?thesis
  proof cases
    case 1
    show ?thesis
      by (cases rule: walk [of "match_key h k"])
        (use 1 i assms(1) in \<open>simp_all add: get_body_def lhi_get_list_def\<close>)
  next
    case (2 f)
    show ?thesis
      by (cases rule: walk [of "match_hash h (f k) k" "f k"])
        (use 2 i assms(1) in \<open>simp_all add: get_body_def lhi_get_list_def\<close>)
  next
    case (3 f)
    show ?thesis
    proof (cases rule: walk [of "match_other_hash h (f k) k" "f k"])
      case (3 before b after)
      then have "\<forall>b' \<in> set (b # before @ after). V (obj_key b')"
        using V by auto
      then show ?thesis
        using list_shape_chain [OF assms(1)] \<open>coll_eng h = _\<close> \<open>fp_call _ = _\<close> i 3(1)
        by (simp add: get_body_def lhi_get_list_def)
    qed (use 3 i assms(1) in \<open>simp_all add: get_body_def lhi_get_list_def\<close>)
  qed
qed

lemma remove_body_defined:
  assumes "list_shape V cmp h" and "V k"
  shows "\<exists>r hp' h'. remove_body k (hp, h) = Some (r, hp', h') \<and> list_shape V cmp h'"
proof (rule list_shape_bucket [OF assms(1), of k])
  fix i
  assume i: "hash_bucket h k = Some i" "rd (bucket_table h) i = Some (bucket_table h ! i)"
    "rd (bucket_size h) i = Some (bucket_size h ! i)"
    and V: "\<forall>b \<in> set (bucket_table h ! i). V (obj_key b)"
  note walk = walk_defined [OF assms V]
  have unlink: "\<exists>r hp' h'. unlink hp h i (before, b, after) = Some (fst r, snd r, hp', h') \<and> list_shape V cmp h'"
    if "bucket_table h ! i = before @ b # after" for before b after
  proof -
    have "\<forall>b' \<in> set (before @ after). V (obj_key b')"
      using V that by auto
    then show ?thesis
      using list_shape_chain [OF assms(1)] i by (simp add: unlink_def)
  qed
  show ?thesis
  proof (cases "coll_eng h = COLL_ENG_LIST")
    case True
    show ?thesis
    proof (cases rule: walk [of "match_key h k"])
      case (3 before b after)
      then show ?thesis
        using unlink [OF 3(2)] True i by (auto simp: remove_body_def lhi_remove_list_def)
    qed (use True i assms(1) in \<open>simp_all add: remove_body_def lhi_remove_list_def\<close>)
  next
    case False
    then obtain f where f: "coll_eng h = COLL_ENG_LIST_HASH \<or> coll_eng h = COLL_ENG_LIST_MTF_HASH"
      "fp_call (hash2_func h) = Some f"
      using assms(1) by (auto simp: list_shape_def)
    show ?thesis
    proof (cases rule: walk [of "match_hash h (f k) k" "f k"])
      case (3 before b after)
      then show ?thesis
        using unlink [OF 3(2)] f i by (auto simp: remove_body_def lhi_remove_list_def)
    qed (use f i assms(1) in \<open>auto simp: remove_body_def lhi_remove_list_def\<close>)
  qed
qed

lemma insert_body_defined:
  assumes "list_shape V cmp h" and "V k"
  shows "\<exists>r hp' h'. insert_body k d (hp, h) = Some (r, hp', h') \<and> list_shape V cmp h'"
proof (rule list_shape_bucket [OF assms(1), of k])
  fix i
  assume i: "hash_bucket h k = Some i" "rd (bucket_table h) i = Some (bucket_table h ! i)"
    "rd (bucket_size h) i = Some (bucket_size h ! i)"
    and V: "\<forall>b \<in> set (bucket_table h ! i). V (obj_key b)"
  obtain r1 junk hp1 where 1: "xalloc_align hp = (r1, junk, hp1)"
    by (cases "xalloc_align hp")
  obtain r2 junk2 hp2 where 2: "xalloc_align hp1 = (r2, junk2, hp2)"
    by (cases "xalloc_align hp1")
  have "\<forall>b \<in> set (\<lparr>key_len = word_of_nat (length k), obj_key = k, obj_data = d, key_hash = junk\<rparr> #
      bucket_table h ! i). V (obj_key b)"
    using V assms(2) by simp
  then show ?thesis
    using list_shape_chain [OF assms(1)] assms(1) i 1 2 by (simp add: insert_body_def lhi_insert_list_def)
qed

end

section \<open>The programs follow the lock discipline\<close>

definition list_Q :: "(key \<Rightarrow> bool) \<Rightarrow> cmp_fn \<Rightarrow> shared_table \<Rightarrow> bool" where
  "list_Q V cmp = (\<lambda>(hp, h). list_shape V cmp h)"

lemma disciplined_critical:
  assumes "\<And>s. Q s \<Longrightarrow> \<exists>x s'. body s = Some (x, s') \<and> Q s'" and "\<And>x. disciplined Q None (k x)"
  shows "disciplined Q None (critical l body k)"
  using assms by (fastforce simp: critical_def locked_def)

lemma disciplined_branch:
  "(\<And>hp h. Q (hp, h) \<Longrightarrow> disciplined Q H (p h)) \<Longrightarrow> disciplined Q H (branch p)"
  by (simp add: branch_def)

lemma disciplined_clients:
  assumes Q: "Q s" and "\<forall>cs \<in> set css. disciplined Q None (client cs [])" and "steps (clients s css) c"
  shows "Q (shared c)" and "\<not> undefined_at t c" and "\<not> stuck c" and "\<exists>c'. steps c c' \<and> finished c'"
    and "finished c \<Longrightarrow> resume c qs = start (shared c) qs"
proof -
  have d: "\<forall>p \<in> set (map (\<lambda>cs. client cs []) css). disciplined Q None p"
    using assms(2) by auto
  note safe = disciplined_threads [OF Q d]
  show "Q (shared c)" "\<not> undefined_at t c" "\<not> stuck c"
    using safe [of c] assms(3) by (auto simp: clients_def)
  show "\<exists>c'. steps c c' \<and> finished c'"
    using safe assms(3) by (intro some_schedule_ends) (auto simp: clients_def steps_def dest: rtranclp_trans)
  show "finished c \<Longrightarrow> resume c qs = start (shared c) qs"
    using finished_locks [OF Q d] assms(3) by (simp add: clients_def)
qed

lemma list_Q_simps: "list_Q V cmp (hp, h) \<longleftrightarrow> list_shape V cmp h"
  by (simp add: list_Q_def)

lemma list_shape_eng: "list_shape V cmp h \<Longrightarrow> list_eng (coll_eng h)"
  by (auto simp: list_shape_def)

context key_domain
begin

lemma bodies_keep_Q:
  assumes "list_Q V cmp s" and "V k"
  shows "\<exists>x s'. lookup_body k s = Some (x, s') \<and> list_Q V cmp s'"
    and "\<exists>x s'. get_body k s = Some (x, s') \<and> list_Q V cmp s'"
    and "\<exists>x s'. remove_body k s = Some (x, s') \<and> list_Q V cmp s'"
    and "\<exists>x s'. insert_body k d s = Some (x, s') \<and> list_Q V cmp s'"
proof -
  obtain hp h where s: "s = (hp, h)"
    by (cases s)
  then have h: "list_shape V cmp h"
    using assms(1) by (simp add: list_Q_simps)
  note defined = lookup_body_defined [OF h assms(2)] get_body_defined [OF h assms(2)]
    remove_body_defined [OF h assms(2)] insert_body_defined [OF h assms(2)]
  show "\<exists>x s'. lookup_body k s = Some (x, s') \<and> list_Q V cmp s'"
    using defined(1) [of hp] h unfolding s by (metis list_Q_simps)
  show "\<exists>x s'. get_body k s = Some (x, s') \<and> list_Q V cmp s'"
    using defined(2) [of hp] unfolding s by (metis list_Q_simps)
  show "\<exists>x s'. remove_body k s = Some (x, s') \<and> list_Q V cmp s'"
    using defined(3) [of hp] unfolding s by (metis list_Q_simps)
  show "\<exists>x s'. insert_body k d s = Some (x, s') \<and> list_Q V cmp s'"
    using defined(4) [of d hp] unfolding s by (metis list_Q_simps)
qed

lemma cmd_disciplined:
  assumes "V (cmd_key c)" and k: "\<And>r. disciplined (list_Q V cmp) None (k r)"
  shows "disciplined (list_Q V cmp) None (cmd_ts c k)"
proof (cases c)
  case (Ins key d)
  then have V: "V key"
    using assms(1) by simp
  let ?insert = "insert_eng_ts key d (\<lambda>ret. k (ret, None))"
  have "disciplined (list_Q V cmp) None (lhi_insert_list_ts key d (\<lambda>ret. k (ret, None)))"
    unfolding lhi_insert_list_ts_def by (intro disciplined_critical bodies_keep_Q(4) V k)
  then have "disciplined (list_Q V cmp) None ?insert"
    unfolding insert_eng_ts_def by (intro disciplined_branch) (simp add: list_Q_simps list_shape_eng)
  then have "disciplined (list_Q V cmp) None (do_rehash_ts ?insert)"
    by (simp add: do_rehash_ts_def list_Q_def do_rehash_with_def list_shape_def)
  then have "disciplined (list_Q V cmp) None (if l = SUCCESS then k (HI_ERR_DUPKEY, None) else do_rehash_ts ?insert)" for l
    using k by simp
  then have "disciplined (list_Q V cmp) None (critical Mutex (lookup_body key) (\<lambda>l.
      if l = SUCCESS then k (HI_ERR_DUPKEY, None) else do_rehash_ts ?insert))"
    by (intro disciplined_critical bodies_keep_Q(1) V)
  then show ?thesis
    unfolding Ins cmd_ts.simps hi_insert_ts_def hi_lookup_ts_def
    by (intro disciplined_branch) (simp add: list_Q_simps list_shape_eng)
next
  case (Get key)
  then have V: "V key"
    using assms(1) by simp
  have "disciplined (list_Q V cmp) None (critical Mutex (get_body key) k)"
    by (intro disciplined_critical bodies_keep_Q(2) V k)
  then have "disciplined (list_Q V cmp) None (lhi_get_list_ts key k)"
    unfolding lhi_get_list_ts_def
    by (intro disciplined_branch) (auto simp: list_Q_simps list_shape_def)
  then show ?thesis
    unfolding Get cmd_ts.simps hi_get_ts_def
    by (intro disciplined_branch) (simp add: list_Q_simps list_shape_eng)
next
  case (Rem key)
  then have V: "V key"
    using assms(1) by simp
  have "disciplined (list_Q V cmp) None (lhi_remove_list_ts key k)"
    unfolding lhi_remove_list_ts_def by (intro disciplined_critical bodies_keep_Q(3) V k)
  then show ?thesis
    unfolding Rem cmd_ts.simps hi_remove_ts_def
    by (intro disciplined_branch) (simp add: list_Q_simps list_shape_eng)
qed

lemma client_disciplined:
  "\<forall>c \<in> set cs. V (cmd_key c) \<Longrightarrow> disciplined (list_Q V cmp) None (client cs rs)"
  by (induction cs arbitrary: rs) (auto intro: cmd_disciplined)

lemma list_clients_safe:
  assumes "list_shape V cmp h" and "\<forall>cs \<in> set css. \<forall>c \<in> set cs. V (cmd_key c)"
    and "steps (clients (hp, h) css) c"
  shows "list_shape V cmp (snd (shared c))" and "\<not> undefined_at t c" and "\<not> stuck c"
    and "\<exists>c'. steps c c' \<and> finished c'" and "finished c \<Longrightarrow> resume c qs = start (shared c) qs"
  using disciplined_clients [of "list_Q V cmp" "(hp, h)" css c] assms client_disciplined
  by (auto simp: list_Q_def)

end

end
