(* ===== verification/Linear.thy ===== *)
theory Linear
  imports Hi_locking
begin

text \<open>
  Threads that act as the abstract map in some order of their commands. The locale \<open>linear_run\<close>
  states what the positions of one thread in its program must satisfy, step by step; it then
  follows that every run is a run of the commands one at a time. Two engines interpret it.
\<close>

section \<open>Commands one at a time\<close>

text \<open>A command with the thread that issues it, in the order in which the commands take effect.\<close>

type_synonym history = "(nat \<times> cmd) list"

definition history_of :: "nat \<Rightarrow> history \<Rightarrow> cmd list" where
  "history_of t w = map snd (filter (\<lambda>e. fst e = t) w)"

text \<open>The replies of the abstract map to the commands of one thread.\<close>

definition replies_of :: "nat \<Rightarrow> history \<Rightarrow> reply list" where
  "replies_of t w =
     map snd (filter (\<lambda>(e, r). fst e = t) (zip w (fst (spec_cmds Map.empty (map snd w)))))"

definition map_after :: "history \<Rightarrow> key_map" where
  "map_after w = snd (spec_cmds Map.empty (map snd w))"

lemma spec_cmds_snoc:
  "spec_cmds m (cs @ [c]) =
     (fst (spec_cmds m cs) @ [fst (spec_cmd (snd (spec_cmds m cs)) c)], snd (spec_cmd (snd (spec_cmds m cs)) c))"
  by (induction cs arbitrary: m) (simp_all add: Let_def case_prod_unfold)

lemma length_spec_cmds: "length (fst (spec_cmds m cs)) = length cs"
  by (induction cs arbitrary: m) (simp_all add: Let_def case_prod_unfold)

lemma history_snoc:
  "history_of u (w @ [(t, c)]) = history_of u w @ (if u = t then [c] else [])"
  "replies_of u (w @ [(t, c)]) = replies_of u w @ (if u = t then [fst (spec_cmd (map_after w) c)] else [])"
  "map_after (w @ [(t, c)]) = snd (spec_cmd (map_after w) c)"
  by (simp_all add: history_of_def replies_of_def map_after_def spec_cmds_snoc length_spec_cmds)

lemma history_Nil: "history_of t [] = []" "replies_of t [] = []" "map_after [] = Map.empty"
  by (simp_all add: history_of_def replies_of_def map_after_def)

text \<open>An order of all the commands that keeps the order of each thread.\<close>

definition interleaving :: "cmd list list \<Rightarrow> history \<Rightarrow> bool" where
  "interleaving css w \<longleftrightarrow>
     (\<forall>e \<in> set w. fst e < length css) \<and> (\<forall>t < length css. history_of t w = css ! t)"

section \<open>Linearizable programs\<close>

text \<open>
  \<open>stage cs rs a p\<close>: the program \<open>p\<close> of a thread whose commands \<open>cs\<close> have not taken effect, with the
  replies \<open>rs\<close> (in reverse) to those that have; \<open>a\<close> is what the thread is in the middle of.
  \<open>good n s m ann rest\<close>: the shared state \<open>s\<close> of \<open>n\<close> threads stands for the map \<open>m\<close>. An atomic
  step of a thread either leaves the map alone or gives the next command its effect and its reply.
\<close>

locale linear_run =
  fixes stage :: "cmd list \<Rightarrow> reply list \<Rightarrow> 'a \<Rightarrow> reply list table_prog \<Rightarrow> bool"
    and good :: "nat \<Rightarrow> shared_table \<Rightarrow> key_map \<Rightarrow> (nat \<Rightarrow> 'a) \<Rightarrow> (nat \<Rightarrow> cmd list) \<Rightarrow> bool"
    and idle :: 'a
  assumes stage_client: "stage cs rs idle (client cs rs)"
    and stage_wrlock: "stage cs rs a (Wrlock l p) \<Longrightarrow> stage cs rs a p"
    and stage_rdlock: "stage cs rs a (Rdlock l p) \<Longrightarrow> stage cs rs a p"
    and stage_unlock: "stage cs rs a (Unlock l p) \<Longrightarrow> stage cs rs a p"
    and stage_return: "stage cs rs a (Return r) \<Longrightarrow> cs = [] \<and> r = rev rs \<and> a = idle"
    and stage_atomic: "t < n \<Longrightarrow> stage (rest t) rs (ann t) (Atomic f) \<Longrightarrow> good n s m ann rest \<Longrightarrow>
      f s = Some (s', q) \<Longrightarrow>
      (\<exists>a. stage (rest t) rs a q \<and> good n s' m (ann(t := a)) rest) \<or>
      (\<exists>c cs a. rest t = c # cs \<and> stage cs (fst (spec_cmd m c) # rs) a q \<and>
         good n s' (snd (spec_cmd m c)) (ann(t := a)) (rest(t := cs)))"
begin

definition thread_ok :: "cmd list list \<Rightarrow> history \<Rightarrow> nat \<Rightarrow> 'a \<Rightarrow> cmd list \<Rightarrow> reply list table_prog \<Rightarrow> bool" where
  "thread_ok css w t a cs p \<longleftrightarrow>
     css ! t = history_of t w @ cs \<and> (\<exists>rs. stage cs rs a p \<and> rev rs = replies_of t w)"

text \<open>The commands of \<open>w\<close> took effect in this order, and those of \<open>rest\<close> did not.\<close>

definition run_inv :: "cmd list list \<Rightarrow> (shared_table, reply list) config \<Rightarrow> history \<Rightarrow> (nat \<Rightarrow> 'a) \<Rightarrow>
    (nat \<Rightarrow> cmd list) \<Rightarrow> bool" where
  "run_inv css c w ann rest \<longleftrightarrow> good (length css) (shared c) (map_after w) ann rest \<and>
     length (threads c) = length css \<and> (\<forall>e \<in> set w. fst e < length css) \<and>
     (\<forall>t < length css. thread_ok css w t (ann t) (rest t) (threads c ! t))"

lemma thread_ok_lock:
  "thread_ok css w t a cs (Wrlock l p) \<Longrightarrow> thread_ok css w t a cs p"
  "thread_ok css w t a cs (Rdlock l p) \<Longrightarrow> thread_ok css w t a cs p"
  "thread_ok css w t a cs (Unlock l p) \<Longrightarrow> thread_ok css w t a cs p"
  unfolding thread_ok_def using stage_wrlock stage_rdlock stage_unlock by blast+

lemma run_inv_lock:
  assumes "run_inv css c w ann rest" and "thread_ok css w t (ann t) (rest t) p"
  shows "run_inv css (c\<lparr>locks := L, threads := (threads c)[t := p]\<rparr>) w ann rest"
  using assms by (cases "t < length css") (auto simp: run_inv_def nth_list_update)

lemma run_inv_step:
  assumes "step t c c'" and inv: "run_inv css c w ann rest"
  shows "\<exists>w' ann' rest'. run_inv css c' w' ann' rest'"
  using assms(1)
proof cases
  case (wrlock l p)
  then have "thread_ok css w t (ann t) (rest t) p"
    using inv thread_ok_lock(1) by (metis run_inv_def)
  then show ?thesis
    using run_inv_lock [OF inv] wrlock(1) by blast
next
  case (rdlock l p R)
  then have "thread_ok css w t (ann t) (rest t) p"
    using inv thread_ok_lock(2) by (metis run_inv_def)
  then show ?thesis
    using run_inv_lock [OF inv] rdlock(1) by blast
next
  case (unlock l p)
  then have "thread_ok css w t (ann t) (rest t) p"
    using inv thread_ok_lock(3) by (metis run_inv_def)
  then show ?thesis
    using run_inv_lock [OF inv] unlock(1) by blast
next
  case (atomic f s q)
  have t: "t < length css" and all: "\<And>u. u < length css \<Longrightarrow> thread_ok css w u (ann u) (rest u) (threads c ! u)"
    and g: "good (length css) (shared c) (map_after w) ann rest" and len: "length (threads c) = length css"
    and w: "\<forall>e \<in> set w. fst e < length css"
    using atomic(2) inv by (auto simp: run_inv_def)
  obtain rs where r: "css ! t = history_of t w @ rest t" "stage (rest t) rs (ann t) (Atomic f)"
    "rev rs = replies_of t w"
    using all [OF t] atomic(3) by (auto simp: thread_ok_def)
  from stage_atomic [OF t r(2) g atomic(4)] show ?thesis
  proof (elim disjE exE conjE)
    fix a
    assume a: "stage (rest t) rs a q" "good (length css) s (map_after w) (ann(t := a)) rest"
    then have "thread_ok css w t a (rest t) q"
      using r by (auto simp: thread_ok_def)
    then have "run_inv css c' w (ann(t := a)) rest"
      using a(2) all len w t atomic(1) by (auto simp: run_inv_def nth_list_update)
    then show ?thesis by blast
  next
    fix c0 cs a
    assume a: "rest t = c0 # cs" "stage cs (fst (spec_cmd (map_after w) c0) # rs) a q"
      "good (length css) s (snd (spec_cmd (map_after w) c0)) (ann(t := a)) (rest(t := cs))"
    let ?w = "w @ [(t, c0)]"
    have "thread_ok css ?w t a cs q"
      unfolding thread_ok_def
      using r a by (intro conjI exI [of _ "fst (spec_cmd (map_after w) c0) # rs"]) (simp_all add: history_snoc)
    moreover have "thread_ok css ?w u (ann u) (rest u) (threads c ! u)" if "u < length css" "u \<noteq> t" for u
      using all [OF that(1)] that(2) by (simp add: thread_ok_def history_snoc)
    ultimately have "run_inv css c' ?w (ann(t := a)) (rest(t := cs))"
      using a(3) len w t atomic(1) by (auto simp: run_inv_def history_snoc nth_list_update)
    then show ?thesis by blast
  qed
qed

lemma run_inv_steps:
  assumes "steps c0 c" and "run_inv css c0 [] ann rest"
  shows "\<exists>w ann' rest'. run_inv css c w ann' rest'"
  using assms(1)
proof (induction rule: steps_induct)
  case start
  then show ?case
    using assms(2) by blast
next
  case (step t c1 c2)
  then show ?case
    using run_inv_step by blast
qed

lemma run_inv_clients:
  assumes "good (length css) s Map.empty (\<lambda>_. idle) (\<lambda>t. css ! t)"
  shows "run_inv css (clients s css) [] (\<lambda>_. idle) (\<lambda>t. css ! t)"
  using assms stage_client
  by (fastforce simp: run_inv_def clients_def start_def thread_ok_def history_Nil)

lemma clients_linear:
  assumes "good (length css) s Map.empty (\<lambda>_. idle) (\<lambda>t. css ! t)"
    and "steps (clients s css) c" and "finished c"
  shows "\<exists>w ann rest. interleaving css w \<and> good (length css) (shared c) (map_after w) ann rest \<and>
    (\<forall>t < length css. ann t = idle) \<and>
    threads c = map (\<lambda>t. Return (replies_of t w)) [0 ..< length css]"
proof -
  obtain w ann rest where inv: "run_inv css c w ann rest"
    using run_inv_steps [OF assms(2) run_inv_clients [OF assms(1)]] by blast
  have each: "history_of t w = css ! t" "threads c ! t = Return (replies_of t w)" "ann t = idle"
    if t: "t < length css" for t
  proof -
    obtain rs where ok: "css ! t = history_of t w @ rest t" "stage (rest t) rs (ann t) (threads c ! t)"
      "rev rs = replies_of t w"
      using inv t by (auto simp: run_inv_def thread_ok_def)
    have "threads c ! t \<in> set (threads c)"
      using inv t by (auto simp: run_inv_def)
    then obtain r where "threads c ! t = Return r"
      using assms(3) by (auto simp: finished_def)
    then show "history_of t w = css ! t" "threads c ! t = Return (replies_of t w)" "ann t = idle"
      using stage_return [of "rest t" rs "ann t" r] ok by simp_all
  qed
  have "threads c = map (\<lambda>t. Return (replies_of t w)) [0 ..< length css]"
    using inv by (intro nth_equalityI) (simp_all add: each(2) run_inv_def)
  moreover have "interleaving css w"
    using inv each(1) by (simp add: interleaving_def run_inv_def)
  ultimately show ?thesis
    using inv each(3) by (auto simp: run_inv_def)
qed

end

section \<open>The program of a client\<close>

lemma client_not_lock: "client cs rs \<noteq> Wrlock l q \<and> client cs rs \<noteq> Rdlock l q \<and> client cs rs \<noteq> Unlock l q"
proof (cases cs)
  case (Cons c cs')
  then show ?thesis
    by (cases c) (simp_all add: hi_insert_ts_def hi_lookup_ts_def hi_get_ts_def hi_remove_ts_def branch_def)
qed simp

lemma client_return: "client cs rs = Return r \<Longrightarrow> cs = [] \<and> r = rev rs"
proof (cases cs)
  case (Cons c cs')
  then show "client cs rs = Return r \<Longrightarrow> ?thesis"
    by (cases c) (simp_all add: hi_insert_ts_def hi_lookup_ts_def hi_get_ts_def hi_remove_ts_def branch_def)
qed simp

text \<open>The commands that are left.\<close>

lemma sum_rest:
  fixes rest :: "nat \<Rightarrow> cmd list"
  assumes "t < n" and "rest t = c # cs"
  shows "(\<Sum>u < n. length ((rest(t := cs)) u)) + 1 = (\<Sum>u < n. length (rest u))"
  using assms by (simp add: sum.remove [of "{..<n}" t])

lemma rest_le:
  fixes rest :: "nat \<Rightarrow> cmd list"
  shows "t < n \<Longrightarrow> length (rest t) \<le> (\<Sum>u < n. length (rest u))"
  by (intro member_le_sum) auto

end
