(* ===== verification/Hi_linear.thy ===== *)
theory Hi_linear
  imports Hi_concurrent Linear
begin

text \<open>
  Threads that share a table of chains, against the abstract map: if no key is inserted by two
  threads, every run of the threads is a run of the commands one at a time, in some order that
  keeps the order of each thread. \<open>hi_insert\<close> looks the key up and inserts it in two critical
  sections, which is why the condition is needed.
\<close>

text \<open>No key is inserted by two threads.\<close>

definition inserted_keys :: "cmd list \<Rightarrow> key set" where
  "inserted_keys cs = {k. \<exists>d. Ins k d \<in> set cs}"

definition one_inserter :: "cmd list list \<Rightarrow> bool" where
  "one_inserter css \<longleftrightarrow> (\<forall>t < length css. \<forall>u < length css. t \<noteq> u \<longrightarrow>
     inserted_keys (css ! t) \<inter> inserted_keys (css ! u) = {})"

section \<open>Where a thread is\<close>

text \<open>
  The positions of a thread: the commands that have not taken effect, the replies to those that
  have (in reverse), a key that the thread has looked up and not found, and the program.
\<close>

definition put_prog :: "key \<Rightarrow> ptr \<Rightarrow> cmd list \<Rightarrow> reply list \<Rightarrow> reply list table_prog" where
  "put_prog k d cs rs = insert_eng_ts k d (\<lambda>ret. client cs ((ret, None) # rs))"

definition after_lookup :: "key \<Rightarrow> ptr \<Rightarrow> cmd list \<Rightarrow> reply list \<Rightarrow> int \<Rightarrow> reply list table_prog" where
  "after_lookup k d cs rs = (\<lambda>l. if l = SUCCESS then client cs ((HI_ERR_DUPKEY, None) # rs)
     else do_rehash_ts (put_prog k d cs rs))"

inductive stage :: "cmd list \<Rightarrow> reply list \<Rightarrow> key option \<Rightarrow> reply list table_prog \<Rightarrow> bool" where
  at_client: "stage cs rs None (client cs rs)"
| at_unlock: "stage cs rs None (Unlock Mutex (client cs rs))"
| at_get: "stage (Get k # cs) rs None (lhi_get_list_ts k (\<lambda>r. client cs (r # rs)))"
| at_get_lock: "stage (Get k # cs) rs None (Wrlock Mutex (locked Mutex (get_body k) (\<lambda>r. client cs (r # rs))))"
| at_get_locked: "stage (Get k # cs) rs None (locked Mutex (get_body k) (\<lambda>r. client cs (r # rs)))"
| at_rem_lock: "stage (Rem k # cs) rs None (Wrlock Mutex (locked Mutex (remove_body k) (\<lambda>r. client cs (r # rs))))"
| at_rem_locked: "stage (Rem k # cs) rs None (locked Mutex (remove_body k) (\<lambda>r. client cs (r # rs)))"
| at_look_lock: "stage (Ins k d # cs) rs None (Wrlock Mutex (locked Mutex (lookup_body k) (after_lookup k d cs rs)))"
| at_look_locked: "stage (Ins k d # cs) rs None (locked Mutex (lookup_body k) (after_lookup k d cs rs))"
| at_missed: "stage (Ins k d # cs) rs (Some k) (Unlock Mutex (do_rehash_ts (put_prog k d cs rs)))"
| at_rehash: "stage (Ins k d # cs) rs (Some k) (do_rehash_ts (put_prog k d cs rs))"
| at_put: "stage (Ins k d # cs) rs (Some k) (put_prog k d cs rs)"
| at_put_lock: "stage (Ins k d # cs) rs (Some k)
    (Wrlock Mutex (locked Mutex (insert_body k d) (\<lambda>ret. client cs ((ret, None) # rs))))"
| at_put_locked: "stage (Ins k d # cs) rs (Some k) (locked Mutex (insert_body k d) (\<lambda>ret. client cs ((ret, None) # rs)))"

inductive_cases stage_missing: "stage cs rs (Some k) p"

section \<open>One step of one thread\<close>

definition list_on :: "(key \<Rightarrow> bool) \<Rightarrow> cmp_fn \<Rightarrow> hi_handle \<Rightarrow> bool" where
  "list_on V cmp h \<longleftrightarrow> list_inv V cmp h \<and> coll_eng h = COLL_ENG_LIST \<and> rehash_auto h = 0"

text \<open>The blocks in use besides the two of each entry.\<close>

definition extra :: "heap \<Rightarrow> hi_handle \<Rightarrow> int" where
  "extra hp h = live hp - 2 * int (unat (no_objects h))"

abbreviation the_map :: "hi_handle \<Rightarrow> key_map" where
  "the_map h \<equiv> map_of_table (list_table h)"

lemma list_on_eng: "list_on V cmp h \<Longrightarrow> list_eng (coll_eng h)"
  by (simp add: list_on_def)

text \<open>From the state a thread is in, one step: another position, or the next command takes effect.\<close>

definition moved :: "hi_handle \<Rightarrow> cmd list \<Rightarrow> reply list \<Rightarrow> hi_handle \<Rightarrow> reply list table_prog \<Rightarrow> bool" where
  "moved h cs rs h' q \<longleftrightarrow>
     h' = h \<and> (\<exists>a. stage cs rs a q \<and> (\<forall>k. a = Some k \<longrightarrow> the_map h k = None)) \<or>
     (\<exists>c cs'. cs = c # cs' \<and> the_map h' = snd (spec_cmd (the_map h) c) \<and>
        stage cs' (fst (spec_cmd (the_map h) c) # rs) None q \<and> unat (no_objects h') \<le> unat (no_objects h) + 1)"

lemma moved_stay: "stage cs rs None q \<Longrightarrow> moved h cs rs h q"
  by (auto simp: moved_def)

lemma moved_missed: "stage cs rs (Some k) q \<Longrightarrow> the_map h k = None \<Longrightarrow> moved h cs rs h q"
  by (auto simp: moved_def)

lemma moved_done:
  "the_map h' = snd (spec_cmd (the_map h) c) \<Longrightarrow> unat (no_objects h') \<le> unat (no_objects h) + 1 \<Longrightarrow>
     r = fst (spec_cmd (the_map h) c) \<Longrightarrow> moved h (c # cs) rs h' (Unlock Mutex (client cs (r # rs)))"
  by (auto simp: moved_def intro: stage.intros)

lemma not_lock:
  "lhi_get_list_ts k K \<noteq> Wrlock l q \<and> lhi_get_list_ts k K \<noteq> Rdlock l q \<and> lhi_get_list_ts k K \<noteq> Unlock l q"
  "locked l' body K' \<noteq> Wrlock l q \<and> locked l' body K' \<noteq> Rdlock l q \<and> locked l' body K' \<noteq> Unlock l q"
  "do_rehash_ts P \<noteq> Wrlock l q \<and> do_rehash_ts P \<noteq> Rdlock l q \<and> do_rehash_ts P \<noteq> Unlock l q"
  "put_prog k d cs rs \<noteq> Wrlock l q \<and> put_prog k d cs rs \<noteq> Rdlock l q \<and> put_prog k d cs rs \<noteq> Unlock l q"
  by (simp_all add: lhi_get_list_ts_def locked_def do_rehash_ts_def put_prog_def insert_eng_ts_def branch_def)

lemma stage_lock:
  assumes "stage cs rs a p"
  shows "p = Wrlock l q \<Longrightarrow> stage cs rs a q" and "p = Unlock l q \<Longrightarrow> stage cs rs a q" and "p \<noteq> Rdlock l q"
  using assms by (induction rule: stage.induct) (auto simp: client_not_lock not_lock intro: stage.intros)

context key_domain
begin

lemma bodies_of_map:
  assumes "list_on V cmp h" and "V k"
  shows "lookup_body k (hp, h) = Some (if the_map h k = None then HI_ERR_NOKEY else SUCCESS, hp, h)"
    and "\<exists>h'. get_body k (hp, h) = Some (fst (spec_cmd (the_map h) (Get k)), hp, h') \<and> list_on V cmp h' \<and>
      the_map h' = the_map h \<and> no_objects h' = no_objects h"
    and "\<exists>hp' h'. remove_body k (hp, h) = Some (fst (spec_cmd (the_map h) (Rem k)), hp', h') \<and> list_on V cmp h' \<and>
      no_oom hp' = no_oom hp \<and> the_map h' = (the_map h)(k := None) \<and> unat (no_objects h') \<le> unat (no_objects h) \<and>
      extra hp' h' = extra hp h"
    and "no_oom hp \<Longrightarrow> the_map h k = None \<Longrightarrow> unat (no_objects h) < max_objects \<Longrightarrow>
      \<exists>hp' h'. insert_body k d (hp, h) = Some (SUCCESS, hp', h') \<and> list_on V cmp h' \<and> no_oom hp' \<and>
        the_map h' = (the_map h)(k \<mapsto> d) \<and> unat (no_objects h') = unat (no_objects h) + 1 \<and>
        extra hp' h' = extra hp h"
proof -
  have inv: "list_inv V cmp h" and eng: "coll_eng h = COLL_ENG_LIST" "rehash_auto h = 0"
    using assms(1) by (simp_all add: list_on_def)
  show "lookup_body k (hp, h) = Some (if the_map h k = None then HI_ERR_NOKEY else SUCCESS, hp, h)"
    using list_lookup [OF inv assms(2)] by (simp add: lookup_body_def)
  show "\<exists>h'. get_body k (hp, h) = Some (fst (spec_cmd (the_map h) (Get k)), hp, h') \<and> list_on V cmp h' \<and>
      the_map h' = the_map h \<and> no_objects h' = no_objects h"
    using list_engine.get_missing [OF inv assms(2)] list_engine.get_found [OF inv assms(2)] eng inv
    by (cases "the_map h k") (fastforce simp: get_body_def list_on_def same_settings_def)+
  show "\<exists>hp' h'. remove_body k (hp, h) = Some (fst (spec_cmd (the_map h) (Rem k)), hp', h') \<and> list_on V cmp h' \<and>
      no_oom hp' = no_oom hp \<and> the_map h' = (the_map h)(k := None) \<and> unat (no_objects h') \<le> unat (no_objects h) \<and>
      extra hp' h' = extra hp h"
  proof (cases "the_map h k")
    case None
    then show ?thesis
      using list_engine.rem_missing [OF inv assms(2) None, of hp] assms(1) by (simp add: remove_body_def fun_upd_idem)
  next
    case (Some v)
    obtain hp' h' where h': "lhi_remove_list hp h k = Some (SUCCESS, Some v, hp', h')" "no_oom hp' = no_oom hp"
      "live hp' = live hp - 2" "list_inv V cmp h'" "same_settings h h'" "the_map h' = (the_map h)(k := None)"
      "no_objects h' = no_objects h - 1"
      using list_engine.rem_found [OF inv assms(2) Some] by blast
    have "unat (no_objects h) \<noteq> 0"
      using list_table.abs_map_size [OF inv] Some by (auto simp: list_table.abs_map_def)
    then have "unat (no_objects h') + 1 = unat (no_objects h)"
      unfolding h'(7) by (simp add: unat_minus_one_u32 unat_eq_0 unat_gt_0)
    then have "unat (no_objects h') \<le> unat (no_objects h)" "extra hp' h' = extra hp h"
      using h'(3) unfolding extra_def by linarith+
    then show ?thesis
      using h' eng Some by (simp add: remove_body_def list_on_def same_settings_def)
  qed
  show "\<exists>hp' h'. insert_body k d (hp, h) = Some (SUCCESS, hp', h') \<and> list_on V cmp h' \<and> no_oom hp' \<and>
      the_map h' = (the_map h)(k \<mapsto> d) \<and> unat (no_objects h') = unat (no_objects h) + 1 \<and>
        extra hp' h' = extra hp h"
    if fresh: "no_oom hp" "the_map h k = None" and room: "unat (no_objects h) < max_objects"
  proof -
    obtain hp' h' where h': "lhi_insert_list hp h k d = Some (SUCCESS, hp', h')" "no_oom hp'" "live hp' = live hp + 2"
      "list_inv V cmp h'" "same_settings h h'" "the_map h' = (the_map h)(k \<mapsto> d)"
      "no_objects h' = no_objects h + 1"
      using list_engine.ins_fresh [OF inv assms(2) fresh room] by blast
    have n: "unat (no_objects h') = unat (no_objects h) + 1"
      using room h'(7) by (simp add: unat_plus_one_u32 max_objects_def)
    then have "extra hp' h' = extra hp h"
      using h'(3) unfolding extra_def by linarith
    then show ?thesis
      using h' eng n by (simp add: insert_body_def list_on_def same_settings_def)
  qed
qed

lemma client_atomic:
  assumes "client cs rs = Atomic f" and "f (hp, h) = Some ((hp', h'), q)" and "list_on V cmp h"
  shows "hp' = hp \<and> h' = h \<and> moved h cs rs h q"
proof (cases cs)
  case (Cons c cs')
  show ?thesis
  proof (cases c)
    case (Ins k d)
    then have "q = Wrlock Mutex (locked Mutex (lookup_body k) (after_lookup k d cs' rs))" "hp' = hp" "h' = h"
      using assms Cons list_on_eng
      by (auto simp: hi_insert_ts_def hi_lookup_ts_def branch_def critical_def after_lookup_def put_prog_def cong: if_cong)
    then show ?thesis
      using Cons Ins by (auto intro: moved_stay stage.intros)
  next
    case (Get k)
    then have "q = lhi_get_list_ts k (\<lambda>r. client cs' (r # rs))" "hp' = hp" "h' = h"
      using assms Cons list_on_eng by (auto simp: hi_get_ts_def branch_def)
    then show ?thesis
      using Cons Get by (auto intro: moved_stay stage.intros)
  next
    case (Rem k)
    then have "q = Wrlock Mutex (locked Mutex (remove_body k) (\<lambda>r. client cs' (r # rs)))" "hp' = hp" "h' = h"
      using assms Cons list_on_eng
      by (auto simp: hi_remove_ts_def branch_def lhi_remove_list_ts_def critical_def)
    then show ?thesis
      using Cons Rem by (auto intro: moved_stay stage.intros)
  qed
qed (use assms(1) in simp)

lemma stage_atomic:
  assumes "stage cs rs a (Atomic f)" and "f (hp, h) = Some ((hp', h'), q)" and "list_on V cmp h" and "no_oom hp"
    and "\<forall>c \<in> set cs. V (cmd_key c)" and "unat (no_objects h) + length cs \<le> max_objects"
    and "\<forall>k. a = Some k \<longrightarrow> the_map h k = None"
  shows "no_oom hp' \<and> list_on V cmp h' \<and> extra hp' h' = extra hp h \<and> moved h cs rs h' q"
  using assms(1)
proof cases
  case at_client
  then have "client cs rs = Atomic f"
    by simp
  from client_atomic [OF this assms(2,3)] show ?thesis
    using assms(3,4) by auto
next
  case (at_get k cs')
  then have "q = Wrlock Mutex (locked Mutex (get_body k) (\<lambda>r. client cs' (r # rs)))" "hp' = hp" "h' = h"
    using assms(2,3) by (auto simp: lhi_get_list_ts_def branch_def list_on_def critical_def)
  then show ?thesis
    using at_get assms(3,4) by (auto intro: moved_stay stage.intros)
next
  case (at_get_locked k cs')
  then have "V k"
    using assms(5) by simp
  then obtain h1 where "get_body k (hp, h) = Some (fst (spec_cmd (the_map h) (Get k)), hp, h1)" "list_on V cmp h1"
    "the_map h1 = the_map h" "no_objects h1 = no_objects h"
    using bodies_of_map(2) [OF assms(3)] by blast
  then show ?thesis
    using at_get_locked assms(2,4) moved_done [of h1 h "Get k" _ cs' rs] by (auto simp: locked_def extra_def)
next
  case (at_rem_locked k cs')
  then have "V k"
    using assms(5) by simp
  then obtain hp1 h1 where "remove_body k (hp, h) = Some (fst (spec_cmd (the_map h) (Rem k)), hp1, h1)" "list_on V cmp h1"
    "no_oom hp1 = no_oom hp" "the_map h1 = (the_map h)(k := None)" "unat (no_objects h1) \<le> unat (no_objects h)"
    "extra hp1 h1 = extra hp h"
    using bodies_of_map(3) [OF assms(3)] by blast
  then show ?thesis
    using at_rem_locked assms(2,4) moved_done [of h1 h "Rem k" _ cs' rs] by (auto simp: locked_def)
next
  case (at_look_locked k d cs')
  then have look: "lookup_body k (hp, h) = Some (if the_map h k = None then HI_ERR_NOKEY else SUCCESS, hp, h)"
    using bodies_of_map(1) [OF assms(3)] assms(5) by simp
  show ?thesis
  proof (cases "the_map h k")
    case None
    then have "q = Unlock Mutex (do_rehash_ts (put_prog k d cs' rs))" "hp' = hp" "h' = h"
      using look at_look_locked assms(2) by (auto simp: locked_def after_lookup_def hi_defs)
    then show ?thesis
      using at_look_locked assms(3,4) None by (auto intro: moved_missed stage.intros)
  next
    case (Some v)
    then have "q = Unlock Mutex (client cs' ((HI_ERR_DUPKEY, None) # rs))" "hp' = hp" "h' = h"
      using look at_look_locked assms(2) by (auto simp: locked_def after_lookup_def)
    then show ?thesis
      using at_look_locked assms(3,4) Some moved_done [of h h "Ins k d" _ cs' rs] by auto
  qed
next
  case (at_rehash k d cs')
  then have "q = put_prog k d cs' rs" "hp' = hp" "h' = h"
    using assms(2,3) by (auto simp: do_rehash_ts_def do_rehash_with_def list_on_def)
  then show ?thesis
    using at_rehash assms(3,4,7) by (auto intro: moved_missed stage.intros)
next
  case (at_put k d cs')
  then have "q = Wrlock Mutex (locked Mutex (insert_body k d) (\<lambda>ret. client cs' ((ret, None) # rs)))" "hp' = hp" "h' = h"
    using assms(2) list_on_eng [OF assms(3)]
    by (auto simp: put_prog_def insert_eng_ts_def branch_def lhi_insert_list_ts_def critical_def)
  then show ?thesis
    using at_put assms(3,4,7) by (auto intro: moved_missed stage.intros)
next
  case (at_put_locked k d cs')
  then have "V k" "the_map h k = None" "unat (no_objects h) < max_objects"
    using assms(5,6,7) by auto
  then obtain hp1 h1 where "insert_body k d (hp, h) = Some (SUCCESS, hp1, h1)" "list_on V cmp h1"
    "no_oom hp1" "the_map h1 = (the_map h)(k \<mapsto> d)" "unat (no_objects h1) = unat (no_objects h) + 1"
    "extra hp1 h1 = extra hp h"
    using bodies_of_map(4) [OF assms(3) _ assms(4)] by blast
  then show ?thesis
    using at_put_locked assms(2) \<open>the_map h k = None\<close> moved_done [of h1 h "Ins k d" _ cs' rs]
    by (auto simp: locked_def)
qed

end

section \<open>All threads\<close>

text \<open>No other thread inserts a key that a thread has looked up and not found.\<close>

definition list_good :: "(key \<Rightarrow> bool) \<Rightarrow> cmp_fn \<Rightarrow> int \<Rightarrow> nat \<Rightarrow> shared_table \<Rightarrow> key_map \<Rightarrow> (nat \<Rightarrow> key option) \<Rightarrow>
    (nat \<Rightarrow> cmd list) \<Rightarrow> bool" where
  "list_good V cmp base n s m ann rest \<longleftrightarrow>
     (case s of (hp, h) \<Rightarrow> no_oom hp \<and> list_on V cmp h \<and> the_map h = m \<and> extra hp h = base \<and>
        unat (no_objects h) + (\<Sum>t < n. length (rest t)) \<le> max_objects) \<and>
     (\<forall>t < n. \<forall>c \<in> set (rest t). V (cmd_key c)) \<and>
     (\<forall>t < n. \<forall>k. ann t = Some k \<longrightarrow> m k = None \<and> k \<in> inserted_keys (rest t)) \<and>
     (\<forall>t < n. \<forall>u < n. t \<noteq> u \<longrightarrow> inserted_keys (rest t) \<inter> inserted_keys (rest u) = {})"

lemma inserted_keys_Cons: "inserted_keys (c # cs) = inserted_keys [c] \<union> inserted_keys cs"
  by (auto simp: inserted_keys_def)

lemma stage_inserts: "stage cs rs (Some k) p \<Longrightarrow> k \<in> inserted_keys cs"
  by (erule stage_missing) (auto simp: inserted_keys_def)

lemma miss_kept: "k \<notin> inserted_keys [c] \<Longrightarrow> m k = None \<Longrightarrow> snd (spec_cmd m c) k = None"
  by (cases c) (auto simp: inserted_keys_def)

lemma stage_return:
  assumes "stage cs rs a (Return r)"
  shows "cs = [] \<and> r = rev rs \<and> a = None"
  using assms
proof cases
  case at_client
  then show ?thesis
    using client_return [of cs rs r] by simp
qed (simp_all add: lhi_get_list_ts_def locked_def do_rehash_ts_def put_prog_def insert_eng_ts_def branch_def)

context key_domain
begin

lemma list_good_atomic:
  assumes "t < n" and st: "stage (rest t) rs (ann t) (Atomic f)" and g: "list_good V cmp base n s m ann rest"
    and "f s = Some (s', q)"
  shows "(\<exists>a. stage (rest t) rs a q \<and> list_good V cmp base n s' m (ann(t := a)) rest) \<or>
    (\<exists>c cs a. rest t = c # cs \<and> stage cs (fst (spec_cmd m c) # rs) a q \<and>
       list_good V cmp base n s' (snd (spec_cmd m c)) (ann(t := a)) (rest(t := cs)))"
proof -
  obtain hp h hp' h' where s: "s = (hp, h)" "s' = (hp', h')"
    by (cases s; cases s')
  have inv: "no_oom hp" "list_on V cmp h" "the_map h = m" "extra hp h = base"
    "unat (no_objects h) + (\<Sum>t < n. length (rest t)) \<le> max_objects"
    and V: "\<forall>t < n. \<forall>c \<in> set (rest t). V (cmd_key c)"
    and ann: "\<forall>t < n. \<forall>k. ann t = Some k \<longrightarrow> m k = None \<and> k \<in> inserted_keys (rest t)"
    and own: "\<forall>t < n. \<forall>u < n. t \<noteq> u \<longrightarrow> inserted_keys (rest t) \<inter> inserted_keys (rest u) = {}"
    using g by (simp_all add: list_good_def s)
  have "unat (no_objects h) + length (rest t) \<le> max_objects"
    using inv(5) rest_le [OF assms(1), of rest] by simp
  from stage_atomic [OF st _ inv(2,1) _ this, of hp' h' q]
  have new: "no_oom hp'" "list_on V cmp h'" "extra hp' h' = base" "moved h (rest t) rs h' q"
    using assms(1,4) V ann inv(3,4) by (auto simp: s)
  from new(4) consider a where "h' = h" "stage (rest t) rs a q" "\<forall>k. a = Some k \<longrightarrow> m k = None"
    | c cs where "rest t = c # cs" "the_map h' = snd (spec_cmd m c)" "stage cs (fst (spec_cmd m c) # rs) None q"
      "unat (no_objects h') \<le> unat (no_objects h) + 1"
    unfolding moved_def inv(3) by blast
  then show ?thesis
  proof cases
    case (1 a)
    then have "list_good V cmp base n s' m (ann(t := a)) rest"
      using new(1,3) inv V ann own stage_inserts [of "rest t" rs _ q] by (auto simp: list_good_def s)
    then show ?thesis
      using 1(2) by blast
  next
    case (2 c cs)
    have sub: "inserted_keys ((rest(t := cs)) u) \<subseteq> inserted_keys (rest u)" for u
      using 2(1) inserted_keys_Cons [of c cs] by auto
    have "snd (spec_cmd m c) k = None" if "u < n" "u \<noteq> t" "ann u = Some k" for u k
    proof (rule miss_kept)
      show "m k = None"
        using ann that by blast
      have "inserted_keys [c] \<subseteq> inserted_keys (rest t)"
        using 2(1) inserted_keys_Cons [of c cs] by auto
      then show "k \<notin> inserted_keys [c]"
        using own ann that assms(1) by blast
    qed
    moreover have "\<forall>u < n. \<forall>v < n. u \<noteq> v \<longrightarrow> inserted_keys ((rest(t := cs)) u) \<inter> inserted_keys ((rest(t := cs)) v) = {}"
      using own sub by blast
    moreover have "unat (no_objects h') + (\<Sum>u < n. length ((rest(t := cs)) u)) \<le> max_objects"
      using sum_rest [of t n rest c cs, OF assms(1) 2(1)] 2(4) inv(5) by linarith
    moreover have "\<forall>u < n. \<forall>c \<in> set ((rest(t := cs)) u). V (cmd_key c)"
      using V 2(1) by auto
    ultimately have "list_good V cmp base n s' (snd (spec_cmd m c)) (ann(t := None)) (rest(t := cs))"
      using new(1-3) 2(2) ann unfolding list_good_def s by simp
    then show ?thesis
      using 2(1,3) by blast
  qed
qed

end

sublocale key_domain \<subseteq> list_run: linear_run stage "list_good V cmp base" None for base
proof unfold_locales
  show "stage cs rs None (client cs rs)" for cs rs
    by (rule at_client)
  show "stage cs rs a (Wrlock l p) \<Longrightarrow> stage cs rs a p" "stage cs rs a (Rdlock l p) \<Longrightarrow> stage cs rs a p"
    "stage cs rs a (Unlock l p) \<Longrightarrow> stage cs rs a p" for cs rs a l p
    using stage_lock by blast+
  show "stage cs rs a (Return r) \<Longrightarrow> cs = [] \<and> r = rev rs \<and> a = None" for cs rs a r
    by (rule stage_return)
qed (rule list_good_atomic)

context key_domain
begin

lemma list_clients_linear:
  assumes "list_on V cmp h" and "no_oom hp" and "the_map h = Map.empty" and "no_objects h = 0"
    and "(\<Sum>cs \<leftarrow> css. length cs) \<le> max_objects" and "one_inserter css"
    and "\<forall>cs \<in> set css. \<forall>c \<in> set cs. V (cmd_key c)"
    and "steps (clients (hp, h) css) c" and "finished c"
  shows "\<exists>w. interleaving css w \<and> list_on V cmp (snd (shared c)) \<and>
    the_map (snd (shared c)) = map_after w \<and> extra (fst (shared c)) (snd (shared c)) = live hp \<and>
    threads c = map (\<lambda>t. Return (replies_of t w)) [0 ..< length css]"
proof -
  have "(\<Sum>t < length css. length (css ! t)) \<le> max_objects"
    using assms(5) by (simp add: sum_list_sum_nth atLeast0LessThan)
  then have "list_good V cmp (live hp) (length css) (hp, h) Map.empty (\<lambda>_. None) (\<lambda>t. css ! t)"
    using assms(1-4,6,7) by (auto simp: list_good_def one_inserter_def extra_def)
  from list_run.clients_linear [OF this assms(8,9)] show ?thesis
    by (fastforce simp: list_good_def)
qed

lemma list_on_shape: "list_on V cmp h \<Longrightarrow> list_shape V cmp h"
proof -
  assume h: "list_on V cmp h"
  then have inv: "list_inv V cmp h"
    by (simp add: list_on_def)
  have "V (obj_key b)" if "chain \<in> set (bucket_table h)" "b \<in> set chain" for chain b
  proof -
    have "chain_entries chain \<in> set (list_table h)"
      using that(1) by (simp add: list_table_def)
    then obtain i where "i < length (list_table h)" "chain_entries chain = list_table h ! i"
      unfolding in_set_conv_nth by metis
    moreover have "(obj_key b, obj_data b) \<in> set (chain_entries chain)"
      using that(2) by (auto simp: chain_entries_def)
    moreover have "placed V (slot_of h) (list_table h)"
      using inv by (simp add: list_inv_def handle_ok_def)
    ultimately show ?thesis
      using placedD(2) by metis
  qed
  then show ?thesis
    using h by (auto simp: list_shape_def list_on_def list_inv_def handle_ok_def list_table_def)
qed

end

end
