(* ===== verification/Hi_trees.thy ===== *)
theory Hi_trees
  imports Hi_concurrent Linear
begin

text \<open>
  Threads that insert into and remove from a table of trees. A tree changes under its own lock and
  \<open>no_objects\<close> later under the mutex, so that the counter lags behind the trees; otherwise such
  threads act as the abstract map. Unlike in a table of chains, the test for the key and the
  insertion are one critical section.
\<close>

section \<open>The operations are defined on any well-shaped trees\<close>

text \<open>The invariant of the engine without the counters.\<close>

definition rbtree_shape :: "(key \<Rightarrow> bool) \<Rightarrow> cmp_fn \<Rightarrow> hi_handle \<Rightarrow> bool" where
  "rbtree_shape V cmp h \<longleftrightarrow> hash_func h \<noteq> None \<and> fp_call (key_cmp h) = Some cmp \<and> table_size h \<noteq> 0 \<and>
     length (trees h) = unat (table_size h) \<and> length (bucket_size h) = length (trees h) \<and>
     coll_eng h = COLL_ENG_RBTREE \<and> rehash_auto h = 0 \<and>
     (\<forall>t \<in> set (trees h). rb_ok t \<and> sorted_wrt (\<lambda>a b. cmp_gt cmp (rb_key a) (rb_key b)) (inorder t) \<and>
        (\<forall>e \<in> set (inorder t). V (rb_key e)))"

lemma rbtree_shape_bucket:
  fixes k :: key
  assumes "rbtree_shape V cmp h"
  defines "i \<equiv> slot_of h k"
  shows "hash_bucket h k = Some i" and "i < length (trees h)" and "rd (trees h) i = Some (trees h ! i)"
    and "rd (bucket_size h) i = Some (bucket_size h ! i)" and "rb_ok (trees h ! i)"
    and "sorted_wrt (\<lambda>a b. cmp_gt cmp (rb_key a) (rb_key b)) (inorder (trees h ! i))"
    and "\<forall>e \<in> set (inorder (trees h ! i)). V (rb_key e)"
proof -
  have "i < unat (table_size h)"
    using assms
    by (simp add: rbtree_shape_def slot_of_def word_mod_less_divisor word_less_nat_alt [symmetric] word_gt_0)
  then show "i < length (trees h)" "rd (trees h) i = Some (trees h ! i)"
    "rd (bucket_size h) i = Some (bucket_size h ! i)"
    using assms(1) by (simp_all add: rbtree_shape_def rd_Some)
  then show "hash_bucket h k = Some i" "rb_ok (trees h ! i)"
    "sorted_wrt (\<lambda>a b. cmp_gt cmp (rb_key a) (rb_key b)) (inorder (trees h ! i))"
    "\<forall>e \<in> set (inorder (trees h ! i)). V (rb_key e)"
    using assms by (auto simp: rbtree_shape_def hash_bucket_def slot_of_def)
qed

lemma rbtree_shape_update:
  assumes "rbtree_shape V cmp h" and "i < length (trees h)" and "rb_ok t"
    and "sorted_wrt (\<lambda>a b. cmp_gt cmp (rb_key a) (rb_key b)) (inorder t)" and "\<forall>e \<in> set (inorder t). V (rb_key e)"
  shows "rbtree_shape V cmp (h\<lparr>trees := (trees h)[i := t], bucket_size := (bucket_size h)[i := n]\<rparr>)"
proof -
  have "\<forall>t' \<in> set ((trees h)[i := t]). t' = t \<or> t' \<in> set (trees h)"
    using set_update_subset_insert [of "trees h" i t] by blast
  then show ?thesis
    using assms by (auto simp: rbtree_shape_def)
qed

lemma rbtree_shape_count: "rbtree_shape V cmp (h\<lparr>no_objects := n\<rparr>) = rbtree_shape V cmp h"
  by (simp add: rbtree_shape_def)

context key_order
begin

lemma shape_search:
  assumes "rbtree_shape V cmp h" and "V k"
  obtains t path n where "rb_search h k (trees h ! slot_of h k) [] = Some (t, path)"
    and "inorder (trees h ! slot_of h k) = path_left path @ inorder t @ path_right path"
    and "path_ok n path" and "invc t" and "invh n t" and "rb_is_red t \<longrightarrow> path \<noteq> [] \<and> \<not> red_above path"
    and "t = RB_NULL \<longrightarrow> (\<forall>e \<in> set (path_left path). cmp_gt cmp (rb_key e) k) \<and>
           (\<forall>e \<in> set (path_right path). cmp_gt cmp k (rb_key e))"
proof -
  note bucket = rbtree_shape_bucket [OF assms(1), of k]
  have cmp: "fp_call (key_cmp h) = Some cmp"
    using assms(1) by (simp add: rbtree_shape_def)
  obtain t path where s: "rb_search h k (trees h ! slot_of h k) [] = Some (t, path)"
    "plug t path = trees h ! slot_of h k"
    "case t of RB_NODE c l e r \<Rightarrow> rb_key e = k
     | RB_NULL \<Rightarrow> (\<forall>e \<in> set (path_left path). cmp_gt cmp (rb_key e) k) \<and>
         (\<forall>e \<in> set (path_right path). cmp_gt cmp k (rb_key e))"
    using rb_search_spec [OF cmp assms(2) bucket(7,6), of "[]"] by auto
  obtain n where "path_ok n path" "invc t" "invh n t" "rb_is_red t \<longrightarrow> path \<noteq> [] \<and> \<not> red_above path"
    by (rule unplug_ok [of t path]) (use bucket(5) s(2) in auto)
  then show thesis
    using that [of t path n] s inorder_plug [of t path] by (cases t) auto
qed

lemma tree_insert_defined:
  assumes h: "rbtree_shape V cmp h" and "V k"
  shows "\<exists>ret hp' h'. tree_insert_body k d (hp, h) = Some (ret, hp', h') \<and> rbtree_shape V cmp h'"
proof -
  note bucket = rbtree_shape_bucket [OF h, of k]
  obtain t path n where s: "rb_search h k (trees h ! slot_of h k) [] = Some (t, path)"
    "inorder (trees h ! slot_of h k) = path_left path @ inorder t @ path_right path"
    "path_ok n path" "invc t" "invh n t" "rb_is_red t \<longrightarrow> path \<noteq> [] \<and> \<not> red_above path"
    "t = RB_NULL \<longrightarrow> (\<forall>e \<in> set (path_left path). cmp_gt cmp (rb_key e) k) \<and>
           (\<forall>e \<in> set (path_right path). cmp_gt cmp k (rb_key e))"
    by (rule shape_search [OF h assms(2)])
  show ?thesis
  proof (cases "t = RB_NULL")
    case False
    then show ?thesis
      using bucket(1,3) s(1) h by (simp add: tree_insert_body_def lhi_insert_rbtree_def)
  next
    case True
    show ?thesis
    proof (cases rule: lhi_rb_entry_new_cases [of hp k d])
      case (fail hp')
      then show ?thesis
        using bucket(1,3) s(1) True h by (simp add: tree_insert_body_def lhi_insert_rbtree_def)
    next
      case (ok hp')
      let ?e = "\<lparr>rb_keylen = word_of_nat (length k), rb_key = k, rb_data = d\<rparr>"
      obtain t' where t': "rb_insert_color (RB_NODE RB_RED RB_NULL ?e RB_NULL) path = Some t'" "rb_ok t'"
        "inorder t' = path_left path @ ?e # path_right path"
        using rb_insert_color_ok [of n path "RB_NODE RB_RED RB_NULL ?e RB_NULL"] s(3,5) True
        by (auto simp: inorder_plug)
      have "sorted_wrt (\<lambda>a b. cmp_gt cmp (rb_key a) (rb_key b)) (inorder t')"
        using bucket(6) s(2) s(7) True by (auto simp: t'(3) sorted_wrt_append)
      moreover have "\<forall>e \<in> set (inorder t'). V (rb_key e)"
        using bucket(7) s(2) True assms(2) by (auto simp: t'(3))
      ultimately show ?thesis
        using bucket(1,3,4) s(1) True ok(1) t'(1)
          rbtree_shape_update [OF h bucket(2) t'(2), of "bucket_size h ! slot_of h k + 1"]
        by (simp add: tree_insert_body_def lhi_insert_rbtree_def)
    qed
  qed
qed

lemma tree_remove_defined:
  assumes h: "rbtree_shape V cmp h" and "V k"
  shows "\<exists>r hp' h'. tree_remove_body k (hp, h) = Some (r, hp', h') \<and> rbtree_shape V cmp h'"
proof -
  note bucket = rbtree_shape_bucket [OF h, of k]
  obtain t path n where s: "rb_search h k (trees h ! slot_of h k) [] = Some (t, path)"
    "inorder (trees h ! slot_of h k) = path_left path @ inorder t @ path_right path"
    "path_ok n path" "invc t" "invh n t" "rb_is_red t \<longrightarrow> path \<noteq> [] \<and> \<not> red_above path"
    "t = RB_NULL \<longrightarrow> (\<forall>e \<in> set (path_left path). cmp_gt cmp (rb_key e) k) \<and>
           (\<forall>e \<in> set (path_right path). cmp_gt cmp k (rb_key e))"
    by (rule shape_search [OF h assms(2)])
  show ?thesis
  proof (cases t)
    case RB_NULL
    then show ?thesis
      using bucket(1,3) s(1) h by (simp add: tree_remove_body_def lhi_remove_rbtree_def)
  next
    case (RB_NODE c l e r)
    have "rb_ok (plug t path)"
      by (rule plug_ok [OF s(3-5)]) (use s(6) in simp)
    then obtain t' where t': "rb_erase (RB_NODE c l e r) path = Some t'" "rb_ok t'"
      "inorder t' = path_left path @ inorder l @ inorder r @ path_right path"
      using rb_erase_ok [of c l e r path] RB_NODE by auto
    have "sorted_wrt (\<lambda>a b. cmp_gt cmp (rb_key a) (rb_key b)) (inorder t')"
      using bucket(6) s(2) RB_NODE by (auto simp: t'(3) sorted_wrt_append)
    moreover have "\<forall>e \<in> set (inorder t'). V (rb_key e)"
      using bucket(7) s(2) RB_NODE by (auto simp: t'(3))
    ultimately show ?thesis
      using bucket(1,3,4) s(1) RB_NODE t'(1)
        rbtree_shape_update [OF h bucket(2) t'(2), of "bucket_size h ! slot_of h k - 1"]
      by (simp add: tree_remove_body_def lhi_remove_rbtree_def)
  qed
qed

end

section \<open>Writers follow the lock discipline\<close>

text \<open>A thread that only inserts and removes.\<close>

definition writes :: "cmd list \<Rightarrow> bool" where
  "writes cs \<longleftrightarrow> (\<forall>c \<in> set cs. \<forall>k. c \<noteq> Get k)"

definition tree_Q :: "(key \<Rightarrow> bool) \<Rightarrow> cmp_fn \<Rightarrow> shared_table \<Rightarrow> bool" where
  "tree_Q V cmp = (\<lambda>(hp, h). rbtree_shape V cmp h)"

lemma tree_Q_simps: "tree_Q V cmp (hp, h) \<longleftrightarrow> rbtree_shape V cmp h"
  by (simp add: tree_Q_def)

lemma rbtree_shape_eng: "rbtree_shape V cmp h \<Longrightarrow> coll_eng h = COLL_ENG_RBTREE \<and> rehash_auto h = 0"
  by (simp add: rbtree_shape_def)

lemma count_disciplined:
  assumes "disciplined (tree_Q V cmp) None p"
  shows "disciplined (tree_Q V cmp) None (critical Mutex (count_body f) (\<lambda>_. p))"
  using assms
  by (intro disciplined_critical) (auto simp: count_body_def tree_Q_def rbtree_shape_count)

context key_order
begin

lemma tree_cmd_disciplined:
  assumes "V (cmd_key c)" and "writes [c]" and k: "\<And>r. disciplined (tree_Q V cmp) None (k r)"
  shows "disciplined (tree_Q V cmp) None (cmd_ts c k)"
proof (cases c)
  case (Ins key d)
  then have V: "V key"
    using assms(1) by simp
  have "disciplined (tree_Q V cmp) None (critical (Rwlock i) (tree_insert_body key d) (\<lambda>ret.
      if ret = SUCCESS then critical Mutex (count_body (\<lambda>n. n + 1)) (\<lambda>_. k (ret, None)) else k (ret, None)))" for i
  proof (rule disciplined_critical)
    show "\<exists>x s'. tree_insert_body key d s = Some (x, s') \<and> tree_Q V cmp s'" if "tree_Q V cmp s" for s
      using tree_insert_defined [of "snd s" key d "fst s"] that V by (auto simp: tree_Q_def case_prod_unfold)
  qed (auto intro!: count_disciplined k)
  then have "disciplined (tree_Q V cmp) None (lhi_insert_rbtree_ts key d (\<lambda>ret. k (ret, None)))"
    using rbtree_shape_bucket(1) by (auto simp: lhi_insert_rbtree_ts_def tree_Q_def)
  then have "disciplined (tree_Q V cmp) None (insert_eng_ts key d (\<lambda>ret. k (ret, None)))"
    unfolding insert_eng_ts_def by (intro disciplined_branch) (simp add: tree_Q_simps rbtree_shape_eng)
  then have "disciplined (tree_Q V cmp) None (do_rehash_ts (insert_eng_ts key d (\<lambda>ret. k (ret, None))))"
    by (simp add: do_rehash_ts_def tree_Q_def do_rehash_with_def rbtree_shape_def)
  then show ?thesis
    unfolding Ins cmd_ts.simps hi_insert_ts_def hi_lookup_ts_def
    by (intro disciplined_branch) (simp add: tree_Q_simps rbtree_shape_eng hi_defs)
next
  case (Get key)
  then show ?thesis
    using assms(2) by (simp add: writes_def)
next
  case (Rem key)
  then have V: "V key"
    using assms(1) by simp
  have "disciplined (tree_Q V cmp) None (critical (Rwlock i) (tree_remove_body key) (\<lambda>r.
      if fst r = SUCCESS then critical Mutex (count_body (\<lambda>n. n - 1)) (\<lambda>_. k r) else k r))" for i
  proof (rule disciplined_critical)
    show "\<exists>x s'. tree_remove_body key s = Some (x, s') \<and> tree_Q V cmp s'" if "tree_Q V cmp s" for s
      using tree_remove_defined [of "snd s" key "fst s"] that V by (auto simp: tree_Q_def case_prod_unfold)
  qed (auto intro!: count_disciplined k)
  then have "disciplined (tree_Q V cmp) None (lhi_remove_rbtree_ts key k)"
    using rbtree_shape_bucket(1) by (auto simp: lhi_remove_rbtree_ts_def tree_Q_def)
  then show ?thesis
    unfolding Rem cmd_ts.simps hi_remove_ts_def
    by (intro disciplined_branch) (simp add: tree_Q_simps rbtree_shape_eng)
qed

lemma tree_client_disciplined:
  "\<forall>c \<in> set cs. V (cmd_key c) \<Longrightarrow> writes cs \<Longrightarrow> disciplined (tree_Q V cmp) None (client cs rs)"
  by (induction cs arbitrary: rs) (auto simp: writes_def intro: tree_cmd_disciplined)

lemma tree_clients_safe:
  assumes "rbtree_shape V cmp h" and "\<forall>cs \<in> set css. writes cs \<and> (\<forall>c \<in> set cs. V (cmd_key c))"
    and "steps (clients (hp, h) css) c"
  shows "\<not> undefined_at t c" and "\<not> stuck c" and "\<exists>c'. steps c c' \<and> finished c'"
    and "finished c \<Longrightarrow> resume c qs = start (shared c) qs"
  using disciplined_clients [of "tree_Q V cmp" "(hp, h)" css c] assms tree_client_disciplined
  by (simp_all add: tree_Q_simps)

end

end
