(* ===== verification/Hi_writers.thy ===== *)
theory Hi_writers
  imports Hi_trees
begin

text \<open>
  Threads that insert into and remove from a table of trees act as the abstract map, without any
  condition on the keys; when all have returned, the counter is exact again.
\<close>

section \<open>The critical sections against the map\<close>

abbreviation tree_map :: "hi_handle \<Rightarrow> key_map" where
  "tree_map h \<equiv> map_of_table (rbtree_table h)"

text \<open>The invariant of the engine, with the number of entries in place of the counter.\<close>

definition tree_on :: "(key \<Rightarrow> bool) \<Rightarrow> cmp_fn \<Rightarrow> u32 \<Rightarrow> hi_handle \<Rightarrow> bool" where
  "tree_on V cmp n h \<longleftrightarrow> rbtree_inv V cmp (h\<lparr>no_objects := n\<rparr>) \<and> rehash_auto h = 0"

text \<open>The blocks in use besides the two of each of \<open>n\<close> entries.\<close>

definition extra_of :: "heap \<Rightarrow> u32 \<Rightarrow> int" where
  "extra_of hp n = live hp - 2 * int (unat n)"

lemma rbtree_table_count: "rbtree_table (h\<lparr>no_objects := n\<rparr>) = rbtree_table h"
  by (simp add: rbtree_table_def)

lemma rb_search_count: "rb_search (h\<lparr>no_objects := n\<rparr>) k t path = rb_search h k t path"
proof (induction t arbitrary: path)
  case (RB_NODE c l e r)
  then show ?case
    by (simp cong: if_cong)
qed simp

lemma hash_bucket_count: "hash_bucket (h\<lparr>no_objects := n\<rparr>) k = hash_bucket h k"
  by (simp add: hash_bucket_def cong: if_cong)

lemma insert_count:
  assumes "lhi_insert_rbtree hp (h\<lparr>no_objects := n\<rparr>) k d = Some (ret, hp', h')"
  shows "tree_insert_body k d (hp, h) = Some (ret, hp', h'\<lparr>no_objects := no_objects h\<rparr>)"
proof -
  note ins = assms [unfolded lhi_insert_rbtree_def rb_search_count hash_bucket_count]
  obtain tree where 1: "hash_bucket h k = Some tree"
    using ins by (cases "hash_bucket h k") simp_all
  obtain root where 2: "rd (trees h) tree = Some root"
    using ins 1 by (cases "rd (trees h) tree") simp_all
  obtain node path where 3: "rb_search h k root [] = Some (node, path)"
    using ins 1 2 by (cases "rb_search h k root []") auto
  obtain new hp1 where 4: "lhi_rb_entry_new hp k d = (new, hp1)"
    by (cases "lhi_rb_entry_new hp k d")
  show ?thesis
  proof (cases "node = RB_NULL \<and> new \<noteq> None")
    case True
    then obtain e where e: "new = Some e"
      by blast
    obtain root' where 5: "rb_insert_color (RB_NODE RB_RED RB_NULL e RB_NULL) path = Some root'"
      using ins 1 2 3 4 True e by (cases "rb_insert_color (RB_NODE RB_RED RB_NULL e RB_NULL) path") simp_all
    obtain m where 6: "rd (bucket_size h) tree = Some m"
      using ins 1 2 3 4 5 True e by (cases "rd (bucket_size h) tree") simp_all
    show ?thesis
      using ins 1 2 3 4 5 6 True e by (auto simp: tree_insert_body_def lhi_insert_rbtree_def)
  next
    case False
    then show ?thesis
      using ins 1 2 3 4 by (cases new) (auto simp: tree_insert_body_def lhi_insert_rbtree_def)
  qed
qed

lemma remove_count:
  assumes "lhi_remove_rbtree hp (h\<lparr>no_objects := n\<rparr>) k = Some (ret, d, hp', h')"
  shows "tree_remove_body k (hp, h) = Some ((ret, d), hp', h'\<lparr>no_objects := no_objects h\<rparr>)"
proof -
  note rem = assms [unfolded lhi_remove_rbtree_def rb_search_count hash_bucket_count]
  obtain tree where 1: "hash_bucket h k = Some tree"
    using rem by (cases "hash_bucket h k") simp_all
  obtain root where 2: "rd (trees h) tree = Some root"
    using rem 1 by (cases "rd (trees h) tree") simp_all
  obtain node path where 3: "rb_search h k root [] = Some (node, path)"
    using rem 1 2 by (cases "rb_search h k root []") auto
  show ?thesis
  proof (cases node)
    case RB_NULL
    then show ?thesis
      using rem 1 2 3 by (auto simp: tree_remove_body_def lhi_remove_rbtree_def)
  next
    case (RB_NODE c l e r)
    obtain root' where 5: "rb_erase (RB_NODE c l e r) path = Some root'"
      using rem 1 2 3 RB_NODE by (cases "rb_erase (RB_NODE c l e r) path") simp_all
    obtain m where 6: "rd (bucket_size h) tree = Some m"
      using rem 1 2 3 5 RB_NODE by (cases "rd (bucket_size h) tree") simp_all
    show ?thesis
      using rem 1 2 3 5 6 RB_NODE by (auto simp: tree_remove_body_def lhi_remove_rbtree_def)
  qed
qed

context key_order
begin

lemma tree_insert_map:
  assumes "tree_on V cmp n h" and "V k" and "no_oom hp" and "unat n < max_objects"
  shows "\<exists>hp' h'. tree_insert_body k d (hp, h) =
      Some (if tree_map h k = None then SUCCESS else HI_ERR_DUPKEY, hp', h') \<and> no_oom hp' \<and>
    no_objects h' = no_objects h \<and> table_size h' = table_size h \<and>
    tree_map h' = snd (spec_cmd (tree_map h) (Ins k d)) \<and>
    tree_on V cmp (if tree_map h k = None then n + 1 else n) h' \<and>
    extra_of hp' (if tree_map h k = None then n + 1 else n) = extra_of hp n"
proof -
  let ?h = "h\<lparr>no_objects := n\<rparr>"
  have inv: "rbtree_inv V cmp ?h" "rehash_auto h = 0"
    using assms(1) by (simp_all add: tree_on_def)
  show ?thesis
  proof (cases "tree_map h k")
    case None
    then have "map_of_table (rbtree_table ?h) k = None" "unat (no_objects ?h) < max_objects"
      using assms(4) by (simp_all add: rbtree_table_count)
    from rbtree_insert_fresh [OF inv(1) assms(2,3) this, of d]
    obtain hp' h' where h': "lhi_insert_rbtree hp ?h k d = Some (SUCCESS, hp', h')" "no_oom hp'" "live hp' = live hp + 2"
      "rbtree_inv V cmp h'" "same_settings ?h h'" "tree_map h' = (tree_map h)(k \<mapsto> d)" "no_objects h' = n + 1"
      by (auto simp: rbtree_table_count)
    have "h' = h'\<lparr>no_objects := n + 1\<rparr>"
      using h'(7) by simp
    moreover have "unat (n + 1) = unat n + 1"
      using assms(4) by (simp add: unat_plus_one_u32 max_objects_def)
    then have "extra_of hp' (n + 1) = extra_of hp n"
      using h'(3) unfolding extra_of_def by linarith
    ultimately show ?thesis
      using insert_count [OF h'(1)] h'(2,4-6) inv(2) None
      by (auto simp: tree_on_def rbtree_table_count same_settings_def)
  next
    case (Some v)
    then have "lhi_insert_rbtree hp ?h k d = Some (HI_ERR_DUPKEY, hp, ?h)"
      using rbtree_insert_dup [OF inv(1) assms(2), of v] by (simp add: rbtree_table_count)
    from insert_count [OF this] show ?thesis
      using assms(1,3) Some by simp
  qed
qed

lemma tree_remove_map:
  assumes "tree_on V cmp n h" and "V k" and "no_oom hp"
  shows "\<exists>hp' h'. tree_remove_body k (hp, h) = Some (fst (spec_cmd (tree_map h) (Rem k)), hp', h') \<and> no_oom hp' \<and>
    no_objects h' = no_objects h \<and> table_size h' = table_size h \<and>
    tree_map h' = snd (spec_cmd (tree_map h) (Rem k)) \<and>
    tree_on V cmp (if tree_map h k = None then n else n - 1) h' \<and>
    extra_of hp' (if tree_map h k = None then n else n - 1) = extra_of hp n \<and>
    (tree_map h k \<noteq> None \<longrightarrow> n \<noteq> 0)"
proof -
  let ?h = "h\<lparr>no_objects := n\<rparr>"
  have inv: "rbtree_inv V cmp ?h" "rehash_auto h = 0"
    using assms(1) by (simp_all add: tree_on_def)
  show ?thesis
  proof (cases "tree_map h k")
    case None
    then have "lhi_remove_rbtree hp ?h k = Some (HI_ERR_NOKEY, None, hp, ?h)"
      using rbtree_remove_missing [OF inv(1) assms(2)] by (simp add: rbtree_table_count)
    from remove_count [OF this] show ?thesis
      using assms(1,3) None by (simp add: fun_upd_idem)
  next
    case (Some v)
    then have found: "map_of_table (rbtree_table ?h) k = Some v"
      by (simp add: rbtree_table_count)
    from rbtree_remove_found [OF inv(1) assms(2) this, of hp]
    obtain hp' h' where h': "lhi_remove_rbtree hp ?h k = Some (SUCCESS, Some v, hp', h')" "no_oom hp' = no_oom hp"
      "live hp' = live hp - 2"
      "rbtree_inv V cmp h'" "same_settings ?h h'" "tree_map h' = (tree_map h)(k := None)" "no_objects h' = n - 1"
      by (auto simp: rbtree_table_count)
    have "h' = h'\<lparr>no_objects := n - 1\<rparr>"
      using h'(7) by simp
    moreover have n: "unat n \<noteq> 0"
      using rbtree_table.abs_map_size [OF inv(1)] found by (auto simp: rbtree_table.abs_map_def)
    moreover have "unat (n - 1) + 1 = unat n"
      using n by (simp add: unat_minus_one_u32 unat_eq_0 unat_gt_0)
    then have "extra_of hp' (n - 1) = extra_of hp n"
      using h'(3) unfolding extra_of_def by linarith
    ultimately show ?thesis
      using remove_count [OF h'(1)] h'(2,4-6) inv(2) Some assms(3)
      by (auto simp: tree_on_def rbtree_table_count same_settings_def)
  qed
qed

end

section \<open>Where a thread is\<close>

text \<open>
  The annotation is what the thread has yet to add to \<open>no_objects\<close>: 1 after an insertion, -1 after a
  removal, until it has taken the mutex.
\<close>

definition ins_rest :: "cmd list \<Rightarrow> reply list \<Rightarrow> int \<Rightarrow> reply list table_prog" where
  "ins_rest cs rs = (\<lambda>ret. if ret = SUCCESS
     then critical Mutex (count_body (\<lambda>n. n + 1)) (\<lambda>_. client cs ((ret, None) # rs))
     else client cs ((ret, None) # rs))"

definition rem_rest :: "cmd list \<Rightarrow> reply list \<Rightarrow> reply \<Rightarrow> reply list table_prog" where
  "rem_rest cs rs = (\<lambda>r. if fst r = SUCCESS
     then critical Mutex (count_body (\<lambda>n. n - 1)) (\<lambda>_. client cs (r # rs)) else client cs (r # rs))"

definition adds :: "(u32 \<Rightarrow> u32) \<Rightarrow> u32 \<Rightarrow> bool" where
  "adds f a \<longleftrightarrow> (\<forall>n. f n = n + a)"

inductive writer_stage :: "cmd list \<Rightarrow> reply list \<Rightarrow> u32 \<Rightarrow> reply list table_prog \<Rightarrow> bool" where
  w_client: "writer_stage cs rs 0 (client cs rs)"
| w_unlock: "writer_stage cs rs 0 (Unlock l (client cs rs))"
| w_rehash: "writer_stage (Ins k d # cs) rs 0 (do_rehash_ts (insert_eng_ts k d (\<lambda>ret. client cs ((ret, None) # rs))))"
| w_engine: "writer_stage (Ins k d # cs) rs 0 (insert_eng_ts k d (\<lambda>ret. client cs ((ret, None) # rs)))"
| w_insert: "writer_stage (Ins k d # cs) rs 0 (lhi_insert_rbtree_ts k d (\<lambda>ret. client cs ((ret, None) # rs)))"
| w_ins_lock: "writer_stage (Ins k d # cs) rs 0 (Wrlock l (locked l (tree_insert_body k d) (ins_rest cs rs)))"
| w_ins_locked: "writer_stage (Ins k d # cs) rs 0 (locked l (tree_insert_body k d) (ins_rest cs rs))"
| w_remove: "writer_stage (Rem k # cs) rs 0 (lhi_remove_rbtree_ts k (\<lambda>r. client cs (r # rs)))"
| w_rem_lock: "writer_stage (Rem k # cs) rs 0 (Wrlock l (locked l (tree_remove_body k) (rem_rest cs rs)))"
| w_rem_locked: "writer_stage (Rem k # cs) rs 0 (locked l (tree_remove_body k) (rem_rest cs rs))"
| w_changed: "adds f a \<Longrightarrow> writer_stage cs rs a
    (Unlock l (Wrlock Mutex (locked Mutex (count_body f) (\<lambda>_. client cs rs))))"
| w_count_lock: "adds f a \<Longrightarrow> writer_stage cs rs a (Wrlock Mutex (locked Mutex (count_body f) (\<lambda>_. client cs rs)))"
| w_counting: "adds f a \<Longrightarrow> writer_stage cs rs a (locked Mutex (count_body f) (\<lambda>_. client cs rs))"

lemma writer_not_lock:
  "locked l' body K \<noteq> Wrlock l q \<and> locked l' body K \<noteq> Rdlock l q \<and> locked l' body K \<noteq> Unlock l q"
  "do_rehash_ts P \<noteq> Wrlock l q \<and> do_rehash_ts P \<noteq> Rdlock l q \<and> do_rehash_ts P \<noteq> Unlock l q"
  "insert_eng_ts k d K' \<noteq> Wrlock l q \<and> insert_eng_ts k d K' \<noteq> Rdlock l q \<and> insert_eng_ts k d K' \<noteq> Unlock l q"
  "lhi_insert_rbtree_ts k d K' \<noteq> Wrlock l q \<and> lhi_insert_rbtree_ts k d K' \<noteq> Rdlock l q \<and>
    lhi_insert_rbtree_ts k d K' \<noteq> Unlock l q"
  "lhi_remove_rbtree_ts k K'' \<noteq> Wrlock l q \<and> lhi_remove_rbtree_ts k K'' \<noteq> Rdlock l q \<and>
    lhi_remove_rbtree_ts k K'' \<noteq> Unlock l q"
  by (simp_all add: locked_def do_rehash_ts_def insert_eng_ts_def branch_def lhi_insert_rbtree_ts_def
      lhi_remove_rbtree_ts_def)

lemma writer_lock:
  assumes "writer_stage cs rs a p"
  shows "p = Wrlock l q \<Longrightarrow> writer_stage cs rs a q" and "p = Unlock l q \<Longrightarrow> writer_stage cs rs a q"
    and "p \<noteq> Rdlock l q"
  using assms
  by (induction rule: writer_stage.induct)
    (auto simp: client_not_lock writer_not_lock intro: writer_stage.intros)

lemma writer_return:
  assumes "writer_stage cs rs a (Return r)"
  shows "cs = [] \<and> r = rev rs \<and> a = 0"
  using assms
proof cases
  case w_client
  then show ?thesis
    using client_return [of cs rs r] by simp
qed (simp_all add: locked_def do_rehash_ts_def insert_eng_ts_def branch_def lhi_insert_rbtree_ts_def lhi_remove_rbtree_ts_def)

context key_order
begin

lemma writer_client_atomic:
  assumes "client cs rs = Atomic f" and "f (hp, h) = Some ((hp', h'), q)" and "coll_eng h = COLL_ENG_RBTREE"
    and "writes cs"
  shows "hp' = hp \<and> h' = h \<and> writer_stage cs rs 0 q"
proof (cases cs)
  case (Cons c cs')
  show ?thesis
  proof (cases c)
    case (Ins k d)
    then have "q = do_rehash_ts (insert_eng_ts k d (\<lambda>ret. client cs' ((ret, None) # rs)))" "hp' = hp" "h' = h"
      using assms(1-3) Cons by (auto simp: hi_insert_ts_def hi_lookup_ts_def branch_def hi_defs)
    then show ?thesis
      using Cons Ins by (simp add: w_rehash)
  next
    case (Get k)
    then show ?thesis
      using assms(4) Cons by (simp add: writes_def)
  next
    case (Rem k)
    then have "q = lhi_remove_rbtree_ts k (\<lambda>r. client cs' (r # rs))" "hp' = hp" "h' = h"
      using assms(1-3) Cons by (auto simp: hi_remove_ts_def branch_def)
    then show ?thesis
      using Cons Rem by (simp add: w_remove)
  qed
qed (use assms(1) in simp)

text \<open>
  One atomic step of a thread. \<open>S\<close> is what the other threads have yet to add to the counter, and
  \<open>no_objects h + a + S\<close> is the number of entries.
\<close>

lemma writer_atomic:
  assumes st: "writer_stage cs rs a (Atomic f)" and f: "f (hp, h) = Some ((hp', h'), q)" and "no_oom hp"
    and on: "tree_on V cmp (no_objects h + a + S) h" and V: "\<forall>c \<in> set cs. V (cmd_key c)" and w: "writes cs"
    and room: "unat (no_objects h + a + S) + length cs \<le> max_objects"
  shows "no_oom hp' \<and> table_size h' = table_size h \<and>
    ((\<exists>a'. writer_stage cs rs a' q \<and> tree_on V cmp (no_objects h' + a' + S) h' \<and> tree_map h' = tree_map h \<and>
       no_objects h' + a' = no_objects h + a \<and> live hp' = live hp) \<or>
     (\<exists>c cs' a'. cs = c # cs' \<and> writer_stage cs' (fst (spec_cmd (tree_map h) c) # rs) a' q \<and>
       tree_on V cmp (no_objects h' + a' + S) h' \<and> tree_map h' = snd (spec_cmd (tree_map h) c) \<and>
       extra_of hp' (no_objects h' + a' + S) = extra_of hp (no_objects h + a + S) \<and>
       unat (no_objects h' + a' + S) \<le> unat (no_objects h + a + S) + 1))"
    (is "_ \<and> _ \<and> (?stay \<or> ?done)")
proof -
  let ?N = "no_objects h + a + S"
  have eng: "coll_eng h = COLL_ENG_RBTREE" "rehash_auto h = 0"
    using on by (simp_all add: tree_on_def rbtree_inv_def)
  have bucket: "hash_bucket h k = Some (slot_of h k)" for k
    using on rbtree_inv_bucket(1) [of "h\<lparr>no_objects := ?N\<rparr>" k]
    by (simp add: tree_on_def hash_bucket_count slot_of_def)
  have stay: "no_oom hp' \<and> table_size h' = table_size h \<and> (?stay \<or> ?done)" if "hp' = hp" "h' = h" "writer_stage cs rs a q"
    using that assms(3) on by blast
  from st show ?thesis
  proof cases
    case w_client
    then have "client cs rs = Atomic f"
      by simp
    from writer_client_atomic [OF this f eng(1) w] show ?thesis
      using stay w_client by simp
  next
    case (w_rehash k d cs')
    then have "hp' = hp" "h' = h" "q = insert_eng_ts k d (\<lambda>ret. client cs' ((ret, None) # rs))"
      using f eng by (auto simp: do_rehash_ts_def do_rehash_with_def)
    then show ?thesis
      using stay w_rehash by (simp add: w_engine)
  next
    case (w_engine k d cs')
    then have "hp' = hp" "h' = h" "q = lhi_insert_rbtree_ts k d (\<lambda>ret. client cs' ((ret, None) # rs))"
      using f eng by (auto simp: insert_eng_ts_def branch_def)
    then show ?thesis
      using stay w_engine by (simp add: w_insert)
  next
    case (w_insert k d cs')
    then have "hp' = hp" "h' = h"
      "q = Wrlock (Rwlock (slot_of h k)) (locked (Rwlock (slot_of h k)) (tree_insert_body k d) (ins_rest cs' rs))"
      using f bucket by (auto simp: lhi_insert_rbtree_ts_def critical_def ins_rest_def)
    then show ?thesis
      using stay w_insert by (simp add: w_ins_lock)
  next
    case (w_remove k cs')
    then have "hp' = hp" "h' = h"
      "q = Wrlock (Rwlock (slot_of h k)) (locked (Rwlock (slot_of h k)) (tree_remove_body k) (rem_rest cs' rs))"
      using f bucket by (auto simp: lhi_remove_rbtree_ts_def critical_def rem_rest_def)
    then show ?thesis
      using stay w_remove by (simp add: w_rem_lock)
  next
    case (w_ins_locked k d cs' l)
    have "V k" "unat ?N < max_objects"
      using V room w_ins_locked by simp_all
    then obtain hp1 h1 where b: "tree_insert_body k d (hp, h) =
        Some (if tree_map h k = None then SUCCESS else HI_ERR_DUPKEY, hp1, h1)" "no_oom hp1"
      "no_objects h1 = no_objects h" "table_size h1 = table_size h" "tree_map h1 = snd (spec_cmd (tree_map h) (Ins k d))"
      "tree_on V cmp (if tree_map h k = None then ?N + 1 else ?N) h1"
      "extra_of hp1 (if tree_map h k = None then ?N + 1 else ?N) = extra_of hp ?N"
      using tree_insert_map [OF on _ assms(3)] by blast
    have n: "unat (?N + 1) = unat ?N + 1"
      using room w_ins_locked by (simp add: unat_plus_one_u32 max_objects_def)
    show ?thesis
    proof (cases "tree_map h k")
      case None
      have new: "hp' = hp1" "h' = h1"
        "q = Unlock l (Wrlock Mutex (locked Mutex (count_body (\<lambda>n. n + 1)) (\<lambda>_. client cs' ((SUCCESS, None) # rs))))"
        using f b(1) w_ins_locked None by (auto simp: locked_def [of l] ins_rest_def critical_def)
      have "writer_stage cs' ((SUCCESS, None) # rs) 1 q"
        unfolding new(3) by (rule w_changed) (simp add: adds_def)
      moreover have N: "no_objects h1 + 1 + S = ?N + 1"
        using w_ins_locked by (simp add: b(3))
      ultimately have ?done
        using w_ins_locked None b(5-7) n new(1,2) unfolding N
        by (intro exI [of _ "Ins k d"] exI [of _ cs'] exI [of _ 1]) (simp add: N)
      then show ?thesis
        using b(2,4) new(1,2) by simp
    next
      case (Some v)
      have new: "hp' = hp1" "h' = h1" "q = Unlock l (client cs' ((HI_ERR_DUPKEY, None) # rs))"
        using f b(1) w_ins_locked Some by (auto simp: locked_def [of l] ins_rest_def hi_defs)
      have ?done
        using w_ins_locked Some b(3,5-7) new w_unlock
        by (intro exI [of _ "Ins k d"] exI [of _ cs'] exI [of _ 0]) simp
      then show ?thesis
        using b(2,4) new(1,2) by simp
    qed
  next
    case (w_rem_locked k cs' l)
    have "V k"
      using V w_rem_locked by simp
    then obtain hp1 h1 where b: "tree_remove_body k (hp, h) = Some (fst (spec_cmd (tree_map h) (Rem k)), hp1, h1)"
      "no_oom hp1" "no_objects h1 = no_objects h" "table_size h1 = table_size h" "tree_map h1 = snd (spec_cmd (tree_map h) (Rem k))"
      "tree_on V cmp (if tree_map h k = None then ?N else ?N - 1) h1" "tree_map h k \<noteq> None \<longrightarrow> ?N \<noteq> 0"
      "extra_of hp1 (if tree_map h k = None then ?N else ?N - 1) = extra_of hp ?N"
      using tree_remove_map [OF on _ assms(3)] by blast
    show ?thesis
    proof (cases "tree_map h k")
      case None
      have new: "hp' = hp1" "h' = h1" "q = Unlock l (client cs' ((HI_ERR_NOKEY, None) # rs))"
        using f b(1) w_rem_locked None by (auto simp: locked_def [of l] rem_rest_def hi_defs)
      have ?done
        using w_rem_locked None b(3,5,6,8) new w_unlock
        by (intro exI [of _ "Rem k"] exI [of _ cs'] exI [of _ 0]) simp
      then show ?thesis
        using b(2,4) new(1,2) by simp
    next
      case (Some v)
      have new: "hp' = hp1" "h' = h1"
        "q = Unlock l (Wrlock Mutex (locked Mutex (count_body (\<lambda>n. n - 1)) (\<lambda>_. client cs' ((SUCCESS, Some v) # rs))))"
        using f b(1) w_rem_locked Some by (auto simp: locked_def [of l] rem_rest_def critical_def)
      have "writer_stage cs' ((SUCCESS, Some v) # rs) (- 1) q"
        unfolding new(3) by (rule w_changed) (simp add: adds_def)
      moreover have N: "no_objects h - 1 + S = no_objects h + S - 1"
        by (simp add: algebra_simps)
      moreover have "unat (?N - 1) \<le> unat ?N + 1"
        using b(7) Some by (simp add: unat_minus_one_u32)
      ultimately have ?done
        using w_rem_locked Some b(3,5,6,8) new(1,2)
        by (intro exI [of _ "Rem k"] exI [of _ cs'] exI [of _ "- 1"]) (simp add: N)
      then show ?thesis
        using b(2,4) new(1,2) by simp
    qed
  next
    case (w_counting g)
    then have "hp' = hp" "h' = h\<lparr>no_objects := no_objects h + a\<rparr>" "q = Unlock Mutex (client cs rs)"
      using f by (auto simp: locked_def count_body_def adds_def)
    then show ?thesis
      using assms(3) on by (auto simp: tree_on_def rbtree_table_count intro: w_unlock)
  qed
qed

end

section \<open>All threads\<close>

text \<open>The counter and what the threads have yet to add to it are the number of entries.\<close>

definition tree_good :: "(key \<Rightarrow> bool) \<Rightarrow> cmp_fn \<Rightarrow> u32 \<Rightarrow> int \<Rightarrow> nat \<Rightarrow> shared_table \<Rightarrow> key_map \<Rightarrow> (nat \<Rightarrow> u32) \<Rightarrow>
    (nat \<Rightarrow> cmd list) \<Rightarrow> bool" where
  "tree_good V cmp tsize base n s m ann rest \<longleftrightarrow>
     (case s of (hp, h) \<Rightarrow> no_oom hp \<and> tree_on V cmp (no_objects h + (\<Sum>t < n. ann t)) h \<and> tree_map h = m \<and> table_size h = tsize \<and>
        extra_of hp (no_objects h + (\<Sum>t < n. ann t)) = base \<and>
        unat (no_objects h + (\<Sum>t < n. ann t)) + (\<Sum>t < n. length (rest t)) \<le> max_objects) \<and>
     (\<forall>t < n. writes (rest t) \<and> (\<forall>c \<in> set (rest t). V (cmd_key c)))"

lemma sum_split:
  fixes ann :: "nat \<Rightarrow> u32"
  assumes "t < n"
  obtains S where "(\<Sum>u < n. ann u) = ann t + S" and "\<forall>a. (\<Sum>u < n. (ann(t := a)) u) = a + S"
proof
  have t: "t \<in> {..<n}"
    using assms by simp
  show "(\<Sum>u < n. ann u) = ann t + (\<Sum>u \<in> {..<n} - {t}. ann u)"
    by (rule sum.remove [OF _ t]) simp
  show "\<forall>a. (\<Sum>u < n. (ann(t := a)) u) = a + (\<Sum>u \<in> {..<n} - {t}. ann u)"
    by (subst sum.remove [OF _ t]) (auto intro: sum.cong)
qed

context key_order
begin

lemma tree_good_atomic:
  assumes t: "t < n" and st: "writer_stage (rest t) rs (ann t) (Atomic f)" and g: "tree_good V cmp tsize base n s m ann rest"
    and f: "f s = Some (s', q)"
  shows "(\<exists>a. writer_stage (rest t) rs a q \<and> tree_good V cmp tsize base n s' m (ann(t := a)) rest) \<or>
    (\<exists>c cs a. rest t = c # cs \<and> writer_stage cs (fst (spec_cmd m c) # rs) a q \<and>
       tree_good V cmp tsize base n s' (snd (spec_cmd m c)) (ann(t := a)) (rest(t := cs)))"
proof -
  obtain hp h hp' h' where s: "s = (hp, h)" "s' = (hp', h')"
    by (cases s; cases s')
  obtain S where S: "(\<Sum>u < n. ann u) = ann t + S" "\<forall>a. (\<Sum>u < n. (ann(t := a)) u) = a + S"
    by (rule sum_split [OF t, of ann])
  let ?N = "no_objects h + ann t + S"
  have inv: "no_oom hp" "tree_on V cmp ?N h" "tree_map h = m" "extra_of hp ?N = base" "table_size h = tsize" "unat ?N + (\<Sum>t < n. length (rest t)) \<le> max_objects"
    and V: "\<forall>t < n. writes (rest t) \<and> (\<forall>c \<in> set (rest t). V (cmd_key c))"
    using g by (simp_all add: tree_good_def s S(1) add.assoc)
  have "unat ?N + length (rest t) \<le> max_objects"
    using inv(6) rest_le [OF t, of rest] by simp
  from writer_atomic [OF st _ inv(1,2) _ _ this, of hp' h' q]
  have new: "no_oom hp'" "table_size h' = tsize" and moved: "(\<exists>a. writer_stage (rest t) rs a q \<and> tree_on V cmp (no_objects h' + a + S) h' \<and>
       tree_map h' = m \<and> no_objects h' + a = no_objects h + ann t \<and> live hp' = live hp) \<or>
     (\<exists>c cs a. rest t = c # cs \<and> writer_stage cs (fst (spec_cmd m c) # rs) a q \<and>
       tree_on V cmp (no_objects h' + a + S) h' \<and> tree_map h' = snd (spec_cmd m c) \<and>
       extra_of hp' (no_objects h' + a + S) = base \<and>
       unat (no_objects h' + a + S) \<le> unat ?N + 1)"
    using f V t inv(3-5) by (simp_all add: s)
  from moved show ?thesis
  proof (elim disjE exE conjE)
    fix a
    assume a: "writer_stage (rest t) rs a q" "tree_on V cmp (no_objects h' + a + S) h'" "tree_map h' = m"
      "no_objects h' + a = no_objects h + ann t" "live hp' = live hp"
    have N: "no_objects h' + (a + S) = ?N"
      by (simp add: a(4) add.assoc [symmetric])
    have "tree_good V cmp tsize base n s' m (ann(t := a)) rest"
      using a new V inv(4,6) unfolding tree_good_def s by (simp add: S(2) N extra_of_def del: fun_upd_apply)
    then show ?thesis
      using a(1) by blast
  next
    fix c cs a
    assume a: "rest t = c # cs" "writer_stage cs (fst (spec_cmd m c) # rs) a q"
      "tree_on V cmp (no_objects h' + a + S) h'" "tree_map h' = snd (spec_cmd m c)"
      "extra_of hp' (no_objects h' + a + S) = base" "unat (no_objects h' + a + S) \<le> unat ?N + 1"
    have "\<forall>u < n. writes ((rest(t := cs)) u) \<and> (\<forall>c \<in> set ((rest(t := cs)) u). V (cmd_key c))"
      using V t a(1) by (auto simp: writes_def)
    moreover have "unat (no_objects h' + a + S) + (\<Sum>u < n. length ((rest(t := cs)) u)) \<le> max_objects"
      using sum_rest [of t n rest c cs, OF t a(1)] a(6) inv(6) by linarith
    ultimately have "tree_good V cmp tsize base n s' (snd (spec_cmd m c)) (ann(t := a)) (rest(t := cs))"
      using new a(3-5) unfolding tree_good_def s by (simp add: S(2) add.assoc del: fun_upd_apply)
    then show ?thesis
      using a(1,2) by blast
  qed
qed

end

sublocale key_order \<subseteq> writer_run: linear_run writer_stage "tree_good V cmp tsize base" 0 for tsize base
proof unfold_locales
  show "writer_stage cs rs 0 (client cs rs)" for cs rs
    by (rule w_client)
  show "writer_stage cs rs a (Wrlock l p) \<Longrightarrow> writer_stage cs rs a p"
    "writer_stage cs rs a (Rdlock l p) \<Longrightarrow> writer_stage cs rs a p"
    "writer_stage cs rs a (Unlock l p) \<Longrightarrow> writer_stage cs rs a p" for cs rs a l p
    using writer_lock by blast+
  show "writer_stage cs rs a (Return r) \<Longrightarrow> cs = [] \<and> r = rev rs \<and> a = 0" for cs rs a r
    by (rule writer_return)
qed (rule tree_good_atomic)

context key_order
begin

lemma tree_clients_linear:
  assumes "rbtree_inv V cmp h" and "rehash_auto h = 0" and "no_oom hp" and "tree_map h = Map.empty"
    and "no_objects h = 0" and "(\<Sum>cs \<leftarrow> css. length cs) \<le> max_objects"
    and "\<forall>cs \<in> set css. writes cs \<and> (\<forall>c \<in> set cs. V (cmd_key c))"
    and "steps (clients (hp, h) css) c" and "finished c"
  shows "\<exists>w. interleaving css w \<and> rbtree_inv V cmp (snd (shared c)) \<and>
    tree_map (snd (shared c)) = map_after w \<and> table_size (snd (shared c)) = table_size h \<and>
    live (fst (shared c)) = live hp + 2 * int (unat (no_objects (snd (shared c)))) \<and>
    threads c = map (\<lambda>t. Return (replies_of t w)) [0 ..< length css]"
proof -
  have "(\<Sum>t < length css. length (css ! t)) \<le> max_objects"
    using assms(6) by (simp add: sum_list_sum_nth atLeast0LessThan)
  moreover have "h\<lparr>no_objects := no_objects h\<rparr> = h"
    by simp
  ultimately have "tree_good V cmp (table_size h) (live hp) (length css) (hp, h) Map.empty (\<lambda>_. 0) (\<lambda>t. css ! t)"
    using assms(1-5,7) by (auto simp: tree_good_def tree_on_def extra_of_def)
  from writer_run.clients_linear [OF this assms(8,9)]
  obtain w ann rest where w: "interleaving css w" "tree_good V cmp (table_size h) (live hp) (length css) (shared c) (map_after w) ann rest"
    "\<forall>t < length css. ann t = 0" "threads c = map (\<lambda>t. Return (replies_of t w)) [0 ..< length css]"
    by blast
  obtain hp1 h1 where s: "shared c = (hp1, h1)"
    by (cases "shared c")
  have "(\<Sum>t < length css. ann t) = 0"
    using w(3) by simp
  then have "rbtree_inv V cmp (h1\<lparr>no_objects := no_objects h1\<rparr>)" "tree_map h1 = map_after w" "table_size h1 = table_size h"
    "extra_of hp1 (no_objects h1) = live hp"
    using w(2) by (simp_all add: tree_good_def tree_on_def s)
  then show ?thesis
    using w(1,4) by (auto simp: s extra_of_def)
qed

end

end
