(* ===== verification/Hi_create_ts.thy ===== *)
theory Hi_create_ts
  imports Hi_locking Hi_correct
begin

text \<open>
  Creating and destroying a table in the THREADSAFE build: the locks are made and given back with
  the table, and what the error returns keep.
\<close>

section \<open>The locks of the trees\<close>

lemma live_rwlock_destroy: "live (snd (lhi_pthread_rwlock_destroy hp 0)) = live hp - 1"
  by (simp add: lhi_pthread_rwlock_destroy_def)

lemma live_destroy_rwlocks: "live (destroy_rwlocks hp n) = live hp - int n"
  by (induction n arbitrary: hp) (simp_all add: live_rwlock_destroy)

lemma lock_init_no_oom:
  assumes "no_oom hp"
  obtains (made) hp' where "lhi_pthread_rwlock_init hp r = (0, True, hp')" "lhi_pthread_mutex_init hp r = (0, True, hp')"
      "no_oom hp'" "live hp' = live hp + 1" "r = 0"
    | (failed) hp' where "lhi_pthread_rwlock_init hp r = (r, False, hp')" "lhi_pthread_mutex_init hp r = (r, False, hp')"
      "no_oom hp'" "live hp' = live hp" "r \<noteq> 0"
proof -
  obtain junk hp1 where m: "malloc hp = (Some junk, hp1)" "no_oom hp1" "live hp1 = live hp + 1"
    by (rule malloc_no_oom [OF assms])
  show thesis
  proof (cases "r = 0")
    case True
    then show thesis
      using made m by (simp add: lhi_pthread_rwlock_init_def lhi_pthread_mutex_init_def)
  next
    case False
    then show thesis
      using failed [of "free hp1"] m by (simp add: lhi_pthread_rwlock_init_def lhi_pthread_mutex_init_def)
  qed
qed

lemma init_rwlocks_all:
  assumes "no_oom hp" and "\<forall>i \<in> set is. ri i = 0"
  shows "\<exists>hp'. init_rwlocks ri hp is = (None, hp') \<and> no_oom hp' \<and> live hp' = live hp + int (length is)"
  using assms
proof (induction "is" arbitrary: hp)
  case (Cons i "is")
  obtain hp1 where "lhi_pthread_rwlock_init hp (ri i) = (0, True, hp1)" "no_oom hp1" "live hp1 = live hp + 1"
    using lock_init_no_oom [OF Cons.prems(1), of "ri i"] Cons.prems(2) by (metis list.set_intros(1))
  then show ?case
    using Cons.IH [of hp1] Cons.prems(2) by auto
qed simp

lemma init_rwlocks_fails:
  assumes "no_oom hp" and "n < m" and "ri n \<noteq> 0" and "\<forall>i. k \<le> i \<and> i < n \<longrightarrow> ri i = 0" and "k \<le> n"
  shows "\<exists>hp'. init_rwlocks ri hp [k ..< m] = (Some n, hp') \<and> live hp' = live hp + int (n - k)"
  using assms
proof (induction "n - k" arbitrary: k hp)
  case 0
  then have k: "k = n" "[k ..< m] = n # [Suc n ..< m]"
    by (simp_all add: upt_conv_Cons)
  from 0 show ?case
    unfolding k(2) by (cases rule: lock_init_no_oom [OF 0(2), of "ri n"]) (simp_all add: k(1))
next
  case (Suc d)
  then have k: "[k ..< m] = k # [Suc k ..< m]" "ri k = 0"
    by (simp_all add: upt_conv_Cons)
  obtain hp1 where hp1: "lhi_pthread_rwlock_init hp (ri k) = (0, True, hp1)" "no_oom hp1" "live hp1 = live hp + 1"
    using lock_init_no_oom [OF Suc.prems(1), of "ri k"] k(2) by metis
  have "d = n - Suc k" "Suc k \<le> n"
    using Suc.hyps(2) by simp_all
  from Suc.hyps(1) [OF this(1) hp1(2) Suc.prems(2,3) _ this(2)] Suc.prems(4)
  obtain hp' where "init_rwlocks ri hp1 [Suc k ..< m] = (Some n, hp')" "live hp' = live hp1 + int (n - Suc k)"
    by auto
  then show ?case
    using hp1 Suc.hyps(2) by (intro exI [of _ hp']) (simp add: k(1))
qed

section \<open>Creation\<close>

text \<open>Up to the mutex: a blank handle, and three blocks (two when the mutex cannot be made).\<close>

lemma hi_create_ts_blank:
  assumes "set_ok cmp s" and "no_oom hp"
  shows "mi \<noteq> 0 \<Longrightarrow> \<exists>hp'. hi_create_ts mi ri hp s = Some (HI_ERR_SYSTEM, False, hp', None) \<and> live hp' = live hp + 2"
    and "mi = 0 \<Longrightarrow> \<exists>hp' h. hi_create_ts mi ri hp s = do {
      (ret, locked, hp, h) \<leftarrow> (if coll_eng h = COLL_ENG_RBTREE then lhi_create_eng_rbtree_ts ri hp' h
        else do { (ret, hp, h) \<leftarrow> create_eng hp' h; Some (ret, False, hp, h) });
      if ret \<noteq> SUCCESS then Some (ret, locked, hp, None) else Some (SUCCESS, locked, hp, Some h)
    } \<and> blank cmp h \<and> no_oom hp' \<and> live hp' = live hp + 3 \<and> table_size h = set_table_size s \<and>
      coll_eng h = set_coll_eng s \<and> rehash_auto h = set_rehash_auto s"
proof -
  obtain j1 hp1 where 1: "xalloc_align hp = (0, j1, hp1)" "no_oom hp1" "live hp1 = live hp + 1"
    by (rule xalloc_no_oom [OF assms(2)])
  obtain j2 hp2 where 2: "xalloc_align hp1 = (0, j2, hp2)" "no_oom hp2" "live hp2 = live hp1 + 1"
    by (rule xalloc_no_oom [OF 1(2)])
  have sane: "lhi_set_sanity_check s = SUCCESS" and cmp: "fp_call (set_key_cmp s) = Some cmp"
    using assms(1) by (simp_all add: set_ok_def)
  define h where "h = (snd (lhi_transform_set_2_hndl zero_handle s))
    \<lparr>bucket_size := replicate (unat (set_table_size s)) j2, no_objects := 0\<rparr>"
  have fields: "table_size h = set_table_size s" "coll_eng h = set_coll_eng s"
    "rehash_auto h = set_rehash_auto s" "hash_func h = set_hash_func s" "key_cmp h = set_key_cmp s"
    "length (bucket_size h) = unat (set_table_size s)" "no_objects h = 0"
    using sane by (simp_all add: h_def lhi_transform_set_2_hndl_def)
  have "set_table_size s \<noteq> 0" "set_hash_func s \<noteq> None"
    using sane by (auto simp: lhi_set_sanity_check_def hi_defs split: if_splits)
  then have blank: "blank cmp h"
    using cmp by (simp add: blank_def fields)
  show "\<exists>hp'. hi_create_ts mi ri hp s = Some (HI_ERR_SYSTEM, False, hp', None) \<and> live hp' = live hp + 2" if mi: "mi \<noteq> 0"
  proof -
    obtain hp' where "lhi_pthread_mutex_init hp2 mi = (mi, False, hp')" "live hp' = live hp2"
      by (rule lock_init_no_oom [OF 2(2), of mi]) (use mi in auto)
    then show ?thesis
      using sane 1(1,3) 2(1,3) mi
      by (simp add: hi_create_ts_def lhi_create_vanilla_hdnl_def lhi_transform_set_2_hndl_def cong: if_cong)
  qed
  show "\<exists>hp' h. hi_create_ts mi ri hp s = do {
      (ret, locked, hp, h) \<leftarrow> (if coll_eng h = COLL_ENG_RBTREE then lhi_create_eng_rbtree_ts ri hp' h
        else do { (ret, hp, h) \<leftarrow> create_eng hp' h; Some (ret, False, hp, h) });
      if ret \<noteq> SUCCESS then Some (ret, locked, hp, None) else Some (SUCCESS, locked, hp, Some h)
    } \<and> blank cmp h \<and> no_oom hp' \<and> live hp' = live hp + 3 \<and> table_size h = set_table_size s \<and>
      coll_eng h = set_coll_eng s \<and> rehash_auto h = set_rehash_auto s" if mi: "mi = 0"
  proof -
    obtain hp' where made: "lhi_pthread_mutex_init hp2 mi = (0, True, hp')" "no_oom hp'" "live hp' = live hp2 + 1"
      by (rule lock_init_no_oom [OF 2(2), of mi]) (use mi in auto)
    have "hi_create_ts mi ri hp s = do {
        (ret, locked, hp, h) \<leftarrow> (if coll_eng h = COLL_ENG_RBTREE then lhi_create_eng_rbtree_ts ri hp' h
          else do { (ret, hp, h) \<leftarrow> create_eng hp' h; Some (ret, False, hp, h) });
        if ret \<noteq> SUCCESS then Some (ret, locked, hp, None) else Some (SUCCESS, locked, hp, Some h)
      }"
      using sane 1(1) 2(1) made(1)
      by (simp add: hi_create_ts_def lhi_create_vanilla_hdnl_def lhi_transform_set_2_hndl_def h_def Let_def)
    then show ?thesis
      using blank made 1(3) 2(3) fields(1-3) by (intro exI [of _ hp'] exI [of _ h]) simp
  qed
qed

context key_domain
begin

lemma list_create_ts:
  assumes "set_ok cmp s" and "set_coll_eng s = COLL_ENG_LIST \<or> set_coll_eng s = COLL_ENG_LIST_MTF" and "no_oom hp"
  obtains hp' h where "hi_create_ts 0 ri hp s = Some (SUCCESS, False, hp', Some h)" and "list_inv V cmp h"
    and "no_oom hp'" and "live hp' = live hp + 4" and "map_of_table (list_table h) = Map.empty"
    and "no_objects h = 0" and "coll_eng h = set_coll_eng s" and "rehash_auto h = set_rehash_auto s"
proof -
  obtain hp1 h1 where c: "hi_create_ts 0 ri hp s = do {
      (ret, locked, hp, h) \<leftarrow> (if coll_eng h1 = COLL_ENG_RBTREE then lhi_create_eng_rbtree_ts ri hp1 h1
        else do { (ret, hp, h) \<leftarrow> create_eng hp1 h1; Some (ret, False, hp, h) });
      if ret \<noteq> SUCCESS then Some (ret, locked, hp, None) else Some (SUCCESS, locked, hp, Some h)
    }" "blank cmp h1" "no_oom hp1" "live hp1 = live hp + 3" "coll_eng h1 = set_coll_eng s"
    "rehash_auto h1 = set_rehash_auto s"
    using hi_create_ts_blank(2) [OF assms(1,3), of 0 ri] by blast
  obtain hp' h where "create_eng hp1 h1 = Some (SUCCESS, hp', h)" "no_oom hp'" "live hp' = live hp1 + 1"
    "list_inv V cmp h" "same_settings h1 h" "map_of_table (list_table h) = Map.empty" "no_objects h = 0"
    using create_list_ok [OF c(2) _ c(3), of V] assms(2) c(5) by auto
  then show thesis
    using that [of hp' h] c assms(2) by (auto simp: same_settings_def)
qed

end

context key_order
begin

lemma rbtree_create_ts:
  assumes "set_ok cmp s" and "set_coll_eng s = COLL_ENG_RBTREE" and "no_oom hp"
  shows "\<forall>i < unat (set_table_size s). ri i = 0 \<Longrightarrow>
      \<exists>hp' h. hi_create_ts 0 ri hp s = Some (SUCCESS, False, hp', Some h) \<and> rbtree_inv V cmp h \<and> no_oom hp' \<and>
        live hp' = live hp + 4 + int (unat (set_table_size s)) \<and> map_of_table (rbtree_table h) = Map.empty \<and>
        no_objects h = 0 \<and> rehash_auto h = set_rehash_auto s \<and> table_size h = set_table_size s"
    and "\<exists>i < unat (set_table_size s). ri i \<noteq> 0 \<Longrightarrow>
      \<exists>hp'. hi_create_ts 0 ri hp s = Some (HI_ERR_SYSTEM, True, hp', None) \<and> live hp' = live hp + 4"
proof -
  obtain hp1 h1 where c: "hi_create_ts 0 ri hp s = do {
      (ret, locked, hp, h) \<leftarrow> (if coll_eng h1 = COLL_ENG_RBTREE then lhi_create_eng_rbtree_ts ri hp1 h1
        else do { (ret, hp, h) \<leftarrow> create_eng hp1 h1; Some (ret, False, hp, h) });
      if ret \<noteq> SUCCESS then Some (ret, locked, hp, None) else Some (SUCCESS, locked, hp, Some h)
    }" "blank cmp h1" "no_oom hp1" "live hp1 = live hp + 3" "table_size h1 = set_table_size s"
    "coll_eng h1 = set_coll_eng s" "rehash_auto h1 = set_rehash_auto s"
    using hi_create_ts_blank(2) [OF assms(1,3), of 0 ri] by blast
  obtain junk hp2 where m: "malloc hp1 = (Some junk, hp2)" "no_oom hp2" "live hp2 = live hp1 + 1"
    by (rule malloc_no_oom [OF c(3)])
  have len: "length (bucket_size h1) = unat (set_table_size s)"
    using c(2,5) by (simp add: blank_def)
  show "\<exists>hp' h. hi_create_ts 0 ri hp s = Some (SUCCESS, False, hp', Some h) \<and> rbtree_inv V cmp h \<and> no_oom hp' \<and>
        live hp' = live hp + 4 + int (unat (set_table_size s)) \<and> map_of_table (rbtree_table h) = Map.empty \<and>
        no_objects h = 0 \<and> rehash_auto h = set_rehash_auto s \<and> table_size h = set_table_size s"
    if "\<forall>i < unat (set_table_size s). ri i = 0"
  proof -
    have all: "\<forall>i \<in> set [0 ..< unat (set_table_size s)]. ri i = 0"
      using that by simp
    obtain hp3 where l: "init_rwlocks ri hp2 [0 ..< unat (set_table_size s)] = (None, hp3)" "no_oom hp3"
      "live hp3 = live hp2 + int (unat (set_table_size s))"
      using init_rwlocks_all [OF m(2), of "[0 ..< unat (set_table_size s)]" ri, OF all] by auto
    obtain hp' h where h: "create_eng hp1 h1 = Some (SUCCESS, hp', h)" "rbtree_inv V cmp h" "same_settings h1 h"
      "map_of_table (rbtree_table h) = Map.empty" "no_objects h = 0"
      using create_rbtree_ok [OF c(2) _ c(3), of V] assms(2) c(6) by auto
    have "h = h1\<lparr>trees := replicate (unat (table_size h1)) RB_NULL, bucket_size := replicate (unat (table_size h1)) 0\<rparr>"
      using h(1) m(1) len c(5,6) assms(2) by (simp add: create_eng_def lhi_create_eng_rbtree_def)
    then show ?thesis
      using c(1) h(2-5) m l len c(4-7) assms(2)
      by (simp add: lhi_create_eng_rbtree_ts_def same_settings_def)
  qed
  show "\<exists>hp'. hi_create_ts 0 ri hp s = Some (HI_ERR_SYSTEM, True, hp', None) \<and> live hp' = live hp + 4"
    if fail: "\<exists>i < unat (set_table_size s). ri i \<noteq> 0"
  proof -
    define n where "n = (LEAST i. ri i \<noteq> 0)"
    obtain i where i: "i < unat (set_table_size s)" "ri i \<noteq> 0"
      using fail by blast
    have n: "ri n \<noteq> 0" "n \<le> i"
      unfolding n_def by (rule LeastI [of "\<lambda>i. ri i \<noteq> 0", OF i(2)], rule Least_le [of "\<lambda>i. ri i \<noteq> 0", OF i(2)])
    have first: "\<forall>i. 0 \<le> i \<and> i < n \<longrightarrow> ri i = 0"
      using not_less_Least [of _ "\<lambda>i. ri i \<noteq> 0"] unfolding n_def by blast
    have "n < unat (set_table_size s)"
      using n(2) i(1) by simp
    from init_rwlocks_fails [OF m(2) this n(1) first]
    obtain hp3 where "init_rwlocks ri hp2 [0 ..< unat (set_table_size s)] = (Some n, hp3)" "live hp3 = live hp2 + int n"
      by auto
    then show ?thesis
      using c(1) m len c(4-6) assms(2)
      by (simp add: lhi_create_eng_rbtree_ts_def live_destroy_rwlocks hi_defs)
  qed
qed

end

section \<open>Destruction\<close>

text \<open>One thread that holds the mutex and does the rest of a program.\<close>

definition alone :: "shared_table \<Rightarrow> int table_prog \<Rightarrow> (shared_table, int) config" where
  "alone s p = \<lparr>shared = s, locks = (\<lambda>_. Readers {})(Mutex := Writer 0), threads = [p]\<rparr>"

lemma steps_trans: "steps c1 c2 \<Longrightarrow> steps c2 c3 \<Longrightarrow> steps c1 c3"
  by (simp add: steps_def)

lemma alone_lock: "steps (start s [Wrlock Mutex p]) (alone s p)"
  by (rule schedule_steps [of "[0]"]) (simp add: start_def alone_def move_def)

lemma alone_atomic: "f s = Some (s', p) \<Longrightarrow> steps (alone s (Atomic f)) (alone s' p)"
  by (rule schedule_steps [of "[0]"]) (simp add: alone_def move_def)

lemma fini_trees_run:
  "\<exists>hp'. steps (alone (hp, h) (fini_trees_ts is p)) (alone (hp', h) p) \<and> live hp' = live hp - int (length is)"
proof (induction "is" arbitrary: hp)
  case Nil
  then show ?case
    by (auto simp: steps_def)
next
  case (Cons i "is")
  let ?hp = "snd (lhi_pthread_rwlock_destroy hp 0)"
  have "schedule [0, 0, 0] (alone (hp, h) (fini_trees_ts (i # is) p)) = Next (alone (?hp, h) (fini_trees_ts is p))"
    by (simp add: alone_def move_def fun_upd_twist fun_upd_idem)
  moreover obtain hp' where "steps (alone (?hp, h) (fini_trees_ts is p)) (alone (hp', h) p)"
    "live hp' = live ?hp - int (length is)"
    using Cons.IH by blast
  ultimately show ?case
    using schedule_steps steps_trans by (fastforce simp: live_rwlock_destroy)
qed

text \<open>
  When one thread destroys the table after the threads of \<open>c\<close>, it runs to the end, and leaves \<open>n\<close>
  blocks in use.
\<close>

definition fini_leaves :: "(shared_table, 'r) config \<Rightarrow> int \<Rightarrow> bool" where
  "fini_leaves c n \<longleftrightarrow> (\<forall>c'. steps (resume c [hi_fini_ts Return]) c' \<longrightarrow>
     (\<exists>e. steps c' e \<and> threads e = [Return SUCCESS] \<and> live (fst (shared e)) = n))"

lemma fini_leavesI:
  assumes "resume c [hi_fini_ts Return] = start (shared c) [hi_fini_ts Return]"
    and "steps (start (shared c) [hi_fini_ts Return]) e" and "threads e = [Return SUCCESS]"
    and "live (fst (shared e)) = n"
  shows "fini_leaves c n"
proof -
  have "finished e" "length (threads (start (shared c) [hi_fini_ts Return])) = 1"
    using assms(3) by (simp_all add: finished_def start_def)
  then show ?thesis
    unfolding fini_leaves_def assms(1) using sole_thread [OF assms(2)] assms(3,4) by blast
qed

text \<open>The end of \<open>hi_fini\<close>: the mutex, the bucket sizes and the handle are given back.\<close>

definition fini_tail :: "int table_prog" where
  "fini_tail = Unlock Mutex (Atomic (\<lambda>(hp, h). Some ((free (snd (lhi_pthread_mutex_destroy hp 0)), h),
     Atomic (\<lambda>(hp, h). Some ((if (0 :: int) = 0 then free hp else hp, h), Return 0)))))"

lemma fini_tail_run:
  "\<exists>c. steps (alone (hp, h) fini_tail) c \<and> threads c = [Return SUCCESS] \<and> live (fst (shared c)) = live hp - 3"
proof -
  have "\<exists>c. schedule [0, 0, 0] (alone (hp, h) fini_tail) = Next c \<and> threads c = [Return SUCCESS] \<and>
      live (fst (shared c)) = live hp - 3"
    by (simp add: fini_tail_def alone_def move_def lhi_pthread_mutex_destroy_def hi_defs)
  then show ?thesis
    using schedule_steps by blast
qed

lemma fini_program:
  "hi_fini_ts Return = Wrlock Mutex (branch (\<lambda>h.
     if list_eng (coll_eng h) then Atomic (\<lambda>(hp, h). do { (ret, s) \<leftarrow> lhi_fini_list hp h; Some (s, fini_tail) })
     else if array_eng (coll_eng h) then lhi_fini_array_ts (\<lambda>_. fini_tail)
     else if coll_eng h = COLL_ENG_RBTREE then lhi_fini_rbtree_ts (\<lambda>_. fini_tail)
     else Atomic (\<lambda>(hp, h). Some ((if HI_ERR_INTERNAL = 0 then free hp else hp, h), Return HI_ERR_INTERNAL))))"
  unfolding hi_fini_ts_def lhi_fini_internal_ts_def Let_def fini_tail_def ..

context key_domain
begin

lemma list_fini_run:
  assumes "list_inv V cmp h"
  shows "\<exists>c. steps (start (hp, h) [hi_fini_ts Return]) c \<and> threads c = [Return SUCCESS] \<and>
    live (fst (shared c)) = live hp - 2 * int (unat (no_objects h)) - 4"
proof -
  have eng: "list_eng (coll_eng h)"
    using assms by (auto simp: list_inv_def)
  obtain hp' where fini: "lhi_fini_list hp h = Some (SUCCESS, hp', h)" "live hp' = live hp - 2 * int (unat (no_objects h)) - 1"
    using list_fini [OF assms] by blast
  have "steps (start (hp, h) [hi_fini_ts Return]) (alone (hp', h) fini_tail)"
    unfolding fini_program branch_def using eng fini(1)
    by - (rule steps_trans [OF alone_lock], rule steps_trans [OF alone_atomic], simp, rule alone_atomic, simp)
  then show ?thesis
    using fini_tail_run [of hp' h] fini(2) steps_trans by fastforce
qed

end

lemma rbtree_fini_run:
  assumes "coll_eng h = COLL_ENG_RBTREE"
  shows "\<exists>c. steps (start (hp, h) [hi_fini_ts Return]) c \<and> threads c = [Return SUCCESS] \<and>
    live (fst (shared c)) = live hp - int (unat (table_size h)) - 4"
proof -
  let ?h = "h\<lparr>table_size := 0\<rparr>"
  let ?last = "Atomic (\<lambda>(hp, h). Some ((free hp, h\<lparr>trees := []\<rparr>), fini_tail))"
  have eng: "\<not> list_eng (coll_eng h)" "\<not> array_eng (coll_eng h)"
    using assms by simp_all
  have 1: "steps (start (hp, h) [hi_fini_ts Return])
      (alone (hp, ?h) (fini_trees_ts [0 ..< unat (table_size h)] ?last))"
    unfolding fini_program branch_def lhi_fini_rbtree_ts_def using eng assms
    by - (rule steps_trans [OF alone_lock], rule steps_trans [OF alone_atomic], simp, rule alone_atomic, simp)
  obtain hp' where 2: "steps (alone (hp, ?h) (fini_trees_ts [0 ..< unat (table_size h)] ?last)) (alone (hp', ?h) ?last)"
    "live hp' = live hp - int (unat (table_size h))"
    using fini_trees_run [of hp ?h "[0 ..< unat (table_size h)]" ?last] by auto
  have 3: "steps (alone (hp', ?h) ?last) (alone (free hp', ?h\<lparr>trees := []\<rparr>) fini_tail)"
    by (rule alone_atomic) simp
  show ?thesis
    using fini_tail_run [of "free hp'" "?h\<lparr>trees := []\<rparr>"] 2(2)
      steps_trans [OF 1 steps_trans [OF 2(1) 3]] steps_trans by fastforce
qed

end
