(* ===== verification/Hi_threads.thy ===== *)
theory Hi_threads
  imports Hi_linear Hi_writers Hi_create_ts
begin

text \<open>
  The properties of the THREADSAFE build: what threads that share a table of chains can rely on,
  and the operations whose locking is wrong.
\<close>

section \<open>Chains\<close>


text \<open>
  C13. Any threads that insert, get and remove any keys in a table of chains (plain, or with a second
  hash) without automatic rehashing, whatever the allocator does, run to the end: at no point of any
  interleaving is a thread undefined (it never unlocks a mutex it does not hold) or are all of them
  blocked, no interleaving is infinite, and from every point all threads can return.
\<close>

theorem list_threads_finish:
  assumes "key_domain V cmp" and "list_shape V cmp h" and "\<forall>cs \<in> set css. \<forall>c \<in> set cs. V (cmd_key c)"
    and "steps (clients (hp, h) css) c"
  shows "\<not> undefined_at t c \<and> \<not> stuck c \<and> (\<exists>c'. steps c c' \<and> finished c') \<and>
    \<not> (\<exists>f. f 0 = c \<and> (\<forall>i. \<exists>t. step t (f i) (f (Suc i))))"
  using key_domain.list_clients_safe(2-4) [OF assms] no_infinite_run by blast

definition ex_clients :: "cmd list list" where
  "ex_clients = [[Ins [97, 0] 1, Rem [98, 0]], [Ins [98, 0] 2, Get [97, 0]]]"

lemma ex_clients_ok [simp]:
  "\<forall>cs \<in> set ex_clients. \<forall>c \<in> set cs. str_key (cmd_key c)" "one_inserter ex_clients"
  "(\<Sum>cs \<leftarrow> ex_clients. length cs) \<le> max_objects"
  by (auto simp: ex_clients_def str_key_def one_inserter_def inserted_keys_def less_Suc_eq max_objects_def)

lemma list_on_create:
  assumes "key_domain V cmp" and "set_ok cmp s" and "set_coll_eng s = COLL_ENG_LIST" and "set_rehash_auto s = 0"
    and "no_oom hp"
  obtains hp' h where "hi_create hp s = Some (SUCCESS, hp', Some h)" and "list_on V cmp h" and "no_oom hp'"
    and "the_map h = Map.empty" and "no_objects h = 0"
  using key_domain.list_create [OF assms(1,2) _ assms(5)] assms(3,4) unfolding list_on_def by metis

theorem list_threads_finish_witness:
  "\<exists>hp1 h1. hi_create ex_heap (ex_set COLL_ENG_LIST 0) = Some (SUCCESS, hp1, Some h1) \<and>
     \<not> undefined_at 0 (clients (hp1, h1) ex_clients) \<and> \<not> stuck (clients (hp1, h1) ex_clients) \<and>
     (\<exists>c'. steps (clients (hp1, h1) ex_clients) c' \<and> finished c')"
proof -
  obtain hp1 h1 where h1: "hi_create ex_heap (ex_set COLL_ENG_LIST 0) = Some (SUCCESS, hp1, Some h1)"
    "list_on str_key hi_cmp_str h1"
    by (rule list_on_create [OF ex_keys(1), of "ex_set COLL_ENG_LIST 0" ex_heap]) simp_all
  show ?thesis
    using h1 list_threads_finish [where hp = hp1 and t = 0,
        OF ex_keys(1) str_keys.list_on_shape [OF h1(2)] ex_clients_ok(1) steps_refl]
    by blast
qed

text \<open>
  C12. Threads that share a table of plain chains (\<open>COLL_ENG_LIST\<close>, not move-to-front) which
  \<open>hi_create\<close> made with its mutex and without automatic rehashing, with enough memory and no key
  inserted by two of them: every interleaving of their critical sections ends with
  the replies and the table of the abstract map, given the commands one at a time in some order that
  keeps the order of each thread; and when one thread then destroys the table, every block is given
  back.
\<close>

theorem list_threads_linear:
  assumes "key_domain V cmp" and "set_ok cmp s" and "set_coll_eng s = COLL_ENG_LIST" and "set_rehash_auto s = 0"
    and "no_oom hp" and "\<forall>cs \<in> set css. \<forall>c \<in> set cs. V (cmd_key c)" and "one_inserter css"
    and "(\<Sum>cs \<leftarrow> css. length cs) \<le> max_objects"
  shows "\<exists>hp1 h1. hi_create_ts 0 ri hp s = Some (SUCCESS, False, hp1, Some h1) \<and>
    (\<exists>c. steps (clients (hp1, h1) css) c \<and> finished c) \<and>
    (\<forall>c. steps (clients (hp1, h1) css) c \<and> finished c \<longrightarrow>
      (\<exists>w. interleaving css w \<and> map_of_table (list_table (snd (shared c))) = map_after w \<and>
        threads c = map (\<lambda>t. Return (replies_of t w)) [0 ..< length css]) \<and>
      fini_leaves c (live hp))"
proof -
  obtain hp1 h1 where h1: "hi_create_ts 0 ri hp s = Some (SUCCESS, False, hp1, Some h1)" "list_inv V cmp h1" "no_oom hp1"
    "live hp1 = live hp + 4" "map_of_table (list_table h1) = Map.empty" "no_objects h1 = 0"
    "coll_eng h1 = set_coll_eng s" "rehash_auto h1 = set_rehash_auto s"
    by (rule key_domain.list_create_ts [OF assms(1,2) _ assms(5), of ri]) (use assms(3) in simp_all)
  have on: "list_on V cmp h1"
    using h1(2,7,8) assms(3,4) by (simp add: list_on_def)
  note safe = key_domain.list_clients_safe [OF assms(1) key_domain.list_on_shape [OF assms(1) on] assms(6)]
  have "(\<exists>w. interleaving css w \<and> map_of_table (list_table (snd (shared c))) = map_after w \<and>
        threads c = map (\<lambda>t. Return (replies_of t w)) [0 ..< length css]) \<and> fini_leaves c (live hp)"
    if c: "steps (clients (hp1, h1) css) c" "finished c" for c
  proof -
    obtain w where w: "interleaving css w" "list_on V cmp (snd (shared c))"
      "map_of_table (list_table (snd (shared c))) = map_after w"
      "extra (fst (shared c)) (snd (shared c)) = live hp1"
      "threads c = map (\<lambda>t. Return (replies_of t w)) [0 ..< length css]"
      using key_domain.list_clients_linear [OF assms(1) on h1(3,5,6) assms(8,7,6) c] by blast
    have "list_inv V cmp (snd (shared c))"
      using w(2) by (simp add: list_on_def)
    from key_domain.list_fini_run [OF assms(1) this, of "fst (shared c)"]
    obtain e where "steps (start (shared c) [hi_fini_ts Return]) e" "threads e = [Return SUCCESS]"
      "live (fst (shared e)) = live hp"
      using w(4) h1(4) by (auto simp: extra_def)
    from fini_leavesI [OF safe(5) [OF c] this] w(1,3,5) show ?thesis
      by blast
  qed
  then show ?thesis
    using h1(1) safe(4) [OF steps_refl] by blast
qed

theorem list_threads_linear_witness:
  "\<exists>hp1 h1 c w. hi_create_ts 0 (\<lambda>_. 0) ex_heap (ex_set COLL_ENG_LIST 0) = Some (SUCCESS, False, hp1, Some h1) \<and>
     steps (clients (hp1, h1) ex_clients) c \<and> interleaving ex_clients w \<and>
     map_of_table (list_table (snd (shared c))) = map_after w \<and>
     threads c = [Return (replies_of 0 w), Return (replies_of 1 w)] \<and> fini_leaves c 0"
proof -
  have two: "map f [0 ..< length ex_clients] = [f 0, f 1]" for f :: "nat \<Rightarrow> reply list table_prog"
    by (simp add: ex_clients_def upt_conv_Cons)
  have "live ex_heap = 0"
    by (simp add: ex_heap_def)
  with list_threads_linear [OF ex_keys(1), of "ex_set COLL_ENG_LIST 0" ex_heap ex_clients "\<lambda>_. 0"]
  show ?thesis
    unfolding two by simp blast
qed

section \<open>Trees\<close>

context key_order
begin

lemma rbtree_size: "rbtree_inv V cmp h \<Longrightarrow> unat (no_objects h) = card (dom (map_of_table (rbtree_table h)))"
  using rbtree_table.abs_map_size by (simp add: rbtree_table.abs_map_def)

lemma rbtree_inv_shape:
  assumes "rbtree_inv V cmp h" and "rehash_auto h = 0"
  shows "rbtree_shape V cmp h"
proof -
  have "\<forall>e \<in> set (inorder t). V (rb_key e)" if t: "t \<in> set (trees h)" for t
  proof -
    obtain i where i: "i < length (rbtree_table h)" "tree_entries t = rbtree_table h ! i"
      using t unfolding rbtree_table_def in_set_conv_nth by auto
    have "placed V (slot_of h) (rbtree_table h)"
      using assms(1) by (simp add: rbtree_inv_def handle_ok_def)
    then have "V (rb_key e)" if "e \<in> set (inorder t)" for e
      using placedD(2) [of V "slot_of h" "rbtree_table h" i "rb_key e" "rb_data e"] i that
      by (simp add: i(2) [symmetric] tree_entries_def rb_pair_def rev_image_eqI)
    then show ?thesis
      by blast
  qed
  then show ?thesis
    using assms by (auto simp: rbtree_shape_def rbtree_inv_def handle_ok_def rbtree_table_def)
qed

end

text \<open>
  C15. Threads that insert into and remove from a table of trees which \<open>hi_create\<close> made without
  automatic rehashing, whatever the allocator does later: no thread is ever undefined, they never
  block for ever, no interleaving is infinite, and from every point all threads can return.
\<close>

theorem tree_writers_finish:
  assumes "key_order V cmp" and "set_ok cmp s" and "set_coll_eng s = COLL_ENG_RBTREE" and "set_rehash_auto s = 0"
    and "no_oom hp" and "\<forall>cs \<in> set css. writes cs \<and> (\<forall>c \<in> set cs. V (cmd_key c))"
  shows "\<exists>hp1 h1. hi_create hp s = Some (SUCCESS, hp1, Some h1) \<and>
    (\<forall>out c. steps (clients (hp1\<lparr>outcome := out\<rparr>, h1) css) c \<longrightarrow>
      (\<forall>t. \<not> undefined_at t c) \<and> \<not> stuck c \<and> (\<exists>c'. steps c c' \<and> finished c') \<and>
      \<not> (\<exists>f. f 0 = c \<and> (\<forall>i. \<exists>t. step t (f i) (f (Suc i)))))"
proof (rule key_order.rbtree_create [OF assms(1-3,5)])
  fix hp1 h1
  assume h1: "hi_create hp s = Some (SUCCESS, hp1, Some h1)" "rbtree_inv V cmp h1"
    "rehash_auto h1 = set_rehash_auto s"
  then have "rbtree_shape V cmp h1"
    using key_order.rbtree_inv_shape [OF assms(1)] assms(4) by simp
  from key_order.tree_clients_safe [OF assms(1) this assms(6)] h1(1) no_infinite_run show ?thesis
    by blast
qed

definition ex_writers :: "cmd list list" where
  "ex_writers = [[Ins [97, 0] 1, Rem [98, 0]], [Ins [97, 0] 2, Ins [98, 0] 3]]"

lemma ex_writers_ok [simp]:
  "\<forall>cs \<in> set ex_writers. writes cs \<and> (\<forall>c \<in> set cs. str_key (cmd_key c))"
  "(\<Sum>cs \<leftarrow> ex_writers. length cs) \<le> max_objects"
  by (auto simp: ex_writers_def str_key_def writes_def max_objects_def)

theorem tree_writers_finish_witness:
  "\<exists>hp1 h1. hi_create ex_heap (ex_set COLL_ENG_RBTREE 0) = Some (SUCCESS, hp1, Some h1) \<and>
     (\<exists>c'. steps (clients (hp1\<lparr>outcome := (\<lambda>_. Malloc_fail)\<rparr>, h1) ex_writers) c' \<and> finished c')"
proof -
  obtain hp1 h1 where "hi_create ex_heap (ex_set COLL_ENG_RBTREE 0) = Some (SUCCESS, hp1, Some h1)"
    and "\<forall>out c. steps (clients (hp1\<lparr>outcome := out\<rparr>, h1) ex_writers) c \<longrightarrow> (\<exists>c'. steps c c' \<and> finished c')"
    using tree_writers_finish [OF ex_keys(2), of "ex_set COLL_ENG_RBTREE 0" ex_heap ex_writers] by simp blast
  then show ?thesis
    using steps_refl by blast
qed

text \<open>
  C14. The same threads, in a table without automatic rehashing, while the allocator does not fail and
  no read-write lock fails to be made: every interleaving ends with the replies
  and the table of the abstract map, given the commands one at a time in some order that keeps the
  order of each thread; all trees are red-black trees in order, and the counter of the table, which
  the threads update apart from the trees, is exact. Two threads may insert the same key. When one
  thread then destroys the table, the locks of all trees are given back, and two blocks for each entry
  that is left are not.
\<close>

theorem tree_writers_linear:
  assumes "key_order V cmp" and "set_ok cmp s" and "set_coll_eng s = COLL_ENG_RBTREE" and "set_rehash_auto s = 0"
    and "no_oom hp" and "\<forall>cs \<in> set css. writes cs \<and> (\<forall>c \<in> set cs. V (cmd_key c))"
    and "(\<Sum>cs \<leftarrow> css. length cs) \<le> max_objects" and "\<forall>i < unat (set_table_size s). ri i = 0"
  shows "\<exists>hp1 h1. hi_create_ts 0 ri hp s = Some (SUCCESS, False, hp1, Some h1) \<and>
    (\<exists>c. steps (clients (hp1, h1) css) c \<and> finished c) \<and>
    (\<forall>c. steps (clients (hp1, h1) css) c \<and> finished c \<longrightarrow>
      (\<exists>w. interleaving css w \<and> rbtree_inv V cmp (snd (shared c)) \<and>
        map_of_table (rbtree_table (snd (shared c))) = map_after w \<and>
        threads c = map (\<lambda>t. Return (replies_of t w)) [0 ..< length css] \<and>
        fini_leaves c (live hp + 2 * int (card (dom (map_after w))))))"
proof -
  obtain hp1 h1 where h1: "hi_create_ts 0 ri hp s = Some (SUCCESS, False, hp1, Some h1)" "rbtree_inv V cmp h1"
    "no_oom hp1" "live hp1 = live hp + 4 + int (unat (set_table_size s))"
    "map_of_table (rbtree_table h1) = Map.empty" "no_objects h1 = 0" "rehash_auto h1 = 0"
    "table_size h1 = set_table_size s"
    using key_order.rbtree_create_ts(1) [OF assms(1-3,5,8)] assms(4) by auto
  note safe = key_order.tree_clients_safe [OF assms(1) key_order.rbtree_inv_shape [OF assms(1) h1(2,7)] assms(6)]
  have "\<exists>w. interleaving css w \<and> rbtree_inv V cmp (snd (shared c)) \<and>
        map_of_table (rbtree_table (snd (shared c))) = map_after w \<and>
        threads c = map (\<lambda>t. Return (replies_of t w)) [0 ..< length css] \<and>
        fini_leaves c (live hp + 2 * int (card (dom (map_after w))))"
    if c: "steps (clients (hp1, h1) css) c" "finished c" for c
  proof -
    let ?h = "snd (shared c)"
    obtain w where w: "interleaving css w" "rbtree_inv V cmp ?h" "map_of_table (rbtree_table ?h) = map_after w"
      "table_size ?h = table_size h1" "live (fst (shared c)) = live hp1 + 2 * int (unat (no_objects ?h))"
      "threads c = map (\<lambda>t. Return (replies_of t w)) [0 ..< length css]"
      using key_order.tree_clients_linear [OF assms(1) h1(2,7,3,5,6) assms(7,6) c] by blast
    have n: "unat (no_objects ?h) = card (dom (map_after w))"
      using key_order.rbtree_size [OF assms(1) w(2)] w(3) by simp
    have "coll_eng ?h = COLL_ENG_RBTREE"
      using w(2) by (simp add: rbtree_inv_def)
    from rbtree_fini_run [OF this, of "fst (shared c)"]
    obtain e where "steps (start (shared c) [hi_fini_ts Return]) e" "threads e = [Return SUCCESS]"
      "live (fst (shared e)) = live hp + 2 * int (card (dom (map_after w)))"
      unfolding n [symmetric] using w(4,5) h1(4,8) by auto
    from fini_leavesI [OF safe(4) [OF c] this] w(1-3,6) show ?thesis
      by blast
  qed
  then show ?thesis
    using h1(1) safe(3) [OF steps_refl] by blast
qed

theorem tree_writers_linear_witness:
  "\<exists>hp1 h1 c w. hi_create_ts 0 (\<lambda>_. 0) ex_heap (ex_set COLL_ENG_RBTREE 0) = Some (SUCCESS, False, hp1, Some h1) \<and>
     steps (clients (hp1, h1) ex_writers) c \<and> interleaving ex_writers w \<and>
     map_of_table (rbtree_table (snd (shared c))) = map_after w \<and>
     threads c = [Return (replies_of 0 w), Return (replies_of 1 w)]"
proof -
  have two: "map f [0 ..< length ex_writers] = [f 0, f 1]" for f :: "nat \<Rightarrow> reply list table_prog"
    by (simp add: ex_writers_def upt_conv_Cons)
  from tree_writers_linear [OF ex_keys(2), of "ex_set COLL_ENG_RBTREE 0" ex_heap ex_writers "\<lambda>_. 0"]
  show ?thesis
    unfolding two by simp blast
qed

section \<open>The race of two insertions\<close>

text \<open>Insertion into a chain, whether or not the key is there.\<close>

definition pushed :: "hi_handle \<Rightarrow> key \<Rightarrow> ptr \<Rightarrow> u32 \<Rightarrow> hi_handle" where
  "pushed h k d junk = (let i = slot_of h k in
     h\<lparr>bucket_table := (bucket_table h)[i :=
         \<lparr>key_len = word_of_nat (length k), obj_key = k, obj_data = d, key_hash = junk\<rparr> # bucket_table h ! i],
       bucket_size := (bucket_size h)[i := bucket_size h ! i + 1],
       no_objects := no_objects h + 1\<rparr>)"

lemma insert_pushes:
  assumes "hash_bucket h k = Some (slot_of h k)" and "slot_of h k < length (bucket_table h)"
    and "length (bucket_size h) = length (bucket_table h)" and "no_oom hp"
  shows "\<exists>hp' junk. insert_body k d (hp, h) = Some (SUCCESS, hp', pushed h k d junk) \<and> no_oom hp'"
proof -
  obtain j1 hp1 where 1: "xalloc_align hp = (0, j1, hp1)" "no_oom hp1"
    by (rule xalloc_no_oom [OF assms(4)])
  obtain j2 hp2 where 2: "xalloc_align hp1 = (0, j2, hp2)" "no_oom hp2"
    by (rule xalloc_no_oom [OF 1(2)])
  show ?thesis
    using assms(1-3) 1 2 by (intro exI [of _ hp2] exI [of _ j1])
      (simp add: insert_body_def lhi_insert_list_def rd_Some pushed_def Let_def cong: if_cong)
qed

lemma pushed_slot:
  "hash_func (pushed h k d j) = hash_func h" "table_size (pushed h k d j) = table_size h"
  "length (bucket_table (pushed h k d j)) = length (bucket_table h)"
  "length (bucket_size (pushed h k d j)) = length (bucket_size h)"
  "coll_eng (pushed h k d j) = coll_eng h" "rehash_auto (pushed h k d j) = rehash_auto h"
  "key_cmp (pushed h k d j) = key_cmp h"
  by (simp_all add: pushed_def Let_def)

lemma same_slot:
  "hash_func h' = hash_func h \<Longrightarrow> table_size h' = table_size h \<Longrightarrow>
     hash_bucket h' k = hash_bucket h k \<and> slot_of h' k = slot_of h k"
  by (simp add: hash_bucket_def slot_of_def cong: if_cong)

lemmas pushed_same_slot = same_slot [OF pushed_slot(1,2)]

context key_domain
begin

text \<open>Removing and getting a key that was pushed twice.\<close>

lemma pushed_twice:
  assumes "hash_bucket h k = Some (slot_of h k)" and "slot_of h k < length (bucket_table h)"
    and "length (bucket_size h) = length (bucket_table h)" and "fp_call (key_cmp h) = Some cmp" and "V k"
    and "coll_eng h = COLL_ENG_LIST"
  shows "\<exists>hp' h'. hi_remove hp (pushed (pushed h k d j) k e j') k = Some (SUCCESS, Some e, hp', h') \<and>
    hi_get h' k = Some (SUCCESS, Some d, h')"
proof -
  have "cmp k k = Some 0"
    using cmp_cases [OF assms(5,5)] by auto
  then have m: "match_key g k b = Some True" if "key_cmp g = key_cmp h" "obj_key b = k" for g b
    using that assms(4) by (simp add: match_key_def)
  let ?i = "slot_of h k"
  let ?h = "pushed (pushed h k d j) k e j'"
  have ff: "hash_bucket ?h k = Some ?i" "coll_eng ?h = COLL_ENG_LIST" "length (bucket_table ?h) = length (bucket_table h)"
    "length (bucket_size ?h) = length (bucket_table h)" "key_cmp ?h = key_cmp h"
    using assms(1,3,6) by (simp_all add: pushed_slot pushed_same_slot)
  have chain: "bucket_table ?h ! ?i = \<lparr>key_len = word_of_nat (length k), obj_key = k, obj_data = e, key_hash = j'\<rparr> #
      \<lparr>key_len = word_of_nat (length k), obj_key = k, obj_data = d, key_hash = j\<rparr> # bucket_table h ! ?i"
    using assms(2) by (simp add: pushed_def Let_def slot_of_def)
  define h' where "h' = ?h\<lparr>bucket_table := (bucket_table ?h)[?i := tl (bucket_table ?h ! ?i)],
    bucket_size := (bucket_size ?h)[?i := bucket_size ?h ! ?i - 1], no_objects := no_objects ?h - 1\<rparr>"
  have "hi_remove hp ?h k = Some (SUCCESS, Some e, free (free hp), h')"
    using ff chain assms(2) m by (simp add: hi_remove_def lhi_remove_list_def rd_Some unlink_def h'_def)
  moreover have "hash_bucket h' k = Some ?i"
    using same_slot [of h' ?h k] ff(1) by (simp add: h'_def)
  moreover have "coll_eng h' = COLL_ENG_LIST" "key_cmp h' = key_cmp h"
    "rd (bucket_table h') ?i = Some (tl (bucket_table ?h ! ?i))"
    using ff assms(2) by (simp_all add: h'_def rd_Some)
  ultimately have "hi_get h' k = Some (SUCCESS, Some d, h')"
    using chain m by (simp add: hi_get_def lhi_get_list_def)
  with \<open>hi_remove hp ?h k = _\<close> show ?thesis
    by blast
qed

lemma insert_race:
  assumes "list_on V cmp h" and "no_oom hp" and "V k" and "the_map h k = None"
  shows "\<exists>c hp2 h2. steps (clients (hp, h) [[Ins k d], [Ins k e]]) c \<and>
    threads c = [Return [(SUCCESS, None)], Return [(SUCCESS, None)]] \<and>
    hi_remove (fst (shared c)) (snd (shared c)) k = Some (SUCCESS, Some e, hp2, h2) \<and>
    hi_get h2 k = Some (SUCCESS, Some d, h2)"
proof -
  have inv: "list_inv V cmp h" and eng: "coll_eng h = COLL_ENG_LIST" "rehash_auto h = 0"
    using assms(1) by (simp_all add: list_on_def)
  have slot: "hash_bucket h k = Some (slot_of h k)" "slot_of h k < length (bucket_table h)"
    "length (bucket_size h) = length (bucket_table h)"
    using list_inv_bucket(1,2) [OF inv] inv by (auto simp: list_inv_def)
  have look: "lookup_body k (hp, h) = Some (HI_ERR_NOKEY, hp, h)"
    using bodies_of_map(1) [OF assms(1,3)] assms(4) by simp
  obtain hp1 j1 where 1: "insert_body k d (hp, h) = Some (SUCCESS, hp1, pushed h k d j1)" "no_oom hp1"
    using insert_pushes [OF slot assms(2)] by blast
  obtain hp2 j2 where 2: "insert_body k e (hp1, pushed h k d j1) = Some (SUCCESS, hp2, pushed (pushed h k d j1) k e j2)"
    using insert_pushes [of "pushed h k d j1" k hp1 e] slot 1(2) pushed_same_slot [of h k d j1 k]
    by (simp add: pushed_slot) blast
  let ?c = "\<lparr>shared = (hp2, pushed (pushed h k d j1) k e j2), locks = (\<lambda>_. Readers {}) (Mutex := Readers {}),
    threads = [Return [(SUCCESS, None)], Return [(SUCCESS, None)]]\<rparr>"
  have "schedule [0, 0, 0, 0, 1, 1, 1, 1, 0, 0, 0, 0, 0, 1, 1, 1, 1, 1] (clients (hp, h) [[Ins k d], [Ins k e]]) = Next ?c"
    using eng look 1(1) 2
    by (simp add: clients_def start_def move_def hi_insert_ts_def hi_lookup_ts_def branch_def critical_def locked_def
        do_rehash_ts_def do_rehash_with_def insert_eng_ts_def lhi_insert_list_ts_def pushed_slot hi_defs)
  then have "steps (clients (hp, h) [[Ins k d], [Ins k e]]) ?c"
    by (rule schedule_steps)
  moreover have "fp_call (key_cmp h) = Some cmp"
    using list_inv_cmp [OF inv] .
  from pushed_twice [OF slot this assms(3) eng(1), of hp2 d j1 e j2]
  obtain hp3 h3 where "hi_remove hp2 (pushed (pushed h k d j1) k e j2) k = Some (SUCCESS, Some e, hp3, h3)"
    "hi_get h3 k = Some (SUCCESS, Some d, h3)"
    by blast
  ultimately show ?thesis
    by (intro exI [of _ ?c]) auto
qed

end

end
