(* ===== verification/Hi_lock_faults.thy ===== *)
theory Hi_lock_faults
  imports Hi_threads
begin

text \<open>
  Where the locking of the THREADSAFE build is wrong: a get that unlocks a mutex it has not locked, a
  destructor that locks its mutex twice, an error return that keeps the mutex, a pair of insertions
  that both succeed, and a search that reads the root of its tree before it locks the tree.
\<close>

text \<open>Threads that have returned or wait for a lock that is taken.\<close>

lemma stuckI:
  assumes "\<forall>p \<in> set (threads c). (\<exists>r. p = Return r) \<or> (\<exists>l q u. p = Wrlock l q \<and> locks c l = Writer u)"
    and "\<exists>p \<in> set (threads c). \<forall>r. p \<noteq> Return r"
  shows "stuck c"
proof -
  have "move t c \<noteq> Undefined \<and> move t c \<noteq> Next c'" for t c'
  proof (cases "t < length (threads c)")
    case True
    then have "(\<exists>r. threads c ! t = Return r) \<or> (\<exists>l q u. threads c ! t = Wrlock l q \<and> locks c l = Writer u)"
      using assms(1) by simp
    then show ?thesis
      by (auto simp: move_def)
  qed (simp add: move_def)
  then show ?thesis
    using assms(2) by (auto simp: stuck_def finished_def step_iff_move undefined_at_iff_move)
qed

section \<open>Trees\<close>

definition entry :: "key \<Rightarrow> ptr \<Rightarrow> rb_entry" where
  "entry k d = \<lparr>rb_keylen = word_of_nat (length k), rb_key = k, rb_data = d\<rparr>"

text \<open>A table with one tree: the string 1 at the root, the string 2 below it on the left.\<close>

definition two_keys :: hi_handle where
  "two_keys = \<lparr>table_size = 1, coll_eng = COLL_ENG_RBTREE, rehash_auto = 0, rehash_threshold = 1,
     coll_eng_array_size = 0, hash_func = Some (Fptr 1 (\<lambda>_. 0)), hash2_func = None,
     key_cmp = Some (Fptr 2 hi_cmp_str), bucket_size = [2], no_objects = 2, bucket_table = [],
     bucket_array = [], slot_size = [], slot_max = [],
     trees = [RB_NODE RB_BLACK (RB_NODE RB_RED RB_NULL (entry [2, 0] 20) RB_NULL) (entry [1, 0] 10) RB_NULL]\<rparr>"

lemma cmp_123:
  "hi_cmp_str [2, 0] [1, 0] = Some 1" "hi_cmp_str [3, 0] [1, 0] = Some 2" "hi_cmp_str [3, 0] [2, 0] = Some 1"
  "hi_cmp_str [1, 0] [1, 0] = Some 0" "hi_cmp_str [2, 0] [2, 0] = Some 0"
  by (simp_all add: hi_cmp_str_def)

lemma two_keys_ok: "rbtree_inv str_key hi_cmp_str two_keys"
  by (auto simp: rbtree_inv_def handle_ok_def two_keys_def entry_def rbtree_table_def tree_entries_def rb_pair_def
      placed_def slot_of_def str_key_def entry_count_def cmp_gt_def cmp_123 rb_ok_def)

lemma two_keys_facts:
  "coll_eng two_keys = COLL_ENG_RBTREE" "rehash_auto two_keys = 0" "hash_bucket two_keys k = Some 0"
  "rd (trees two_keys) 0 = Some (RB_NODE RB_BLACK (RB_NODE RB_RED RB_NULL (entry [2, 0] 20) RB_NULL) (entry [1, 0] 10) RB_NULL)"
  "fp_call (key_cmp two_keys) = Some hi_cmp_str" "rd (bucket_size two_keys) 0 = Some 2"
  by (simp_all add: two_keys_def hash_bucket_def rd_Some)

text \<open>After the insertion of the string 3 the string 2 is at the root, above the strings 3 and 1.\<close>

definition three_keys :: hi_handle where
  "three_keys = two_keys\<lparr>trees := [RB_NODE RB_BLACK (RB_NODE RB_RED RB_NULL (entry [3, 0] 30) RB_NULL)
     (entry [2, 0] 20) (RB_NODE RB_RED RB_NULL (entry [1, 0] 10) RB_NULL)], bucket_size := [3]\<rparr>"

lemma insert_third:
  "\<exists>hp'. lhi_insert_rbtree ex_heap two_keys [3, 0] 30 = Some (SUCCESS, hp', three_keys\<lparr>no_objects := 3\<rparr>)"
proof -
  have "\<exists>hp'. lhi_insert_rbtree ex_heap two_keys [3, 0] 30 = Some (SUCCESS, hp',
      two_keys\<lparr>trees := trees three_keys, bucket_size := bucket_size three_keys, no_objects := 3\<rparr>)"
    by (simp add: lhi_insert_rbtree_def two_keys_facts entry_def cmp_123 lhi_rb_entry_new_def malloc_def ex_heap_def
        three_keys_def) (simp add: two_keys_def)
  then show ?thesis
    by (simp add: three_keys_def)
qed

lemma search_missed:
  "search_from (Some [1, 0]) 0 [2, 0] (hp, three_keys\<lparr>no_objects := n\<rparr>) =
     Some ((HI_ERR_NOKEY, None), hp, three_keys\<lparr>no_objects := n\<rparr>)"
  by (simp add: search_from_def three_keys_def entry_def rd_Some two_keys_facts cmp_123)

text \<open>After the removal of the string 1 its node is freed.\<close>

lemma remove_root:
  "\<exists>hp' h'. lhi_remove_rbtree ex_heap two_keys [1, 0] = Some (SUCCESS, Some 10, hp', h') \<and>
     (\<forall>hp n. search_from (Some [1, 0]) 0 [2, 0] (hp, h'\<lparr>no_objects := n\<rparr>) = None)"
  by (simp add: lhi_remove_rbtree_def two_keys_facts entry_def cmp_123 search_from_def rd_Some)
    (simp add: two_keys_def rd_Some)

lemmas run_defs = clients_def start_def move_def branch_def critical_def locked_def hi_get_ts_def hi_remove_ts_def
  hi_insert_ts_def hi_lookup_ts_def insert_eng_ts_def do_rehash_ts_def do_rehash_with_def

lemma get_misses:
  "\<exists>c. steps (clients (ex_heap, two_keys) [[Get [2, 0]], [Ins [3, 0] 30]]) c \<and>
     threads c = [Return [(HI_ERR_NOKEY, None)], Return [(SUCCESS, None)]]"
proof -
  obtain hp' where ins: "lhi_insert_rbtree ex_heap two_keys [3, 0] 30 = Some (SUCCESS, hp', three_keys\<lparr>no_objects := 3\<rparr>)"
    using insert_third by blast
  let ?run = "[0, 0, 1, 1, 1, 1, 1, 1, 1, 1, 1, 1, 0, 0, 0]"
  have "\<exists>c. schedule ?run (clients (ex_heap, two_keys) [[Get [2, 0]], [Ins [3, 0] 30]]) = Next c \<and>
     threads c = [Return [(HI_ERR_NOKEY, None)], Return [(SUCCESS, None)]]"
    using ins search_missed
    by (simp add: run_defs two_keys_facts lhi_get_rbtree_ts_def lhi_insert_rbtree_ts_def tree_insert_body_def count_body_def root_ptr_def entry_def hi_defs)
  then show ?thesis
    using schedule_steps by blast
qed

lemma get_freed:
  "\<exists>c. steps (clients (ex_heap, two_keys) [[Get [2, 0]], [Rem [1, 0]]]) c \<and> undefined_at 0 c"
proof -
  obtain hp' h' where rem: "lhi_remove_rbtree ex_heap two_keys [1, 0] = Some (SUCCESS, Some 10, hp', h')"
    "search_from (Some [1, 0]) 0 [2, 0] (hp', h'\<lparr>no_objects := no_objects two_keys\<rparr>) = None"
    using remove_root by blast
  let ?run = "[0, 0, 1, 1, 1, 1, 1, 0]"
  have "\<exists>c. schedule ?run (clients (ex_heap, two_keys) [[Get [2, 0]], [Rem [1, 0]]]) = Next c \<and> undefined_at 0 c"
    using rem
    by (simp add: run_defs two_keys_facts lhi_get_rbtree_ts_def lhi_remove_rbtree_ts_def tree_remove_body_def root_ptr_def entry_def
        hi_defs undefined_at_def)
  then show ?thesis
    using schedule_steps by blast
qed

text \<open>
  C19. \<open>lhi_get_rbtree\<close> reads the root of the tree before it takes the lock of the tree. On a well-formed
  table a get of the string 2, which is in the table all the time, answers \<open>HI_ERR_NOKEY\<close> when another
  thread inserts a key in between (the rotation moves the old root below the key), and follows a freed
  node when another thread removes the old root.
\<close>

theorem rbtree_get_stale_root:
  "rbtree_inv str_key hi_cmp_str two_keys \<and> map_of_table (rbtree_table two_keys) [2, 0] = Some 20 \<and>
   (\<exists>c. steps (clients (ex_heap, two_keys) [[Get [2, 0]], [Ins [3, 0] 30]]) c \<and>
     threads c = [Return [(HI_ERR_NOKEY, None)], Return [(SUCCESS, None)]]) \<and>
   (\<exists>c. steps (clients (ex_heap, two_keys) [[Get [2, 0]], [Rem [1, 0]]]) c \<and> undefined_at 0 c)"
  using two_keys_ok get_misses get_freed
  by (simp add: two_keys_def rbtree_table_def tree_entries_def rb_pair_def entry_def map_of_table_def)

text \<open>
  When the thread library cannot make a lock, \<open>hi_create\<close> fails with \<open>HI_ERR_SYSTEM\<close> and keeps what it
  has allocated: the handle and the bucket sizes when the mutex cannot be made, and also the mutex,
  locked, and the array of trees when the lock of some tree cannot be made; the locks of the trees
  before it are given back.
\<close>

lemma create_keeps_blocks:
  assumes "key_order V cmp" and "set_ok cmp s" and "set_coll_eng s = COLL_ENG_RBTREE" and "no_oom hp"
    and "mutex_init \<noteq> 0" and "i < unat (set_table_size s)" and "rwlock_init i \<noteq> 0"
  shows "(\<exists>hp'. hi_create_ts mutex_init rwlock_init hp s = Some (HI_ERR_SYSTEM, False, hp', None) \<and>
      live hp' = live hp + 2) \<and>
    (\<exists>hp'. hi_create_ts 0 rwlock_init hp s = Some (HI_ERR_SYSTEM, True, hp', None) \<and> live hp' = live hp + 4)"
  using hi_create_ts_blank(1) [OF assms(2,4,5)] key_order.rbtree_create_ts(2) [OF assms(1-4)] assms(6,7) by blast

section \<open>Chains\<close>

text \<open>
  C17. Insertion looks the key up in one critical section and stores it in another. Two threads that
  insert the same new key into a table of chains can both get \<open>SUCCESS\<close>; the table then holds the key
  twice, and after it was removed a get still finds it.
\<close>

theorem concurrent_inserts_race:
  assumes "key_domain V cmp" and "set_ok cmp s" and "set_coll_eng s = COLL_ENG_LIST" and "set_rehash_auto s = 0"
    and "no_oom hp" and "V k"
  shows "\<exists>hp1 h1 c hp2 h2. hi_create hp s = Some (SUCCESS, hp1, Some h1) \<and>
    steps (clients (hp1, h1) [[Ins k d], [Ins k e]]) c \<and>
    threads c = [Return [(SUCCESS, None)], Return [(SUCCESS, None)]] \<and>
    hi_remove (fst (shared c)) (snd (shared c)) k = Some (SUCCESS, Some e, hp2, h2) \<and>
    hi_get h2 k = Some (SUCCESS, Some d, h2)"
proof -
  obtain hp1 h1 where h1: "hi_create hp s = Some (SUCCESS, hp1, Some h1)" "list_on V cmp h1" "no_oom hp1"
    "map_of_table (list_table h1) = Map.empty"
    by (rule list_on_create [OF assms(1-5)])
  then show ?thesis
    using key_domain.insert_race [OF assms(1) h1(2,3) assms(6), of d e] by simp
qed

theorem concurrent_inserts_race_witness:
  "\<exists>hp1 h1 c hp2 h2. hi_create ex_heap (ex_set COLL_ENG_LIST 0) = Some (SUCCESS, hp1, Some h1) \<and>
    steps (clients (hp1, h1) [[Ins [97, 0] 1], [Ins [97, 0] 2]]) c \<and>
    threads c = [Return [(SUCCESS, None)], Return [(SUCCESS, None)]] \<and>
    hi_remove (fst (shared c)) (snd (shared c)) [97, 0] = Some (SUCCESS, Some 2, hp2, h2) \<and>
    hi_get h2 [97, 0] = Some (SUCCESS, Some 1, h2)"
proof -
  have "str_key [97, 0]"
    by (simp add: str_key_def)
  from concurrent_inserts_race [OF ex_keys(1) ex_set_ok _ _ ex_ok(1) this, of COLL_ENG_LIST 0 1 2]
  show ?thesis
    by simp
qed

context key_domain
begin

lemma mtf_get_undefined:
  assumes "list_inv V cmp h" and "coll_eng h = COLL_ENG_LIST_MTF" and "V k"
  shows "\<exists>c. steps (clients (hp, h) [[Get k]]) c \<and> undefined_at 0 c"
proof -
  obtain r h' where "get_body k (hp, h) = Some (r, hp, h')"
    using list_engine.get_missing [OF assms(1,3)] list_engine.get_found [OF assms(1,3)]
    by (cases "map_of_table (list_table h) k") (fastforce simp: get_body_def)+
  then have "\<exists>c. schedule [0, 0, 0] (clients (hp, h) [[Get k]]) = Next c \<and> undefined_at 0 c"
    using assms(2) by (simp add: run_defs lhi_get_list_ts_def undefined_at_def)
  then show ?thesis
    using schedule_steps by blast
qed

end

section \<open>Arrays\<close>

lemma array_fini_stuck:
  assumes "array_eng (coll_eng h)"
  shows "\<exists>c. steps (start (hp, h) [hi_fini_ts Return]) c \<and> stuck c"
proof -
  have "\<not> list_eng (coll_eng h)"
    using assms by (cases "coll_eng h") simp_all
  then have "\<exists>c. schedule [0, 0] (start (hp, h) [hi_fini_ts Return]) = Next c \<and> stuck c"
    using assms
    by (simp add: run_defs hi_fini_ts_def lhi_fini_internal_ts_def lhi_fini_array_ts_def Let_def stuckI)
  then show ?thesis
    using schedule_steps by blast
qed

context key_domain
begin

text \<open>Insertion into an empty table of arrays, without memory for the key.\<close>

lemma array_insert_no_memory:
  assumes inv: "array_inv V cmp h" and "V k" and empty: "map_of_table (array_table h) = Map.empty"
    and oom: "outcome hp = (\<lambda>_. Malloc_fail)"
  shows "lhi_get_array h k = Some (HI_ERR_NOKEY, None, h)"
    and "hash_bucket h k = Some (slot_of h k)" and "array_grow hp h (slot_of h k) = Some (True, hp, h)"
    and "\<exists>hp'. array_put hp h (slot_of h k) k d = Some (HI_ERR_SYSTEM, hp', h)"
proof -
  let ?i = "slot_of h k"
  obtain slots where bucket: "?i < length (bucket_array h)" "hash_bucket h k = Some ?i"
    "bucket_array h ! ?i = Some slots" "length slots = unat (slot_max h ! ?i)"
    "slot_max h ! ?i \<noteq> 0" "unat (slot_size h ! ?i) = length (slot_entries slots)"
    "rd (bucket_array h) ?i = Some (Some slots)" "rd (slot_size h) ?i = Some (slot_size h ! ?i)"
    "rd (slot_max h) ?i = Some (slot_max h ! ?i)"
    by (rule array_inv_bucket [OF inv, of k])
  have "concat (array_table h) = []"
    using empty by (simp add: map_of_table_def)
  moreover have "slot_entries slots = array_table h ! ?i" "?i < length (array_table h)"
    using bucket(1,3) by (simp_all add: array_table_def bucket_entries_def)
  ultimately have entries: "slot_entries slots = []"
    using nth_mem by fastforce
  then have "slot_size h ! ?i = 0"
    using bucket(6) by (simp add: unat_eq_0)
  then show "array_grow hp h ?i = Some (True, hp, h)"
    using bucket(5,8,9) by (simp add: array_grow_def)
  have "0 < length slots"
    using bucket(4,5) by (simp add: unat_gt_0)
  then have "slots ! 0 = None"
    using entries by (cases slots) (auto simp: slot_entry_def split: option.splits)
  then obtain j where "first_free (Some slots) [0 ..< length slots] = Some (Some j)"
    using first_free_spec [of 0 slots] \<open>0 < length slots\<close> by auto
  moreover obtain r hp' where "xalloc_align hp = (r, 0, hp')" "r \<noteq> 0"
    using oom by (simp add: xalloc_align_def malloc_def ENOMEM_def split: if_splits)
  ultimately show "\<exists>hp'. array_put hp h ?i k d = Some (HI_ERR_SYSTEM, hp', h)"
    using bucket(4,7-9) by (simp add: array_put_def)
  show "lhi_get_array h k = Some (HI_ERR_NOKEY, None, h)"
    using array_get_missing [OF inv \<open>V k\<close>] empty by simp
  show "hash_bucket h k = Some ?i"
    by (rule bucket(2))
qed

lemma array_insert_stuck:
  assumes "array_inv V cmp h" and "rehash_auto h = 0" and "V k" and "map_of_table (array_table h) = Map.empty"
    and "outcome hp = (\<lambda>_. Malloc_fail)"
  shows "\<exists>c. steps (clients (hp, h) [[Ins k d], [Get k]]) c \<and> stuck c \<and>
    threads c ! 0 = Return [(HI_ERR_SYSTEM, None)]"
proof -
  note fail = array_insert_no_memory [OF assms(1,3-5)]
  obtain hp' where put: "array_put hp h (slot_of h k) k d = Some (HI_ERR_SYSTEM, hp', h)"
    using fail(4) by blast
  have "coll_eng h = COLL_ENG_ARRAY"
    using assms(1) by (simp add: array_inv_def)
  then have "\<exists>c. schedule [0, 0, 0, 0, 0, 0, 0, 0, 0, 1, 1] (clients (hp, h) [[Ins k d], [Get k]]) = Next c \<and>
      stuck c \<and> threads c ! 0 = Return [(HI_ERR_SYSTEM, None)]"
    using fail(1-3) put assms(2)
    by (simp add: run_defs lhi_insert_array_ts_def lhi_get_array_ts_def stuckI hi_defs)
  then show ?thesis
    using schedule_steps by blast
qed

end

text \<open>
  C20. In a table of move-to-front chains every get unlocks the mutex that it never locked, which is
  undefined. In a table of arrays \<open>hi_fini\<close> locks the mutex twice and blocks for ever, and an insertion
  that finds no memory for its key returns \<open>HI_ERR_SYSTEM\<close> with the mutex locked, so that the next
  operation of any thread blocks for ever.
\<close>

theorem broken_locks:
  assumes "key_domain V cmp" and "set_ok cmp s" and "set_ok cmp s'" and "no_oom hp" and "V k"
    and "set_coll_eng s = COLL_ENG_LIST_MTF" and "set_coll_eng s' = COLL_ENG_ARRAY" and "set_rehash_auto s' = 0"
  shows "\<exists>hp1 h1 hp2 h2. hi_create hp s = Some (SUCCESS, hp1, Some h1) \<and>
    (\<exists>c. steps (clients (hp1, h1) [[Get k]]) c \<and> undefined_at 0 c) \<and>
    hi_create hp s' = Some (SUCCESS, hp2, Some h2) \<and>
    (\<exists>c. steps (start (hp2, h2) [hi_fini_ts Return]) c \<and> stuck c) \<and>
    (\<exists>c. steps (clients (hp2\<lparr>outcome := (\<lambda>_. Malloc_fail)\<rparr>, h2) [[Ins k d], [Get k]]) c \<and> stuck c \<and>
      threads c ! 0 = Return [(HI_ERR_SYSTEM, None)])"
proof -
  obtain hp1 h1 where 1: "hi_create hp s = Some (SUCCESS, hp1, Some h1)" "list_inv V cmp h1"
    "coll_eng h1 = COLL_ENG_LIST_MTF"
    using key_domain.list_create [OF assms(1,2) _ assms(4)] assms(6) by metis
  obtain hp2 h2 where 2: "hi_create hp s' = Some (SUCCESS, hp2, Some h2)" "array_inv V cmp h2"
    "map_of_table (array_table h2) = Map.empty" "rehash_auto h2 = 0"
    using key_domain.array_create [OF assms(1,3,7,4)] assms(8) by metis
  have "array_eng (coll_eng h2)"
    using 2(2) by (simp add: array_inv_def)
  from array_fini_stuck [OF this, of hp2]
    key_domain.array_insert_stuck [OF assms(1) 2(2,4) assms(5) 2(3), of "hp2\<lparr>outcome := (\<lambda>_. Malloc_fail)\<rparr>" d]
    key_domain.mtf_get_undefined [OF assms(1) 1(2,3) assms(5), of hp1]
  show ?thesis
    using 1(1) 2(1) by simp
qed

theorem broken_locks_witness:
  "\<exists>hp1 h1 hp2 h2. hi_create ex_heap (ex_set COLL_ENG_LIST_MTF 0) = Some (SUCCESS, hp1, Some h1) \<and>
    (\<exists>c. steps (clients (hp1, h1) [[Get [97, 0]]]) c \<and> undefined_at 0 c) \<and>
    hi_create ex_heap (ex_set COLL_ENG_ARRAY 0) = Some (SUCCESS, hp2, Some h2) \<and>
    (\<exists>c. steps (start (hp2, h2) [hi_fini_ts Return]) c \<and> stuck c) \<and>
    (\<exists>c. steps (clients (hp2\<lparr>outcome := (\<lambda>_. Malloc_fail)\<rparr>, h2) [[Ins [97, 0] 1], [Get [97, 0]]]) c \<and> stuck c \<and>
      threads c ! 0 = Return [(HI_ERR_SYSTEM, None)])"
proof -
  have "str_key [97, 0]"
    by (simp add: str_key_def)
  from broken_locks [OF ex_keys(1) ex_set_ok [of COLL_ENG_LIST_MTF 0] ex_set_ok [of COLL_ENG_ARRAY 0] ex_ok(1) this, of 1]
  show ?thesis
    by simp
qed

end
