(* ===== verification/Hi_iter_ts.thy ===== *)
theory Hi_iter_ts
  imports Hi_lock_faults
begin

text \<open>
  The locks of the iterators in the THREADSAFE build: the functions of the engines that copy one
  bucket into arrays. The chains and the arrays are copied under the mutex; for a tree the root is read
  before the lock of the tree is taken, as in \<open>lhi_get_rbtree\<close>.
\<close>

section \<open>Copying a bucket\<close>

type_synonym array_reply = "int \<times> lhi_bucket_array"

definition list_array_body :: "nat \<Rightarrow> lhi_bucket_array \<Rightarrow> shared_table \<Rightarrow> (array_reply \<times> shared_table) option" where
  "list_array_body bucket a = (\<lambda>(hp, h). do {
     (ret, hp, a) \<leftarrow> lhi_list_bucket_to_array hp h bucket a;
     Some ((ret, a), hp, h)
   })"

definition lhi_list_bucket_to_array_ts ::
    "nat \<Rightarrow> lhi_bucket_array \<Rightarrow> (array_reply \<Rightarrow> 'r table_prog) \<Rightarrow> 'r table_prog" where
  "lhi_list_bucket_to_array_ts bucket a k = branch (\<lambda>h.
     if unat (table_size h) < bucket then k (HI_ERR_RANGE, a)
     else critical Mutex (list_array_body bucket a) k)"

definition array_array_body :: "nat \<Rightarrow> lhi_bucket_array \<Rightarrow> shared_table \<Rightarrow> (array_reply \<times> shared_table) option" where
  "array_array_body bucket a = (\<lambda>(hp, h). do {
     (ret, hp, a) \<leftarrow> lhi_array_bucket_to_array hp h bucket a;
     Some ((ret, a), hp, h)
   })"

definition lhi_array_bucket_to_array_ts ::
    "nat \<Rightarrow> lhi_bucket_array \<Rightarrow> (array_reply \<Rightarrow> 'r table_prog) \<Rightarrow> 'r table_prog" where
  "lhi_array_bucket_to_array_ts bucket a k = critical Mutex (array_array_body bucket a) k"

text \<open>What is done under the lock of the tree, with the pointer to the root read before.\<close>

definition tree_array_body :: "key \<Rightarrow> nat \<Rightarrow> lhi_bucket_array \<Rightarrow> shared_table \<Rightarrow> (array_reply \<times> shared_table) option" where
  "tree_array_body rbnode tree a = (\<lambda>(hp, h). do {
     max \<leftarrow> rd (bucket_size h) tree;
     if max = 0 then Some ((HI_ERR_NODATA, a), hp, h)
     else do {
       (ret, hp, a) \<leftarrow> lhi_bucket_array_alloc hp a (ucast max);
       if ret \<noteq> 0 then Some ((ret, a), hp, h)
       else do {
         root \<leftarrow> rd (trees h) tree;
         node \<leftarrow> node_at rbnode root;
         (_, a) \<leftarrow> hi_rbtree_traverse node 0 a;
         Some ((0, a), hp, h)
       }
     }
   })"

definition lhi_rbtree_bucket_to_array_ts ::
    "nat \<Rightarrow> lhi_bucket_array \<Rightarrow> (array_reply \<Rightarrow> 'r table_prog) \<Rightarrow> 'r table_prog" where
  "lhi_rbtree_bucket_to_array_ts tree a k = Atomic (\<lambda>(hp, h).
     if unat (table_size h) < tree then Some ((hp, h), k (HI_ERR_RANGE, a))
     else do {
       root \<leftarrow> rd (trees h) tree;
       case root_ptr root of
         None \<Rightarrow> Some ((hp, h), k (HI_ERR_NODATA, a))
       | Some rbnode \<Rightarrow> Some ((hp, h), Rdlock (Rwlock tree) (Atomic (\<lambda>s. do {
           (r, s) \<leftarrow> tree_array_body rbnode tree a s;
           Some (s, Unlock (Rwlock tree) (k r))
         })))
     })"

section \<open>Without other threads\<close>

lemma node_at_root: "root_ptr t = Some p \<Longrightarrow> node_at p t = Some t"
  by (cases t) (simp_all add: root_ptr_def)

text \<open>When nothing happens between reading the root and taking the lock, the copy is that of one thread.\<close>

lemma tree_array_alone:
  assumes "rd (trees h) tree = Some t" and "root_ptr t = Some p" and "\<not> unat (table_size h) < tree"
  shows "tree_array_body p tree a (hp, h) =
    map_option (\<lambda>(ret, hp, a). ((ret, a), hp, h)) (lhi_rbtree_bucket_to_array hp h tree a)"
proof -
  have "t \<noteq> RB_NULL"
    using assms(2) by (auto simp: root_ptr_def)
  then show ?thesis
    using assms node_at_root [OF assms(2)]
    by (auto simp: tree_array_body_def lhi_rbtree_bucket_to_array_def map_option_case
        split: option.splits bind_splits prod.splits)
qed

section \<open>With another thread\<close>

definition no_array :: lhi_bucket_array where
  "no_array = \<lparr>ba_data = None, ba_keys = None, ba_keys_length = None, nmemb = 0\<rparr>"

definition copy_tree :: "array_reply table_prog" where
  "copy_tree = lhi_rbtree_bucket_to_array_ts 0 no_array Return"

lemma insert_third_heap:
  "\<exists>hp'. lhi_insert_rbtree ex_heap two_keys [3, 0] 30 = Some (SUCCESS, hp', three_keys\<lparr>no_objects := 3\<rparr>) \<and> no_oom hp'"
proof -
  have "\<exists>hp'. lhi_insert_rbtree ex_heap two_keys [3, 0] 30 = Some (SUCCESS, hp',
      two_keys\<lparr>trees := trees three_keys, bucket_size := bucket_size three_keys, no_objects := 3\<rparr>) \<and> no_oom hp'"
    by (simp add: lhi_insert_rbtree_def two_keys_facts entry_def cmp_123 lhi_rb_entry_new_def malloc_def ex_heap_def
        three_keys_def no_oom_def) (simp add: two_keys_def)
  then show ?thesis
    by (simp add: three_keys_def)
qed

text \<open>The old root is a leaf of the new tree: only its entry is copied, into arrays for three.\<close>

lemma copy_old_root:
  assumes "no_oom hp"
  shows "\<exists>hp' a. tree_array_body [1, 0] 0 no_array (hp, three_keys\<lparr>no_objects := n\<rparr>) =
      Some ((0, a), hp', three_keys\<lparr>no_objects := n\<rparr>) \<and> ba_keys a = Some [Some [1, 0], None, None]"
proof -
  obtain j1 hp1 where 1: "malloc hp = (Some j1, hp1)" "no_oom hp1"
    by (rule malloc_no_oom [OF assms])
  obtain j2 hp2 where 2: "malloc hp1 = (Some j2, hp2)" "no_oom hp2"
    by (rule malloc_no_oom [OF 1(2)])
  obtain j3 hp3 where 3: "malloc hp2 = (Some j3, hp3)" "no_oom hp3"
    by (rule malloc_no_oom [OF 2(2)])
  show ?thesis
    using 1(1) 2(1) 3(1)
    by (simp add: tree_array_body_def three_keys_def rd_Some lhi_bucket_array_alloc_def entry_def ba_write_def arr_write_def)
      (simp add: numeral_3_eq_3)
qed

lemma copy_misses:
  "\<exists>c r. steps (start (ex_heap, two_keys) [copy_tree, lhi_insert_rbtree_ts [3, 0] 30 (\<lambda>ret. Return (ret, no_array))]) c \<and>
     threads c = [Return r, Return (SUCCESS, no_array)] \<and> fst r = 0 \<and>
     ba_keys (snd r) = Some [Some [1, 0], None, None]"
proof -
  obtain hp' where ins: "lhi_insert_rbtree ex_heap two_keys [3, 0] 30 = Some (SUCCESS, hp', three_keys\<lparr>no_objects := 3\<rparr>)"
    and oom: "no_oom hp'"
    using insert_third_heap by blast
  obtain hp2 a where copy: "tree_array_body [1, 0] 0 no_array (hp', three_keys\<lparr>no_objects := no_objects two_keys + 1\<rparr>) =
      Some ((0, a), hp2, three_keys\<lparr>no_objects := no_objects two_keys + 1\<rparr>)" "ba_keys a = Some [Some [1, 0], None, None]"
    using copy_old_root [OF oom] by blast
  let ?run = "[0, 1, 1, 1, 1, 1, 1, 1, 0, 0, 0]"
  have "\<exists>c r. schedule ?run (start (ex_heap, two_keys) [copy_tree, lhi_insert_rbtree_ts [3, 0] 30 (\<lambda>ret. Return (ret, no_array))]) = Next c \<and>
     threads c = [Return r, Return (SUCCESS, no_array)] \<and> fst r = 0 \<and>
     ba_keys (snd r) = Some [Some [1, 0], None, None]"
    using ins copy
    by (simp add: run_defs two_keys_facts copy_tree_def lhi_rbtree_bucket_to_array_ts_def lhi_insert_rbtree_ts_def
        tree_insert_body_def count_body_def root_ptr_def entry_def hi_defs)
  then show ?thesis
    using schedule_steps by blast
qed

lemma remove_root_heap:
  "\<exists>hp' h'. lhi_remove_rbtree ex_heap two_keys [1, 0] = Some (SUCCESS, Some 10, hp', h') \<and> no_oom hp' \<and>
     rd (bucket_size h') 0 = Some 1 \<and> (\<exists>t. rd (trees h') 0 = Some t \<and> node_at [1, 0] t = None)"
  by (simp add: lhi_remove_rbtree_def two_keys_facts entry_def cmp_123)
    (simp add: two_keys_def rd_Some ex_heap_def no_oom_def free_def)

lemma copy_freed:
  "\<exists>c. steps (start (ex_heap, two_keys) [copy_tree, lhi_remove_rbtree_ts [1, 0] (\<lambda>r. Return (fst r, no_array))]) c \<and>
     undefined_at 0 c"
proof -
  obtain hp' h' t where rem: "lhi_remove_rbtree ex_heap two_keys [1, 0] = Some (SUCCESS, Some 10, hp', h')" "no_oom hp'"
    "rd (bucket_size h') 0 = Some 1" "rd (trees h') 0 = Some t" "node_at [1, 0] t = None"
    using remove_root_heap by blast
  obtain j1 hp1 where 1: "malloc hp' = (Some j1, hp1)" "no_oom hp1"
    by (rule malloc_no_oom [OF rem(2)])
  obtain j2 hp2 where 2: "malloc hp1 = (Some j2, hp2)" "no_oom hp2"
    by (rule malloc_no_oom [OF 1(2)])
  obtain j3 hp3 where 3: "malloc hp2 = (Some j3, hp3)" "no_oom hp3"
    by (rule malloc_no_oom [OF 2(2)])
  have copy: "tree_array_body [1, 0] 0 no_array (hp', h'\<lparr>no_objects := n\<rparr>) = None" for n
    using rem(3-5) 1(1) 2(1) 3(1) by (simp add: tree_array_body_def lhi_bucket_array_alloc_def)
  have "\<exists>c. schedule [0, 1, 1, 1, 1, 0] (start (ex_heap, two_keys) [copy_tree, lhi_remove_rbtree_ts [1, 0] (\<lambda>r. Return (fst r, no_array))]) = Next c \<and>
     undefined_at 0 c"
    using rem(1) copy
    by (simp add: run_defs two_keys_facts copy_tree_def lhi_rbtree_bucket_to_array_ts_def lhi_remove_rbtree_ts_def
        tree_remove_body_def root_ptr_def entry_def hi_defs undefined_at_def)
  then show ?thesis
    using schedule_steps by blast
qed

text \<open>
  The copy of a tree for the iterator reads the root before it takes the lock of the tree. When
  another thread inserts a key in between, the copy succeeds with arrays of which only the part of
  the old root is filled; when another thread removes the old root, it follows a freed node.
\<close>

lemma rbtree_array_stale_root:
  "(\<exists>c r. steps (start (ex_heap, two_keys) [copy_tree, lhi_insert_rbtree_ts [3, 0] 30 (\<lambda>ret. Return (ret, no_array))]) c \<and>
     threads c = [Return r, Return (SUCCESS, no_array)] \<and> fst r = 0 \<and> ba_keys (snd r) = Some [Some [1, 0], None, None]) \<and>
   (\<exists>c. steps (start (ex_heap, two_keys) [copy_tree, lhi_remove_rbtree_ts [1, 0] (\<lambda>r. Return (fst r, no_array))]) c \<and>
     undefined_at 0 c)"
  using copy_misses copy_freed by blast

end
