(* ===== verification/Hi_rehash_ts.thy ===== *)
theory Hi_rehash_ts
  imports Hi_iter_ts
begin

text \<open>
  Rehashing in the THREADSAFE build (\<open>hi_rehash\<close> of \<open>lib/lib_init.c\<close>) as a program of many steps: the
  buckets are copied one at a time, each under the lock the engine takes for it, the entries go into a
  table that only this thread knows, and at the end the old table is destroyed and the handle
  overwritten. No lock covers the whole, so that another thread can change the table in between.

  Alone, the program does what the sequential \<open>hi_rehash\<close> does; with another thread it can lose an
  insertion. Three things are not in the model: a key that another thread removes, and frees, after the
  pointer to it was copied (the copy holds its bytes); a second rehash at the same time; and threads
  that wait for the old mutex while the handle gets the new one.
\<close>

section \<open>The program\<close>

type_synonym 'r to_array_ts = "nat \<Rightarrow> lhi_bucket_array \<Rightarrow> (array_reply \<Rightarrow> 'r table_prog) \<Rightarrow> 'r table_prog"

definition get_next_ts :: "coll_eng \<Rightarrow> 'r to_array_ts option" where
  "get_next_ts e =
     (if list_eng e then Some lhi_list_bucket_to_array_ts
      else if array_eng e then Some lhi_array_bucket_to_array_ts
      else if e = COLL_ENG_RBTREE then Some lhi_rbtree_bucket_to_array_ts
      else None)"

lemma iterator_out_nmemb:
  "iterator_out hp it = Some (r, hp', it', e) \<Longrightarrow> it_bucket it' = it_bucket it \<and> nmemb (it_a it') = nmemb (it_a it) - 1"
  by (auto simp: iterator_out_def Let_def bind_Some_iff)

text \<open>
  The loop of \<open>hi_rehash\<close> with the iterator inside it. In mode \<open>scan\<close> the iterator looks for the next
  bucket with entries, otherwise it hands out what it has copied. \<open>n\<close> is the size of the old table,
  which only another rehash changes; \<open>first\<close> tells that the iterator is still being created. The new
  table has its own locks, which no other thread takes, so an insertion into it is one step. \<open>k\<close> takes
  the code with which the iterator stops. After a failed insertion the code frees the new handle and
  writes to it (with the array engine it blocks before, in \<open>hi_fini\<close>, see \<open>Hi_lock_faults\<close>).
\<close>

function rehash_loop :: "'r to_array_ts \<Rightarrow> nat \<Rightarrow> bool \<Rightarrow> bool \<Rightarrow> hi_iterator \<Rightarrow> hi_handle \<Rightarrow>
    (int \<Rightarrow> 'r table_prog) \<Rightarrow> (bool \<Rightarrow> int \<Rightarrow> hi_iterator \<Rightarrow> hi_handle \<Rightarrow> 'r table_prog) \<Rightarrow> 'r table_prog" where
  "rehash_loop to_array n first scan it new ret k =
     (if scan then
        if it_bucket it < n then
          to_array (it_bucket it) (it_a it) (\<lambda>(res, a).
            if res = 0 then rehash_loop to_array n False False (it\<lparr>it_a := a\<rparr>) new ret k
            else if res \<noteq> HI_ERR_NODATA then k first res (it\<lparr>it_a := a\<rparr>) new
            else rehash_loop to_array n first True (it\<lparr>it_a := a, it_bucket := it_bucket it + 1\<rparr>) new ret k)
        else k first HI_ERR_NODATA it new
      else if nmemb (it_a it) \<noteq> 0 then Atomic (\<lambda>(hp, h). do {
        (_, hp, it, e) \<leftarrow> iterator_out hp it;
        (data, key, keylen) \<leftarrow> e;
        (r, hp, new) \<leftarrow> rehash_body (hi_insert_at 0) new hp key keylen data;
        if r = SUCCESS then Some ((hp, h), rehash_loop to_array n False False it new ret k)
        else do {
          let hp = hi_iterator_fini hp it;
          (r', hp) \<leftarrow> hi_fini hp new;
          if r' = 0 then None else Some ((hp, h), ret r)
        }
      })
      else Atomic (\<lambda>(hp, h). case lhi_bucket_array_free hp (it_a it) of (hp, a) \<Rightarrow>
        (let it = it\<lparr>it_a := a, it_bucket := it_bucket it + 1\<rparr>
         in Some ((hp, h), if it_bucket it < n then rehash_loop to_array n False True it new ret k
              else k False HI_ERR_NODATA it new))))"
  by pat_completeness auto

termination
proof (relation "inv_image (less_than <*lex*> less_than <*lex*> less_than)
    (\<lambda>(to_array, n, first, scan, it, new, ret, k). (n - it_bucket it, if scan then 1 else 0, unat (nmemb (it_a it))))")
qed (auto dest!: iterator_out_nmemb simp: unat_minus_one unat_gt_0 intro: diff_less)

declare rehash_loop.simps [simp del]

text \<open>
  After the loop: the iterator is freed, and when it has delivered everything, the old table is
  destroyed and the handle overwritten.
\<close>

definition rehash_finish :: "int \<Rightarrow> (int \<Rightarrow> 'r table_prog) \<Rightarrow> bool \<Rightarrow> int \<Rightarrow> hi_iterator \<Rightarrow> hi_handle \<Rightarrow> 'r table_prog" where
  "rehash_finish auto_rehash ret first r it new =
     (if first then Atomic (\<lambda>(hp, h). Some ((free hp, h), ret r))
      else Atomic (\<lambda>(hp, h). Some ((hi_iterator_fini hp it, h),
        if r \<noteq> HI_ERR_NODATA then ret r
        else lhi_fini_internal_ts (\<lambda>_. Atomic (\<lambda>(hp, h).
          Some ((hp, new\<lparr>rehash_auto := auto_rehash\<rparr>), ret SUCCESS))))))"

text \<open>
  Up to the loop everything is private to the thread, apart from the settings of the table.
  \<open>mutex_init\<close> and \<open>rwlock_init\<close> are what the thread library returns for the locks of the new table.
\<close>

definition hi_rehash_ts :: "int \<Rightarrow> (nat \<Rightarrow> int) \<Rightarrow> u32 \<Rightarrow> (int \<Rightarrow> 'r table_prog) \<Rightarrow> 'r table_prog" where
  "hi_rehash_ts mutex_init rwlock_init new_table_size ret = Atomic (\<lambda>(hp, h).
     (case lhi_create_vanilla_hdnl hp of
        (r, hp, None) \<Rightarrow> Some ((hp, h), ret r)
      | (r, hp, Some new) \<Rightarrow>
          (let new = (lhi_transform_hndl_2_hndl h new)\<lparr>table_size := new_table_size\<rparr>
           in case xalloc_align hp of (r, junk, hp) \<Rightarrow>
             if r \<noteq> 0 then Some ((hp, h), ret HI_ERR_SYSTEM)
             else case lhi_pthread_mutex_init hp mutex_init of (r, _, hp) \<Rightarrow>
               if r \<noteq> 0 then Some ((hp, h), ret HI_ERR_SYSTEM)
               else do {
                 let new = new\<lparr>bucket_size := replicate (unat new_table_size) junk, no_objects := 0\<rparr>;
                 (r, _, hp, new) \<leftarrow> (if coll_eng new = COLL_ENG_RBTREE
                   then lhi_create_eng_rbtree_ts rwlock_init hp new
                   else do { (r, hp, new) \<leftarrow> create_eng hp new; Some (r, False, hp, new) });
                 if r \<noteq> SUCCESS then Some ((hp, h), ret r)
                 else (case malloc hp of
                     (None, hp) \<Rightarrow> Some ((hp, h), ret HI_ERR_SYSTEM)
                   | (Some _, hp) \<Rightarrow>
                       (case get_next_ts (coll_eng h) of
                          None \<Rightarrow> Some ((free hp, h), ret HI_ERR_INTERNAL)
                        | Some to_array \<Rightarrow> Some ((hp, h),
                            rehash_loop to_array (unat (table_size h)) True True
                              \<lparr>it_bucket = 0, it_a = no_array\<rparr> (new\<lparr>rehash_auto := 0\<rparr>) ret
                              (rehash_finish (rehash_auto new) ret))))
               })))"

section \<open>Without other threads\<close>

text \<open>The only thread goes from one point of its program to another; it holds no lock at either.\<close>

definition runs :: "shared_table \<Rightarrow> 'r table_prog \<Rightarrow> shared_table \<Rightarrow> 'r table_prog \<Rightarrow> bool" where
  "runs s p s' p' \<longleftrightarrow> steps (start s [p]) (start s' [p'])"

lemma runs_refl: "runs s p s p"
  by (simp add: runs_def)

lemma runs_trans: "runs s p s' p' \<Longrightarrow> runs s' p' s'' p'' \<Longrightarrow> runs s p s'' p''"
  unfolding runs_def by (rule steps_trans)

lemma runs_eq: "runs s p s' q \<Longrightarrow> q = q' \<Longrightarrow> runs s p s' q'"
  by simp

lemma runs_atomic: "f s = Some (s', p') \<Longrightarrow> runs s (Atomic f) s' p'"
  unfolding runs_def by (rule schedule_steps [of "[0]"]) (simp add: start_def move_def)

lemma runs_branch: "runs (hp, h) (branch p) (hp, h) (p h)"
  unfolding branch_def by (rule runs_atomic) simp

lemma runs_critical: "body s = Some (x, s') \<Longrightarrow> runs s (critical l body k) s' (k x)"
  unfolding runs_def
  by (rule schedule_steps [of "[0, 0, 0]"]) (simp add: start_def move_def critical_def locked_def fun_upd_idem)

lemma list_array_runs:
  assumes "lhi_list_bucket_to_array hp h b a = Some (r, hp', a')" and "b < unat (table_size h)"
  shows "runs (hp, h) (lhi_list_bucket_to_array_ts b a k) (hp', h) (k (r, a'))"
proof -
  have "runs (hp, h) (critical Mutex (list_array_body b a) k) (hp', h) (k (r, a'))"
    by (rule runs_critical) (simp add: list_array_body_def assms(1))
  then show ?thesis
    unfolding lhi_list_bucket_to_array_ts_def using assms(2) by (intro runs_trans [OF runs_branch]) simp
qed

lemma list_array_nmemb:
  "lhi_list_bucket_to_array hp h b a = Some (0, hp', a') \<Longrightarrow> nmemb a' \<noteq> 0"
proof -
  have wrote: "ba_write a1 i j d k l = Some a2 \<Longrightarrow> nmemb a2 = nmemb a1" for a1 i j d k l a2
    by (auto simp: ba_write_def bind_Some_iff)
  have fill: "fill_from_chain chain i a1 = Some a2 \<Longrightarrow> nmemb a2 = nmemb a1" for chain i a1 a2
    by (induction chain i a1 rule: fill_from_chain.induct) (auto simp: bind_Some_iff dest: wrote)
  have alloc: "lhi_bucket_array_alloc hp a n = Some (0, hp1, a1) \<Longrightarrow> n \<noteq> 0 \<and> nmemb a1 = n" for n hp1 a1
    by (auto simp: lhi_bucket_array_alloc_def hi_defs split: if_splits prod.splits option.splits)
  assume "lhi_list_bucket_to_array hp h b a = Some (0, hp', a')"
  then show ?thesis
    by (auto simp: lhi_list_bucket_to_array_def bind_Some_iff hi_defs split: if_splits dest!: alloc fill)
qed

text \<open>The search for the next bucket is that of the iterator.\<close>

lemma scan_runs:
  assumes "next_bucket lhi_list_bucket_to_array hp h it = Some (r, hp', it')"
  shows "runs (hp, h) (rehash_loop lhi_list_bucket_to_array_ts (unat (table_size h)) first True it new ret k) (hp', h)
      (if r = 0 then rehash_loop lhi_list_bucket_to_array_ts (unat (table_size h)) False False it' new ret k
       else k first r it' new) \<and> (r = 0 \<longrightarrow> nmemb (it_a it') \<noteq> 0)"
  using assms
proof (induction "lhi_list_bucket_to_array" hp h it rule: next_bucket.induct)
  case (1 hp h it)
  let ?loop = "\<lambda>first scan it. rehash_loop lhi_list_bucket_to_array_ts (unat (table_size h)) first scan it new ret k"
  show ?case
  proof (cases "it_bucket it < unat (table_size h)")
    case False
    then show ?thesis
      using "1.prems" by (simp add: next_bucket.simps [of _ hp] rehash_loop.simps [of _ _ _ True] runs_refl hi_defs)
  next
    case True
    then obtain r1 hp1 a1 where got: "lhi_list_bucket_to_array hp h (it_bucket it) (it_a it) = Some (r1, hp1, a1)"
      using "1.prems" by (auto simp: next_bucket.simps [of _ hp] bind_Some_iff)
    have step: "runs (hp, h) (?loop first True it) (hp1, h)
      (if r1 = 0 then ?loop False False (it\<lparr>it_a := a1\<rparr>)
       else if r1 \<noteq> HI_ERR_NODATA then k first r1 (it\<lparr>it_a := a1\<rparr>) new
       else ?loop first True (it\<lparr>it_a := a1, it_bucket := it_bucket it + 1\<rparr>))"
      by (subst rehash_loop.simps, simp only: if_True True) (rule runs_eq [OF list_array_runs [OF got True]], simp)
    show ?thesis
    proof (cases "r1 = HI_ERR_NODATA")
      case True
      then have "r1 \<noteq> 0"
        by (simp add: hi_defs)
      have "next_bucket lhi_list_bucket_to_array hp1 h (it\<lparr>it_a := a1, it_bucket := it_bucket it + 1\<rparr>) = Some (r, hp', it')"
        using "1.prems" got \<open>it_bucket it < _\<close> \<open>r1 \<noteq> 0\<close> True by (simp add: next_bucket.simps [of _ hp])
      note rest = "1.hyps" [OF \<open>it_bucket it < _\<close> got refl refl \<open>r1 \<noteq> 0\<close> _ this]
      show ?thesis
        using rest runs_trans [OF step] \<open>r1 \<noteq> 0\<close> True by auto
    next
      case False
      then have "r = r1" "hp' = hp1" "it' = it\<lparr>it_a := a1\<rparr>"
        using "1.prems" got \<open>it_bucket it < _\<close> by (auto simp: next_bucket.simps [of _ hp] split: if_splits)
      then show ?thesis
        using step False list_array_nmemb got by auto
    qed
  qed
qed

lemma deliver_runs:
  assumes "nmemb (it_a it) \<noteq> 0" and "iterator_out hp it = Some (r, hp1, it1, Some (data, key, keylen))"
    and "rehash_body (hi_insert_at 0) new hp1 key keylen data = Some (SUCCESS, hp2, new2)"
  shows "runs (hp, h) (rehash_loop to_array n first False it new ret k) (hp2, h)
    (rehash_loop to_array n False False it1 new2 ret k)"
  by (subst rehash_loop.simps, simp only: if_False if_True assms(1) not_False_eq_True)
    (rule runs_atomic, simp add: assms(2,3))

text \<open>The loop is that of \<open>hi_rehash\<close>.\<close>

lemma loop_runs:
  assumes "visit_loop (rehash_body (hi_insert_at 0)) hp h it new = Some (False, r, hp', it', new')"
    and "get_next (coll_eng h) = Some list_get_next_bucket"
  shows "runs (hp, h) (rehash_loop lhi_list_bucket_to_array_ts (unat (table_size h)) False False it new ret k)
    (hp', h) (k False r it' new')"
  using assms
proof (induction "rehash_body (hi_insert_at 0)" hp h it new rule: visit_loop.induct)
  case (1 hp h it new)
  let ?loop = "\<lambda>scan it new. rehash_loop lhi_list_bucket_to_array_ts (unat (table_size h)) False scan it new ret k"
  obtain r1 hp1 it1 e where got: "hi_iterator_getnext hp h it = Some (r1, hp1, it1, e)"
    using "1.prems"(1) by (cases "hi_iterator_getnext hp h it") (auto simp: visit_loop.simps [of _ hp])
  have rest: "runs (hp0, h) (?loop False it0 new) (hp', h) (k False r it' new')"
    if "nmemb (it_a it0) \<noteq> 0" and out: "iterator_out hp0 it0 = Some (r1, hp1, it1, e)" for hp0 it0
  proof -
    obtain data key keylen where e: "e = Some (data, key, keylen)"
      using out by (auto simp: iterator_out_def Let_def bind_Some_iff)
    obtain r2 hp2 new2 where body: "rehash_body (hi_insert_at 0) new hp1 key keylen data = Some (r2, hp2, new2)"
      using "1.prems"(1) got e by (cases "rehash_body (hi_insert_at 0) new hp1 key keylen data") (auto simp: visit_loop.simps [of _ hp])
    have r2: "r2 = SUCCESS" and more: "visit_loop (rehash_body (hi_insert_at 0)) hp2 h it1 new2 = Some (False, r, hp', it', new')"
      using "1.prems"(1) got e body by (auto simp: visit_loop.simps [of _ hp] split: if_splits)
    note IH = "1.hyps" [OF got refl refl refl e refl refl body refl refl _ more "1.prems"(2)]
    show ?thesis
      by (rule runs_trans [OF deliver_runs [OF that(1) out [unfolded e] body [unfolded r2]]]) (use IH r2 in simp)
  qed
  show ?case
  proof (cases "nmemb (it_a it) \<noteq> 0")
    case True
    then show ?thesis
      using rest [OF True] got by (simp add: hi_iterator_getnext_def)
  next
    case False
    obtain hpf a where freed: "lhi_bucket_array_free hp (it_a it) = (hpf, a)"
      by (cases "lhi_bucket_array_free hp (it_a it)")
    let ?it = "it\<lparr>it_a := a, it_bucket := it_bucket it + 1\<rparr>"
    obtain r3 hp3 it3 where found: "next_bucket lhi_list_bucket_to_array hpf h ?it = Some (r3, hp3, it3)"
      "if r3 = 0 then iterator_out hp3 it3 = Some (r1, hp1, it1, e) else (r1, hp1, it1, e) = (r3, hp3, it3, None)"
      using got False freed "1.prems"(2)
      by (auto simp: hi_iterator_getnext_def list_get_next_bucket_def bind_Some_iff split: if_splits)
    have start: "runs (hp, h) (?loop False it new) (hpf, h)
        (if it_bucket ?it < unat (table_size h) then ?loop True ?it new else k False HI_ERR_NODATA ?it new)"
      using False by (subst rehash_loop.simps) (simp add: runs_atomic freed Let_def)
    show ?thesis
    proof (cases "it_bucket ?it < unat (table_size h)")
      case True
      note scan = scan_runs [OF found(1), of False new ret k]
      show ?thesis
      proof (cases "r3 = 0")
        case r3: True
        then show ?thesis
          using start True scan rest [of it3 hp3] found(2) by (auto intro: runs_trans)
      next
        case r3: False
        then have "(False, r, hp', it', new') = (False, r3, hp3, it3, new)"
          using "1.prems"(1) got found(2) by (simp add: visit_loop.simps [of _ hp])
        then show ?thesis
          using start True scan r3 by (auto intro: runs_trans)
      qed
    next
      case last: False
      then have "r3 = HI_ERR_NODATA" "hp3 = hpf" "it3 = ?it"
        using found(1) by (simp_all add: next_bucket.simps [of _ hpf])
      then have "(False, r, hp', it', new') = (False, HI_ERR_NODATA, hpf, ?it, new)"
        using "1.prems"(1) got found(2) by (simp add: visit_loop.simps [of _ hp] hi_defs)
      then show ?thesis
        using start last by simp
    qed
  qed
qed

text \<open>
  Rehashing a chained table that has entries, alone: as without locks, apart from the block of the
  mutex, which the new table gets and the old one gives back.
\<close>

lemma fini_list_runs:
  assumes "lhi_fini_list hp h = Some (r, hp', h)" and "list_eng (coll_eng h)"
  shows "runs (hp, h) (lhi_fini_internal_ts k) (free (free hp'), h) (k 0)"
  unfolding runs_def using assms
  by (intro schedule_steps [of "[0, 0, 0, 0, 0]"])
    (simp add: start_def move_def lhi_fini_internal_ts_def branch_def Let_def
      lhi_pthread_mutex_destroy_def locked_def fun_upd_idem)

text \<open>A single thread has one run.\<close>

lemma step_thread: "step t c c' \<Longrightarrow> t < length (threads c)"
  by (erule step.cases) simp_all

lemma run_alone:
  assumes "runs s p s' (Return r)" and "steps (start s [p]) c"
  shows "steps c (start s' [Return r])"
proof -
  let ?final = "start s' [Return r]"
  have "length (threads c) = 1 \<and> steps c ?final"
    using assms(2)
  proof (induction rule: steps_induct)
    case start
    then show ?case
      using assms(1) by (simp add: runs_def start_def)
  next
    case (step t c c')
    have "t = 0" and len: "length (threads c') = 1"
      using step.IH step_thread [OF step.hyps(2)] step_length [OF step.hyps(2)] by simp_all
    have "threads ?final ! 0 = Return r"
      by (simp add: start_def)
    then have "c \<noteq> ?final"
      using step.hyps(2) \<open>t = 0\<close> by (auto elim: step.cases)
    then obtain t' d where d: "step t' c d" "steps d ?final"
      using step.IH unfolding steps_def by (blast elim: converse_rtranclpE)
    then have "d = c'"
      using step_thread [OF d(1)] step.IH step.hyps(2) \<open>t = 0\<close> by (simp add: step_iff_move)
    then show ?case
      using len d(2) by simp
  qed
  then show ?thesis ..
qed

context key_domain
begin

lemma rehash_alone:
  assumes inv: "list_inv V cmp h" and "no_oom hp" and "n \<noteq> 0" and "no_objects h \<noteq> 0"
    and size: "unat (no_objects h) \<le> max_objects"
  shows "\<exists>hp' h'. runs (hp, h) (hi_rehash_ts 0 rwlock_init n ret) (hp', h') (ret SUCCESS) \<and> no_oom hp' \<and>
    list_inv V cmp h' \<and> map_of_table (list_table h') = map_of_table (list_table h) \<and>
    same_settings (h\<lparr>table_size := n\<rparr>) h' \<and> live hp' = live hp + 1"
proof -
  have eng: "list_eng (coll_eng h)" "coll_eng h \<noteq> COLL_ENG_RBTREE"
    and ok: "handle_ok V cmp h (list_table h)"
    using inv by (auto simp: list_inv_def)
  define new0 where "new0 = (lhi_transform_hndl_2_hndl h zero_handle)\<lparr>table_size := n\<rparr>"
  obtain j1 hp1 where 1: "xalloc_align hp = (0, j1, hp1)" "no_oom hp1" "live hp1 = live hp + 1"
    by (rule xalloc_no_oom [OF \<open>no_oom hp\<close>])
  obtain j2 hp2 where 2: "xalloc_align hp1 = (0, j2, hp2)" "no_oom hp2" "live hp2 = live hp1 + 1"
    by (rule xalloc_no_oom [OF 1(2)])
  obtain j3 hp3 where 3: "malloc hp2 = (Some j3, hp3)" "no_oom hp3" "live hp3 = live hp2 + 1"
    by (rule malloc_no_oom [OF 2(2)])
  define new1 where "new1 = new0\<lparr>bucket_size := replicate (unat n) j2, no_objects := 0\<rparr>"
  have blank: "blank cmp new1" "coll_eng new1 = coll_eng h"
    using ok \<open>n \<noteq> 0\<close>
    by (simp_all add: blank_def new1_def new0_def lhi_transform_hndl_2_hndl_def handle_ok_def)
  obtain hp4 new2 where 4: "create_eng hp3 new1 = Some (SUCCESS, hp4, new2)" "no_oom hp4"
    "live hp4 = live hp3 + 1" "list_inv V cmp new2" "same_settings new1 new2"
    "map_of_table (list_table new2) = Map.empty" "no_objects new2 = 0"
    using list_table.create_ok [OF inv blank 3(2)] by blast
  obtain hp5 i hp6 i' new3 where 5: "hi_iterator_create hp4 h = Some (SUCCESS, hp5, Some i)"
    and 6: "visit_loop (rehash_body (hi_insert_at 0)) hp5 h i (new2\<lparr>rehash_auto := 0\<rparr>) =
      Some (False, HI_ERR_NODATA, hp6, i', new3)" "no_oom hp6" "fst (lhi_bucket_array_free hp6 (it_a i')) = hp6"
    and new3: "list_inv V cmp new3" "same_settings (new2\<lparr>rehash_auto := 0\<rparr>) new3"
      "map_of_table (list_table new3) = map_of_table (list_table h)"
      "live hp6 = live hp4 + 1 + 2 * int (unat (no_objects h))"
    by (rule list_table.rehash_visit [OF inv 4(2) \<open>no_objects h \<noteq> 0\<close> size 4(4,6,7)])
  obtain junk hp4' where m: "malloc hp4 = (Some junk, hp4')"
    by (rule malloc_no_oom [OF 4(2)])
  have found: "next_bucket lhi_list_bucket_to_array hp4' h \<lparr>it_bucket = 0, it_a = no_array\<rparr> = Some (0, hp5, i)"
    using 5 eng by (auto simp: hi_iterator_create_def m get_next_def list_get_next_bucket_def no_array_def
        bind_Some_iff split: if_splits)
  have dispatch: "get_next (coll_eng h) = Some list_get_next_bucket"
    using eng by (simp add: get_next_def)
  obtain hp7 where 7: "lhi_fini_list (free hp6) h = Some (SUCCESS, hp7, h)" "no_oom hp7"
    "live hp7 = live hp6 - 1 - 2 * int (unat (no_objects h)) - 1"
    using list_fini [OF inv, of "free hp6"] 6(2) by auto
  define h' where "h' = new3\<lparr>rehash_auto := rehash_auto new2\<rparr>"
  let ?k = "rehash_finish (rehash_auto new2) ret"
  let ?loop = "\<lambda>first scan it. rehash_loop lhi_list_bucket_to_array_ts (unat (table_size h)) first scan it"
  have "runs (hp, h) (hi_rehash_ts 0 rwlock_init n ret) (hp4', h)
      (?loop True True \<lparr>it_bucket = 0, it_a = no_array\<rparr> (new2\<lparr>rehash_auto := 0\<rparr>) ret ?k)"
    unfolding hi_rehash_ts_def
    by (rule runs_atomic) (use 4(1) m eng blank(2) in \<open>simp add: get_next_ts_def lhi_create_vanilla_hdnl_def
      1(1) 2(1) lhi_pthread_mutex_init_def 3(1) new1_def new0_def Let_def SUCCESS_def\<close>)
  moreover have "runs (hp4', h) (?loop True True \<lparr>it_bucket = 0, it_a = no_array\<rparr> (new2\<lparr>rehash_auto := 0\<rparr>) ret ?k)
      (hp5, h) (?loop False False i (new2\<lparr>rehash_auto := 0\<rparr>) ret ?k)"
    using scan_runs [OF found] by fastforce
  moreover have "runs (hp5, h) (?loop False False i (new2\<lparr>rehash_auto := 0\<rparr>) ret ?k) (hp6, h)
      (?k False HI_ERR_NODATA i' new3)"
    by (rule loop_runs [OF 6(1) dispatch(1)])
  moreover have "runs (hp6, h) (?k False HI_ERR_NODATA i' new3) (free hp6, h)
      (lhi_fini_internal_ts (\<lambda>_. Atomic (\<lambda>(hp, h). Some ((hp, h'), ret SUCCESS))))"
    unfolding rehash_finish_def by (simp add: h'_def runs_atomic hi_iterator_fini_def 6(3))
  moreover have "runs (free hp6, h) (lhi_fini_internal_ts (\<lambda>_. Atomic (\<lambda>(hp, h). Some ((hp, h'), ret SUCCESS))))
      (free (free hp7), h) (Atomic (\<lambda>(hp, h). Some ((hp, h'), ret SUCCESS)))"
    by (rule fini_list_runs [OF 7(1) eng(1)])
  moreover have "runs (free (free hp7), h) (Atomic (\<lambda>(hp, h). Some ((hp, h'), ret SUCCESS)))
      (free (free hp7), h') (ret SUCCESS)"
    by (rule runs_atomic) simp
  ultimately have "runs (hp, h) (hi_rehash_ts 0 rwlock_init n ret) (free (free hp7), h') (ret SUCCESS)"
    by (meson runs_trans)
  moreover have "list_inv V cmp h'" "list_table h' = list_table new3"
    using list_table.auto_inv [OF new3(1)] by (simp_all add: h'_def)
  moreover have "same_settings (h\<lparr>table_size := n\<rparr>) h'"
    using new3(2) 4(5)
    by (simp add: same_settings_def h'_def new1_def new0_def lhi_transform_hndl_2_hndl_def)
  moreover have "live (free (free hp7)) = live hp + 1"
    using 7(3) new3(4) 4(3) 3(3) 2(3) 1(3) by simp
  ultimately show ?thesis
    using 7(2) new3(3) by (intro exI [of _ "free (free hp7)"] exI [of _ h']) simp
qed

end

section \<open>A lost insertion\<close>

definition one_key :: hi_handle where
  "one_key = zero_handle\<lparr>table_size := 1, coll_eng := COLL_ENG_LIST, rehash_threshold := 1,
     hash_func := Some (Fptr 1 (\<lambda>_. 0)), key_cmp := Some (Fptr 2 hi_cmp_str), bucket_size := [1],
     no_objects := 1, bucket_table := [[\<lparr>key_len = 2, obj_key = [1, 0], obj_data = 10, key_hash = 0\<rparr>]]\<rparr>"

lemma one_key_ok: "list_inv str_key hi_cmp_str one_key"
  by (auto simp: list_inv_def handle_ok_def one_key_def zero_handle_def list_table_def
      placed_def slot_of_def str_key_def entry_count_def)

definition rehash_client :: "reply list table_prog" where
  "rehash_client = hi_rehash_ts 0 (\<lambda>_. 0) 2 (\<lambda>r. Return [(r, None)])"

lemmas rehash_run_defs = run_defs rehash_client_def hi_rehash_ts_def lhi_create_vanilla_hdnl_def
  xalloc_align_def malloc_def free_def ex_heap_def one_key_def zero_handle_def lhi_transform_hndl_2_hndl_def
  lhi_pthread_mutex_init_def create_eng_def lhi_create_eng_list_def get_next_ts_def rehash_loop.simps
  lhi_list_bucket_to_array_ts_def list_array_body_def lhi_list_bucket_to_array_def rd_Some
  lhi_bucket_array_alloc_def no_array_def ba_write_def arr_write_def iterator_out_def arr_read_def
  rehash_body_def hi_insert_at_0 hi_lookup_def lhi_lookup_list_def hash_bucket_def insert_eng_def
  lhi_insert_list_def hi_defs rehash_finish_def hi_iterator_fini_def lhi_bucket_array_free_def free_ptr_def
  lhi_fini_internal_ts_def lhi_fini_list_def lhi_pthread_mutex_destroy_def insert_body_def lookup_body_def
  lhi_insert_list_ts_def match_key_def Let_def

lemma replicate_two: "replicate 2 x = [x, x]"
  by (simp add: numeral_2_eq_2)

text \<open>
  One thread rehashes to two buckets. After it has copied the only entry, and before it replaces the
  table, the other thread changes the old table.
\<close>

lemma insertion_lost:
  "\<exists>c. schedule [0, 0, 0, 0, 0, 0, 1, 1, 1, 1, 1, 1, 1, 1, 1, 0, 0, 0, 0, 0, 0, 0, 0]
      (start (ex_heap, one_key) [rehash_client, client [Ins [2, 0] 20] []]) = Next c \<and>
    threads c = [Return [(SUCCESS, None)], Return [(SUCCESS, None)]] \<and>
    bucket_table (snd (shared c)) = [[\<lparr>key_len = 2, obj_key = [1, 0], obj_data = 10, key_hash = 0\<rparr>], []]"
  by (simp add: rehash_run_defs replicate_two cmp_123)

text \<open>
  C18. THREADSAFE build: \<open>hi_rehash\<close> takes the mutex for one bucket at a time and then replaces the table
  without looking at it again. Two threads share a well-formed chained table; one rehashes it, the
  other inserts a new key after the copy of its bucket was made. Both report success, and the key is
  not in the table.
\<close>

theorem rehash_loses_insertion:
  "list_inv str_key hi_cmp_str one_key \<and> map_of_table (list_table one_key) [2, 0] = None \<and>
   (\<exists>c. steps (start (ex_heap, one_key) [rehash_client, client [Ins [2, 0] 20] []]) c \<and>
     threads c = [Return [(SUCCESS, None)], Return [(SUCCESS, None)]] \<and>
     map_of_table (list_table (snd (shared c))) = [[1, 0] \<mapsto> 10])"
proof -
  obtain c where c: "steps (start (ex_heap, one_key) [rehash_client, client [Ins [2, 0] 20] []]) c"
    "threads c = [Return [(SUCCESS, None)], Return [(SUCCESS, None)]]"
    "bucket_table (snd (shared c)) = [[\<lparr>key_len = 2, obj_key = [1, 0], obj_data = 10, key_hash = 0\<rparr>], []]"
    using insertion_lost schedule_steps by blast
  have "map_of_table (list_table (snd (shared c))) = [[1, 0] \<mapsto> 10]"
    by (simp add: list_table_def c(3) map_of_table_def)
  then show ?thesis
    using c(1,2) one_key_ok by (auto simp: one_key_def list_table_def map_of_table_def)
qed

text \<open>
  C16. THREADSAFE build: \<open>hi_rehash\<close> of a chained table that has entries, by the only thread, ends:
  from every point of its run it returns SUCCESS, with a table of the new size that is well formed and
  has the same entries and settings; one block, that of the new handle, is lost.
\<close>

theorem rehash_ts_alone:
  assumes "key_domain V cmp" and "list_inv V cmp h" and "no_oom hp" and "n \<noteq> 0" and "no_objects h \<noteq> 0"
    and "unat (no_objects h) \<le> max_objects"
  shows "\<exists>hp' h'. (\<forall>c. steps (start (hp, h) [hi_rehash_ts 0 rwlock_init n (\<lambda>r. Return r)]) c \<longrightarrow>
      steps c (start (hp', h') [Return SUCCESS])) \<and> no_oom hp' \<and> list_inv V cmp h' \<and>
    map_of_table (list_table h') = map_of_table (list_table h) \<and>
    same_settings (h\<lparr>table_size := n\<rparr>) h' \<and> live hp' = live hp + 1"
  using key_domain.rehash_alone [OF assms, where ret = "\<lambda>r. Return r" and rwlock_init = rwlock_init]
  by (meson run_alone)

theorem rehash_ts_alone_witness:
  "\<exists>hp' h'. steps (start (ex_heap, one_key) [hi_rehash_ts 0 (\<lambda>_. 0) 2 (\<lambda>r. Return r)])
      (start (hp', h') [Return SUCCESS]) \<and> map_of_table (list_table h') = [[1, 0] \<mapsto> 10] \<and>
    table_size h' = 2 \<and> live hp' = live ex_heap + 1"
proof -
  have "no_objects one_key \<noteq> 0" "unat (no_objects one_key) \<le> max_objects"
    "map_of_table (list_table one_key) = [[1, 0] \<mapsto> 10]"
    by (simp_all add: one_key_def max_objects_def list_table_def map_of_table_def)
  then show ?thesis
    using rehash_ts_alone [OF ex_keys(1) one_key_ok ex_ok(1), of 2 "\<lambda>_. 0"] steps_refl
    by (force simp: same_settings_def)
qed

end
