(* ===== verification/Datagen.thy ===== *)
theory Datagen
  imports Complex_Main Hi_heap "HOL-Library.Signed_Division"
begin

text \<open>
  \<open>localhash/datagen.c\<close>: \<open>random_string\<close>, from which the tests and the analysis programs take
  their keys, and \<open>gaussian\<close>. \<open>lrand48_r\<close> of the C library is a parameter: the number it stores (a
  \<open>long\<close>) and the new state of the generator; so is \<open>drand48_r\<close>, which stores a \<open>double\<close>. The string
  is returned as the contents of its block. A \<open>double\<close> is a real number, without rounding.
\<close>

section \<open>Random strings\<close>

text \<open>One character: the \<open>long\<close> is cut down to an \<open>int\<close> and reduced with the sign of C.\<close>

definition random_char :: "int \<Rightarrow> byte" where
  "random_char result = word_of_int (sint (word_of_int result :: 32 word) smod (122 - 97 + 1) + 97)"

text \<open>
  The loop, over the values of \<open>i\<close> that are left. With \<open>str_len\<close> the largest number the loop of the
  code never ends, but its block has no byte and the first store is already undefined.
\<close>

fun random_string_loop :: "('g \<Rightarrow> int \<times> 'g) \<Rightarrow> nat list \<Rightarrow> byte list \<Rightarrow> 'g \<Rightarrow> (byte list \<times> 'g) option" where
  "random_string_loop lrand48_r [] newstring r_d = Some (newstring, r_d)"
| "random_string_loop lrand48_r (i # is) newstring r_d =
     (let (result, r_d) = lrand48_r r_d
      in if i < length newstring
         then random_string_loop lrand48_r is (newstring[i := random_char result]) r_d else None)"

definition random_string :: "('g \<Rightarrow> int \<times> 'g) \<Rightarrow> heap \<Rightarrow> u32 \<Rightarrow> 'g \<Rightarrow>
    (int \<times> byte list option \<times> 'g \<times> heap) option" where
  "random_string lrand48_r hp str_len r_d =
     (case malloc hp of
        (None, hp) \<Rightarrow> Some (- 1, None, r_d, hp)
      | (Some junk, hp) \<Rightarrow> do {
          (newstring, r_d) \<leftarrow> random_string_loop lrand48_r [0 ..< unat str_len + 1]
            (replicate (unat (str_len + 1)) (ucast junk)) r_d;
          if unat str_len < length newstring
          then Some (0, Some (newstring[unat str_len := 0]), r_d, hp) else None
        })"

text \<open>What the manual of \<open>lrand48_r\<close> promises: non-negative numbers below \<open>2 ^ 31\<close>.\<close>

definition lrand48_range :: "('g \<Rightarrow> int \<times> 'g) \<Rightarrow> bool" where
  "lrand48_range lrand \<longleftrightarrow> (\<forall>g. 0 \<le> fst (lrand g) \<and> fst (lrand g) < 2 ^ 31)"

section \<open>The string\<close>

lemma random_char_letter:
  assumes "0 \<le> r" and "r < 2 ^ 31"
  shows "97 \<le> random_char r" and "random_char r \<le> 122"
proof -
  have "sint (word_of_int r :: 32 word) = r"
    using assms by (simp add: signed_of_int signed_take_bit_int_eq_self_iff)
  moreover have "r smod 26 = r mod 26"
    using assms by (cases "r = 0") (simp_all add: smod_int_alt_def)
  ultimately have c: "random_char r = word_of_int (r mod 26 + 97)"
    by (simp add: random_char_def)
  have "0 \<le> r mod 26" "r mod 26 < 26"
    by simp_all
  then have "uint (random_char r) = r mod 26 + 97"
    unfolding c by (simp only: uint_word_of_int_eq) (simp add: take_bit_int_eq_self)
  then show "97 \<le> random_char r" "random_char r \<le> 122"
    using \<open>0 \<le> r mod 26\<close> \<open>r mod 26 < 26\<close> by (simp_all add: word_le_def)
qed

lemma random_string_loop_letters:
  assumes "lrand48_range lrand" and "i + n \<le> length s"
  shows "\<exists>s' g'. random_string_loop lrand [i ..< i + n] s g = Some (s', g') \<and> length s' = length s \<and>
    take i s' = take i s \<and> (\<forall>j. i \<le> j \<and> j < i + n \<longrightarrow> 97 \<le> s' ! j \<and> s' ! j \<le> 122)"
  using assms(2)
proof (induction n arbitrary: i s g)
  case 0
  then show ?case by auto
next
  case (Suc n)
  obtain r g1 where r: "lrand g = (r, g1)"
    by (cases "lrand g")
  let ?s = "s[i := random_char r]"
  obtain s' g' where IH: "random_string_loop lrand [Suc i ..< Suc i + n] ?s g1 = Some (s', g')"
    "length s' = length ?s" "take (Suc i) s' = take (Suc i) ?s"
    "\<forall>j. Suc i \<le> j \<and> j < Suc i + n \<longrightarrow> 97 \<le> s' ! j \<and> s' ! j \<le> 122"
    using Suc.IH [of "Suc i" ?s g1] Suc.prems by auto
  have "s' ! i = ?s ! i"
    using IH(2,3) Suc.prems by (metis lessI nth_take)
  then have i: "97 \<le> s' ! i" "s' ! i \<le> 122"
    using random_char_letter [of r] assms(1) Suc.prems r by (auto simp: lrand48_range_def dest: spec [of _ g])
  have "take i s' = take i s"
    using arg_cong [OF IH(3), of "take i"] by (simp add: min_def)
  moreover have "97 \<le> s' ! j \<and> s' ! j \<le> 122" if "i \<le> j" "j < i + Suc n" for j
    using that i IH(4) by (cases "j = i") simp_all
  moreover have "[i ..< i + Suc n] = i # [Suc i ..< Suc i + n]"
    by (simp add: upt_conv_Cons)
  ultimately show ?case
    using IH(1,2) Suc.prems r by auto
qed

text \<open>
  A string of \<open>str_len\<close> lower case letters and a terminator, for every length but the largest number,
  where the size of the block wraps to 0 and the first store is out of its bounds.
\<close>

lemma random_string_letters:
  assumes "lrand48_range lrand" and "no_oom hp"
  shows "if str_len + 1 = 0 then random_string lrand hp str_len g = None
    else \<exists>s g' hp'. random_string lrand hp str_len g = Some (0, Some (s @ [0]), g', hp') \<and>
      length s = unat str_len \<and> (\<forall>c \<in> set s. 97 \<le> c \<and> c \<le> 122) \<and> live hp' = live hp + 1"
proof -
  obtain junk hp' where hp': "malloc hp = (Some junk, hp')" "live hp' = live hp + 1"
    using malloc_no_oom [OF assms(2)] by metis
  let ?n = "unat str_len"
  show ?thesis
  proof (cases "str_len + 1 = 0")
    case True
    then show ?thesis
      using hp'(1) by (simp add: random_string_def upt_conv_Cons Let_def split: prod.split del: upt_Suc)
  next
    case False
    then have len: "unat (str_len + 1) = ?n + 1"
      using unatSuc [of str_len] by (simp add: add.commute)
    let ?s = "replicate (unat (str_len + 1)) (ucast junk :: byte)"
    obtain s g' where s: "random_string_loop lrand [0 ..< ?n + 1] ?s g = Some (s, g')"
      "length s = ?n + 1" "\<forall>j. j < ?n + 1 \<longrightarrow> 97 \<le> s ! j \<and> s ! j \<le> 122"
      using random_string_loop_letters [OF assms(1), of 0 "?n + 1" ?s g] len by auto
    have "s[?n := 0] = take ?n s @ [0]"
      using s(2) by (simp add: upd_conv_take_nth_drop)
    moreover have "\<forall>c \<in> set (take ?n s). 97 \<le> c \<and> c \<le> 122"
      using s(2,3) by (auto simp: in_set_conv_nth)
    ultimately have "random_string lrand hp str_len g = Some (0, Some (take ?n s @ [0]), g', hp')"
      using s(1,2) hp'(1) by (simp add: random_string_def)
    then show ?thesis
      using False s(2) hp'(2) \<open>\<forall>c \<in> set (take ?n s). 97 \<le> c \<and> c \<le> 122\<close> by auto
  qed
qed

section \<open>Normally distributed numbers\<close>

text \<open>The loop draws until the point is inside the unit circle; \<open>None\<close> when it never ends.\<close>

partial_function (option) gaussian_loop :: "('g \<Rightarrow> real \<times> 'g) \<Rightarrow> 'g \<Rightarrow> (real \<times> real \<times> real \<times> 'g) option" where
  "gaussian_loop drand48_r r_d =
     (let (rand_res, r_d) = drand48_r r_d;
          u1 = rand_res * 2 - 1;
          (rand_res, r_d) = drand48_r r_d;
          u2 = rand_res * 2 - 1;
          w = u1 * u1 + u2 * u2
      in if 1 \<le> w then gaussian_loop drand48_r r_d else Some (u1, u2, w, r_d))"

text \<open>At the centre of the circle the quotient is no number, and the model gives no value.\<close>

definition gaussian :: "real \<Rightarrow> real \<Rightarrow> ('g \<Rightarrow> real \<times> 'g) \<Rightarrow> 'g \<Rightarrow> (real \<times> 'g) option" where
  "gaussian deviation mean drand48_r r_d =
     (case gaussian_loop drand48_r r_d of
        None \<Rightarrow> None
      | Some (u1, u2, w, r_d) \<Rightarrow>
          if w = 0 then None
          else
            let w = sqrt (- 2 * ln w / w);
                g1 = u2 * w
            in Some (g1 * deviation + mean, r_d))"

text \<open>The state of the generator after \<open>n\<close> rejected pairs.\<close>

definition drawn_point :: "('g \<Rightarrow> real \<times> 'g) \<Rightarrow> 'g \<Rightarrow> real \<times> real \<times> 'g" where
  "drawn_point drand g = (let (a, g) = drand g; (b, g) = drand g in (a * 2 - 1, b * 2 - 1, g))"

definition inside :: "('g \<Rightarrow> real \<times> 'g) \<Rightarrow> 'g \<Rightarrow> bool" where
  "inside drand g \<longleftrightarrow> (case drawn_point drand g of (u1, u2, _) \<Rightarrow> u1 * u1 + u2 * u2 < 1)"

definition next_state :: "('g \<Rightarrow> real \<times> 'g) \<Rightarrow> 'g \<Rightarrow> 'g" where
  "next_state drand g = snd (snd (drawn_point drand g))"

lemma gaussian_loop_step:
  "gaussian_loop drand g =
    (if inside drand g
     then (case drawn_point drand g of (u1, u2, g) \<Rightarrow> Some (u1, u2, u1 * u1 + u2 * u2, g))
     else gaussian_loop drand (next_state drand g))"
  by (subst gaussian_loop.simps) (auto simp: inside_def next_state_def drawn_point_def Let_def not_le split: prod.split)

text \<open>
  When the first point inside the circle is the one after \<open>n\<close> rejections, \<open>gaussian\<close> is the polar
  method on it, unless it is the centre.
\<close>

lemma gaussian_polar:
  assumes "\<forall>k < n. \<not> inside drand ((next_state drand ^^ k) g)" and "inside drand ((next_state drand ^^ n) g)"
    and "drawn_point drand ((next_state drand ^^ n) g) = (u1, u2, g')" and "w = u1 * u1 + u2 * u2" and "w \<noteq> 0"
  shows "gaussian deviation mean drand g = Some (u2 * sqrt (- 2 * ln w / w) * deviation + mean, g')"
proof -
  have "gaussian_loop drand g = Some (u1, u2, w, g')"
    using assms(1-3)
  proof (induction n arbitrary: g)
    case 0
    then show ?case
      using assms(4) by (subst gaussian_loop_step) simp
  next
    case (Suc n)
    have "\<forall>k < n. \<not> inside drand ((next_state drand ^^ k) (next_state drand g))"
      using Suc.prems(1) by (metis Suc_less_eq funpow_swap1 funpow_Suc_right comp_apply)
    then have "gaussian_loop drand (next_state drand g) = Some (u1, u2, w, g')"
      using Suc.prems(2,3) by (intro Suc.IH) (simp_all add: funpow_swap1)
    moreover have "\<not> inside drand g"
      using Suc.prems(1) by force
    ultimately show ?case
      by (subst gaussian_loop_step) simp
  qed
  then show ?thesis
    using assms(5) by (simp add: gaussian_def Let_def)
qed

end
