(* ===== verification/Analysis.thy ===== *)
theory Analysis
  imports Hi_set Datagen
begin

text \<open>
  The programs \<open>avalanche\<close>, \<open>hash-time/benchtool\<close> and \<open>hashstr\<close> of \<open>analysis/\<close> and what the analysis
  programs share (\<open>analysis_common.h\<close>). \<open>lrand48_r\<close> of the C library is a parameter as in theory
  Datagen. A \<open>double\<close> is a rational number: the quotients printed are exact here. The arguments of
  a program are the strings after its name. The functions that print a text and call \<open>exit(1)\<close> are
  the value \<open>Exit\<close> with the names of the algorithms they list.
\<close>

section \<open>Choosing the hash function\<close>

datatype 'a outcome = Exit "string list" | Ran 'a

text \<open>To go on unless the program has ended.\<close>

definition then_ran :: "'a outcome option \<Rightarrow> ('a \<Rightarrow> 'b outcome option) \<Rightarrow> 'b outcome option" where
  "then_ran m k = do { r \<leftarrow> m; case r of Exit names \<Rightarrow> Some (Exit names) | Ran x \<Rightarrow> k x }"

lemma then_ran_simps [simp]:
  "then_ran None k = None" "then_ran (Some (Exit e)) k = Some (Exit e)" "then_ran (Some (Ran x)) k = k x"
  by (simp_all add: then_ran_def)

lemma then_ran_Ran: "then_ran m k = Some (Ran y) \<longleftrightarrow> (\<exists>x. m = Some (Ran x) \<and> k x = Some (Ran y))"
proof (cases m)
  case (Some r)
  then show ?thesis by (cases r) simp_all
qed simp

definition tolower :: "char \<Rightarrow> char" where
  "tolower c = (if 65 \<le> (of_char c :: nat) \<and> (of_char c :: nat) \<le> 90 then char_of (of_char c + 32 :: nat) else c)"

text \<open>\<open>strcasecmp(a, b) == 0\<close>.\<close>

definition strcase_eq :: "string \<Rightarrow> string \<Rightarrow> bool" where
  "strcase_eq a b \<longleftrightarrow> map tolower a = map tolower b"

fun name_loop :: "nat list \<Rightarrow> string \<Rightarrow> hash_fn fptr option option" where
  "name_loop [] name = Some None"
| "name_loop (i # is) name = do {
     (_, alg_name, hashfunc) \<leftarrow> rd lhi_hashfunc_map i;
     if strcase_eq name alg_name then Some (Some hashfunc) else name_loop is name
   }"

definition get_hashfunc_by_name :: "string \<Rightarrow> hash_fn fptr option option" where
  "get_hashfunc_by_name name = name_loop [0 ..< HI_HASH_MAX + 1] name"

text \<open>The names printed.\<close>

fun list_loop :: "nat list \<Rightarrow> string list option" where
  "list_loop [] = Some []"
| "list_loop (i # is) = do {
     (_, alg_name, _) \<leftarrow> rd lhi_hashfunc_map i;
     names \<leftarrow> list_loop is;
     Some (alg_name # names)
   }"

definition die_list :: "'a outcome option" where
  "die_list = do { names \<leftarrow> list_loop [0 ..< HI_HASH_MAX + 1]; Some (Exit names) }"

definition die_usage :: "'a outcome option" where
  "die_usage = Some (Exit [])"

text \<open>A string of the command line as the bytes that are hashed; the value printed by \<open>hashstr\<close>.\<close>

definition string_bytes :: "string \<Rightarrow> byte list" where
  "string_bytes s = map of_char s"

definition hashstr_main :: "string list \<Rightarrow> u32 outcome option" where
  "hashstr_main argv =
     (case argv of
        [alg, s] \<Rightarrow> do {
          f \<leftarrow> get_hashfunc_by_name alg;
          case f of None \<Rightarrow> die_list | Some f \<Rightarrow> Some (Ran (fp_fun f (string_bytes s)))
        }
      | _ \<Rightarrow> die_usage)"

text \<open>
  The seed of \<open>localhash/random.c\<close>. Parameters are the bytes that \<open>read\<close> gets from
  \<open>/dev/urandom\<close>, if it can be opened, the time, and the number of the process.
\<close>

definition get_proper_seed :: "byte list option \<Rightarrow> int \<Rightarrow> int \<Rightarrow> u32 outcome" where
  "get_proper_seed urandom time pid =
     (case urandom of
        None \<Rightarrow> Ran ((word_of_int time AND (push_bit 30 1 - 1)) + word_of_int pid)
      | Some [b0, b1, b2, b3] \<Rightarrow> Ran (le32 b0 b1 b2 b3)
      | Some _ \<Rightarrow> Exit [])"

section \<open>The avalanche test\<close>

definition bytes64 :: "u64 \<Rightarrow> byte list" where
  "bytes64 w = map (\<lambda>i. ucast (drop_bit (8 * i) w)) [0 ..< 8]"

text \<open>\<open>lrand48_r\<close> stores a \<open>long\<close> through the pointer it is given.\<close>

definition store_long :: "byte list \<Rightarrow> int \<Rightarrow> byte list option" where
  "store_long buffer result = buffer_write buffer 0 (bytes64 (word_of_int result))"

text \<open>The word put together from \<open>char bytes[4]\<close>; \<open>char\<close> is signed.\<close>

definition bytes_word :: "byte list \<Rightarrow> u32 option" where
  "bytes_word bytes = do {
     b0 \<leftarrow> rd bytes 0;
     b1 \<leftarrow> rd bytes 1;
     b2 \<leftarrow> rd bytes 2;
     b3 \<leftarrow> rd bytes 3;
     Some (scast b0 + 256 * scast b1 + 65536 * scast b2 + 16777216 * scast b3)
   }"

definition hash_state :: "hash_fn \<Rightarrow> nat \<Rightarrow> u32 \<Rightarrow> u32" where
  "hash_state func repetitions = (\<lambda>state. func (bytes32 state)) ^^ repetitions"

text \<open>
  The loops over \<open>j\<close> and over \<open>i\<close>, on the values that are left. The counters are numbers of type
  \<open>int\<close>, and to count past the largest one is undefined.
\<close>

definition INT_MAX :: int where
  "INT_MAX = 2147483647"

fun count_bits :: "nat list \<Rightarrow> u32 \<Rightarrow> int list \<Rightarrow> int list option" where
  "count_bits [] outb row = Some row"
| "count_bits (j # js) outb row = do {
     row \<leftarrow> (if outb AND 1 \<noteq> 0
        then do { c \<leftarrow> rd row j; if c + 1 \<le> INT_MAX then Some (row[j := c + 1]) else None }
        else Some row);
     count_bits js (drop_bit 1 outb) row
   }"

fun flip_loop :: "hash_fn \<Rightarrow> nat \<Rightarrow> u32 \<Rightarrow> u32 \<Rightarrow> nat list \<Rightarrow> int list list \<Rightarrow> int list list option" where
  "flip_loop func repetitions save inb [] t = Some t"
| "flip_loop func repetitions save inb (i # is) t =
     (let state = hash_state func repetitions (save XOR push_bit i 1);
          outb = state XOR inb
      in do {
        row \<leftarrow> rd t i;
        row \<leftarrow> count_bits [0 ..< 32] outb row;
        flip_loop func repetitions save inb is (t[i := row])
      })"

fun avalance_loop :: "hash_fn \<Rightarrow> ('g \<Rightarrow> int \<times> 'g) \<Rightarrow> nat \<Rightarrow> nat \<Rightarrow> byte list \<Rightarrow> 'g \<Rightarrow> int list list \<Rightarrow>
    int list list option" where
  "avalance_loop func lrand48_r 0 repetitions bytes seed_data t = Some t"
| "avalance_loop func lrand48_r (Suc trials) repetitions bytes seed_data t =
     (let (result, seed_data) = lrand48_r seed_data
      in do {
        bytes \<leftarrow> store_long bytes result;
        save \<leftarrow> bytes_word bytes;
        t \<leftarrow> flip_loop func repetitions save (hash_state func repetitions save) [0 ..< 32] t;
        avalance_loop func lrand48_r trials repetitions bytes seed_data t
      })"

text \<open>
  The table of the numbers printed. \<open>junk\<close> is what the array \<open>bytes\<close> of four bytes holds at first.
  Without a trial the quotients are no numbers, and the model gives no value.
\<close>

definition avalance :: "hash_fn \<Rightarrow> ('g \<Rightarrow> int \<times> 'g) \<Rightarrow> 'g \<Rightarrow> byte \<Rightarrow> u32 \<Rightarrow> u32 \<Rightarrow> rat list list option" where
  "avalance func lrand48_r seed_data junk trials repetitions = do {
     t \<leftarrow> avalance_loop func lrand48_r (unat trials) (unat repetitions) (replicate 4 junk) seed_data
       (replicate 32 (replicate 32 0));
     if trials = 0 then None
     else Some (map (map (\<lambda>c. of_int c / of_nat (unat trials) * 10)) t)
   }"

definition avalance_main :: "('g \<Rightarrow> int \<times> 'g) \<Rightarrow> 'g \<Rightarrow> byte \<Rightarrow> string list \<Rightarrow> rat list list outcome option" where
  "avalance_main lrand48_r seed_data junk argv =
     (case argv of
        [alg] \<Rightarrow> do {
          func \<leftarrow> get_hashfunc_by_name alg;
          case func of
            None \<Rightarrow> die_list
          | Some func \<Rightarrow> do {
              result \<leftarrow> avalance (fp_fun func) lrand48_r seed_data junk 1000000 1;
              Some (Ran result)
            }
        }
      | _ \<Rightarrow> die_usage)"

section \<open>The benchmark\<close>

text \<open>\<open>struct timeval\<close>; times are far from the bounds of \<open>long\<close>.\<close>

record timeval =
  tv_sec :: int
  tv_usec :: int

definition time_lt :: "timeval \<Rightarrow> timeval \<Rightarrow> bool" where
  "time_lt x y \<longleftrightarrow> tv_sec x < tv_sec y \<or> tv_sec x = tv_sec y \<and> tv_usec x < tv_usec y"

text \<open>The number printed; the variable \<open>sign\<close> is assigned and not used.\<close>

definition do_difftime :: "timeval \<Rightarrow> timeval \<Rightarrow> rat" where
  "do_difftime op1 op2 =
     (let (op1, op2) = (if time_lt op1 op2 then (op2, op1) else (op1, op2));
          (usec, borrow) =
            (if tv_usec op2 \<le> tv_usec op1 then (tv_usec op1 - tv_usec op2, 0)
             else (tv_usec op1 + 1000000 - tv_usec op2, 1));
          sec = tv_sec op1 - tv_sec op2 - borrow
      in of_int sec + of_int usec / 1000000)"

text \<open>
  The loop that fills the block, which stores every value at the same place. \<open>i\<close> has 32 bits and
  \<open>len\<close> 64. \<open>None\<close> is a store out of bounds or a loop that never ends.
\<close>

partial_function (option) fill_mem :: "u64 \<Rightarrow> u32 \<Rightarrow> byte list \<Rightarrow> byte list option" where
  "fill_mem len i mem =
     (if ucast i < len then
        if mem = [] then None else fill_mem len (i + 1) (mem[0 := ucast i])
      else Some mem)"

text \<open>
  What is hashed and how often, or \<open>None\<close> when the function returns early, and the heap. The length
  is converted to 32 bits by the call of the hash function.
\<close>

definition get_speed :: "heap \<Rightarrow> u64 \<Rightarrow> u64 \<Rightarrow> ((key \<times> u64) option \<times> heap) option" where
  "get_speed hp len calls =
     (case malloc hp of
        (None, hp) \<Rightarrow> Some (None, hp)
      | (Some junk, hp) \<Rightarrow>
          if calls = 0 then Some (None, hp)
          else do {
            mem \<leftarrow> fill_mem len 0 (replicate (unat len) (ucast junk));
            Some (Some (take (unat (ucast len :: u32)) mem, calls), free hp)
          })"

text \<open>The lengths and the numbers of calls of the runs of \<open>main\<close>, from the argument numbers.\<close>

definition bench_plan :: "u64 \<Rightarrow> u64 option \<Rightarrow> (u64 \<times> u64) list option" where
  "bench_plan databytes len =
     (case len of
        Some len \<Rightarrow> if len = 0 then None else Some [(len, databytes div len)]
      | None \<Rightarrow>
          (let calls = databytes div 4
           in Some [(4, calls), (40, calls div 10), (400, calls div 10 div 10),
                (4000, calls div 10 div 10 div 10), (40000, calls div 10 div 10 div 10 div 10)]))"

fun bench_runs :: "heap \<Rightarrow> (u64 \<times> u64) list \<Rightarrow> ((key \<times> u64) option list \<times> heap) option" where
  "bench_runs hp [] = Some ([], hp)"
| "bench_runs hp ((len, calls) # runs) = do {
     (r, hp) \<leftarrow> get_speed hp len calls;
     (rs, hp) \<leftarrow> bench_runs hp runs;
     Some (r # rs, hp)
   }"

text \<open>\<open>atoi\<close> of the C library; a number that is no \<open>int\<close> is undefined.\<close>

definition atoi :: "string \<Rightarrow> int option" where
  "atoi s =
     (let s = dropWhile (\<lambda>c. (of_char c :: nat) = 32 \<or> 9 \<le> (of_char c :: nat) \<and> (of_char c :: nat) \<le> 13) s;
          neg = (s \<noteq> [] \<and> hd s = CHR ''-'');
          s = (if s \<noteq> [] \<and> (hd s = CHR ''-'' \<or> hd s = CHR ''+'') then tl s else s);
          digits = takeWhile (\<lambda>c. 48 \<le> (of_char c :: nat) \<and> (of_char c :: nat) \<le> 57) s;
          n = foldl (\<lambda>n c. 10 * n + (of_char c - 48)) 0 digits;
          n = (if neg then - n else n)
      in if - (2 ^ 31) \<le> n \<and> n < 2 ^ 31 then Some n else None)"

definition bench_run_plan :: "heap \<Rightarrow> u64 \<Rightarrow> u64 option \<Rightarrow>
    ((key \<times> u64) option list \<times> heap) outcome option" where
  "bench_run_plan hp databytes len =
     (case bench_plan databytes len of
        None \<Rightarrow> die_usage
      | Some plan \<Rightarrow> do { result \<leftarrow> bench_runs hp plan; Some (Ran result) })"

definition bench_main :: "heap \<Rightarrow> string list \<Rightarrow> ((key \<times> u64) option list \<times> heap) outcome option" where
  "bench_main hp argv =
     (case argv of
        [] \<Rightarrow> die_usage
      | alg # args \<Rightarrow> do {
          func \<leftarrow> get_hashfunc_by_name alg;
          if func = None then die_list
          else (case args of
              [] \<Rightarrow> bench_run_plan hp 30000000 None
            | [d] \<Rightarrow> do { d \<leftarrow> atoi d; bench_run_plan hp (word_of_int d) None }
            | d # l # _ \<Rightarrow> do {
                d \<leftarrow> atoi d;
                l \<leftarrow> atoi l;
                bench_run_plan hp (word_of_int d) (Some (word_of_int l))
              })
        })"

section \<open>Names\<close>

lemma tolower_simps [simp]:
  "tolower c = c" if "(of_char c :: nat) < 65 \<or> 90 < (of_char c :: nat)"
  using that by (auto simp: tolower_def)

lemma name_loop_eq:
  "name_loop [i ..< j] name =
    (if i < j then Option.bind (rd lhi_hashfunc_map i) (\<lambda>(_, alg_name, f).
       if strcase_eq name alg_name then Some (Some f) else name_loop [Suc i ..< j] name)
     else Some None)"
  by (simp add: upt_conv_Cons)

text \<open>The function whose name the argument is, in upper or lower case letters.\<close>

lemma get_hashfunc_by_name_eq:
  "get_hashfunc_by_name name = Some (map_of (map snd lhi_hashfunc_map) (map tolower name))"
proof -
  have "name_loop [i ..< 16] name = Some (map_of (map snd (drop i lhi_hashfunc_map)) (map tolower name))"
    if "i \<le> 16" for i
    using that
  proof (induction i rule: inc_induct)
    case base
    then show ?case by (simp add: lhi_hashfunc_map_def)
  next
    case (step i)
    have len: "length lhi_hashfunc_map = 16"
      by (simp add: lhi_hashfunc_map_def)
    obtain no alg f where e: "lhi_hashfunc_map ! i = (no, alg, f)"
      by (cases "lhi_hashfunc_map ! i")
    have "\<forall>e \<in> set lhi_hashfunc_map. map tolower (fst (snd e)) = fst (snd e)"
      by (simp add: lhi_hashfunc_map_def)
    then have "map tolower alg = alg"
      using e len step.hyps(2) by (metis fst_conv nth_mem snd_conv)
    moreover have "drop i lhi_hashfunc_map = (no, alg, f) # drop (Suc i) lhi_hashfunc_map"
      using e len step.hyps(2) by (metis Cons_nth_drop_Suc)
    ultimately show ?case
      using step len e by (simp add: name_loop_eq [of i] rd_Some strcase_eq_def)
  qed
  from this [of 0] show ?thesis
    by (simp add: get_hashfunc_by_name_def HI_HASH_MAX_def)
qed

lemma die_list_eq: "die_list = Some (Exit (map (fst \<circ> snd) lhi_hashfunc_map))"
  by (simp add: die_list_def HI_HASH_MAX_def lhi_hashfunc_map_def rd_def upt_rec)

section \<open>The counters of the avalanche test\<close>

text \<open>Four signed bytes, the first of lowest weight, determine their sum up to \<open>2 ^ 32\<close>.\<close>

lemma signed_digit:
  fixes a a' b b' m :: int
  assumes eq: "(a + 256 * b) mod (256 * m) = (a' + 256 * b') mod (256 * m)"
    and "- 128 \<le> a" "a < 128" "- 128 \<le> a'" "a' < 128"
  shows "a = a'" and "b mod m = b' mod m"
proof -
  have dvd: "256 * m dvd (a - a') + 256 * (b - b')"
    using eq by (simp add: mod_eq_dvd_iff algebra_simps)
  then have "256 dvd (a - a') + 256 * (b - b')"
    by (rule dvd_mult_left)
  then have "256 dvd a - a'"
    by (simp add: dvd_add_left_iff)
  then obtain k where k: "a - a' = 256 * k"
    by (rule dvdE)
  have "k < 1" "- 1 < k"
    using assms(2-5) k by linarith+
  then have "k = 0"
    by simp
  then show "a = a'"
    using k by simp
  then have "256 * m dvd 256 * (b - b')"
    using dvd by (simp add: right_diff_distrib)
  then show "b mod m = b' mod m"
    by (simp add: mod_eq_dvd_iff del: right_diff_distrib_numeral)
qed

definition drawn_word :: "int \<Rightarrow> u32" where
  "drawn_word result = the (bytes_word (bytes64 (word_of_int result)))"

lemma sint_byte: "- 128 \<le> sint (b :: byte)" "sint (b :: byte) < 128"
  using sint_ge [of b] sint_lt [of b] by simp_all

lemma uint_bytes_word:
  "bytes_word (b0 # b1 # b2 # b3 # bs) = Some w \<Longrightarrow>
    uint w = (sint b0 + 256 * (sint b1 + 256 * (sint b2 + 256 * sint b3))) mod (256 * (256 * (256 * 256)))"
proof -
  assume "bytes_word (b0 # b1 # b2 # b3 # bs) = Some w"
  then have w: "w = scast b0 + 256 * scast b1 + 65536 * scast b2 + 16777216 * scast b3"
    by (simp add: bytes_word_def rd_def)
  have "scast b = (word_of_int (sint b) :: u32)" for b :: byte
    by (rule scast_eq)
  then have "w = word_of_int (sint b0 + 256 * sint b1 + 65536 * sint b2 + 16777216 * sint b3)"
    unfolding w by (simp only: of_int_add of_int_mult of_int_numeral)
  then have "uint w = (sint b0 + 256 * sint b1 + 65536 * sint b2 + 16777216 * sint b3) mod 2 ^ 32"
    by (simp only: uint_word_of_int_eq take_bit_eq_mod) simp
  moreover have "sint b0 + 256 * sint b1 + 65536 * sint b2 + 16777216 * sint b3 =
      sint b0 + 256 * (sint b1 + 256 * (sint b2 + 256 * sint b3))"
    by simp
  ultimately show ?thesis
    by simp
qed

lemma bytes_word_inj:
  assumes "bytes_word (b0 # b1 # b2 # b3 # bs) = bytes_word (c0 # c1 # c2 # c3 # cs)"
  shows "b0 = c0 \<and> b1 = c1 \<and> b2 = c2 \<and> b3 = c3"
proof -
  obtain w where w: "bytes_word (b0 # b1 # b2 # b3 # bs) = Some w" "bytes_word (c0 # c1 # c2 # c3 # cs) = Some w"
    using assms by (auto simp: bytes_word_def rd_def)
  note eq = trans [OF sym [OF uint_bytes_word [OF w(1)]] uint_bytes_word [OF w(2)]]
  note d0 = signed_digit [OF eq sint_byte sint_byte]
  note d1 = signed_digit [OF d0(2) sint_byte sint_byte]
  note d2 = signed_digit [OF d1(2) sint_byte sint_byte]
  have "sint b3 = sint c3"
    using signed_digit [of "sint b3" 0 1 "sint c3" 0] d2(2) sint_byte by simp
  then show ?thesis
    using d0(1) d1(1) d2(1) by (simp add: signed_word_eqI)
qed

lemma empty_range: "(i \<le> j \<and> j < i \<and> b) = False" for i j :: nat
  by auto

text \<open>What the loops give that have counted to \<open>xs\<close>, when the counters only grow.\<close>

definition counted :: "'a \<Rightarrow> int list \<Rightarrow> 'a option" where
  "counted t xs = (if \<forall>c \<in> set xs. c \<le> INT_MAX then Some t else None)"

lemma count_bits_eq:
  assumes "i + n \<le> length row" and "\<forall>c \<in> set row. c \<le> INT_MAX"
  shows "count_bits [i ..< i + n] outb row =
    (let row' = map (\<lambda>j. row ! j + of_bool (i \<le> j \<and> j < i + n \<and> bit outb (j - i))) [0 ..< length row]
     in counted row' row')"
  using assms
proof (induction n arbitrary: i outb row)
  case 0
  have "map (\<lambda>j. row ! j) [0 ..< length row] = row"
    by (rule map_nth)
  then show ?case
    using "0.prems"(2) by (simp add: empty_range counted_def Let_def del: map_nth)
next
  case (Suc n)
  define row' where "row' = (if outb AND 1 \<noteq> 0 then row[i := row ! i + 1] else row)"
  have odd: "outb AND 1 \<noteq> 0 \<longleftrightarrow> bit outb 0"
    by (simp add: and_one_eq bit_0 odd_iff_mod_2_eq_one)
  have len: "length row' = length row"
    by (simp add: row'_def)
  have final: "map (\<lambda>j. row' ! j + of_bool (Suc i \<le> j \<and> j < Suc i + n \<and> bit (drop_bit 1 outb) (j - Suc i)))
      [0 ..< length row'] =
    map (\<lambda>j. row ! j + of_bool (i \<le> j \<and> j < i + Suc n \<and> bit outb (j - i))) [0 ..< length row]" (is "?l = ?r")
  proof -
    have "row' ! j + of_bool (Suc i \<le> j \<and> j < Suc i + n \<and> bit (drop_bit 1 outb) (j - Suc i)) =
        row ! j + of_bool (i \<le> j \<and> j < i + Suc n \<and> bit outb (j - i))" if "j < length row" for j
    proof (cases "j = i")
      case True
      then show ?thesis
        using that odd by (simp add: row'_def)
    next
      case False
      then have "row' ! j = row ! j"
        by (simp add: row'_def)
      moreover have "Suc i \<le> j \<Longrightarrow> Suc (j - Suc i) = j - i"
        by simp
      ultimately show ?thesis
        using False by (auto simp: bit_drop_bit_eq not_less_eq_eq)
    qed
    then show ?thesis
      by (simp add: len)
  qed
  have upt: "[i ..< i + Suc n] = i # [Suc i ..< Suc i + n]"
    by (simp add: upt_conv_Cons)
  show ?case
  proof (cases "\<forall>c \<in> set row'. c \<le> INT_MAX")
    case True
    have "row ! i + 1 \<le> INT_MAX" if "outb AND 1 \<noteq> 0"
      using True that Suc.prems(1) by (auto simp: row'_def set_update_memI)
    then have "count_bits [i ..< i + Suc n] outb row = count_bits [Suc i ..< Suc i + n] (drop_bit 1 outb) row'"
      unfolding upt using Suc.prems(1) by (simp add: row'_def rd_Some)
    moreover have "Suc i + n \<le> length row'"
      using Suc.prems(1) len by simp
    ultimately show ?thesis
      using Suc.IH [OF _ True, of "Suc i" "drop_bit 1 outb"] unfolding Let_def final by (simp only:)
  next
    case False
    then have odd_bit: "outb AND 1 \<noteq> 0" and past: "\<not> row ! i + 1 \<le> INT_MAX"
      using Suc.prems(2) set_update_subset_insert [of row i "row ! i + 1"] by (auto simp: row'_def split: if_splits)
    then have "count_bits [i ..< i + Suc n] outb row = None"
      unfolding upt using Suc.prems(1) by (simp add: rd_Some)
    moreover have "row ! i + 1 \<in> set ?r"
      using odd_bit odd Suc.prems(1) by (force simp: in_set_conv_nth)
    ultimately show ?thesis
      using past by (auto simp: counted_def Let_def simp del: set_map)
  qed
qed

text \<open>Whether bit \<open>j\<close> of the hash changes when bit \<open>i\<close> of the number hashed does.\<close>

definition flips :: "hash_fn \<Rightarrow> nat \<Rightarrow> nat \<Rightarrow> nat \<Rightarrow> u32 \<Rightarrow> bool" where
  "flips func repetitions i j save \<longleftrightarrow>
     bit (hash_state func repetitions (save XOR push_bit i 1)) j \<noteq> bit (hash_state func repetitions save) j"

definition square :: "int list list \<Rightarrow> bool" where
  "square t \<longleftrightarrow> length t = 32 \<and> (\<forall>row \<in> set t. length row = 32)"

definition small :: "int list list \<Rightarrow> bool" where
  "small t \<longleftrightarrow> (\<forall>row \<in> set t. \<forall>c \<in> set row. c \<le> INT_MAX)"

lemma counted_small: "counted t (concat t) = (if small t then Some t else None)"
  by (auto simp: counted_def small_def)

text \<open>A table that is nowhere above a small one is small.\<close>

lemma small_below:
  assumes "small t'" and "square t" and "square t'" and "\<And>k j. k < 32 \<Longrightarrow> j < 32 \<Longrightarrow> t ! k ! j \<le> t' ! k ! j"
  shows "small t"
  unfolding small_def
proof (intro ballI)
  fix row c
  assume "row \<in> set t" "c \<in> set row"
  then obtain k j where kj: "k < 32" "row = t ! k" "j < 32" "c = t ! k ! j"
    using assms(2) by (metis in_set_conv_nth nth_mem square_def)
  moreover have "t' ! k \<in> set t'" "t' ! k ! j \<in> set (t' ! k)"
    using kj assms(3) by (auto simp: square_def)
  ultimately show "c \<le> INT_MAX"
    using assms(1,4) by (fastforce simp: small_def)
qed

lemma square_map [simp]: "square (map (\<lambda>k. map (f k) [0 ..< 32]) [0 ..< 32])"
  by (auto simp: square_def)

lemma square_id:
  assumes "square t"
  shows "map (\<lambda>k. map (\<lambda>j. t ! k ! j) [0 ..< 32]) [0 ..< 32] = t"
proof -
  have "\<forall>k < 32. map (\<lambda>j. t ! k ! j) [0 ..< 32] = t ! k"
    using assms by (metis map_nth nth_mem square_def)
  then show ?thesis
    using assms by (intro nth_equalityI) (simp_all add: square_def)
qed

lemma flip_loop_eq:
  assumes "square t" and "i + n \<le> 32" and "small t"
  shows "flip_loop func r save (hash_state func r save) [i ..< i + n] t =
    (let t' = map (\<lambda>k. map (\<lambda>j. t ! k ! j + of_bool (i \<le> k \<and> k < i + n \<and> flips func r k j save)) [0 ..< 32]) [0 ..< 32]
     in if small t' then Some t' else None)"
  using assms
proof (induction n arbitrary: i t)
  case 0
  then show ?case
    using square_id [OF "0.prems"(1)] by (simp add: empty_range)
next
  case (Suc n)
  let ?outb = "hash_state func r (save XOR push_bit i 1) XOR hash_state func r save"
  define row where "row = map (\<lambda>j. t ! i ! j + of_bool (flips func r i j save)) [0 ..< 32]"
  define t' where "t' = map (\<lambda>k. map (\<lambda>j. t ! k ! j +
      of_bool (i \<le> k \<and> k < i + Suc n \<and> flips func r k j save)) [0 ..< 32]) [0 ..< 32]"
  have i: "i < length t" "length (t ! i) = 32" "\<forall>c \<in> set (t ! i). c \<le> INT_MAX"
    using Suc.prems by (auto simp: square_def small_def)
  have "map (\<lambda>j. t ! i ! j + of_bool (0 \<le> j \<and> j < 0 + 32 \<and> bit ?outb (j - 0))) [0 ..< length (t ! i)] = row"
    using i(2) by (simp add: row_def flips_def bit_xor_iff cong: map_cong)
  then have count: "count_bits [0 ..< 32] ?outb (t ! i) = counted row row"
    using count_bits_eq [of 0 32 "t ! i" ?outb] i(2,3) by (simp only: Let_def) simp
  have upt: "[i ..< i + Suc n] = i # [Suc i ..< Suc i + n]"
    by (simp add: upt_conv_Cons)
  have step: "flip_loop func r save (hash_state func r save) [i ..< i + Suc n] t =
      Option.bind (counted row row) (\<lambda>row. flip_loop func r save (hash_state func r save) [Suc i ..< Suc i + n] (t[i := row]))"
    unfolding upt using i(1) count by (simp add: rd_Some Let_def)
  have sq: "square (t[i := row])"
    using Suc.prems(1) set_update_subset_insert [of t i row] by (auto simp: square_def row_def)
  have cell: "t[i := row] ! k ! j + of_bool (Suc i \<le> k \<and> k < Suc i + n \<and> flips func r k j save) =
      t ! k ! j + of_bool (i \<le> k \<and> k < i + Suc n \<and> flips func r k j save)" if "j < 32" for k j
    using that i by (cases "k = i") (auto simp: row_def)
  have final: "map (\<lambda>k. map (\<lambda>j. t[i := row] ! k ! j +
      of_bool (Suc i \<le> k \<and> k < Suc i + n \<and> flips func r k j save)) [0 ..< 32]) [0 ..< 32] = t'"
    unfolding t'_def using cell by (simp cong: map_cong)
  show ?case
  proof (cases "\<forall>c \<in> set row. c \<le> INT_MAX")
    case True
    then have "small (t[i := row])"
      using Suc.prems(3) set_update_subset_insert [of t i row] by (fastforce simp: small_def)
    moreover have "Suc i + n \<le> 32"
      using Suc.prems(2) by simp
    ultimately show ?thesis
      using Suc.IH [OF sq, of "Suc i"] True unfolding step Let_def final t'_def [symmetric] counted_def
      by (simp del: upt_Suc)
  next
    case False
    have "row = t' ! i"
      using Suc.prems(2) by (simp add: row_def t'_def cong: map_cong)
    moreover have "t' ! i \<in> set t'"
      using Suc.prems(2) by (intro nth_mem) (simp add: t'_def)
    ultimately have "\<not> small t'"
      using False unfolding small_def by metis
    moreover have "counted row row = None"
      using False by (simp only: counted_def if_False)
    ultimately show ?thesis
      unfolding step t'_def [symmetric] Let_def by simp
  qed
qed

text \<open>The numbers drawn in \<open>n\<close> trials, and the words hashed.\<close>

fun draws :: "('g \<Rightarrow> int \<times> 'g) \<Rightarrow> nat \<Rightarrow> 'g \<Rightarrow> int list" where
  "draws lrand 0 g = []"
| "draws lrand (Suc n) g = fst (lrand g) # draws lrand n (snd (lrand g))"

lemma length_draws [simp]: "length (draws lrand n g) = n"
  by (induction n arbitrary: g) simp_all

definition avalance_counts :: "hash_fn \<Rightarrow> nat \<Rightarrow> u32 list \<Rightarrow> int list list" where
  "avalance_counts func r saves =
     map (\<lambda>i. map (\<lambda>j. int (length (filter (flips func r i j) saves))) [0 ..< 32]) [0 ..< 32]"

lemma length_bytes64 [simp]: "length (bytes64 w) = 8"
  by (simp add: bytes64_def)

lemma bytes64_unfold:
  "bytes64 w = [ucast w, ucast (drop_bit 8 w), ucast (drop_bit 16 w), ucast (drop_bit 24 w)] @
     map (\<lambda>i. ucast (drop_bit (8 * i) w)) [4 ..< 8]"
  by (simp add: bytes64_def upt_rec)

lemma store_and_read:
  assumes "8 \<le> length bytes"
  obtains bytes' where "store_long bytes r = Some bytes'" and "length bytes' = length bytes"
    and "bytes_word bytes' = Some (drawn_word r)"
proof -
  let ?bytes = "bytes64 (word_of_int r) @ drop 8 bytes"
  have "store_long bytes r = Some ?bytes"
    using assms by (simp add: store_long_def buffer_write_def)
  moreover have "bytes_word ?bytes = Some (drawn_word r)"
    by (simp add: drawn_word_def bytes64_unfold bytes_word_def rd_def)
  ultimately show thesis
    using assms by (intro that [of ?bytes]) simp_all
qed

lemma avalance_loop_eq:
  assumes "square t" and "8 \<le> length bytes" and "small t"
  shows "avalance_loop func lrand n r bytes g t =
    (let t' = map (\<lambda>i. map (\<lambda>j. t ! i ! j +
       int (length (filter (flips func r i j) (map drawn_word (draws lrand n g))))) [0 ..< 32]) [0 ..< 32]
     in if small t' then Some t' else None)"
  using assms
proof (induction n arbitrary: bytes g t)
  case 0
  then show ?case
    using square_id [OF "0.prems"(1)] by simp
next
  case (Suc n)
  obtain x g' where draw: "lrand g = (x, g')"
    by (cases "lrand g")
  obtain bytes' where b: "store_long bytes x = Some bytes'" "length bytes' = length bytes"
    "bytes_word bytes' = Some (drawn_word x)"
    by (rule store_and_read [OF Suc.prems(2)])
  define t1 where "t1 = map (\<lambda>k. map (\<lambda>j. t ! k ! j + of_bool (flips func r k j (drawn_word x))) [0 ..< 32]) [0 ..< 32]"
  define t' where "t' = map (\<lambda>i. map (\<lambda>j. t ! i ! j +
    int (length (filter (flips func r i j) (map drawn_word (draws lrand (Suc n) g))))) [0 ..< 32]) [0 ..< 32]"
  have flip: "flip_loop func r (drawn_word x) (hash_state func r (drawn_word x)) [0 ..< 32] t =
      (if small t1 then Some t1 else None)"
  proof -
    have "map (\<lambda>k. map (\<lambda>j. t ! k ! j + of_bool (0 \<le> k \<and> k < 0 + 32 \<and> flips func r k j (drawn_word x)))
        [0 ..< 32]) [0 ..< 32] = t1"
      by (simp add: t1_def cong: map_cong)
    then show ?thesis
      using flip_loop_eq [OF Suc.prems(1) _ Suc.prems(3), of 0 32 func r "drawn_word x"]
      by (simp only: Let_def) simp
  qed
  have final: "map (\<lambda>i. map (\<lambda>j. t1 ! i ! j +
      int (length (filter (flips func r i j) (map drawn_word (draws lrand n g'))))) [0 ..< 32]) [0 ..< 32] = t'"
    using draw by (simp add: t1_def t'_def cong: map_cong)
  show ?case
  proof (cases "small t1")
    case True
    then have "avalance_loop func lrand (Suc n) r bytes g t = avalance_loop func lrand n r bytes' g' t1"
      using draw b flip by simp
    also have "\<dots> = (if small t' then Some t' else None)"
      using Suc.IH [of t1 bytes' g'] Suc.prems(2) b(2) True unfolding Let_def final by (simp add: t1_def)
    finally show ?thesis
      by (simp only: t'_def Let_def)
  next
    case False
    have below: "t1 ! k ! j \<le> t' ! k ! j" if "k < 32" "j < 32" for k j
      using that by (simp add: t1_def t'_def draw)
    have "square t1" "square t'"
      by (simp_all add: t1_def t'_def)
    then have "\<not> small t'"
      using False small_below [OF _ _ _ below] by blast
    moreover have "avalance_loop func lrand (Suc n) r bytes g t = None"
      using False draw b flip by simp
    ultimately show ?thesis
      by (simp only: t'_def [symmetric] Let_def if_False)
  qed
qed

lemma bytes32_inj: "inj bytes32"
  by (rule inj_on_inverseI [of _ "\<lambda>bs. le32 (bs ! 0) (bs ! 1) (bs ! 2) (bs ! 3)"])
    (simp add: bytes32_def le32_bytes32 numeral_2_eq_2 numeral_3_eq_3)

lemma drawn_word_eq_iff:
  "drawn_word x = drawn_word y \<longleftrightarrow> (word_of_int x :: u32) = word_of_int y"
proof -
  have split: "bytes64 (word_of_int z) = bytes32 (word_of_int z) @
      map (\<lambda>i. ucast (drop_bit (8 * i) (word_of_int z :: u64))) [4 ..< 8]" for z
    unfolding bytes64_unfold bytes32_def
    by (auto intro!: bit_word_eqI simp: bit_simps)
  have "drawn_word x = drawn_word y" if "(word_of_int x :: u32) = word_of_int y"
    using that by (simp add: drawn_word_def split bytes32_def bytes_word_def rd_def)
  moreover have "(word_of_int x :: u32) = word_of_int y" if "drawn_word x = drawn_word y"
  proof -
    obtain v w where "bytes_word (bytes64 (word_of_int x)) = Some v" "bytes_word (bytes64 (word_of_int y)) = Some w"
      by (simp add: bytes64_unfold bytes_word_def rd_def)
    then have "bytes_word (bytes64 (word_of_int x)) = bytes_word (bytes64 (word_of_int y))"
      using that by (simp add: drawn_word_def)
    note eq = bytes_word_inj [OF this [unfolded split bytes32_def append.simps]]
    have "bytes32 (word_of_int x) = bytes32 (word_of_int y)"
      unfolding bytes32_def using eq by blast
    then show ?thesis
      by (rule injD [OF bytes32_inj])
  qed
  ultimately show ?thesis
    by blast
qed

text \<open>
  C32. The avalanche test draws into an array of four bytes a number of eight, so that every run with
  a trial is undefined. With room for the number, the loop counts exactly as long as no counter passes
  the largest \<open>int\<close>, where it is undefined: counter \<open>(i, j)\<close> is the number of the trials whose hash
  changes in bit \<open>j\<close> when bit \<open>i\<close> of the word hashed is flipped, between 0 and the number of trials,
  which is 1000000 in the program; and different low words drawn give different words hashed,
  although the bytes are added up as signed ones.
\<close>

theorem avalance_counts_flips:
  assumes "8 \<le> length bytes" and "trials \<noteq> 0"
  shows "avalance func lrand g junk trials repetitions = None \<and>
    avalance_loop func lrand n r bytes g (replicate 32 (replicate 32 0)) =
      (if \<forall>row \<in> set (avalance_counts func r (map drawn_word (draws lrand n g))). \<forall>c \<in> set row. c \<le> INT_MAX
       then Some (avalance_counts func r (map drawn_word (draws lrand n g))) else None) \<and>
    (\<forall>i < 32. \<forall>j < 32. 0 \<le> avalance_counts func r (map drawn_word (draws lrand n g)) ! i ! j \<and>
      avalance_counts func r (map drawn_word (draws lrand n g)) ! i ! j \<le> int n) \<and>
    (drawn_word x = drawn_word y \<longleftrightarrow> (word_of_int x :: u32) = word_of_int y)"
proof -
  obtain n' where "unat trials = Suc n'"
    using assms(2) by (cases "unat trials") (auto simp: unat_eq_0)
  then have "avalance func lrand g junk trials repetitions = None"
    by (cases "lrand g") (simp add: avalance_def store_long_def buffer_write_def)
  moreover have "square (replicate 32 (replicate 32 0))" "small (replicate 32 (replicate 32 0))"
    by (simp_all add: square_def small_def INT_MAX_def)
  from avalance_loop_eq [OF this(1) assms(1) this(2), of func lrand n r g]
  have "avalance_loop func lrand n r bytes g (replicate 32 (replicate 32 0)) =
      (if \<forall>row \<in> set (avalance_counts func r (map drawn_word (draws lrand n g))). \<forall>c \<in> set row. c \<le> INT_MAX
       then Some (avalance_counts func r (map drawn_word (draws lrand n g))) else None)"
    by (simp add: avalance_counts_def small_def Let_def cong: map_cong)
  moreover have "length (filter P (draws lrand n g)) \<le> n" for P
    using length_filter_le [of P "draws lrand n g"] by simp
  ultimately show ?thesis
    using drawn_word_eq_iff by (simp add: avalance_counts_def filter_map o_def)
qed

lemma counts_small:
  assumes "int (length ws) \<le> INT_MAX"
  shows "\<forall>row \<in> set (avalance_counts func r ws). \<forall>c \<in> set row. c \<le> INT_MAX"
proof -
  have "int (length (filter P ws)) \<le> INT_MAX" for P
    using assms length_filter_le [of P ws] by linarith
  then show ?thesis
    by (auto simp: avalance_counts_def)
qed

theorem avalance_counts_flips_witness:
  "avalance lhi_hash_dumb1 (\<lambda>g. (g, g + 1)) 5 0 3 1 = None \<and>
   avalance_loop lhi_hash_dumb1 (\<lambda>g. (g, g + 1)) 2 1 (replicate 8 0) 5 (replicate 32 (replicate 32 0)) =
     Some (avalance_counts lhi_hash_dumb1 1 (map drawn_word (draws (\<lambda>g. (g, g + 1)) 2 5)))"
proof -
  have "8 \<le> length (replicate 8 (0 :: byte))" and "(3 :: u32) \<noteq> 0"
    by simp_all
  note run = avalance_counts_flips [OF this, where func = lhi_hash_dumb1 and lrand = "\<lambda>g. (g, g + 1)" and g = 5 and
      junk = 0 and repetitions = 1 and n = 2 and r = 1]
  have "\<forall>row \<in> set (avalance_counts lhi_hash_dumb1 1 (map drawn_word (draws (\<lambda>g. (g, g + 1)) 2 5))).
      \<forall>c \<in> set row. c \<le> INT_MAX"
    by (rule counts_small) (simp add: INT_MAX_def)
  then show ?thesis
    using run [THEN conjunct1] run [THEN conjunct2, THEN conjunct1] by (metis (lifting))
qed

section \<open>What the benchmark hashes\<close>

lemma ucast_less: "ucast (i :: u32) < (len :: u64) \<longleftrightarrow> unat i < unat len"
  by (simp add: word_less_nat_alt unsigned_ucast_eq take_bit_nat_eq_self less_trans [OF unat_u32_less])

lemma fill_mem_from:
  assumes "unat i \<le> unat len" and "unat len < 2 ^ 32" and "mem \<noteq> []"
  shows "fill_mem len i mem = Some (if unat i = unat len then mem else mem[0 := word_of_nat (unat len - 1)])"
  using assms
proof (induction "unat len - unat i" arbitrary: i mem)
  case 0
  then show ?case
    by (subst fill_mem.simps) (simp add: ucast_less)
next
  case (Suc n)
  then have less: "unat i < unat len" "unat i < 2 ^ 32 - 1"
    by linarith+
  then have i: "unat (i + 1) = unat i + 1"
    using unat_plus_one_u32 by blast
  have "fill_mem len i mem = fill_mem len (i + 1) (mem[0 := ucast i])"
    using less Suc.prems(3) by (subst fill_mem.simps) (simp add: ucast_less)
  also have "\<dots> = Some (if unat (i + 1) = unat len then mem[0 := ucast i]
      else (mem[0 := ucast i])[0 := word_of_nat (unat len - 1)])"
    by (rule Suc.hyps(1)) (use Suc.hyps(2) Suc.prems i less in simp_all)
  also have "\<dots> = Some (mem[0 := word_of_nat (unat len - 1)])"
  proof -
    have "ucast i = (word_of_nat (unat len - 1) :: byte)" if "unat (i + 1) = unat len"
      using that i by (simp flip: that)
    then show ?thesis
      by simp
  qed
  finally show ?case
    using less by simp
qed

lemma fill_mem_ends:
  assumes "fill_mem len i mem = Some mem'"
  shows "unat len < 2 ^ 32"
proof (rule fill_mem.raw_induct [of "\<lambda>len i mem mem'. unat len < 2 ^ 32", OF _ assms])
  fix f and len :: u64 and i :: u32 and mem mem' :: "byte list"
  assume IH: "\<And>len i mem y. f len i mem = Some y \<Longrightarrow> unat len < 2 ^ 32"
    and body: "(if ucast i < len then if mem = [] then None else f len (i + 1) (mem[0 := ucast i]) else Some mem) =
      Some mem'"
  show "unat len < 2 ^ 32"
  proof (cases "ucast i < len")
    case True
    then show ?thesis
      using IH [of len "i + 1" "mem[0 := ucast i]" mem'] body by (auto split: if_splits)
  next
    case False
    then show ?thesis
      using unat_u32_less [of i] by (simp add: ucast_less)
  qed
qed

text \<open>A time in microseconds.\<close>

definition usecs :: "timeval \<Rightarrow> int" where
  "usecs t = 1000000 * tv_sec t + tv_usec t"

lemma difftime_absolute:
  assumes "0 \<le> tv_usec t1" "tv_usec t1 < 1000000" "0 \<le> tv_usec t2" "tv_usec t2 < 1000000"
  shows "do_difftime t1 t2 = of_int \<bar>usecs t1 - usecs t2\<bar> / 1000000"
proof -
  have quot: "of_int sec + of_int usec / 1000000 = (of_int (1000000 * sec + usec) / 1000000 :: rat)" for sec usec
    by (simp add: field_simps)
  have less: "time_lt t1 t2 \<longleftrightarrow> usecs t1 < usecs t2"
    using assms unfolding time_lt_def usecs_def by linarith
  show ?thesis
    unfolding do_difftime_def less Let_def
    by (auto simp: quot usecs_def simp del: of_int_add of_int_diff of_int_mult split: if_splits)
qed

text \<open>
  The benchmark hashes a block of which only the first byte was ever stored, the last value of
  the loop that means to fill it; the rest is what the allocator left there. From \<open>2 ^ 32\<close> bytes on
  the loop never ends. The time printed is the distance of the two times, whichever is later.
\<close>

lemma benchmark_run:
  assumes "malloc hp = (Some junk, hp')" and "calls \<noteq> 0" and "len \<noteq> 0"
    and "0 \<le> tv_usec t1 \<and> tv_usec t1 < 1000000" and "0 \<le> tv_usec t2 \<and> tv_usec t2 < 1000000"
  shows "get_speed hp len calls =
      (if unat len < 2 ^ 32
       then Some (Some (word_of_nat (unat len - 1) # replicate (unat len - 1) (ucast junk), calls), free hp')
       else None) \<and>
    do_difftime t1 t2 = of_int \<bar>usecs t1 - usecs t2\<bar> / 1000000"
proof -
  have "do_difftime t1 t2 = of_int \<bar>usecs t1 - usecs t2\<bar> / 1000000"
    using assms(4,5) by (simp add: difftime_absolute)
  moreover obtain n where n: "unat len = Suc n"
    using assms(3) by (cases "unat len") (auto simp: unat_eq_0)
  have "get_speed hp len calls = None" if "\<not> unat len < 2 ^ 32"
  proof -
    have "fill_mem len 0 mem = None" for mem
      using fill_mem_ends [of len 0 mem] that by (cases "fill_mem len 0 mem") auto
    then show ?thesis
      using assms(1,2) by (simp add: get_speed_def)
  qed
  moreover have "get_speed hp len calls =
      Some (Some (word_of_nat (unat len - 1) # replicate (unat len - 1) (ucast junk), calls), free hp')"
    if "unat len < 2 ^ 32"
  proof -
    have "unat (ucast len :: u32) = unat len"
      using that by (simp add: unsigned_ucast_eq take_bit_nat_eq_self)
    then show ?thesis
      using assms(1,2) fill_mem_from [of 0 len "replicate (unat len) (ucast junk)"] that n
      by (simp add: get_speed_def)
  qed
  ultimately show ?thesis
    by auto
qed

end
