(* ===== verification/Chi_square.thy ===== *)
theory Chi_square
  imports Analysis
begin

text \<open>
  The program \<open>analysis/chi_square/chi_square.c\<close>: keys of three kinds are hashed into a table of
  \<open>rchi\<close> counters, whose statistic is accumulated over 100 probes. The arithmetic of \<open>double\<close> is a
  parameter, so that the theorems hold with rounding, infinities and NaN; exact arithmetic on rational
  numbers is one instance. The printed bound \<open>elimit + rchi\<close>, which contains a square root, is left out.
\<close>

section \<open>The program\<close>

definition KEYLEN :: u32 where "KEYLEN = 10"
definition KS_RANDOM :: int where [hi_defs]: "KS_RANDOM = 1"
definition KS_STRING :: int where [hi_defs]: "KS_STRING = 2"
definition KS_COUNTER :: int where [hi_defs]: "KS_COUNTER = 3"

text \<open>What the generators of keys change: the seed data, the static counter, and the heap.\<close>

record 'g chi_state =
  chi_seed :: 'g
  key_counter :: u64
  chi_heap :: heap

text \<open>The result of \<open>random_string\<close> is not looked at: without memory the pointer is not set.\<close>

definition gen_hashsum_by_random_string ::
    "hash_fn \<Rightarrow> ('g \<Rightarrow> int \<times> 'g) \<Rightarrow> 'g chi_state \<Rightarrow> (u32 \<times> 'g chi_state) option" where
  "gen_hashsum_by_random_string func lrand48_r st = do {
     (_, key_ptr, r_d, hp) \<leftarrow> random_string lrand48_r (chi_heap st) KEYLEN (chi_seed st);
     s \<leftarrow> key_ptr;
     n \<leftarrow> strlen s;
     Some (func (take n s), st\<lparr>chi_seed := r_d, chi_heap := free hp\<rparr>)
   }"

definition gen_hashsum_from_random ::
    "hash_fn \<Rightarrow> ('g \<Rightarrow> int \<times> 'g) \<Rightarrow> 'g chi_state \<Rightarrow> u32 \<times> 'g chi_state" where
  "gen_hashsum_from_random func lrand48_r st =
     (let (rand_data, r_d) = lrand48_r (chi_seed st)
      in (func (bytes64 (word_of_int rand_data)), st\<lparr>chi_seed := r_d\<rparr>))"

definition gen_hashsum_from_counter :: "hash_fn \<Rightarrow> 'g chi_state \<Rightarrow> u32 \<times> 'g chi_state" where
  "gen_hashsum_from_counter func st =
     (func (bytes64 (key_counter st)), st\<lparr>key_counter := key_counter st + 1\<rparr>)"

definition gen_hashsum ::
    "hash_fn \<Rightarrow> ('g \<Rightarrow> int \<times> 'g) \<Rightarrow> int \<Rightarrow> 'g chi_state \<Rightarrow> (u32 \<times> 'g chi_state) outcome option" where
  "gen_hashsum func lrand48_r key_strategy st =
     (if key_strategy = KS_RANDOM then Some (Ran (gen_hashsum_from_random func lrand48_r st))
      else if key_strategy = KS_COUNTER then Some (Ran (gen_hashsum_from_counter func st))
      else if key_strategy = KS_STRING then map_option Ran (gen_hashsum_by_random_string func lrand48_r st)
      else Some (Exit []))"

text \<open>The loop over \<open>j\<close> that fills the counters; the number of rounds left.\<close>

fun fill_table :: "hash_fn \<Rightarrow> ('g \<Rightarrow> int \<times> 'g) \<Rightarrow> int \<Rightarrow> u32 \<Rightarrow> nat \<Rightarrow> int list \<Rightarrow> 'g chi_state \<Rightarrow>
    (int list \<times> 'g chi_state) outcome option" where
  "fill_table func lrand48_r key_strategy rchi 0 f st = Some (Ran (f, st))"
| "fill_table func lrand48_r key_strategy rchi (Suc n) f st =
     then_ran (gen_hashsum func lrand48_r key_strategy st) (\<lambda>(hashsum, st).
       if rchi = 0 then None
       else do {
         c \<leftarrow> rd f (unat (hashsum mod rchi));
         fill_table func lrand48_r key_strategy rchi n (f[unat (hashsum mod rchi) := c + 1]) st
       })"

text \<open>The operations on \<open>double\<close> that the program uses; integers are converted.\<close>

record 'd double_ops =
  d_of_int :: "int \<Rightarrow> 'd"
  d_add :: "'d \<Rightarrow> 'd \<Rightarrow> 'd"
  d_sub :: "'d \<Rightarrow> 'd \<Rightarrow> 'd"
  d_mul :: "'d \<Rightarrow> 'd \<Rightarrow> 'd"
  d_div :: "'d \<Rightarrow> 'd \<Rightarrow> 'd"

definition d_of_u32 :: "'d double_ops \<Rightarrow> u32 \<Rightarrow> 'd" where
  "d_of_u32 F n = d_of_int F (int (unat n))"

text \<open>The loop over \<open>i\<close>: \<open>chisq\<close> is not reset. An array of no elements is undefined.\<close>

fun chi_loop :: "'d double_ops \<Rightarrow> hash_fn \<Rightarrow> ('g \<Rightarrow> int \<times> 'g) \<Rightarrow> int \<Rightarrow> u32 \<Rightarrow> u32 \<Rightarrow> nat \<Rightarrow> 'd \<Rightarrow>
    'g chi_state \<Rightarrow> ('d list \<times> 'g chi_state) outcome option" where
  "chi_loop F func lrand48_r key_strategy nchi rchi 0 chisq st = Some (Ran ([], st))"
| "chi_loop F func lrand48_r key_strategy nchi rchi (Suc n) chisq st =
     (if rchi = 0 then None
      else then_ran (fill_table func lrand48_r key_strategy rchi (unat nchi) (replicate (unat rchi) 0) st) (\<lambda>(f, st).
        let frac = d_div F (d_of_u32 F nchi) (d_of_u32 F rchi);
            chisq = foldl (\<lambda>chisq fj. d_add F chisq
              (d_mul F (d_sub F (d_of_int F fj) frac) (d_sub F (d_of_int F fj) frac))) chisq f;
            chisq = d_mul F chisq (d_div F (d_of_u32 F rchi) (d_of_u32 F nchi))
        in then_ran (chi_loop F func lrand48_r key_strategy nchi rchi n chisq st) (\<lambda>(probes_chisq_arr, st).
             Some (Ran (chisq # probes_chisq_arr, st)))))"

text \<open>
  The value printed. \<open>coll_chisq_res\<close> is never initialised: \<open>junk\<close> is whatever the variable holds,
  any value of the type. (The standard leaves even the reading of it undefined.)
\<close>

definition chi_square :: "'d double_ops \<Rightarrow> hash_fn \<Rightarrow> ('g \<Rightarrow> int \<times> 'g) \<Rightarrow> 'd \<Rightarrow> int \<Rightarrow> u32 \<Rightarrow> u32 \<Rightarrow> u32 \<Rightarrow>
    'g chi_state \<Rightarrow> ('d \<times> 'g chi_state) outcome option" where
  "chi_square F func lrand48_r junk key_strategy nchi rchi probes st =
     (if probes = 0 then None
      else then_ran (chi_loop F func lrand48_r key_strategy nchi rchi (unat probes) (d_of_int F 0) st)
        (\<lambda>(probes_chisq_arr, st).
          Some (Ran (d_div F (foldl (d_add F) junk probes_chisq_arr) (d_of_u32 F probes), st))))"

definition arg_to_keystrategy :: "string \<Rightarrow> int" where
  "arg_to_keystrategy arg =
     (if arg = ''string'' then KS_STRING
      else if arg = ''counter'' then KS_COUNTER
      else if arg = ''random'' then KS_RANDOM
      else - 1)"

text \<open>The usage text ends with the names of the algorithms.\<close>

definition chi_die_usage :: "'a outcome option" where
  "chi_die_usage = do { names \<leftarrow> list_loop [0 ..< HI_HASH_MAX + 1]; Some (Exit names) }"

definition chi_main :: "'d double_ops \<Rightarrow> ('g \<Rightarrow> int \<times> 'g) \<Rightarrow> 'd \<Rightarrow> 'g chi_state \<Rightarrow> string list \<Rightarrow>
    ('d \<times> 'g chi_state) outcome option" where
  "chi_main F lrand48_r junk st argv =
     (case argv of
        [alg, strategy, n, r] \<Rightarrow> do {
          func \<leftarrow> get_hashfunc_by_name alg;
          case func of
            None \<Rightarrow> chi_die_usage
          | Some func \<Rightarrow>
              if arg_to_keystrategy strategy < 0 then chi_die_usage
              else do {
                nchi \<leftarrow> atoi n;
                rchi \<leftarrow> atoi r;
                chi_square F (fp_fun func) lrand48_r junk (arg_to_keystrategy strategy)
                  (word_of_int nchi) (word_of_int rchi) 100 st
              }
        }
      | _ \<Rightarrow> chi_die_usage)"

section \<open>The counters\<close>

fun gen_sums :: "hash_fn \<Rightarrow> ('g \<Rightarrow> int \<times> 'g) \<Rightarrow> int \<Rightarrow> nat \<Rightarrow> 'g chi_state \<Rightarrow>
    (u32 list \<times> 'g chi_state) outcome option" where
  "gen_sums func lrand strategy 0 st = Some (Ran ([], st))"
| "gen_sums func lrand strategy (Suc n) st =
     then_ran (gen_hashsum func lrand strategy st) (\<lambda>(h, st).
       then_ran (gen_sums func lrand strategy n st) (\<lambda>(hs, st). Some (Ran (h # hs, st))))"

definition hash_counts :: "u32 \<Rightarrow> u32 list \<Rightarrow> int list" where
  "hash_counts rchi hs = map (\<lambda>j. int (length (filter (\<lambda>h. unat (h mod rchi) = j) hs))) [0 ..< unat rchi]"

lemma gen_sums_Suc:
  assumes "gen_sums func lrand strategy (Suc n) st = Some (Ran (hs, st'))"
  obtains h st0 hs0 where "gen_hashsum func lrand strategy st = Some (Ran (h, st0))"
    and "gen_sums func lrand strategy n st0 = Some (Ran (hs0, st'))" and "hs = h # hs0"
  using assms by (auto simp: then_ran_Ran)

lemma length_hash_counts [simp]: "length (hash_counts rchi hs) = unat rchi"
  by (simp add: hash_counts_def)

lemma hash_counts_nth:
  "j < unat rchi \<Longrightarrow> hash_counts rchi hs ! j = int (length (filter (\<lambda>h. unat (h mod rchi) = j) hs))"
  by (simp add: hash_counts_def)

lemma gen_sums_append:
  assumes "gen_sums func lrand strategy m st = Some (Ran (hs, st1))"
    and "gen_sums func lrand strategy n st1 = Some (Ran (hs', st2))"
  shows "gen_sums func lrand strategy (m + n) st = Some (Ran (hs @ hs', st2))"
  using assms
proof (induction m arbitrary: st hs)
  case 0
  then show ?case by simp
next
  case (Suc m)
  obtain h st0 hs0 where "gen_hashsum func lrand strategy st = Some (Ran (h, st0))"
    "gen_sums func lrand strategy m st0 = Some (Ran (hs0, st1))" "hs = h # hs0"
    by (rule gen_sums_Suc [OF Suc.prems(1)])
  then show ?case
    using Suc.IH [of st0 hs0] Suc.prems(2) by simp
qed

lemma mod_less_u32: "rchi \<noteq> 0 \<Longrightarrow> unat (h mod rchi :: u32) < unat rchi"
  by (simp add: unat_mod unat_gt_0)

lemma fill_table_eq:
  assumes "gen_sums func lrand strategy n st = Some (Ran (hs, st'))" and "rchi \<noteq> 0" and "length f = unat rchi"
  shows "fill_table func lrand strategy rchi n f st =
    Some (Ran (map (\<lambda>j. f ! j + hash_counts rchi hs ! j) [0 ..< unat rchi], st'))"
  using assms(1,3)
proof (induction n arbitrary: st hs f)
  case 0
  have "map (\<lambda>j. f ! j) [0 ..< unat rchi] = f"
    using "0.prems"(2) by (metis map_nth)
  moreover have "map (\<lambda>j. f ! j + hash_counts rchi [] ! j) [0 ..< unat rchi] = map (\<lambda>j. f ! j) [0 ..< unat rchi]"
    by (simp add: hash_counts_nth)
  ultimately show ?case
    using "0.prems" by simp
next
  case (Suc n)
  obtain h st0 hs0 where h: "gen_hashsum func lrand strategy st = Some (Ran (h, st0))"
    "gen_sums func lrand strategy n st0 = Some (Ran (hs0, st'))" "hs = h # hs0"
    by (rule gen_sums_Suc [OF Suc.prems(1)])
  let ?j = "unat (h mod rchi)"
  have j: "?j < length f"
    using mod_less_u32 [OF assms(2)] Suc.prems(2) by simp
  then have "fill_table func lrand strategy rchi (Suc n) f st =
      fill_table func lrand strategy rchi n (f[?j := f ! ?j + 1]) st0"
    using h(1) assms(2) by (simp add: rd_Some)
  also have "\<dots> = Some (Ran (map (\<lambda>j. f[?j := f ! ?j + 1] ! j + hash_counts rchi hs0 ! j) [0 ..< unat rchi], st'))"
    by (rule Suc.IH [OF h(2)]) (use Suc.prems(2) in simp)
  also have "\<dots> = Some (Ran (map (\<lambda>j. f ! j + hash_counts rchi hs ! j) [0 ..< unat rchi], st'))"
    using Suc.prems(2) by (auto simp: h(3) hash_counts_nth nth_list_update)
  finally show ?case .
qed

lemma sum_list_int_update: "i < length xs \<Longrightarrow> sum_list (xs[i := x]) = sum_list xs + x - (xs ! i :: int)"
  by (induction xs arbitrary: i) (auto simp: nth_Cons' split: nat.splits)

lemma hash_counts_sum:
  assumes "rchi \<noteq> 0"
  shows "sum_list (hash_counts rchi hs) = int (length hs)"
proof (induction hs)
  case Nil
  then show ?case by (simp add: hash_counts_def)
next
  case (Cons h hs)
  let ?j = "unat (h mod rchi)"
  have j: "?j < length (hash_counts rchi hs)"
    using mod_less_u32 [OF assms] by simp
  have "hash_counts rchi (h # hs) = (hash_counts rchi hs)[?j := hash_counts rchi hs ! ?j + 1]"
    using j by (intro nth_equalityI) (auto simp: hash_counts_nth nth_list_update)
  then show ?case
    using Cons j by (simp add: sum_list_int_update)
qed

section \<open>Every probe has its keys\<close>

definition strategies :: "int set" where
  "strategies = {KS_RANDOM, KS_COUNTER, KS_STRING}"

lemma gen_hashsum_ran:
  assumes "strategy \<in> strategies" and "lrand48_range lrand" and "no_oom (chi_heap st)"
  obtains h st' where "gen_hashsum func lrand strategy st = Some (Ran (h, st'))" and "no_oom (chi_heap st')"
    and "live (chi_heap st') = live (chi_heap st)"
proof (cases "strategy = KS_STRING")
  case True
  have "no_oom hp'" if "random_string lrand (chi_heap st) KEYLEN (chi_seed st) = Some (r, k, g', hp')" for r k g' hp'
    using that assms(3) by (auto simp: random_string_def malloc_def no_oom_def bind_Some_iff Let_def
        split: malloc_result.splits if_splits prod.splits)
  moreover obtain s g' hp' where "random_string lrand (chi_heap st) KEYLEN (chi_seed st) = Some (0, Some (s @ [0]), g', hp')"
    "live hp' = live (chi_heap st) + 1"
    using random_string_letters [OF assms(2,3), of KEYLEN "chi_seed st"] by (auto simp: KEYLEN_def)
  ultimately show ?thesis
    using that True by (auto simp: gen_hashsum_def hi_defs gen_hashsum_by_random_string_def strlen_def)
next
  case False
  then have "strategy = KS_RANDOM \<or> strategy = KS_COUNTER"
    using assms(1) by (auto simp: strategies_def)
  then show ?thesis
    using that assms(3) by (cases "lrand (chi_seed st)")
      (auto simp: gen_hashsum_def hi_defs gen_hashsum_from_random_def gen_hashsum_from_counter_def)
qed

lemma gen_sums_ran:
  assumes "strategy \<in> strategies" and "lrand48_range lrand" and "no_oom (chi_heap st)"
  obtains hs st' where "gen_sums func lrand strategy n st = Some (Ran (hs, st'))" and "length hs = n"
    and "no_oom (chi_heap st')" and "live (chi_heap st') = live (chi_heap st)"
proof -
  have "\<exists>hs st'. gen_sums func lrand strategy n st = Some (Ran (hs, st')) \<and> length hs = n \<and>
      no_oom (chi_heap st') \<and> live (chi_heap st') = live (chi_heap st)"
    using assms(3)
  proof (induction n arbitrary: st)
    case (Suc n)
    obtain h st0 where h: "gen_hashsum func lrand strategy st = Some (Ran (h, st0))" "no_oom (chi_heap st0)"
      "live (chi_heap st0) = live (chi_heap st)"
      by (rule gen_hashsum_ran [OF assms(1,2) Suc.prems])
    from Suc.IH [OF h(2)] h(1,3) show ?case
      by force
  qed simp
  then show thesis
    using that by blast
qed

section \<open>The values of the probes\<close>

text \<open>What a probe with the counters \<open>f\<close> makes of the value \<open>c\<close> of the one before it.\<close>

definition chi_probe :: "'d double_ops \<Rightarrow> u32 \<Rightarrow> u32 \<Rightarrow> 'd \<Rightarrow> int list \<Rightarrow> 'd" where
  "chi_probe F nchi rchi c f =
     (let e = d_div F (d_of_u32 F nchi) (d_of_u32 F rchi); dev = (\<lambda>x. d_sub F (d_of_int F x) e)
      in d_mul F (foldl (\<lambda>c x. d_add F c (d_mul F (dev x) (dev x))) c f)
           (d_div F (d_of_u32 F rchi) (d_of_u32 F nchi)))"

fun chi_values :: "'d double_ops \<Rightarrow> u32 \<Rightarrow> u32 \<Rightarrow> 'd \<Rightarrow> int list list \<Rightarrow> 'd list" where
  "chi_values F nchi rchi c [] = []"
| "chi_values F nchi rchi c (f # fs) =
     (let c = chi_probe F nchi rchi c f in c # chi_values F nchi rchi c fs)"

text \<open>The keys of the probes.\<close>

lemma probe_keys:
  assumes "strategy \<in> strategies" and "lrand48_range lrand" and "no_oom (chi_heap st)"
  shows "\<exists>hss st'. length hss = n \<and> (\<forall>hs \<in> set hss. length hs = m) \<and>
    gen_sums func lrand strategy (n * m) st = Some (Ran (concat hss, st')) \<and>
    live (chi_heap st') = live (chi_heap st)"
  using assms(3)
proof (induction n arbitrary: st)
  case 0
  show ?case
    by (intro exI [of _ "[]"] exI [of _ st]) simp
next
  case (Suc n)
  obtain hs st1 where 1: "gen_sums func lrand strategy m st = Some (Ran (hs, st1))" "length hs = m"
    "no_oom (chi_heap st1)" "live (chi_heap st1) = live (chi_heap st)"
    by (rule gen_sums_ran [OF assms(1,2) Suc.prems])
  obtain hss st' where 2: "length hss = n" "\<forall>hs \<in> set hss. length hs = m"
    "gen_sums func lrand strategy (n * m) st1 = Some (Ran (concat hss, st'))"
    "live (chi_heap st') = live (chi_heap st1)"
    using Suc.IH [OF 1(3)] by blast
  show ?case
    using gen_sums_append [OF 1(1) 2(3)] 1(2,4) 2(1,2,4)
    by (intro exI [of _ "hs # hss"] exI [of _ st']) simp
qed

lemma gen_sums_split:
  assumes "gen_sums func lrand strategy (length hs + n) st = Some (Ran (hs @ hs', st2))"
  obtains st1 where "gen_sums func lrand strategy (length hs) st = Some (Ran (hs, st1))"
    and "gen_sums func lrand strategy n st1 = Some (Ran (hs', st2))"
proof -
  have "\<exists>st1. gen_sums func lrand strategy (length hs) st = Some (Ran (hs, st1)) \<and>
      gen_sums func lrand strategy n st1 = Some (Ran (hs', st2))"
    using assms
  proof (induction hs arbitrary: st)
    case Nil
    then show ?case by simp
  next
    case (Cons h hs)
    obtain h0 st0 hs0 where "gen_hashsum func lrand strategy st = Some (Ran (h0, st0))"
      "gen_sums func lrand strategy (length hs + n) st0 = Some (Ran (hs0, st2))" "(h # hs) @ hs' = h0 # hs0"
      using Cons.prems gen_sums_Suc [of func lrand strategy "length hs + n" st] by (metis add_Suc length_Cons)
    then show ?case
      using Cons.IH [of st0] by auto
  qed
  then show thesis
    using that by blast
qed

text \<open>In any arithmetic the loop makes its values of the exact counts of these keys.\<close>

lemma chi_loop_eq:
  assumes "rchi \<noteq> 0" and "\<forall>hs \<in> set hss. length hs = unat nchi"
    and "gen_sums func lrand strategy (length hss * unat nchi) st = Some (Ran (concat hss, st'))"
  shows "chi_loop F func lrand strategy nchi rchi (length hss) c st =
    Some (Ran (chi_values F nchi rchi c (map (hash_counts rchi) hss), st'))"
  using assms(2,3)
proof (induction hss arbitrary: c st)
  case Nil
  then show ?case by simp
next
  case (Cons hs hss)
  have "gen_sums func lrand strategy (length hs + length hss * unat nchi) st = Some (Ran (hs @ concat hss, st'))"
    using Cons.prems by simp
  then obtain st1 where 1: "gen_sums func lrand strategy (unat nchi) st = Some (Ran (hs, st1))"
    and 2: "gen_sums func lrand strategy (length hss * unat nchi) st1 = Some (Ran (concat hss, st'))"
    using Cons.prems(1) by (elim gen_sums_split) simp
  have "map (\<lambda>j. replicate (unat rchi) 0 ! j + hash_counts rchi hs ! j) [0 ..< unat rchi] = hash_counts rchi hs"
    by (rule nth_equalityI) simp_all
  then have "fill_table func lrand strategy rchi (unat nchi) (replicate (unat rchi) 0) st =
      Some (Ran (hash_counts rchi hs, st1))"
    using fill_table_eq [OF 1 assms(1), of "replicate (unat rchi) 0"] by simp
  then show ?case
    using assms(1) Cons.IH [OF _ 2] Cons.prems(1) by (simp add: chi_probe_def Let_def)
qed

section \<open>The statistic in exact arithmetic\<close>

definition exact_ops :: "rat double_ops" where
  "exact_ops = \<lparr>d_of_int = of_int, d_add = (+), d_sub = (-), d_mul = (*), d_div = (/)\<rparr>"

text \<open>The chi-square statistic of a table of counters against the uniform distribution.\<close>

definition chi_stat :: "int list \<Rightarrow> rat" where
  "chi_stat f = (let e = of_int (sum_list f) / of_nat (length f) in (\<Sum>x\<leftarrow>f. (of_int x - e) ^ 2 / e))"

lemma foldl_squares: "foldl (\<lambda>c x. c + (g x - r) * (g x - r)) c f = c + (\<Sum>x\<leftarrow>f. (g x - r) ^ 2)" for r :: rat
  by (induction f arbitrary: c) (simp_all add: power2_eq_square algebra_simps)

lemma chi_probe_exact:
  assumes "length f = unat rchi" and "sum_list f = int (unat nchi)"
  shows "chi_probe exact_ops nchi rchi c f = c * (of_nat (unat rchi) / of_nat (unat nchi)) + chi_stat f"
proof -
  let ?e = "of_nat (unat nchi) / of_nat (unat rchi) :: rat"
  have "chi_stat f = (\<Sum>x\<leftarrow>f. (of_int x - ?e) ^ 2 * (1 / ?e))"
    using assms by (simp add: chi_stat_def)
  also have "\<dots> = (\<Sum>x\<leftarrow>f. (of_int x - ?e) ^ 2) * (of_nat (unat rchi) / of_nat (unat nchi))"
    by (simp only: sum_list_mult_const divide_divide_eq_right mult_1)
  finally have stat: "chi_stat f = (\<Sum>x\<leftarrow>f. (of_int x - ?e) ^ 2) * (of_nat (unat rchi) / of_nat (unat nchi))" .
  have "chi_probe exact_ops nchi rchi c f =
      foldl (\<lambda>c x. c + (of_int x - ?e) * (of_int x - ?e)) c f * (of_nat (unat rchi) / of_nat (unat nchi))"
    by (simp add: chi_probe_def exact_ops_def d_of_u32_def Let_def)
  then show ?thesis
    by (simp only: foldl_squares distrib_right stat)
qed

text \<open>The value of each probe carries those of all earlier ones, scaled by powers of \<open>rchi / nchi\<close>.\<close>

lemma chi_values_nth:
  assumes "\<forall>f \<in> set fs. length f = unat rchi \<and> sum_list f = int (unat nchi)" and "i < length fs"
  shows "chi_values exact_ops nchi rchi c fs ! i =
    c * (of_nat (unat rchi) / of_nat (unat nchi)) ^ (i + 1) +
    (\<Sum>k\<le>i. chi_stat (fs ! k) * (of_nat (unat rchi) / of_nat (unat nchi)) ^ (i - k))"
  using assms
proof (induction fs arbitrary: c i)
  case Nil
  then show ?case by simp
next
  case (Cons f fs)
  let ?q = "of_nat (unat rchi) / of_nat (unat nchi) :: rat"
  have f: "chi_probe exact_ops nchi rchi c f = c * ?q + chi_stat f"
    by (rule chi_probe_exact) (use Cons.prems(1) in simp_all)
  show ?case
  proof (cases i)
    case 0
    then show ?thesis by (simp add: f Let_def)
  next
    case (Suc j)
    have "chi_values exact_ops nchi rchi c (f # fs) ! i = (c * ?q + chi_stat f) * ?q ^ (j + 1) +
        (\<Sum>k\<le>j. chi_stat (fs ! k) * ?q ^ (j - k))"
      using Cons.IH [of j "c * ?q + chi_stat f"] Cons.prems Suc by (simp add: f Let_def)
    also have "\<dots> = c * ?q ^ (i + 1) +
        (chi_stat f * ?q ^ (j + 1) + (\<Sum>k\<le>j. chi_stat (fs ! k) * ?q ^ (j - k)))"
      using Suc by (simp only: distrib_right add.assoc mult.assoc power_Suc Suc_eq_plus1 power_add power_one_right) (simp add: mult_ac)
    also have "chi_stat f * ?q ^ (j + 1) + (\<Sum>k\<le>j. chi_stat (fs ! k) * ?q ^ (j - k)) =
        (\<Sum>k\<le>i. chi_stat ((f # fs) ! k) * ?q ^ (i - k))"
      unfolding Suc sum.atMost_Suc_shift by simp
    finally show ?thesis .
  qed
qed

lemma length_chi_values [simp]: "length (chi_values F nchi rchi c fs) = length fs"
  by (induction fs arbitrary: c) (simp_all add: Let_def)

lemma foldl_plus: "foldl (+) c xs = c + (\<Sum>i < length xs. xs ! i)" for c :: rat
proof -
  have "foldl (+) c xs = c + sum_list xs"
    by (induction xs arbitrary: c) (simp_all add: algebra_simps)
  then show ?thesis
    by (simp add: sum_list_sum_nth lessThan_atLeast0)
qed

lemma chi_square_eq:
  assumes "rchi \<noteq> 0" and "probes \<noteq> 0" and "length hss = unat probes" and "\<forall>hs \<in> set hss. length hs = unat nchi"
    and "gen_sums func lrand strategy (unat probes * unat nchi) st = Some (Ran (concat hss, st'))"
  shows "chi_square F func lrand junk strategy nchi rchi probes st =
      Some (Ran (d_div F (foldl (d_add F) junk (chi_values F nchi rchi (d_of_int F 0) (map (hash_counts rchi) hss)))
        (d_of_u32 F probes), st'))"
  using chi_loop_eq [OF assms(1,4), of func lrand strategy st st' F "d_of_int F 0"] assms(2,3,5)
  by (simp add: chi_square_def)

lemma foldl_absorb: "\<forall>y. g x y = x \<Longrightarrow> foldl g x ys = x"
  by (induction ys) simp_all

text \<open>
  C31. The chi-square test with a table of counters, probes, a key strategy of the program and enough
  memory, in any arithmetic of \<open>double\<close>: it ends and gives back every block; each probe counts exactly
  the hashes of its own \<open>nchi\<close> keys; but what it prints is not the mean of their statistics. The value
  of a probe is made of the value of the one before (\<open>chisq\<close> is not reset), and the sum of the values
  starts from whatever the variable held that is never initialised; if that absorbs sums and
  quotients, as NaN does, it is printed whatever the keys are. In exact arithmetic, with keys, the
  value of a probe is the sum of the statistics of all probes up to it, scaled by powers of
  \<open>rchi / nchi\<close>.
\<close>

theorem chi_square_accumulates:
  assumes "rchi \<noteq> 0" and "probes \<noteq> 0" and "strategy \<in> strategies" and "lrand48_range lrand"
    and "no_oom (chi_heap st)"
  shows "\<exists>hss st'. length hss = unat probes \<and>
    (\<forall>hs \<in> set hss. length hs = unat nchi \<and> sum_list (hash_counts rchi hs) = int (unat nchi)) \<and>
    gen_sums func lrand strategy (unat probes * unat nchi) st = Some (Ran (concat hss, st')) \<and>
    live (chi_heap st') = live (chi_heap st) \<and>
    chi_square F func lrand junk strategy nchi rchi probes st =
      Some (Ran (d_div F (foldl (d_add F) junk (chi_values F nchi rchi (d_of_int F 0) (map (hash_counts rchi) hss)))
        (d_of_u32 F probes), st')) \<and>
    ((\<forall>x. d_add F junk x = junk \<and> d_div F junk x = junk) \<longrightarrow>
      chi_square F func lrand junk strategy nchi rchi probes st = Some (Ran (junk, st'))) \<and>
    (nchi \<noteq> 0 \<longrightarrow> chi_square exact_ops func lrand junk' strategy nchi rchi probes st =
      Some (Ran ((junk' + (\<Sum>i < unat probes. \<Sum>k \<le> i. chi_stat (hash_counts rchi (hss ! k)) *
        (of_nat (unat rchi) / of_nat (unat nchi)) ^ (i - k))) / of_nat (unat probes), st')))"
proof -
  obtain hss st' where run: "length hss = unat probes" "\<forall>hs \<in> set hss. length hs = unat nchi"
    "gen_sums func lrand strategy (unat probes * unat nchi) st = Some (Ran (concat hss, st'))"
    "live (chi_heap st') = live (chi_heap st)"
    using probe_keys [OF assms(3-5), of "unat probes" "unat nchi" func] by blast
  let ?fs = "map (hash_counts rchi) hss"
  have counts: "\<forall>f \<in> set ?fs. length f = unat rchi \<and> sum_list f = int (unat nchi)"
    using run(2) hash_counts_sum [OF assms(1)] by auto
  note eq = chi_square_eq [OF assms(1,2) run(1-3)]
  have "chi_square F func lrand junk strategy nchi rchi probes st = Some (Ran (junk, st'))"
    if "\<forall>x. d_add F junk x = junk \<and> d_div F junk x = junk"
    using eq [of F junk] foldl_absorb [of "d_add F" junk] that by simp
  moreover have "chi_square exact_ops func lrand junk' strategy nchi rchi probes st =
      Some (Ran ((junk' + (\<Sum>i < unat probes. \<Sum>k \<le> i. chi_stat (hash_counts rchi (hss ! k)) *
        (of_nat (unat rchi) / of_nat (unat nchi)) ^ (i - k))) / of_nat (unat probes), st'))"
  proof -
    have "foldl (+) junk' (chi_values exact_ops nchi rchi 0 ?fs) =
        junk' + (\<Sum>i < unat probes. chi_values exact_ops nchi rchi 0 ?fs ! i)"
      unfolding foldl_plus using run(1) by simp
    also have "(\<Sum>i < unat probes. chi_values exact_ops nchi rchi 0 ?fs ! i) =
        (\<Sum>i < unat probes. \<Sum>k \<le> i. chi_stat (hash_counts rchi (hss ! k)) *
          (of_nat (unat rchi) / of_nat (unat nchi)) ^ (i - k))"
      using run(1) by (intro sum.cong) (simp_all add: chi_values_nth [OF counts])
    finally show ?thesis
      using eq [of exact_ops junk'] by (simp add: exact_ops_def d_of_u32_def)
  qed
  ultimately show ?thesis
    using run counts eq [of F junk] by (intro exI [of _ hss] exI [of _ st']) auto
qed

theorem chi_square_accumulates_witness:
  "\<exists>hss st'. length hss = 2 \<and>
    gen_sums lhi_hash_dumb1 (\<lambda>g. (0, g)) KS_COUNTER 4
      \<lparr>chi_seed = (), key_counter = 0, chi_heap = \<lparr>outcome = (\<lambda>_. Malloc_block 0), tick = 0, live = 0, have_posix_memalign = True\<rparr>\<rparr> =
      Some (Ran (concat hss, st')) \<and>
    chi_square exact_ops lhi_hash_dumb1 (\<lambda>g. (0, g)) 7 KS_COUNTER 2 2 2
      \<lparr>chi_seed = (), key_counter = 0, chi_heap = \<lparr>outcome = (\<lambda>_. Malloc_block 0), tick = 0, live = 0, have_posix_memalign = True\<rparr>\<rparr> =
      Some (Ran ((7 + (\<Sum>i < 2. \<Sum>k \<le> i. chi_stat (hash_counts 2 (hss ! k)))) / 2, st'))"
proof -
  let ?st = "\<lparr>chi_seed = (), key_counter = 0, chi_heap = \<lparr>outcome = (\<lambda>_. Malloc_block 0), tick = 0, live = 0,
    have_posix_memalign = True\<rparr>\<rparr>"
  have "(2 :: u32) \<noteq> 0" "KS_COUNTER \<in> strategies" "lrand48_range (\<lambda>g :: unit. (0, g))" "no_oom (chi_heap ?st)"
    by (simp_all add: strategies_def lrand48_range_def no_oom_def)
  from chi_square_accumulates [OF this(1) this(1) this(2-4), of 2 lhi_hash_dumb1 exact_ops 7 7]
  show ?thesis
    by (simp del: One_nat_def) blast
qed

end
