(* ===== verification/Vishash.thy ===== *)
theory Vishash
  imports Analysis
begin

text \<open>
  The program \<open>analysis/vishash/vishash.c\<close>: an image whose pixels are the hashes of generated data,
  and two hash functions of its own. \<open>rand\<close> of the C library and the contents of the file of words
  are parameters. The images are drawn by libgd: an image is the list of the pixels that are set and
  the name of its file; that libgd returns an image is a parameter too.
\<close>

section \<open>The two hash functions\<close>

text \<open>\<open>memcpy\<close> over the first bytes of a word.\<close>

definition store_low :: "byte list \<Rightarrow> u32 \<Rightarrow> u32" where
  "store_low bs w = (let m = bs @ drop (length bs) (bytes32 w) in le32 (m ! 0) (m ! 1) (m ! 2) (m ! 3))"

text \<open>
  The memory from \<open>s\<close> on, the number of words, \<open>last\<close> and \<open>hash\<close>. For an address that is no multiple
  of four the statement \<open>len -= align\<close> moves the pointer \<open>len\<close>, and not the length, out of the
  variable it points to, which is undefined.
\<close>

definition pack_common :: "u32 \<Rightarrow> byte list \<Rightarrow> u32 \<Rightarrow> (byte list \<times> u32 \<times> u32 \<times> u32) option" where
  "pack_common addr s len =
     (let align = addr AND 3;
          rem = len AND 3;
          last = 0xB4dF00d;
          hash = 0x4550 + 0x23
      in do {
        last \<leftarrow> (if rem \<noteq> 0
          then if unat len \<le> length s
            then Some (store_low (take (unat rem) (drop (unat (len - rem)) s)) last) else None
          else Some last);
        if align \<noteq> 0 then None else Some (s, drop_bit 2 len, last, hash)
      })"

fun pack_loop :: "(u32 \<Rightarrow> u32 \<Rightarrow> u32) \<Rightarrow> byte list \<Rightarrow> nat \<Rightarrow> u32 \<Rightarrow> u32 option" where
  "pack_loop combine mem 0 hash = Some hash"
| "pack_loop combine (b0 # b1 # b2 # b3 # mem) (Suc len) hash =
     pack_loop combine mem len (combine hash (le32 b0 b1 b2 b3))"
| "pack_loop combine mem (Suc len) hash = None"

definition xorpack :: "u32 \<Rightarrow> byte list \<Rightarrow> u32 \<Rightarrow> u32 option" where
  "xorpack addr s len = do {
     (mem, len, last, hash) \<leftarrow> pack_common addr s len;
     hash \<leftarrow> pack_loop (XOR) mem (unat len) hash;
     Some (hash * last)
   }"

definition multpack :: "u32 \<Rightarrow> byte list \<Rightarrow> u32 \<Rightarrow> u32 option" where
  "multpack addr s len = do {
     (mem, len, last, hash) \<leftarrow> pack_common addr s len;
     hash \<leftarrow> pack_loop (*) mem (unat len) hash;
     Some (hash * last)
   }"

section \<open>The data\<close>

text \<open>The static variables, the generator behind \<open>rand\<close>, and what is left of the file.\<close>

record 'g vis_state =
  vis_z :: u64
  vis_rand :: 'g
  words_file :: "byte list"
  vis_buf :: "byte list"

text \<open>The address of the data, its bytes, and the state. Variables of integer type are aligned.\<close>

type_synonym 'g hashdata = "u32 \<Rightarrow> u32 \<Rightarrow> 'g vis_state \<Rightarrow> (u32 \<times> byte list \<times> 'g vis_state) option"

definition xy_concat :: "'g hashdata" where
  "xy_concat x y st = Some (0, bytes32 x @ bytes32 y, st)"

definition counter :: "'g hashdata" where
  "counter x y st = (let z = vis_z st + 1 in Some (0, bytes64 z, st\<lparr>vis_z := z\<rparr>))"

definition rand_data :: "('g \<Rightarrow> int \<times> 'g) \<Rightarrow> 'g hashdata" where
  "rand_data rand x y st =
     (let (r, g) = rand (vis_rand st) in Some (0, bytes32 (word_of_int r), st\<lparr>vis_rand := g\<rparr>))"

text \<open>
  \<open>fgets\<close> of the C library: a line with its end, or as much of it as fits, and a terminator; nothing
  is stored at the end of the file.
\<close>

definition fgets :: "byte list \<Rightarrow> nat \<Rightarrow> byte list \<Rightarrow> (byte list \<times> byte list) option" where
  "fgets buf n file =
     (if file = [] then None
      else
        let line = takeWhile (\<lambda>b. b \<noteq> 10) file;
            line = take (n - 1) (if length line < length file then line @ [10] else line)
        in Some (line @ [0] @ drop (length line + 1) buf, drop (length line) file))"

text \<open>\<open>chr = strchr(buf, '\n')\<close> and \<open>*chr = 0\<close>.\<close>

definition cut_newline :: "byte list \<Rightarrow> byte list" where
  "cut_newline buf =
     (let s = takeWhile (\<lambda>b. b \<noteq> 0) buf
      in if 10 \<in> set s then buf[length (takeWhile (\<lambda>b. b \<noteq> 10) s) := 0] else buf)"

definition getstring :: "u32 \<Rightarrow> 'g hashdata" where
  "getstring buf_addr x y st =
     (case fgets (vis_buf st) 256 (words_file st) of
        Some (buf, file) \<Rightarrow> do {
          let buf = cut_newline buf;
          len \<leftarrow> strlen buf;
          Some (buf_addr, take len buf, st\<lparr>vis_buf := buf, words_file := file\<rparr>)
        }
      | None \<Rightarrow> Some (buf_addr, take 1 (vis_buf st), st))"

section \<open>The images\<close>

type_synonym hashfun = "u32 \<Rightarrow> byte list \<Rightarrow> u32 \<Rightarrow> u32 option"

text \<open>The pairs \<open>(i, j)\<close> of the two loops that are left.\<close>

fun image_loop :: "hashfun \<Rightarrow> 'g hashdata \<Rightarrow> (u32 \<times> u32) list \<Rightarrow> 'g vis_state \<Rightarrow>
    ((u32 \<times> u32 \<times> u32) list \<times> 'g vis_state) option" where
  "image_loop hashfun hashdata [] st = Some ([], st)"
| "image_loop hashfun hashdata ((i, j) # ps) st = do {
     (addr, data, st) \<leftarrow> hashdata i j st;
     color \<leftarrow> hashfun addr data (word_of_nat (length data));
     (pixels, st) \<leftarrow> image_loop hashfun hashdata ps st;
     Some ((i, j, color) # pixels, st)
   }"

definition grid :: "u32 \<Rightarrow> u32 \<Rightarrow> (u32 \<times> u32) list" where
  "grid x y = List.product (map word_of_nat [0 ..< unat x]) (map word_of_nat [0 ..< unat y])"

text \<open>The name of the file, cut to its array, and the pixels.\<close>

definition gen_image :: "bool \<Rightarrow> u32 \<Rightarrow> u32 \<Rightarrow> hashfun \<Rightarrow> 'g hashdata \<Rightarrow> string \<Rightarrow> string \<Rightarrow> 'g vis_state \<Rightarrow>
    ((string \<times> (u32 \<times> u32 \<times> u32) list) option \<times> 'g vis_state) option" where
  "gen_image have_image x y hashfun hashdata hashfun_name hashdata_name st =
     (if \<not> have_image then Some (None, st)
      else do {
        (pixels, st) \<leftarrow> image_loop hashfun hashdata (grid x y) st;
        Some (Some (take 511 (hashfun_name @ ''-'' @ hashdata_name @ ''.png''), pixels), st)
      })"

definition die_nohashfun :: "'a outcome option" where
  "die_nohashfun = die_list"

definition get_hashfun_ptr :: "string \<Rightarrow> hashfun outcome option" where
  "get_hashfun_ptr name = do {
     f \<leftarrow> get_hashfunc_by_name name;
     case f of
       Some f \<Rightarrow> Some (Ran (\<lambda>addr s len. Some (fp_fun f s)))
     | None \<Rightarrow>
         if name = ''multpack'' then Some (Ran multpack)
         else if name = ''xorpack'' then Some (Ran xorpack)
         else die_nohashfun
   }"

text \<open>\<open>fopen\<close> of the second argument gives the contents of the file or fails.\<close>

definition vis_main :: "('g \<Rightarrow> int \<times> 'g) \<Rightarrow> (string \<Rightarrow> byte list option) \<Rightarrow> u32 \<Rightarrow> bool \<Rightarrow> 'g \<Rightarrow> string list \<Rightarrow>
    (string \<times> (u32 \<times> u32 \<times> u32) list) option list outcome option" where
  "vis_main rand fopen buf_addr have_image seeded argv =
     (let words = (case argv of _ # file # _ \<Rightarrow> fopen file | _ \<Rightarrow> None);
          st = \<lparr>vis_z = 0, vis_rand = seeded, words_file = (case words of None \<Rightarrow> [] | Some w \<Rightarrow> w),
            vis_buf = replicate 256 0\<rparr>
      in case argv of
           [] \<Rightarrow> die_nohashfun
         | name # _ \<Rightarrow> then_ran (get_hashfun_ptr name) (\<lambda>fun.
             if words \<noteq> None then do {
               (im, st) \<leftarrow> gen_image have_image 480 480 fun (getstring buf_addr) name ''getstring'' st;
               Some (Ran [im])
             } else do {
               (im1, st) \<leftarrow> gen_image have_image 448 448 fun xy_concat name ''xy_concat'' st;
               (im2, st) \<leftarrow> gen_image have_image 448 448 fun counter name ''counter'' st;
               (im3, st) \<leftarrow> gen_image have_image 448 448 fun (rand_data rand) name ''rand_data'' st;
               Some (Ran [im1, im2, im3])
             }))"

section \<open>What the two functions compute\<close>

fun le_words :: "byte list \<Rightarrow> u32 list" where
  "le_words (b0 # b1 # b2 # b3 # bs) = le32 b0 b1 b2 b3 # le_words bs"
| "le_words bs = []"

text \<open>The bytes after the last whole word, in a fixed word.\<close>

definition tail_word :: "byte list \<Rightarrow> u32" where
  "tail_word s = store_low (drop (length s - length s mod 4) s) 0xB4dF00d"

lemma pack_loop_eq: "pack_loop combine s (length s div 4) hash = Some (foldl combine hash (le_words s))"
  by (induction s arbitrary: hash rule: le_words.induct) simp_all

lemma store_low_Nil: "store_low [] w = w"
  by (simp add: store_low_def bytes32_def le32_bytes32 numeral_2_eq_2 numeral_3_eq_3)

lemma pack_common_eq:
  assumes "length s < 2 ^ 32"
  shows "pack_common addr s (word_of_nat (length s)) =
    (if addr AND 3 = 0 then Some (s, word_of_nat (length s div 4), tail_word s, 0x4573) else None)"
proof -
  let ?len = "word_of_nat (length s) :: u32"
  have len: "unat ?len = length s"
    using assms by simp
  have "?len AND 3 = take_bit 2 ?len"
    by (simp add: take_bit_eq_mask mask_numeral)
  then have rem: "unat (?len AND 3) = length s mod 4"
    by (simp only: unsigned_take_bit_eq len) (simp add: take_bit_eq_mod)
  have "unat (drop_bit 2 ?len) = length s div 4"
    using len by (simp add: drop_bit_eq_div unat_div)
  then have shift: "drop_bit 2 ?len = word_of_nat (length s div 4)"
    by (rule unat_eq_word)
  have "?len AND 3 \<le> ?len"
    unfolding word_le_nat_alt rem len by simp
  then have sub: "unat (?len - (?len AND 3)) = length s - length s mod 4"
    using rem len by (simp add: unat_sub)
  have zero: "?len AND 3 = 0 \<longleftrightarrow> length s mod 4 = 0"
    using rem by (metis unat_eq_0)
  have tail: "take (length s mod 4) (drop (length s - length s mod 4) s) = drop (length s - length s mod 4) s"
    by simp
  show ?thesis
    by (cases "length s mod 4 = 0")
      (simp_all add: pack_common_def Let_def zero rem sub shift len tail tail_word_def store_low_Nil)
qed

lemma length_div_u32: "length s < 2 ^ 32 \<Longrightarrow> unat (word_of_nat (length s div 4) :: u32) = length s div 4"
  by (rule unat_of_nat_u32) (rule le_less_trans [OF div_le_dividend])

lemma packs_eq:
  assumes "length s < 2 ^ 32"
  shows "xorpack addr s (word_of_nat (length s)) =
      (if addr AND 3 = 0 then Some (foldl (XOR) 0x4573 (le_words s) * tail_word s) else None)"
    and "multpack addr s (word_of_nat (length s)) =
      (if addr AND 3 = 0 then Some (foldl (*) 0x4573 (le_words s) * tail_word s) else None)"
  using assms by (simp_all add: xorpack_def multpack_def pack_common_eq pack_loop_eq length_div_u32)

text \<open>Both results depend on the words as a multiset.\<close>

lemma foldl_mset:
  fixes f :: "'a \<Rightarrow> 'a \<Rightarrow> 'a"
  assumes "\<And>x y z. f (f z x) y = f (f z y) x" and "mset xs = mset ys"
  shows "foldl f z xs = foldl f z ys"
  using fold_multiset_equiv [of xs "\<lambda>x z. f z x" ys] assms by (simp add: foldl_conv_fold fun_eq_iff)

lemma multpack_zero:
  fixes h :: u32
  shows "0 \<in> set ws \<Longrightarrow> foldl (*) h ws = 0"
proof (induction ws arbitrary: h)
  case (Cons w ws)
  have "foldl (*) (0 :: u32) ws = 0"
    by (induction ws) simp_all
  then show ?case
    using Cons by (cases "w = 0") simp_all
qed simp

section \<open>What an image shows\<close>

lemma image_loop_stateless:
  assumes "\<And>i j. (i, j) \<in> set ps \<Longrightarrow> hashfun 0 (data i j) (word_of_nat (length (data i j))) = Some (h i j)"
    and "\<And>i j st. hashdata i j st = Some (0, data i j, st)"
  shows "image_loop hashfun hashdata ps st = Some (map (\<lambda>(i, j). (i, j, h i j)) ps, st)"
  using assms(1) by (induction ps) (auto simp: assms(2))

lemma image_loop_counter:
  assumes "vis_z st = z + word_of_nat n"
  shows "image_loop (\<lambda>addr s len. Some (f s)) counter ps st =
    Some (map (\<lambda>((i, j), k). (i, j, f (bytes64 (z + word_of_nat k)))) (zip ps [n + 1 ..< n + 1 + length ps]),
      st\<lparr>vis_z := vis_z st + word_of_nat (length ps)\<rparr>)"
  using assms
proof (induction ps arbitrary: st n)
  case Nil
  then show ?case by simp
next
  case (Cons p ps)
  obtain i j where p: "p = (i, j)"
    by (cases p)
  have "vis_z (st\<lparr>vis_z := vis_z st + 1\<rparr>) = z + word_of_nat (Suc n)"
    using Cons.prems by (simp add: algebra_simps)
  from Cons.IH [OF this] show ?case
    using Cons.prems by (simp add: p counter_def Let_def upt_conv_Cons algebra_simps del: upt_Suc)
qed

lemma set_upt_u32: "set (map word_of_nat [0 ..< unat (n :: u32)]) = {..< n}"
proof -
  have "i \<in> word_of_nat ` {0 ..< unat n}" if "i < n" for i
    using that by (intro image_eqI [of _ _ "unat i"]) (simp_all add: word_less_nat_alt)
  moreover have "word_of_nat k < n" if "k < unat n" for k
    using that unat_u32_less [of n] by (simp add: word_less_nat_alt)
  ultimately show ?thesis
    by auto
qed

lemma distinct_upt_u32: "distinct (map word_of_nat [0 ..< unat (n :: u32)] :: u32 list)"
proof -
  have "unat (word_of_nat k :: u32) = k" if "k < unat n" for k
    using that unat_u32_less [of n] by simp
  then have "inj_on (word_of_nat :: nat \<Rightarrow> u32) {0 ..< unat n}"
    by (metis atLeastLessThan_iff inj_onI)
  then show ?thesis
    by (simp add: distinct_map)
qed

text \<open>The two loops reach every pixel of the image once.\<close>

lemma grid_pixels: "distinct (grid x y)" "set (grid x y) = {..< x} \<times> {..< y}" "length (grid x y) = unat x * unat y"
  unfolding grid_def by (simp_all add: distinct_product distinct_upt_u32 set_upt_u32 del: set_map)

text \<open>
  In the image of the counter the pixel number \<open>k\<close> in the order of the loops is the hash of the
  counter's old value plus \<open>k\<close>, and the counter ends at the number of pixels.
\<close>

lemma counter_image:
  "gen_image True x y (\<lambda>addr s len. Some (f s)) counter name dname st =
    Some (Some (take 511 (name @ ''-'' @ dname @ ''.png''),
        map (\<lambda>((i, j), k). (i, j, f (bytes64 (vis_z st + word_of_nat k)))) (zip (grid x y) [1 ..< 1 + unat x * unat y])),
      st\<lparr>vis_z := vis_z st + word_of_nat (unat x * unat y)\<rparr>)"
  using image_loop_counter [of st "vis_z st" 0 f "grid x y"] by (simp add: gen_image_def grid_pixels)

text \<open>
  Of data at an address that is a multiple of four, \<open>xorpack\<close> and \<open>multpack\<close> are the product of
  the combined words and of the bytes left over, so that the order of the words does not count, and
  \<open>multpack\<close> of data with a zero word is 0: so is the whole image of coordinates for a row or a
  column 0. At any other address both are undefined.
\<close>

lemma packs_commute:
  assumes "length s < 2 ^ 32" and "length s' = length s" and "mset (le_words s) = mset (le_words s')"
    and "tail_word s = tail_word s'"
  shows "xorpack addr s (word_of_nat (length s)) =
      (if addr AND 3 = 0 then Some (foldl (XOR) 0x4573 (le_words s) * tail_word s) else None) \<and>
    multpack addr s (word_of_nat (length s)) =
      (if addr AND 3 = 0 then Some (foldl (*) 0x4573 (le_words s) * tail_word s) else None) \<and>
    xorpack addr s (word_of_nat (length s)) = xorpack addr s' (word_of_nat (length s')) \<and>
    multpack addr s (word_of_nat (length s)) = multpack addr s' (word_of_nat (length s')) \<and>
    (0 \<in> set (le_words s) \<longrightarrow> addr AND 3 = 0 \<longrightarrow> multpack addr s (word_of_nat (length s)) = Some 0)"
proof -
  have x: "foldl (XOR) h (le_words s) = foldl (XOR) h (le_words s')" for h :: u32
    by (rule foldl_mset [OF _ assms(3)]) (simp add: ac_simps)
  have m: "foldl (*) h (le_words s) = foldl (*) h (le_words s')" for h :: u32
    by (rule foldl_mset [OF _ assms(3)]) (simp add: ac_simps)
  have len: "length s' < 2 ^ 32"
    using assms(1,2) by simp
  show ?thesis
    using multpack_zero [where ws = "le_words s'" and h = "0x4573"] mset_eq_setD [OF assms(3)]
    by (simp only: packs_eq [OF assms(1)] packs_eq [OF len] x m assms(4)) simp
qed

end
