(* ===== verification/Hi_bloom.thy ===== *)
theory Hi_bloom
  imports Hi_heap Hash_func Hash_jenkins3 Hash_goulburn
begin

text \<open>
  The Bloom filter (\<open>lib/hi_bloom_filter.c\<close>). The two functions that estimate the probability of a
  false positive are in theory Bloom_draw. Adding and checking are defined (\<open>Some\<close>) as long as the
  filter map is read inside its bounds and its size is not 0.
\<close>

section \<open>The filter\<close>

definition lhi_hashmap :: "(key \<Rightarrow> u32) list" where
  "lhi_hashmap = [lhi_hash_hsieh, lhi_hash_jenkins3 0, lhi_hash_goulburn, lhi_hash_phong,
     lhi_hash_torek, lhi_hash_xor, lhi_hash_sdbm]"

record hi_bloom_handle =
  filter_map :: "byte list"
  bloom_m :: u32
  bit_collision :: u32
  bloom_n :: u32
  bloom_k :: u32

text \<open>
  The position of a key for one hash function: \<open>hkey % bh->m\<close>, the byte and the mask. The call of
  \<open>floor\<close> is on an integer quotient.
\<close>

definition bloom_position :: "hi_bloom_handle \<Rightarrow> nat \<Rightarrow> key \<Rightarrow> (nat \<times> u32) option" where
  "bloom_position bh iter key = do {
     hash \<leftarrow> rd lhi_hashmap iter;
     if bloom_m bh = 0 then None
     else
       (let b = hash key mod bloom_m bh
        in Some (unat (b div 8), push_bit (unat (b AND 7)) 1))
   }"

text \<open>The loops: the indices of the hash functions that are left.\<close>

fun bloom_add_loop :: "nat list \<Rightarrow> hi_bloom_handle \<Rightarrow> key \<Rightarrow> hi_bloom_handle option" where
  "bloom_add_loop [] bh key = Some bh"
| "bloom_add_loop (iter # iters) bh key = do {
     (map_offset, bit_mask) \<leftarrow> bloom_position bh iter key;
     byte \<leftarrow> rd (filter_map bh) map_offset;
     let bh = (if ucast byte AND bit_mask \<noteq> 0 then bh\<lparr>bit_collision := bit_collision bh + 1\<rparr> else bh);
     bloom_add_loop iters
       (bh\<lparr>filter_map := (filter_map bh)[map_offset := ucast (ucast byte OR bit_mask)]\<rparr>) key
   }"

definition hi_bloom_filter_add :: "hi_bloom_handle \<Rightarrow> key \<Rightarrow> hi_bloom_handle option" where
  "hi_bloom_filter_add bh key =
     (let bh = bh\<lparr>bloom_n := bloom_n bh + 1\<rparr> in bloom_add_loop [0 ..< unat (bloom_k bh)] bh key)"

fun bloom_check_loop :: "nat list \<Rightarrow> hi_bloom_handle \<Rightarrow> key \<Rightarrow> int option" where
  "bloom_check_loop [] bh key = Some 1"
| "bloom_check_loop (iter # iters) bh key = do {
     (map_offset, bit_mask) \<leftarrow> bloom_position bh iter key;
     byte \<leftarrow> rd (filter_map bh) map_offset;
     if ucast byte AND bit_mask = 0 then Some 0 else bloom_check_loop iters bh key
   }"

definition hi_bloom_filter_check :: "hi_bloom_handle \<Rightarrow> key \<Rightarrow> int option" where
  "hi_bloom_filter_check bh key = bloom_check_loop [0 ..< unat (bloom_k bh)] bh key"

text \<open>The wrappers for strings; the terminator is not part of the key here.\<close>

definition hi_bloom_filter_add_str :: "hi_bloom_handle \<Rightarrow> byte list \<Rightarrow> hi_bloom_handle option" where
  "hi_bloom_filter_add_str a b = do {
     n \<leftarrow> strlen b;
     hi_bloom_filter_add a (take (unat (word_of_nat n :: u32)) b)
   }"

definition hi_bloom_filter_check_str :: "hi_bloom_handle \<Rightarrow> byte list \<Rightarrow> int option" where
  "hi_bloom_filter_check_str a b = do {
     n \<leftarrow> strlen b;
     hi_bloom_filter_check a (take (unat (word_of_nat n :: u32)) b)
   }"

text \<open>The null pointer is \<open>None\<close>.\<close>

definition hi_bloom_bit_get :: "hi_bloom_handle option \<Rightarrow> u32 \<Rightarrow> int option" where
  "hi_bloom_bit_get bh b =
     (case bh of
        None \<Rightarrow> Some HI_ERR_NODATA
      | Some bh \<Rightarrow>
          if bloom_m bh < b then Some HI_ERR_RANGE
          else do {
            byte \<leftarrow> rd (filter_map bh) (unat (b div 8));
            Some (if ucast byte AND (push_bit (unat (b mod 8)) 1 :: u32) \<noteq> 0 then 1 else 0)
          })"

text \<open>The values printed, and the return code.\<close>

definition hi_bloom_print_hex_map :: "hi_bloom_handle option \<Rightarrow> (byte list \<times> int) option" where
  "hi_bloom_print_hex_map bh =
     (case bh of
        None \<Rightarrow> Some ([], HI_ERR_NODATA)
      | Some bh \<Rightarrow>
          if length (filter_map bh) < unat (bloom_m bh div 8) then None
          else Some (take (unat (bloom_m bh div 8)) (filter_map bh), SUCCESS))"

text \<open>The first block is not freed when the second allocation fails.\<close>

definition hi_bloom_init_mk :: "heap \<Rightarrow> u32 \<Rightarrow> u32 \<Rightarrow> int \<times> heap \<times> hi_bloom_handle option" where
  "hi_bloom_init_mk hp m k =
     (if m mod 8 \<noteq> 0 \<and> 0 < m then (HI_ERR_RANGE, hp, None)
      else if length lhi_hashmap < unat k then (HI_ERR_RANGE, hp, None)
      else case xalloc_align hp of (ret, _, hp) \<Rightarrow>
        if ret \<noteq> 0 then (HI_ERR_SYSTEM, hp, None)
        else case xalloc_align hp of (ret, _, hp) \<Rightarrow>
          if ret \<noteq> 0 then (HI_ERR_SYSTEM, hp, None)
          else (SUCCESS, hp, Some \<lparr>filter_map = replicate (unat (m div 8)) 0, bloom_m = m,
            bit_collision = 0, bloom_n = 0, bloom_k = k\<rparr>))"

definition hi_fini_bloom_filter :: "heap \<Rightarrow> hi_bloom_handle \<Rightarrow> heap" where
  "hi_fini_bloom_filter hp bh = free (free hp)"

text \<open>Adding several keys in order.\<close>

fun bloom_adds :: "hi_bloom_handle \<Rightarrow> key list \<Rightarrow> hi_bloom_handle option" where
  "bloom_adds bh [] = Some bh"
| "bloom_adds bh (key # keys) = do { bh \<leftarrow> hi_bloom_filter_add bh key; bloom_adds bh keys }"

section \<open>The filter as a set of bits\<close>

text \<open>The positions a key sets, and the set of positions of a filter map.\<close>

definition key_bits :: "u32 \<Rightarrow> u32 \<Rightarrow> key \<Rightarrow> nat set" where
  "key_bits m k key = (\<lambda>i. unat ((lhi_hashmap ! i) key mod m)) ` {..< unat k}"

definition bloom_bits :: "byte list \<Rightarrow> nat set" where
  "bloom_bits fm = {b. b div 8 < length fm \<and> bit (fm ! (b div 8)) (b mod 8)}"

definition bloom_ok :: "hi_bloom_handle \<Rightarrow> bool" where
  "bloom_ok bh \<longleftrightarrow> bloom_m bh \<noteq> 0 \<and> 8 * length (filter_map bh) = unat (bloom_m bh) \<and>
     unat (bloom_k bh) \<le> length lhi_hashmap"

lemma mask_bit:
  fixes byte :: byte
  assumes "j < 8"
  shows "ucast byte AND (push_bit j 1 :: u32) \<noteq> 0 \<longleftrightarrow> bit byte j"
    and "bit (ucast (ucast byte OR (push_bit j 1 :: u32)) :: byte) i \<longleftrightarrow> i < 8 \<and> (bit byte i \<or> i = j)"
proof -
  have "(push_bit j 1 :: u32) = 2 ^ j"
    by (simp add: push_bit_eq_mult)
  then have "ucast byte AND (push_bit j 1 :: u32) = 0 \<longleftrightarrow> \<not> bit (ucast byte :: u32) j"
    by (simp only: and_exp_eq_0_iff_not_bit)
  moreover have "bit (ucast byte :: u32) j \<longleftrightarrow> bit byte j"
    using assms by (simp add: bit_ucast_iff)
  ultimately show "ucast byte AND (push_bit j 1 :: u32) \<noteq> 0 \<longleftrightarrow> bit byte j"
    by simp
  show "bit (ucast (ucast byte OR (push_bit j 1 :: u32)) :: byte) i \<longleftrightarrow> i < 8 \<and> (bit byte i \<or> i = j)"
    using assms by (auto simp: bit_ucast_iff bit_or_iff bit_push_bit_iff bit_1_iff bit_exp_iff)
qed

lemma position:
  assumes "bloom_ok bh" and "i < unat (bloom_k bh)"
  obtains b where "b = unat ((lhi_hashmap ! i) key mod bloom_m bh)" and "b div 8 < length (filter_map bh)"
    and "bloom_position bh i key = Some (b div 8, push_bit (b mod 8) 1)"
proof -
  let ?w = "(lhi_hashmap ! i) key mod bloom_m bh"
  have m: "bloom_m bh \<noteq> 0" "8 * length (filter_map bh) = unat (bloom_m bh)"
    using assms(1) by (simp_all add: bloom_ok_def)
  have "i < length lhi_hashmap"
    using assms by (simp add: bloom_ok_def)
  moreover have "unat (?w AND 7) = unat ?w mod 8"
  proof -
    have "?w AND 7 = take_bit 3 ?w"
      by (simp add: take_bit_eq_mask mask_numeral)
    then show ?thesis
      by (simp only: unsigned_take_bit_eq) (simp add: take_bit_eq_mod)
  qed
  ultimately have "bloom_position bh i key = Some (unat ?w div 8, push_bit (unat ?w mod 8) 1)"
    using m(1) by (simp add: bloom_position_def rd_Some Let_def unat_div)
  moreover have "unat ?w < unat (bloom_m bh)"
    using m(1) by (simp add: unat_mod unat_gt_0)
  then have "unat ?w div 8 < length (filter_map bh)"
    using m(2) by linarith
  ultimately show thesis
    using that by blast
qed

lemma set_bit:
  assumes "b div 8 < length fm"
  shows "bloom_bits (fm[b div 8 := ucast (ucast (fm ! (b div 8)) OR (push_bit (b mod 8) 1 :: u32))]) =
    insert b (bloom_bits fm)"
proof -
  have "c div 8 = b div 8 \<and> c mod 8 = b mod 8 \<longleftrightarrow> c = b" for c
    by (metis div_mult_mod_eq)
  then have "c \<in> bloom_bits (fm[b div 8 := ucast (ucast (fm ! (b div 8)) OR (push_bit (b mod 8) 1 :: u32))]) \<longleftrightarrow>
      c \<in> insert b (bloom_bits fm)" for c
    using assms mask_bit(2) [of "b mod 8" "fm ! (b div 8)" "c mod 8"]
    by (cases "c div 8 = b div 8") (simp_all add: bloom_bits_def, metis+)
  then show ?thesis
    by blast
qed

lemma add_loop:
  assumes "bloom_ok bh" and "\<forall>i \<in> set is. i < unat (bloom_k bh)"
  shows "\<exists>fm c. bloom_add_loop is bh key = Some (bh\<lparr>filter_map := fm, bit_collision := c\<rparr>) \<and>
    length fm = length (filter_map bh) \<and>
    bloom_bits fm = bloom_bits (filter_map bh) \<union> (\<lambda>i. unat ((lhi_hashmap ! i) key mod bloom_m bh)) ` set is"
  using assms
proof (induction "is" arbitrary: bh)
  case Nil
  show ?case
    by (intro exI [of _ "filter_map bh"] exI [of _ "bit_collision bh"]) simp
next
  case (Cons i "is")
  obtain b where b: "b = unat ((lhi_hashmap ! i) key mod bloom_m bh)" "b div 8 < length (filter_map bh)"
    "bloom_position bh i key = Some (b div 8, push_bit (b mod 8) 1)"
    using position [OF Cons.prems(1), of i key] Cons.prems(2) by auto
  define fm where "fm = (filter_map bh)[b div 8 := ucast (ucast (filter_map bh ! (b div 8)) OR (push_bit (b mod 8) 1 :: u32))]"
  define c where "c = (if ucast (filter_map bh ! (b div 8)) AND (push_bit (b mod 8) 1 :: u32) \<noteq> 0
    then bit_collision bh + 1 else bit_collision bh)"
  let ?bh = "bh\<lparr>filter_map := fm, bit_collision := c\<rparr>"
  have "bloom_add_loop (i # is) bh key = bloom_add_loop is ?bh key"
  proof -
    let ?hit = "ucast (filter_map bh ! (b div 8)) AND (push_bit (b mod 8) 1 :: u32) \<noteq> 0"
    have "?hit \<Longrightarrow> bh\<lparr>bit_collision := bit_collision bh + 1, filter_map := fm\<rparr> = ?bh"
      "\<not> ?hit \<Longrightarrow> bh\<lparr>filter_map := fm\<rparr> = ?bh"
      by (simp_all add: c_def)
    then show ?thesis
      using b(2,3) by (cases ?hit) (simp_all add: rd_Some fm_def [symmetric] Let_def del: push_bit_of_1)
  qed
  moreover have "bloom_ok ?bh" "\<forall>i \<in> set is. i < unat (bloom_k ?bh)"
    using Cons.prems by (simp_all add: bloom_ok_def fm_def)
  from Cons.IH [OF this]
  obtain fm' c' where "bloom_add_loop is ?bh key = Some (?bh\<lparr>filter_map := fm', bit_collision := c'\<rparr>)"
    "length fm' = length fm" "bloom_bits fm' = bloom_bits fm \<union> (\<lambda>i. unat ((lhi_hashmap ! i) key mod bloom_m bh)) ` set is"
    by auto
  moreover have "bloom_bits fm = insert b (bloom_bits (filter_map bh))"
    unfolding fm_def by (rule set_bit [OF b(2)])
  ultimately show ?case
    using b(1) by (intro exI [of _ fm'] exI [of _ c']) (auto simp: fm_def)
qed

lemma add_bits:
  assumes "bloom_ok bh"
  shows "\<exists>fm c. hi_bloom_filter_add bh key =
      Some (bh\<lparr>bloom_n := bloom_n bh + 1, filter_map := fm, bit_collision := c\<rparr>) \<and>
    length fm = length (filter_map bh) \<and>
    bloom_bits fm = bloom_bits (filter_map bh) \<union> key_bits (bloom_m bh) (bloom_k bh) key"
proof -
  let ?bh = "bh\<lparr>bloom_n := bloom_n bh + 1\<rparr>"
  have "bloom_ok ?bh" "\<forall>i \<in> set [0 ..< unat (bloom_k bh)]. i < unat (bloom_k ?bh)"
    using assms by (auto simp: bloom_ok_def)
  from add_loop [OF this, of key]
  show ?thesis
    by (auto simp: hi_bloom_filter_add_def key_bits_def atLeast0LessThan)
qed

lemma check_loop:
  assumes "bloom_ok bh" and "\<forall>i \<in> set is. i < unat (bloom_k bh)"
  shows "bloom_check_loop is bh key =
    Some (if (\<lambda>i. unat ((lhi_hashmap ! i) key mod bloom_m bh)) ` set is \<subseteq> bloom_bits (filter_map bh) then 1 else 0)"
  using assms(2)
proof (induction "is")
  case Nil
  then show ?case by simp
next
  case (Cons i "is")
  obtain b where b: "b = unat ((lhi_hashmap ! i) key mod bloom_m bh)" "b div 8 < length (filter_map bh)"
    "bloom_position bh i key = Some (b div 8, push_bit (b mod 8) 1)"
    using position [OF assms(1), of i key] Cons.prems by auto
  have "ucast (filter_map bh ! (b div 8)) AND (push_bit (b mod 8) 1 :: u32) = 0 \<longleftrightarrow> b \<notin> bloom_bits (filter_map bh)"
    using b(2) mask_bit(1) [of "b mod 8" "filter_map bh ! (b div 8)"] by (auto simp: bloom_bits_def)
  then show ?case
    using Cons b by (simp add: rd_Some)
qed

lemma adds_bits:
  assumes "bloom_ok bh"
  shows "\<exists>bh'. bloom_adds bh keys = Some bh' \<and> bloom_ok bh' \<and> bloom_m bh' = bloom_m bh \<and>
    bloom_k bh' = bloom_k bh \<and> bloom_n bh' = bloom_n bh + word_of_nat (length keys) \<and>
    bloom_bits (filter_map bh') =
      bloom_bits (filter_map bh) \<union> (\<Union>key \<in> set keys. key_bits (bloom_m bh) (bloom_k bh) key)"
  using assms
proof (induction keys arbitrary: bh)
  case Nil
  then show ?case by simp
next
  case (Cons key keys)
  obtain fm c where add: "hi_bloom_filter_add bh key =
      Some (bh\<lparr>bloom_n := bloom_n bh + 1, filter_map := fm, bit_collision := c\<rparr>)"
    "length fm = length (filter_map bh)"
    "bloom_bits fm = bloom_bits (filter_map bh) \<union> key_bits (bloom_m bh) (bloom_k bh) key"
    using add_bits [OF Cons.prems] by blast
  let ?bh = "bh\<lparr>bloom_n := bloom_n bh + 1, filter_map := fm, bit_collision := c\<rparr>"
  have "bloom_ok ?bh"
    using Cons.prems add(2) by (simp add: bloom_ok_def)
  from Cons.IH [OF this] show ?case
    using add by (auto simp: algebra_simps)
qed

lemma init_bits:
  assumes "m mod 8 = 0" and "m \<noteq> 0" and "unat k \<le> length lhi_hashmap" and "no_oom hp"
  obtains hp' bh where "hi_bloom_init_mk hp m k = (SUCCESS, hp', Some bh)" and "bloom_ok bh"
    and "bloom_m bh = m" and "bloom_k bh = k" and "bloom_n bh = 0" and "bloom_bits (filter_map bh) = {}"
    and "live hp' = live hp + 2"
proof -
  obtain j1 hp1 where 1: "xalloc_align hp = (0, j1, hp1)" "no_oom hp1" "live hp1 = live hp + 1"
    by (rule xalloc_no_oom [OF assms(4)])
  obtain j2 hp2 where 2: "xalloc_align hp1 = (0, j2, hp2)" "no_oom hp2" "live hp2 = live hp1 + 1"
    by (rule xalloc_no_oom [OF 1(2)])
  let ?bh = "\<lparr>filter_map = replicate (unat (m div 8)) 0, bloom_m = m, bit_collision = 0, bloom_n = 0, bloom_k = k\<rparr>"
  have "unat m mod 8 = 0"
    using arg_cong [OF assms(1), of unat] by (simp add: unat_mod)
  then have "8 * (unat m div 8) = unat m"
    by presburger
  then have "bloom_ok ?bh"
    using assms(2,3) by (simp add: bloom_ok_def unat_div)
  moreover have "bloom_bits (filter_map ?bh) = {}"
    by (auto simp: bloom_bits_def)
  moreover have "hi_bloom_init_mk hp m k = (SUCCESS, hp2, Some ?bh)"
    using assms(1,3) 1(1) 2(1) by (simp add: hi_bloom_init_mk_def)
  ultimately show thesis
    using that [of hp2 ?bh] 1(3) 2(3) by simp
qed

lemma bit_get:
  assumes "bloom_ok bh"
  shows "hi_bloom_bit_get (Some bh) b =
    (if b < bloom_m bh then Some (if unat b \<in> bloom_bits (filter_map bh) then 1 else 0)
     else if b = bloom_m bh then None else Some HI_ERR_RANGE)"
proof -
  have len: "8 * length (filter_map bh) = unat (bloom_m bh)"
    using assms by (simp add: bloom_ok_def)
  consider "b < bloom_m bh" | "b = bloom_m bh" | "bloom_m bh < b"
    by fastforce
  then show ?thesis
  proof cases
    case 1
    then have "unat b div 8 < length (filter_map bh)"
      using len unfolding word_less_nat_alt by linarith
    moreover have "ucast (filter_map bh ! (unat b div 8)) AND (push_bit (unat b mod 8) 1 :: u32) \<noteq> 0 \<longleftrightarrow>
        bit (filter_map bh ! (unat b div 8)) (unat b mod 8)"
      by (rule mask_bit) simp
    moreover have "\<not> bloom_m bh < b"
      using 1 by simp
    ultimately show ?thesis
      using 1 by (simp add: hi_bloom_bit_get_def rd_Some unat_div unat_mod bloom_bits_def del: push_bit_of_1)
  next
    case 2
    then show ?thesis
      using len by (simp add: hi_bloom_bit_get_def rd_None unat_div)
  next
    case 3
    then show ?thesis
      by (auto simp: hi_bloom_bit_get_def)
  qed
qed

section \<open>What the filter answers\<close>

text \<open>
  C26. A Bloom filter is exact on bits: after any keys have been added, \<open>hi_bloom_filter_check\<close>
  answers 1 exactly for the keys whose bits are all among those of the added keys, in particular
  for every added key, and \<open>hi_bloom_bit_get\<close> reads these bits. The range check of
  \<open>hi_bloom_bit_get\<close> lets the bit number \<open>m\<close> through, which reads past the map. Destroying the
  filter gives back both blocks.
\<close>

theorem bloom_filter_exact:
  assumes "m mod 8 = 0" and "m \<noteq> 0" and "unat k \<le> 7" and "no_oom hp"
  shows "\<exists>hp1 bh bh'. hi_bloom_init_mk hp m k = (SUCCESS, hp1, Some bh) \<and> bloom_adds bh keys = Some bh' \<and>
    (\<forall>key. hi_bloom_filter_check bh' key =
      Some (if key_bits m k key \<subseteq> (\<Union>x \<in> set keys. key_bits m k x) then 1 else 0)) \<and>
    (\<forall>key \<in> set keys. hi_bloom_filter_check bh' key = Some 1) \<and>
    (\<forall>b. hi_bloom_bit_get (Some bh') b =
      (if b < m then Some (if unat b \<in> (\<Union>x \<in> set keys. key_bits m k x) then 1 else 0)
       else if b = m then None else Some HI_ERR_RANGE)) \<and>
    bloom_n bh' = word_of_nat (length keys) \<and> live (hi_fini_bloom_filter hp1 bh') = live hp"
proof -
  have "unat k \<le> length lhi_hashmap"
    using assms(3) by (simp add: lhi_hashmap_def)
  then obtain hp1 bh where init: "hi_bloom_init_mk hp m k = (SUCCESS, hp1, Some bh)" "bloom_ok bh"
    "bloom_m bh = m" "bloom_k bh = k" "bloom_n bh = 0" "bloom_bits (filter_map bh) = {}" "live hp1 = live hp + 2"
    using init_bits assms by metis
  obtain bh' where add: "bloom_adds bh keys = Some bh'" "bloom_ok bh'" "bloom_m bh' = m" "bloom_k bh' = k"
    "bloom_n bh' = word_of_nat (length keys)"
    "bloom_bits (filter_map bh') = (\<Union>x \<in> set keys. key_bits m k x)"
    using adds_bits [OF init(2), of keys] init by auto
  have check: "hi_bloom_filter_check bh' key =
      Some (if key_bits m k key \<subseteq> (\<Union>x \<in> set keys. key_bits m k x) then 1 else 0)" for key
    using check_loop [OF add(2), of "[0 ..< unat k]" key] add(3,4,6)
    by (simp add: hi_bloom_filter_check_def key_bits_def atLeast0LessThan)
  have member: "hi_bloom_filter_check bh' key = Some 1" if "key \<in> set keys" for key
    unfolding check using that by auto
  have get: "hi_bloom_bit_get (Some bh') b =
      (if b < m then Some (if unat b \<in> (\<Union>x \<in> set keys. key_bits m k x) then 1 else 0)
       else if b = m then None else Some HI_ERR_RANGE)" for b
    using bit_get [OF add(2), of b] by (simp only: add(3,6))
  have "live (hi_fini_bloom_filter hp1 bh') = live hp"
    using init(7) by (simp add: hi_fini_bloom_filter_def)
  then show ?thesis
    using init(1) add(1,5) check member get by blast
qed

theorem bloom_filter_exact_witness:
  "\<exists>hp1 bh bh'. hi_bloom_init_mk \<lparr>outcome = (\<lambda>_. Malloc_block 0), tick = 0, live = 0, have_posix_memalign = True\<rparr>
       64 7 = (SUCCESS, hp1, Some bh) \<and> bloom_adds bh [[97], [98]] = Some bh' \<and>
     hi_bloom_filter_check bh' [97] = Some 1 \<and> hi_bloom_filter_check bh' [98] = Some 1 \<and>
     hi_bloom_bit_get (Some bh') 64 = None \<and> hi_bloom_bit_get (Some bh') 65 = Some HI_ERR_RANGE"
  using bloom_filter_exact [of 64 7 "\<lparr>outcome = (\<lambda>_. Malloc_block 0), tick = 0, live = 0, have_posix_memalign = True\<rparr>"
      "[[97], [98]]"]
  by (fastforce simp: no_oom_def)

text \<open>
  \<open>hi_bloom_init_mk\<close> accepts a filter of no bits, on which adding and checking divide by zero;
  and when the second allocation fails, the first block is lost.
\<close>

lemma bloom_init_edge_cases:
  "(\<exists>hp' bh. hi_bloom_init_mk \<lparr>outcome = (\<lambda>_. Malloc_block 0), tick = 0, live = 0, have_posix_memalign = True\<rparr>
       0 7 = (SUCCESS, hp', Some bh) \<and> hi_bloom_filter_add bh key = None \<and> hi_bloom_filter_check bh key = None) \<and>
   (\<exists>hp'. hi_bloom_init_mk \<lparr>outcome = (\<lambda>n. if n = 1 then Malloc_fail else Malloc_block 0), tick = 0, live = 0,
       have_posix_memalign = True\<rparr> 64 7 = (HI_ERR_SYSTEM, hp', None) \<and> live hp' = 1)"
  by (simp_all add: hi_bloom_init_mk_def lhi_hashmap_def xalloc_align_def malloc_def ENOMEM_def
      hi_bloom_filter_add_def hi_bloom_filter_check_def bloom_position_def upt_conv_Cons rd_def)

end
