(* ===== verification/Bloom_draw.thy ===== *)
theory Bloom_draw
  imports Complex_Main Analysis Hi_bloom
begin

text \<open>
  The program \<open>analysis/bloom_distribution/bloom_distribution.c\<close> in its build with libgd: pairs of
  random addresses are added to a Bloom filter, and after each the filter is drawn. libgd draws: an
  image is the list of the rectangles filled and the text of its label. \<open>lrand48_r\<close>, the results of
  \<open>mkdir\<close> and \<open>chdir\<close>, the options that \<open>getopt\<close> finds and the text of the probability printed with
  \<open>%f\<close> are parameters.
\<close>

section \<open>Addresses and ports\<close>

record ip_port_tuple =
  ip_addr :: string
  ip_port :: string
  addr_array :: "byte list"

definition digit :: "nat \<Rightarrow> char" where
  "digit n = char_of (48 + n)"

fun decimal :: "nat \<Rightarrow> string" where
  "decimal n = (if n < 10 then [digit n] else decimal (n div 10) @ [digit (n mod 10)])"

declare decimal.simps [simp del]

text \<open>The address is in network byte order, so that its first byte is printed first.\<close>

definition inet_ntoa :: "u32 \<Rightarrow> string" where
  "inet_ntoa s_addr =
     (case map (decimal \<circ> unat) (bytes32 s_addr) of
        [a, b, c, d] \<Rightarrow> a @ ''.'' @ b @ ''.'' @ c @ ''.'' @ d)"

text \<open>\<open>None\<close> is a string longer than its array.\<close>

definition ip_port_tuple_gen :: "('g \<Rightarrow> int \<times> 'g) \<Rightarrow> heap \<Rightarrow> 'g \<Rightarrow>
    (int \<times> ip_port_tuple option \<times> 'g \<times> heap) option" where
  "ip_port_tuple_gen lrand48_r hp seed_data =
     (case malloc hp of
        (None, hp) \<Rightarrow> Some (- 1, None, seed_data, hp)
      | (Some _, hp) \<Rightarrow>
          (let (rand_val, seed_data) = lrand48_r seed_data;
               s_addr = word_of_int rand_val :: u32;
               addr = inet_ntoa s_addr;
               (rand_val, seed_data) = lrand48_r seed_data;
               port = word_of_int rand_val :: u16;
               port_text = decimal (unat port)
           in if 15 + 1 < length addr + 1 \<or> 5 + 1 < length port_text + 1 then None
              else Some (0, Some \<lparr>ip_addr = addr, ip_port = take 5 port_text,
                addr_array = bytes32 s_addr @ bytes16 port\<rparr>, seed_data, hp)))"

section \<open>Drawing\<close>

datatype color = Black | White | Red | Yellow

text \<open>A call of \<open>gdImageFilledRectangle\<close>: two corners and the color.\<close>

type_synonym rect = "u32 \<times> u32 \<times> u32 \<times> u32 \<times> color"

definition BLOOM_SQUARE :: nat where "BLOOM_SQUARE = 16"
definition RECT_SIZE :: u32 where "RECT_SIZE = 20"
definition RECT_BODER_SIZE :: u32 where "RECT_BODER_SIZE = 3"
definition Y_OFFSET :: u32 where "Y_OFFSET = 20"

definition draw_bit :: "hi_bloom_handle \<Rightarrow> u32 \<Rightarrow> u32 \<Rightarrow> u32 \<Rightarrow> rect list option" where
  "draw_bit bh x y current_bit = do {
     b \<leftarrow> hi_bloom_bit_get (Some bh) current_bit;
     let fillcolor = (if b \<noteq> 0 then Red else Yellow);
     Some [(x, y + Y_OFFSET, x + RECT_SIZE + RECT_BODER_SIZE, y + RECT_SIZE + RECT_BODER_SIZE + Y_OFFSET, White),
       (x + RECT_BODER_SIZE, y + RECT_BODER_SIZE + Y_OFFSET, x + RECT_SIZE, y + RECT_SIZE + Y_OFFSET, fillcolor)]
   }"

text \<open>The loops over \<open>j\<close> and \<open>i\<close>: the number of rounds left.\<close>

fun draw_row :: "hi_bloom_handle \<Rightarrow> nat \<Rightarrow> u32 \<Rightarrow> u32 \<Rightarrow> u32 \<Rightarrow> (rect list \<times> u32) option" where
  "draw_row bh 0 x y current_bit = Some ([], current_bit)"
| "draw_row bh (Suc n) x y current_bit = do {
     rects \<leftarrow> draw_bit bh x y current_bit;
     (rest, current_bit) \<leftarrow> draw_row bh n (x + (RECT_SIZE + RECT_BODER_SIZE * 2)) y (current_bit + 1);
     Some (rects @ rest, current_bit)
   }"

fun draw_rows :: "hi_bloom_handle \<Rightarrow> nat \<Rightarrow> u32 \<Rightarrow> u32 \<Rightarrow> rect list option" where
  "draw_rows bh 0 y current_bit = Some []"
| "draw_rows bh (Suc n) y current_bit = do {
     (rects, current_bit) \<leftarrow> draw_row bh BLOOM_SQUARE 1 y current_bit;
     rest \<leftarrow> draw_rows bh n (y + (RECT_SIZE + RECT_BODER_SIZE * 2)) current_bit;
     Some (rects @ rest)
   }"

text \<open>The background and the bits; the image is 418 by 438.\<close>

definition draw_filter :: "hi_bloom_handle \<Rightarrow> rect list option" where
  "draw_filter bh = do {
     rects \<leftarrow> draw_rows bh BLOOM_SQUARE 1 0;
     Some ((0, 0, 418, 438, Black) # rects)
   }"

text \<open>\<open>sprintf\<close> into \<open>char label[64]\<close>.\<close>

definition label_text :: "ip_port_tuple \<Rightarrow> ip_port_tuple \<Rightarrow> string \<Rightarrow> string" where
  "label_text src dst prob = ip_addr src @ '':'' @ ip_port src @ '' -> '' @ ip_addr dst @ '':'' @ ip_port dst @
     '' (probability: '' @ prob @ '')''"

definition make_label :: "ip_port_tuple \<Rightarrow> ip_port_tuple \<Rightarrow> string \<Rightarrow> string option" where
  "make_label src dst prob =
     (if 64 < length (label_text src dst prob) + 1 then None else Some (label_text src dst prob))"

definition png_filename :: "nat \<Rightarrow> string" where
  "png_filename iter =
     take 127 (replicate (5 - length (decimal iter)) CHR ''0'' @ decimal iter @ ''.png'')"

record picture =
  file_name :: string
  pic_rects :: "rect list"
  pic_label :: string

text \<open>The body of the loop of \<open>main\<close>.\<close>

definition bloom_frame :: "('g \<Rightarrow> int \<times> 'g) \<Rightarrow> (hi_bloom_handle \<Rightarrow> string) \<Rightarrow> nat \<Rightarrow>
    heap \<times> 'g \<times> hi_bloom_handle \<Rightarrow> (picture \<times> heap \<times> 'g \<times> hi_bloom_handle) outcome option" where
  "bloom_frame lrand48_r prob iter st =
     (let (hp, g, bh) = st
      in do {
        (_, src, g, hp) \<leftarrow> ip_port_tuple_gen lrand48_r hp g;
        case src of
          None \<Rightarrow> Some (Exit [])
        | Some src \<Rightarrow> do {
            (_, dst, g, hp) \<leftarrow> ip_port_tuple_gen lrand48_r hp g;
            case dst of
              None \<Rightarrow> Some (Exit [])
            | Some dst \<Rightarrow> do {
                bh \<leftarrow> hi_bloom_filter_add bh (addr_array src @ addr_array dst);
                rects \<leftarrow> draw_filter bh;
                label \<leftarrow> make_label src dst (prob bh);
                Some (Ran (\<lparr>file_name = png_filename iter, pic_rects = rects, pic_label = label\<rparr>,
                  free (free hp), g, bh))
              }
          }
      })"

fun bloom_frames :: "('g \<Rightarrow> int \<times> 'g) \<Rightarrow> (hi_bloom_handle \<Rightarrow> string) \<Rightarrow> nat list \<Rightarrow>
    heap \<times> 'g \<times> hi_bloom_handle \<Rightarrow> (picture list \<times> heap \<times> 'g \<times> hi_bloom_handle) outcome option" where
  "bloom_frames lrand48_r prob [] st = Some (Ran ([], st))"
| "bloom_frames lrand48_r prob (iter # iters) st =
     then_ran (bloom_frame lrand48_r prob iter st) (\<lambda>(pic, st).
       then_ran (bloom_frames lrand48_r prob iters st) (\<lambda>(pics, st). Some (Ran (pic # pics, st))))"

section \<open>The probability of a false positive\<close>

text \<open>
  A \<open>double\<close> is a real number here. A filter of no bits has no probability.
\<close>

definition hi_bloom_false_positiv_probability :: "u32 \<Rightarrow> u32 \<Rightarrow> u32 \<Rightarrow> real option" where
  "hi_bloom_false_positiv_probability m n k =
     (if m = 0 then None
      else Some ((1 - exp (- (of_nat (unat k) * of_nat (unat n) / of_nat (unat m)))) ^ unat k))"

definition hi_bloom_current_false_positiv_probability :: "hi_bloom_handle \<Rightarrow> real option" where
  "hi_bloom_current_false_positiv_probability bh =
     (if bloom_m bh = 0 then None
      else Some ((1 - exp (- (of_nat (unat (bloom_k bh)) * of_nat (unat (bloom_n bh)) / of_nat (unat (bloom_m bh))))) ^
        unat (bloom_k bh)))"

text \<open>The lines of \<open>false_positiv_probability_table.c\<close>.\<close>

definition probability_table :: "(u32 \<times> u32 \<times> real option) list" where
  "probability_table = concat (map (\<lambda>n. map (\<lambda>k. (word_of_nat n, word_of_nat k,
     hi_bloom_false_positiv_probability 128 (word_of_nat n) (word_of_nat k))) [1 ..< 23]) [1 ..< 128])"

text \<open>It lies between 0 and 1, so that \<open>%f\<close> prints it with eight characters.\<close>

lemma false_positiv_probability_bounds:
  assumes "m \<noteq> 0"
  obtains p where "hi_bloom_false_positiv_probability m n k = Some p" and "0 \<le> p" and "p \<le> 1"
proof -
  let ?x = "of_nat (unat k) * of_nat (unat n) / of_nat (unat m) :: real"
  have "0 \<le> ?x"
    by (intro divide_nonneg_nonneg mult_nonneg_nonneg of_nat_0_le_iff)
  then have "exp (- ?x) \<le> 1"
    by (simp only: exp_le_one_iff neg_le_0_iff_le)
  moreover have "0 < exp (- ?x)"
    by (rule exp_gt_zero)
  ultimately have "0 \<le> 1 - exp (- ?x)" "1 - exp (- ?x) \<le> 1"
    by linarith+
  then have "0 \<le> (1 - exp (- ?x)) ^ unat k" "(1 - exp (- ?x)) ^ unat k \<le> 1"
    by (auto intro: zero_le_power power_le_one)
  moreover have "hi_bloom_false_positiv_probability m n k = Some ((1 - exp (- ?x)) ^ unat k)"
    using assms by (simp only: hi_bloom_false_positiv_probability_def if_False)
  ultimately show thesis
    by (intro that)
qed

section \<open>The program\<close>

text \<open>The variables of the options. \<open>m\<close> and \<open>k\<close> are not initialised.\<close>

record draw_opts =
  opt_m :: "int option"
  opt_k :: "int option"
  opt_n :: int
  opt_outdir :: "string option"

fun parse_opts :: "(char \<times> string) list \<Rightarrow> draw_opts \<Rightarrow> heap \<Rightarrow> (draw_opts \<times> heap) outcome option" where
  "parse_opts [] opts hp = Some (Ran (opts, hp))"
| "parse_opts ((c, arg) # args) opts hp =
     (if c = CHR ''m'' then do { v \<leftarrow> atoi arg; parse_opts args (opts\<lparr>opt_m := Some v\<rparr>) hp }
      else if c = CHR ''k'' then do { v \<leftarrow> atoi arg; parse_opts args (opts\<lparr>opt_k := Some v\<rparr>) hp }
      else if c = CHR ''n'' then do { v \<leftarrow> atoi arg; parse_opts args (opts\<lparr>opt_n := v\<rparr>) hp }
      else if c = CHR ''v'' then parse_opts args opts hp
      else if c = CHR ''o'' then
        (case malloc hp of
           (None, hp) \<Rightarrow> parse_opts args (opts\<lparr>opt_outdir := None\<rparr>) hp
         | (Some _, hp) \<Rightarrow> parse_opts args (opts\<lparr>opt_outdir := Some arg\<rparr>) hp)
      else if c = CHR ''h'' \<or> c = CHR ''?'' then Some (Exit [])
      else parse_opts args opts hp)"

definition bloom_draw_main :: "('g \<Rightarrow> int \<times> 'g) \<Rightarrow> (hi_bloom_handle \<Rightarrow> string) \<Rightarrow> int \<Rightarrow> int \<Rightarrow>
    (char \<times> string) list \<Rightarrow> 'g \<Rightarrow> heap \<Rightarrow> (picture list \<times> heap) outcome option" where
  "bloom_draw_main lrand48_r prob mkdir_ret chdir_ret args seed_data hp =
     then_ran (parse_opts args \<lparr>opt_m = None, opt_k = None, opt_n = 0, opt_outdir = None\<rparr> hp) (\<lambda>(opts, hp).
       if opt_outdir opts = None then Some (Exit [])
       else if mkdir_ret < 0 then Some (Exit [])
       else if chdir_ret < 0 then Some (Exit [])
       else do {
         m \<leftarrow> opt_m opts;
         if m = 0 then Some (Exit [])
         else do {
           k \<leftarrow> opt_k opts;
           if k = 0 \<or> opt_n opts = 0 then Some (Exit [])
           else (case hi_bloom_init_mk hp (word_of_int m) (word_of_int k) of
               (_, hp, None) \<Rightarrow> Some (Exit [])
             | (_, hp, Some bh) \<Rightarrow>
                 then_ran (bloom_frames lrand48_r prob [0 ..< nat (opt_n opts)] (hp, seed_data, bh))
                   (\<lambda>(pics, hp, _, bh). Some (Ran (pics, hi_fini_bloom_filter hp bh))))
         }
       })"

section \<open>Strings that fit\<close>

lemma length_decimal:
  "length (decimal n) \<le> d" if "n < 10 ^ d" and "0 < d"
  using that
proof (induction n arbitrary: d rule: decimal.induct)
  case (1 n)
  show ?case
  proof (cases "n < 10")
    case True
    then show ?thesis
      using "1.prems" by (simp add: decimal.simps)
  next
    case False
    then obtain e where e: "d = Suc e" "0 < e"
      using "1.prems" by (cases d; cases "d - 1") auto
    then have "n div 10 < 10 ^ e"
      using "1.prems"(1) by (simp add: less_mult_imp_div_less mult.commute)
    then show ?thesis
      using "1.IH" [OF False, of e] e False by (subst decimal.simps) simp
  qed
qed

lemma decimal_byte: "length (decimal (unat (b :: byte))) \<le> 3"
proof (rule length_decimal)
  have "unat b < 2 ^ 8"
    using unsigned_less [of b] by simp
  then show "unat b < 10 ^ 3"
    by simp
qed simp

lemma decimal_u16: "length (decimal (unat (p :: u16))) \<le> 5"
proof (rule length_decimal)
  have "unat p < 2 ^ 16"
    using unsigned_less [of p] by simp
  then show "unat p < 10 ^ 5"
    by simp
qed simp

lemma inet_ntoa_fits: "length (inet_ntoa a) \<le> 15"
  using decimal_byte [of "ucast a"] decimal_byte [of "ucast (drop_bit 8 a)"]
    decimal_byte [of "ucast (drop_bit 16 a)"] decimal_byte [of "ucast (drop_bit 24 a)"]
  by (simp add: inet_ntoa_def bytes32_def)

text \<open>What is generated from two numbers drawn: every string fits into its array.\<close>

definition tuple_of :: "int \<Rightarrow> int \<Rightarrow> ip_port_tuple" where
  "tuple_of r p = \<lparr>ip_addr = inet_ntoa (word_of_int r), ip_port = decimal (unat (word_of_int p :: u16)),
     addr_array = bytes32 (word_of_int r) @ bytes16 (word_of_int p)\<rparr>"

lemma gen_tuple:
  assumes "malloc hp = (Some junk, hp')"
  shows "ip_port_tuple_gen lrand hp g =
    (let (r, g) = lrand g; (p, g) = lrand g in Some (0, Some (tuple_of r p), g, hp'))"
  using assms decimal_u16
  by (simp add: ip_port_tuple_gen_def tuple_of_def Let_def leD [OF inet_ntoa_fits] leD [OF decimal_u16] split: prod.split)

section \<open>What is drawn\<close>

text \<open>The two rectangles of the bit in row \<open>i\<close> and column \<open>j\<close>.\<close>

definition bit_rects :: "nat set \<Rightarrow> nat \<Rightarrow> nat \<Rightarrow> rect list" where
  "bit_rects bits i j =
     (let x = 1 + 26 * word_of_nat j; y = 1 + 26 * word_of_nat i + 20
      in [(x, y, x + 23, y + 23, White),
          (x + 3, y + 3, x + 20, y + 20, if 16 * i + j \<in> bits then Red else Yellow)])"

abbreviation col_x :: "nat \<Rightarrow> u32" where
  "col_x j \<equiv> 1 + 26 * word_of_nat j"

lemma draw_bit_eq:
  assumes "bloom_ok bh" and "16 * i + j < unat (bloom_m bh)"
  shows "draw_bit bh (col_x j) (col_x i) (word_of_nat (16 * i + j)) =
    Some (bit_rects (bloom_bits (filter_map bh)) i j)"
proof -
  let ?b = "word_of_nat (16 * i + j) :: u32"
  have b: "unat ?b = 16 * i + j"
    by (rule unat_of_nat_u32) (use assms(2) unat_u32_less [of "bloom_m bh"] in linarith)
  then have "?b < bloom_m bh"
    unfolding word_less_nat_alt using assms(2) by linarith
  then have "hi_bloom_bit_get (Some bh) ?b = Some (if 16 * i + j \<in> bloom_bits (filter_map bh) then 1 else 0)"
    using bit_get [OF assms(1), of ?b] b by simp
  then show ?thesis
    by (simp add: draw_bit_def bit_rects_def Let_def Y_OFFSET_def RECT_SIZE_def RECT_BODER_SIZE_def add_ac)
qed

lemma draw_bit_past:
  assumes "bloom_ok bh"
  shows "draw_bit bh x y (bloom_m bh) = None"
  using bit_get [OF assms, of "bloom_m bh"] by (simp add: draw_bit_def)

lemma next_pos:
  "col_x j + (RECT_SIZE + RECT_BODER_SIZE * 2) = col_x (Suc j)"
  "(word_of_nat (16 * i + j) :: u32) + 1 = word_of_nat (16 * i + Suc j)"
  by (simp_all add: RECT_SIZE_def RECT_BODER_SIZE_def algebra_simps)

lemma draw_row_eq:
  assumes "bloom_ok bh" and "16 * i + j + n \<le> unat (bloom_m bh)"
  shows "draw_row bh n (col_x j) (col_x i) (word_of_nat (16 * i + j)) =
    Some (concat (map (bit_rects (bloom_bits (filter_map bh)) i) [j ..< j + n]), word_of_nat (16 * i + j + n))"
  using assms(2)
proof (induction n arbitrary: j)
  case 0
  then show ?case by simp
next
  case (Suc n)
  have "16 * i + Suc j + n \<le> unat (bloom_m bh)"
    using Suc.prems by simp
  note Suc.IH [OF this]
  moreover have "16 * i + j < unat (bloom_m bh)"
    using Suc.prems by simp
  note draw_bit_eq [OF assms(1) this]
  moreover have "[j ..< j + Suc n] = j # [Suc j ..< Suc j + n]"
    by (simp add: upt_conv_Cons)
  ultimately show ?case
    by (simp only: draw_row.simps next_pos) simp
qed

lemma draw_row_past:
  assumes "bloom_ok bh" and "16 * i + j \<le> unat (bloom_m bh)" and "unat (bloom_m bh) < 16 * i + j + n"
  shows "draw_row bh n (col_x j) (col_x i) (word_of_nat (16 * i + j)) = None"
  using assms(2,3)
proof (induction n arbitrary: j)
  case 0
  then show ?case by simp
next
  case (Suc n)
  show ?case
  proof (cases "16 * i + j = unat (bloom_m bh)")
    case True
    then show ?thesis
      using draw_bit_past [OF assms(1)] by simp
  next
    case False
    then have less: "16 * i + j < unat (bloom_m bh)"
      using Suc.prems by simp
    have "draw_row bh n (col_x (Suc j)) (col_x i) (word_of_nat (16 * i + Suc j)) = None"
      by (rule Suc.IH) (use less Suc.prems in simp_all)
    then show ?thesis
      using draw_bit_eq [OF assms(1) less] by (simp only: draw_row.simps next_pos) simp
  qed
qed

lemma draw_rows_eq:
  assumes "bloom_ok bh" and "16 * i \<le> unat (bloom_m bh)"
  shows "draw_rows bh n (col_x i) (word_of_nat (16 * i)) =
    (if 16 * (i + n) \<le> unat (bloom_m bh)
     then Some (concat (map (\<lambda>i. concat (map (bit_rects (bloom_bits (filter_map bh)) i) [0 ..< 16])) [i ..< i + n]))
     else None)"
  using assms(2)
proof (induction n arbitrary: i)
  case 0
  then show ?case by simp
next
  case (Suc n)
  have one: "col_x 0 = 1"
    by simp
  show ?case
  proof (cases "16 * Suc i \<le> unat (bloom_m bh)")
    case True
    have "16 * i + 0 + 16 \<le> unat (bloom_m bh)"
      using True by simp
    from draw_row_eq [OF assms(1) this]
    have "draw_row bh 16 1 (col_x i) (word_of_nat (16 * i)) =
      Some (concat (map (bit_rects (bloom_bits (filter_map bh)) i) [0 ..< 16]), word_of_nat (16 * Suc i))"
      by (simp add: add.commute)
    moreover note Suc.IH [OF True]
    moreover have "[i ..< i + Suc n] = i # [Suc i ..< Suc i + n]"
      by (simp add: upt_conv_Cons)
    ultimately show ?thesis
      by (simp only: draw_rows.simps BLOOM_SQUARE_def next_pos) simp
  next
    case False
    have "draw_row bh 16 (col_x 0) (col_x i) (word_of_nat (16 * i + 0)) = None"
      by (rule draw_row_past [OF assms(1)]) (use False Suc.prems in simp_all)
    then show ?thesis
      using False by (simp add: BLOOM_SQUARE_def)
  qed
qed

text \<open>The picture of a filter of at least 256 bits; a smaller filter is read past its end.\<close>

definition filter_rects :: "nat set \<Rightarrow> rect list" where
  "filter_rects bits = (0, 0, 418, 438, Black) #
     concat (map (\<lambda>i. concat (map (bit_rects bits i) [0 ..< 16])) [0 ..< 16])"

lemma draw_filter_eq:
  assumes "bloom_ok bh"
  shows "draw_filter bh =
    (if 256 \<le> unat (bloom_m bh) then Some (filter_rects (bloom_bits (filter_map bh))) else None)"
  using draw_rows_eq [OF assms, of 0 16] by (simp add: draw_filter_def BLOOM_SQUARE_def filter_rects_def)

text \<open>A label fits when its addresses and ports have at most 33 characters together.\<close>

lemma make_label_eq:
  assumes "length prob = 8"
  shows "make_label src dst prob =
    (if length (ip_addr src) + length (ip_port src) + length (ip_addr dst) + length (ip_port dst) \<le> 33
     then Some (label_text src dst prob) else None)"
  using assms by (auto simp: make_label_def label_text_def)

section \<open>The pictures of a run\<close>

text \<open>The pairs drawn in \<open>n\<close> rounds, the key of a pair, and whether its label fits.\<close>

definition next_pair :: "('g \<Rightarrow> int \<times> 'g) \<Rightarrow> 'g \<Rightarrow> (ip_port_tuple \<times> ip_port_tuple) \<times> 'g" where
  "next_pair lrand g =
     (let (a, g) = lrand g; (b, g) = lrand g; (c, g) = lrand g; (d, g) = lrand g
      in ((tuple_of a b, tuple_of c d), g))"

fun drawn_pairs :: "('g \<Rightarrow> int \<times> 'g) \<Rightarrow> nat \<Rightarrow> 'g \<Rightarrow> (ip_port_tuple \<times> ip_port_tuple) list" where
  "drawn_pairs lrand 0 g = []"
| "drawn_pairs lrand (Suc n) g = (let (p, g) = next_pair lrand g in p # drawn_pairs lrand n g)"

definition pair_key :: "ip_port_tuple \<times> ip_port_tuple \<Rightarrow> key" where
  "pair_key p = addr_array (fst p) @ addr_array (snd p)"

definition pair_fits :: "ip_port_tuple \<times> ip_port_tuple \<Rightarrow> bool" where
  "pair_fits p \<longleftrightarrow> length (ip_addr (fst p)) + length (ip_port (fst p)) +
     length (ip_addr (snd p)) + length (ip_port (snd p)) \<le> 33"

definition keys_bits :: "hi_bloom_handle \<Rightarrow> key list \<Rightarrow> nat set" where
  "keys_bits bh keys = bloom_bits (filter_map bh) \<union> (\<Union>key \<in> set keys. key_bits (bloom_m bh) (bloom_k bh) key)"

lemma bloom_frame_eq:
  assumes "bloom_ok bh" and "no_oom hp" and "\<forall>bh. length (prob bh) = 8" and "next_pair lrand g = (p, g')"
  obtains hp' bh' where "bloom_frame lrand prob i (hp, g, bh) =
      (if 256 \<le> unat (bloom_m bh) \<and> pair_fits p
       then Some (Ran (\<lparr>file_name = png_filename i, pic_rects = filter_rects (keys_bits bh [pair_key p]),
         pic_label = label_text (fst p) (snd p) (prob bh')\<rparr>, hp', g', bh'))
       else None)"
    and "no_oom hp'" and "live hp' = live hp" and "bloom_ok bh'" and "bloom_m bh' = bloom_m bh"
    and "bloom_k bh' = bloom_k bh" and "bloom_bits (filter_map bh') = keys_bits bh [pair_key p]"
proof -
  obtain j1 hp1 where 1: "malloc hp = (Some j1, hp1)" "no_oom hp1" "live hp1 = live hp + 1"
    by (rule malloc_no_oom [OF assms(2)])
  obtain j2 hp2 where 2: "malloc hp1 = (Some j2, hp2)" "no_oom hp2" "live hp2 = live hp1 + 1"
    by (rule malloc_no_oom [OF 1(2)])
  obtain a ga b gb c gc d where draws: "lrand g = (a, ga)" "lrand ga = (b, gb)" "lrand gb = (c, gc)" "lrand gc = (d, g')"
    and p: "p = (tuple_of a b, tuple_of c d)"
    using assms(4) by (auto simp: next_pair_def split: prod.splits)
  obtain bh' where add: "hi_bloom_filter_add bh (pair_key p) = Some bh'" "bloom_ok bh'" "bloom_m bh' = bloom_m bh"
    "bloom_k bh' = bloom_k bh" "bloom_bits (filter_map bh') = keys_bits bh [pair_key p]"
  proof -
    obtain fm c where "hi_bloom_filter_add bh (pair_key p) =
        Some (bh\<lparr>bloom_n := bloom_n bh + 1, filter_map := fm, bit_collision := c\<rparr>)"
      "length fm = length (filter_map bh)"
      "bloom_bits fm = bloom_bits (filter_map bh) \<union> key_bits (bloom_m bh) (bloom_k bh) (pair_key p)"
      using add_bits [OF assms(1)] by metis
    then show thesis
      using that assms(1) by (simp add: bloom_ok_def keys_bits_def)
  qed
  have "bloom_frame lrand prob i (hp, g, bh) =
      (if 256 \<le> unat (bloom_m bh) \<and> pair_fits p
       then Some (Ran (\<lparr>file_name = png_filename i, pic_rects = filter_rects (keys_bits bh [pair_key p]),
         pic_label = label_text (fst p) (snd p) (prob bh')\<rparr>, free (free hp2), g', bh'))
       else None)"
    using add assms(3)
    by (simp add: bloom_frame_def gen_tuple [OF 1(1)] gen_tuple [OF 2(1)] draws p pair_key_def pair_fits_def
        draw_filter_eq [OF add(2)] make_label_eq)
  then show thesis
    using that add(2-5) 1(3) 2(2,3) by simp
qed

lemma keys_bits_step:
  assumes "bloom_bits (filter_map bh') = keys_bits bh [key]" and "bloom_m bh' = bloom_m bh" and "bloom_k bh' = bloom_k bh"
  shows "keys_bits bh' keys = keys_bits bh (key # keys)"
  using assms by (auto simp: keys_bits_def)

lemma bloom_frames_run:
  assumes "bloom_ok bh" and "no_oom hp" and "\<forall>bh. length (prob bh) = 8" and "256 \<le> unat (bloom_m bh)"
    and "\<forall>p \<in> set (drawn_pairs lrand n g). pair_fits p"
  shows "\<exists>pics hp' g' bh'. bloom_frames lrand prob [i ..< i + n] (hp, g, bh) = Some (Ran (pics, hp', g', bh')) \<and>
    map pic_rects pics =
      map (\<lambda>k. filter_rects (keys_bits bh (map pair_key (take (k + 1) (drawn_pairs lrand n g))))) [0 ..< n] \<and>
    map file_name pics = map png_filename [i ..< i + n] \<and> live hp' = live hp"
  using assms(1,2,4,5)
proof (induction n arbitrary: i hp g bh)
  case 0
  then show ?case by auto
next
  case (Suc n)
  obtain p g1 where p: "next_pair lrand g = (p, g1)"
    by (cases "next_pair lrand g")
  obtain hp1 bh1 where frame: "bloom_frame lrand prob i (hp, g, bh) =
      (if 256 \<le> unat (bloom_m bh) \<and> pair_fits p
       then Some (Ran (\<lparr>file_name = png_filename i, pic_rects = filter_rects (keys_bits bh [pair_key p]),
         pic_label = label_text (fst p) (snd p) (prob bh1)\<rparr>, hp1, g1, bh1))
       else None)"
    "no_oom hp1" "live hp1 = live hp" "bloom_ok bh1" "bloom_m bh1 = bloom_m bh"
    "bloom_k bh1 = bloom_k bh" "bloom_bits (filter_map bh1) = keys_bits bh [pair_key p]"
    by (rule bloom_frame_eq [OF Suc.prems(1,2) assms(3) p])
  have fits: "pair_fits p" "\<forall>p \<in> set (drawn_pairs lrand n g1). pair_fits p"
    using Suc.prems(4) p by simp_all
  obtain pics hp' g' bh' where rest:
    "bloom_frames lrand prob [Suc i ..< Suc i + n] (hp1, g1, bh1) = Some (Ran (pics, hp', g', bh'))"
    "map pic_rects pics =
      map (\<lambda>k. filter_rects (keys_bits bh1 (map pair_key (take (k + 1) (drawn_pairs lrand n g1))))) [0 ..< n]"
    "map file_name pics = map png_filename [Suc i ..< Suc i + n]" "live hp' = live hp1"
    using Suc.IH [OF frame(4,2) _ fits(2), of "Suc i"] Suc.prems(3) frame(5) by auto
  let ?pic = "\<lparr>file_name = png_filename i, pic_rects = filter_rects (keys_bits bh [pair_key p]),
    pic_label = label_text (fst p) (snd p) (prob bh1)\<rparr>"
  have upt: "[i ..< i + Suc n] = i # [Suc i ..< Suc i + n]" "[0 ..< Suc n] = 0 # map Suc [0 ..< n]"
    by (simp_all add: upt_conv_Cons map_Suc_upt del: upt_Suc)
  have "bloom_frames lrand prob [i ..< i + Suc n] (hp, g, bh) = Some (Ran (?pic # pics, hp', g', bh'))"
    unfolding upt(1) using frame(1) rest(1) fits(1) Suc.prems(3) by (simp del: upt_Suc)
  moreover have "map pic_rects (?pic # pics) =
      map (\<lambda>k. filter_rects (keys_bits bh (map pair_key (take (k + 1) (drawn_pairs lrand (Suc n) g))))) [0 ..< Suc n]"
    using rest(2) by (simp add: upt(2) p keys_bits_step [OF frame(7,5,6)] del: upt_Suc)
  ultimately show ?case
    unfolding upt(1) using rest(3,4) frame(3)
    by (intro exI [of _ "?pic # pics"] exI [of _ hp'] exI [of _ g'] exI [of _ bh']) (simp del: upt_Suc)
qed

lemma bloom_frames_stop:
  assumes "bloom_ok bh" and "no_oom hp" and "\<forall>bh. length (prob bh) = 8"
    and "\<not> (256 \<le> unat (bloom_m bh) \<and> (\<forall>p \<in> set (drawn_pairs lrand n g). pair_fits p))" and "n \<noteq> 0"
  shows "bloom_frames lrand prob [i ..< i + n] (hp, g, bh) = None"
  using assms(1,2,4,5)
proof (induction n arbitrary: i hp g bh)
  case 0
  then show ?case by simp
next
  case (Suc n)
  obtain p g1 where p: "next_pair lrand g = (p, g1)"
    by (cases "next_pair lrand g")
  obtain hp1 bh1 pic where frame: "bloom_frame lrand prob i (hp, g, bh) =
      (if 256 \<le> unat (bloom_m bh) \<and> pair_fits p then Some (Ran (pic, hp1, g1, bh1)) else None)"
    "no_oom hp1" "bloom_ok bh1" "bloom_m bh1 = bloom_m bh"
    using bloom_frame_eq [OF Suc.prems(1,2) assms(3) p] by metis
  have upt: "[i ..< i + Suc n] = i # [Suc i ..< Suc i + n]"
    by (simp add: upt_conv_Cons)
  show ?case
  proof (cases "256 \<le> unat (bloom_m bh) \<and> pair_fits p")
    case True
    then have not: "\<not> (256 \<le> unat (bloom_m bh1) \<and> (\<forall>p \<in> set (drawn_pairs lrand n g1). pair_fits p))"
      using Suc.prems(3) p frame(4) by simp
    then have "n \<noteq> 0"
      using True frame(4) by (cases n) auto
    then show ?thesis
      unfolding upt using Suc.IH [OF frame(3,2) not, of "Suc i"] frame(1) True by (simp del: upt_Suc)
  next
    case False
    then have "bloom_frame lrand prob i (hp, g, bh) = None"
      using frame(1) by (simp only: if_False)
    then show ?thesis
      unfolding upt by (simp del: upt_Suc)
  qed
qed

text \<open>The loop of \<open>main\<close> between the creation of the filter and its end.\<close>

lemma bloom_loop:
  assumes "m mod 8 = 0" and "m \<noteq> 0" and "unat k \<le> 7" and "no_oom hp" and "\<forall>bh. length (prob bh) = 8" and "n \<noteq> 0"
  shows "\<exists>hp1 bh. hi_bloom_init_mk hp m k = (SUCCESS, hp1, Some bh) \<and>
    (if 256 \<le> unat m \<and> (\<forall>p \<in> set (drawn_pairs lrand n g). pair_fits p)
     then \<exists>pics hp2 g' bh'. bloom_frames lrand prob [0 ..< n] (hp1, g, bh) = Some (Ran (pics, hp2, g', bh')) \<and>
       map pic_rects pics = map (\<lambda>i. filter_rects (\<Union>p \<in> set (take (i + 1) (drawn_pairs lrand n g)).
         key_bits m k (pair_key p))) [0 ..< n] \<and>
       map file_name pics = map png_filename [0 ..< n] \<and> live (hi_fini_bloom_filter hp2 bh') = live hp
     else bloom_frames lrand prob [0 ..< n] (hp1, g, bh) = None)"
proof -
  have "unat k \<le> length lhi_hashmap"
    using assms(3) by (simp add: lhi_hashmap_def)
  obtain hp1 bh where init: "hi_bloom_init_mk hp m k = (SUCCESS, hp1, Some bh)" "bloom_ok bh"
    "bloom_m bh = m" "bloom_k bh = k" "bloom_bits (filter_map bh) = {}" "live hp1 = live hp + 2" "no_oom hp1"
  proof -
    obtain hp1 bh where init: "hi_bloom_init_mk hp m k = (SUCCESS, hp1, Some bh)" "bloom_ok bh"
      "bloom_m bh = m" "bloom_k bh = k" "bloom_bits (filter_map bh) = {}" "live hp1 = live hp + 2"
      using init_bits [OF assms(1,2) \<open>unat k \<le> length lhi_hashmap\<close> assms(4)] by metis
    moreover have "no_oom hp1"
      using init(1) assms(4) by (auto simp: hi_bloom_init_mk_def xalloc_align_def malloc_def no_oom_def ENOMEM_def Let_def
          split: if_splits malloc_result.splits prod.splits)
    ultimately show thesis
      using that by blast
  qed
  have bits: "keys_bits bh (map pair_key ps) = (\<Union>p \<in> set ps. key_bits m k (pair_key p))" for ps
    using init(3-5) by (simp add: keys_bits_def)
  show ?thesis
  proof (cases "256 \<le> unat m \<and> (\<forall>p \<in> set (drawn_pairs lrand n g). pair_fits p)")
    case True
    then have "256 \<le> unat (bloom_m bh)" "\<forall>p \<in> set (drawn_pairs lrand n g). pair_fits p"
      using init(3) by simp_all
    from bloom_frames_run [OF init(2,7) assms(5) this, of 0]
    show ?thesis
      using True init(1,6) by (auto simp: bits hi_fini_bloom_filter_def)
  next
    case False
    then have "\<not> (256 \<le> unat (bloom_m bh) \<and> (\<forall>p \<in> set (drawn_pairs lrand n g). pair_fits p))"
      using init(3) by simp
    from bloom_frames_stop [OF init(2,7) assms(5) this assms(6), of 0]
    show ?thesis
      using False init(1) by auto
  qed
qed

section \<open>The pictures of the program\<close>

text \<open>Every option \<open>-o\<close> copies its argument, and no copy is freed.\<close>

definition outdirs :: "(char \<times> string) list \<Rightarrow> nat" where
  "outdirs args = length (filter (\<lambda>(c, arg). c = CHR ''o'') args)"

lemma parse_opts_heap:
  assumes "parse_opts args opts hp = Some (Ran (opts', hp'))" and "no_oom hp"
  shows "no_oom hp' \<and> live hp' = live hp + int (outdirs args)"
  using assms
proof (induction args arbitrary: opts hp)
  case Nil
  then show ?case by (simp add: outdirs_def)
next
  case (Cons a args)
  obtain c arg where a: "a = (c, arg)"
    by (cases a)
  have count: "outdirs (a # args) = (if c = CHR ''o'' then 1 else 0) + outdirs args"
    by (simp add: outdirs_def a)
  obtain junk hp1 where m: "malloc hp = (Some junk, hp1)" "no_oom hp1" "live hp1 = live hp + 1"
    by (rule malloc_no_oom [OF Cons.prems(2)])
  have "\<exists>opts. parse_opts args opts (if c = CHR ''o'' then hp1 else hp) = Some (Ran (opts', hp'))"
    using Cons.prems(1) unfolding a parse_opts.simps(2) m(1)
    by (auto simp only: bind_eq_Some_conv prod.case option.case simp_thms outcome.distinct option.inject split: if_splits)
  then show ?case
    using Cons.IH [OF _ m(2)] Cons.IH [OF _ Cons.prems(2)] m(3) count by (auto split: if_splits)
qed

text \<open>
  C30. A run of \<open>bloom_distribution\<close> whose options name an output directory, a filter that
  \<open>hi_bloom_init_mk\<close> accepts and at least one picture, with enough memory and a directory that can be
  made: with a filter of at least 256 bits and labels that fit, picture \<open>i\<close> has a red square exactly
  for the bits of the first \<open>i + 1\<close> keys, and the blocks in use at the end are the copies of the names
  of output directories, one for each \<open>-o\<close>. Otherwise the run is undefined: a smaller filter is read
  past its end, and a label whose addresses and ports have more than 33 characters is written past
  the end of its array.
\<close>

theorem bloom_pictures:
  assumes "parse_opts args \<lparr>opt_m = None, opt_k = None, opt_n = 0, opt_outdir = None\<rparr> hp = Some (Ran (opts, hp0))"
    and "opt_m opts = Some m" and "opt_k opts = Some k" and "opt_outdir opts \<noteq> None" and "0 < opt_n opts"
    and "(word_of_int m :: u32) mod 8 = 0" and "(word_of_int m :: u32) \<noteq> 0" and "k \<noteq> 0"
    and "unat (word_of_int k :: u32) \<le> 7" and "0 \<le> mkdir_ret" and "0 \<le> chdir_ret"
    and "no_oom hp" and "\<forall>bh. length (prob bh) = 8"
  shows "let pairs = drawn_pairs lrand (nat (opt_n opts)) g
    in if 256 \<le> unat (word_of_int m :: u32) \<and> (\<forall>p \<in> set pairs. pair_fits p)
       then \<exists>pics hp'. bloom_draw_main lrand prob mkdir_ret chdir_ret args g hp = Some (Ran (pics, hp')) \<and>
         map pic_rects pics = map (\<lambda>i. filter_rects (\<Union>p \<in> set (take (i + 1) pairs).
           key_bits (word_of_int m) (word_of_int k) (pair_key p))) [0 ..< nat (opt_n opts)] \<and>
         map file_name pics = map png_filename [0 ..< nat (opt_n opts)] \<and>
         live hp' = live hp + int (outdirs args)
       else bloom_draw_main lrand prob mkdir_ret chdir_ret args g hp = None"
proof -
  have hp0: "no_oom hp0" "live hp0 = live hp + int (outdirs args)"
    using parse_opts_heap [OF assms(1,12)] by simp_all
  have m: "m \<noteq> 0"
    using assms(7) by auto
  define pairs where "pairs = drawn_pairs lrand (nat (opt_n opts)) g"
  have n: "nat (opt_n opts) \<noteq> 0"
    using assms(5) by simp
  obtain hp1 bh where init: "hi_bloom_init_mk hp0 (word_of_int m) (word_of_int k) = (SUCCESS, hp1, Some bh)"
    and run: "if 256 \<le> unat (word_of_int m :: u32) \<and> (\<forall>p \<in> set pairs. pair_fits p)
     then \<exists>pics hp2 g' bh'. bloom_frames lrand prob [0 ..< nat (opt_n opts)] (hp1, g, bh) =
         Some (Ran (pics, hp2, g', bh')) \<and>
       map pic_rects pics = map (\<lambda>i. filter_rects (\<Union>p \<in> set (take (i + 1) pairs).
         key_bits (word_of_int m) (word_of_int k) (pair_key p))) [0 ..< nat (opt_n opts)] \<and>
       map file_name pics = map png_filename [0 ..< nat (opt_n opts)] \<and>
       live (hi_fini_bloom_filter hp2 bh') = live hp0
     else bloom_frames lrand prob [0 ..< nat (opt_n opts)] (hp1, g, bh) = None"
    using bloom_loop [OF assms(6,7,9) hp0(1) assms(13) n, of lrand g] unfolding pairs_def by blast
  have main: "bloom_draw_main lrand prob mkdir_ret chdir_ret args g hp =
      then_ran (bloom_frames lrand prob [0 ..< nat (opt_n opts)] (hp1, g, bh))
        (\<lambda>(pics, hp, _, bh). Some (Ran (pics, hi_fini_bloom_filter hp bh)))"
  proof -
    obtain d where "opt_outdir opts = Some d"
      using assms(4) by auto
    then show ?thesis
      using assms(1-3,5,8,10,11) m init by (simp add: bloom_draw_main_def)
  qed
  show ?thesis
    unfolding Let_def pairs_def [symmetric] main using run hp0(2) by (auto split: if_splits)
qed

lemma drawn_pairs_const: "drawn_pairs (\<lambda>g. (r, g)) (Suc 0) g = [(tuple_of r r, tuple_of r r)]"
  by (simp add: next_pair_def)

lemma tuple_examples:
  "pair_fits (tuple_of 0 0, tuple_of 0 0)"
  "\<not> pair_fits (tuple_of 1684300900 1684300900, tuple_of 1684300900 1684300900)"
  by (simp_all add: pair_fits_def tuple_of_def inet_ntoa_def bytes32_def decimal.simps)

definition ex_args :: "(char \<times> string) list" where
  "ex_args = [(CHR ''o'', ''imageout''), (CHR ''k'', ''4''), (CHR ''m'', ''256''), (CHR ''n'', ''1'')]"

definition ex_heap :: heap where
  "ex_heap = \<lparr>outcome = (\<lambda>_. Malloc_block 0), tick = 0, live = 0, have_posix_memalign = True\<rparr>"

theorem bloom_pictures_witness:
  "(\<exists>pics hp'. bloom_draw_main (\<lambda>g. (0, g)) (\<lambda>_. ''0.000000'') 0 0 ex_args () ex_heap = Some (Ran (pics, hp')) \<and>
     live hp' = 1) \<and>
   bloom_draw_main (\<lambda>g. (1684300900, g)) (\<lambda>_. ''0.000000'') 0 0 ex_args () ex_heap = None"
proof -
  have parsed: "parse_opts ex_args \<lparr>opt_m = None, opt_k = None, opt_n = 0, opt_outdir = None\<rparr> ex_heap =
      Some (Ran (\<lparr>opt_m = Some 256, opt_k = Some 4, opt_n = 1, opt_outdir = Some ''imageout''\<rparr>,
        ex_heap\<lparr>tick := 1, live := 1\<rparr>))"
    by (simp add: ex_heap_def ex_args_def malloc_def atoi_def)
  have enough: "no_oom ex_heap" "live ex_heap = 0"
    by (simp_all add: no_oom_def ex_heap_def)
  have out: "outdirs ex_args = 1"
    by (simp add: outdirs_def ex_args_def)
  note run = bloom_pictures [OF parsed, where m = 256 and k = 4 and mkdir_ret = 0 and chdir_ret = 0 and prob = "\<lambda>_. ''0.000000''"]
  show ?thesis
    using run [of "\<lambda>g. (0, g)" "()"] run [of "\<lambda>g. (1684300900, g)" "()"] tuple_examples
    by (simp add: drawn_pairs_const out enough del: drawn_pairs.simps) blast
qed

end
