(* ===== verification/Spec2Isabelle.thy ===== *)
theory Spec2Isabelle
  imports Hi_codes Hi_faults Hi_reach Hi_key Sha1_selftest Skein_loop Cube_ref Hash_bytes Mt Hi_rehash_ts Chi_square Vishash Bloom_draw
begin

text \<open>
  A verification of libhashish, a hash table library in C: tables that resolve collisions by
  chains, by arrays or by red-black trees, with hash functions to choose from, iterators,
  rehashing, typed keys, a Bloom filter, locks for threads, and the programs that analyse them
  (\<open>lib/\<close>, \<open>include/\<close>, \<open>localhash/\<close>, \<open>analysis/\<close>).

  Foundations.

  \<^item> \<open>Hi_prelude\<close>: machine integers, keys as byte lists, little-endian words.
  \<^item> \<open>Hi_heap\<close> (\<open>lib/xutils.c\<close>, return codes of \<open>include/libhashish.h\<close>): error codes and messages, the
    allocator and \<open>strlcpy\<close>. The allocator is an oracle: \<open>outcome hp n\<close> tells whether the n-th
    allocation fails and what the fresh block holds; \<open>live hp\<close> counts the blocks in use.
  \<^item> \<open>Cmp_funcs\<close> (\<open>lib/cmp_funcs.c\<close>): the compare functions, and the contracts \<open>key_domain\<close> (zero
    exactly on equal keys) and \<open>key_order\<close> (a linear order), interpreted on strings and integers.
  \<^item> \<open>Hi_types\<close> (\<open>include/libhashish.h\<close>): engines, settings (\<open>struct hi_init_set\<close>), handle
    (\<open>hi_handle_t\<close>) as records, and the abstract view of a table as a map of keys to data.

  The table.

  \<^item> \<open>Hi_set\<close> (\<open>lib/hi_set.c\<close>, the registry of \<open>lib/lib_init.c\<close>): the setters of the settings and
    the sixteen hash functions by number.
  \<^item> \<open>Hi_bucket_array\<close>, \<open>Hi_iterator\<close> (\<open>lib/hi_iterator.c\<close>): the arrays of pointers an iterator
    reads, and the iterator.
  \<^item> \<open>Hi_engine\<close>: the contract \<open>coll_engine\<close> of a collision engine and \<open>iterable_engine\<close>.
    \<open>Hi_list\<close> (\<open>lib/hi_list.c\<close>), \<open>Hi_array\<close> (\<open>lib/hi_array.c\<close>), \<open>Rbtree\<close> and \<open>Hi_rbtree\<close>
    (\<open>lib/hi_rbtree.c\<close>, \<open>include/rbtree.h\<close>) model the engines and prove the contracts.
  \<^item> \<open>Lib_init\<close> (\<open>lib/lib_init.c\<close>, \<open>lib/lib_fini.c\<close>): creating and destroying a table.
  \<^item> \<open>Hi_operations\<close> (\<open>lib/hi_operations.c\<close>, \<open>hi_rehash\<close> of \<open>lib/lib_init.c\<close>): lookup, get, remove,
    insert, rehash. \<open>Hi_table\<close> and \<open>Hi_map\<close> lift the engine contracts to the public operations and
    to sequences of commands against the abstract map (\<open>spec_cmds\<close>); \<open>Hi_client\<close> adds creation
    and destruction; \<open>Hi_correct\<close> states the results over the public operations.
  \<^item> \<open>Hi_key\<close> (\<open>lib/hi_key_*.c\<close>): the wrappers for strings and integers. A string argument is the
    memory from the pointer on.
  \<^item> \<open>Hi_reach\<close>: the invariants of every state that a table without automatic rehashing reaches by
    insertions, gets and removals while the allocator may fail at any time, and the length of a
    search in a tree.
  \<^item> \<open>Hi_codes\<close>: the codes that the public operations return, with the one that is no code of the
    header.
  \<^item> \<open>Hi_faults\<close>: where the code does not do what it means to.

  Threads: the THREADSAFE build, where every lock wrapper calls the thread library.

  \<^item> \<open>Threads\<close> (\<open>lib/threads.h\<close>): threads as programs of lock operations and atomic steps, their
    step relation, and the lock discipline that excludes undefined unlocks and deadlocks and gives
    termination.
  \<^item> \<open>Hi_locking\<close>: the operations as such programs, with the locks the code takes on every path.
    The accesses to the table under one lock are one step. The bucket of a key, which is
    constant while the table does not rehash, is computed inside it.
  \<^item> \<open>Linear\<close>: the contract \<open>linear_run\<close> of programs whose every run is a run of the commands one at
    a time (\<open>interleaving\<close>). \<open>Hi_concurrent\<close> and \<open>Hi_linear\<close> interpret it on the chains, \<open>Hi_trees\<close>
    and \<open>Hi_writers\<close> on threads that insert into and remove from trees. \<open>Hi_create_ts\<close>: creating and
    destroying a table with its locks. \<open>Hi_threads\<close> states the results from creation to destruction.
    \<open>Hi_lock_faults\<close>: the engines and paths whose locking is wrong. \<open>Hi_iter_ts\<close>: the locks of the
    iterators. \<open>Hi_rehash_ts\<close>: rehashing as a program of many steps; alone it does what the function
    does, beside another thread it can lose an insertion.

  Hash functions and random data.

  \<^item> \<open>Hash_func\<close>, \<open>Hash_jenkins3\<close>, \<open>Hash_murmur\<close>, \<open>Hash_goulburn\<close>, \<open>Hash_cube\<close>, \<open>Hash_sha1\<close>,
    \<open>Hash_skein256\<close> (\<open>lib/hash_func*.c\<close>): the hash functions, with what they compute: the same value
    for every alignment of the key. \<open>Sha1_ref\<close>, \<open>Skein_ref\<close> and \<open>Cube_ref\<close> state SHA-1, Skein and
    CubeHash apart from the code and prove that it implements them; \<open>Sha1_selftest\<close>: messages in pieces and the
    self test; \<open>Skein_iv\<close> recomputes the tables of initial values; \<open>Skein_loop\<close>: the build of the
    block function with looping rounds against the unrolled one, and the fields of the tweak;
    \<open>Hash_bytes\<close>: words to bytes and back.
  \<^item> \<open>Hi_bloom\<close> (\<open>lib/hi_bloom_filter.c\<close>): the Bloom filter and its exact set of answers.
  \<^item> \<open>Mt\<close> (\<open>localhash/mt.c\<close>), \<open>Datagen\<close> (\<open>localhash/datagen.c\<close>): the Mersenne twister with its
    lazily reloaded state against MT19937 stated bit by bit, random strings and
    the polar method for normally distributed numbers.

  Programs that analyse the library (\<open>analysis/\<close>).

  \<^item> \<open>Analysis\<close> (\<open>analysis_common.h\<close>, \<open>avalanche.c\<close>, \<open>benchtool.c\<close>, \<open>hashstr.c\<close>, the seed of
    \<open>localhash/random.c\<close>): the choice of a hash function by name, the avalanche test, whose loops
    count exactly the bits that change, and the benchmark.
  \<^item> \<open>Chi_square\<close> (\<open>chi_square.c\<close>): the tables of counters, and the value printed in any arithmetic
    of \<open>double\<close> against the statistic it means to print.
  \<^item> \<open>Vishash\<close> (\<open>vishash.c\<close>): two more hash functions and the pixels of an image.
  \<^item> \<open>Bloom_draw\<close> (\<open>bloom_distribution.c\<close>, \<open>false_positiv_probability_table.c\<close>, the false positive
    estimates of \<open>lib/hi_bloom_filter.c\<close>): the pictures that a run of the program draws
    against the set of the bits of its keys, and the blocks it leaves.

  Conventions. An operation on a handle returns an option; \<open>None\<close> is undefined behaviour of the C
  code. Integers keep their width. A table operation takes the key as the list of its bytes, whose
  length is the length argument of the C function. A local variable or buffer that the C code leaves
  uninitialised is an argument of the model, over which the theorems quantify. Keys are limited by
  32-bit lengths, tables to \<open>2 ^ 31\<close> entries in the theorems (\<open>max_objects\<close>), so that counters and
  doubled sizes do not wrap.

  Bounds and fuel. \<open>hi_insert\<close> and \<open>hi_rehash\<close> are mutually recursive; the model bounds the depth of
  the recursion by 1 and theorem \<open>hi_insert_depth\<close> shows that every larger bound gives the same
  function. The rejection loop of \<open>gaussian\<close> and the fill loop of the benchmark, which may run for
  ever, are partial functions whose value is then \<open>None\<close>; lemmas \<open>gaussian_polar\<close> and
  \<open>benchmark_run\<close> say when they end. All other loops are total functions with termination proofs.

  Floating point. In \<open>Chi_square\<close> the arithmetic of \<open>double\<close> is a parameter (\<open>double_ops\<close>): the
  theorem holds with any rounding, infinities and NaN, and for exact arithmetic besides. Elsewhere a
  \<open>double\<close> is an exact rational number, or a real number in the estimates of the Bloom filter and in
  \<open>gaussian\<close>; there roundings are not modelled, and where C would compute an infinity the model
  gives no value. Arrays on the stack are taken to fit.

  Not modelled. Printing and the writing of image files; the constants of
  Skein-512 and Skein-1024, which nothing uses; the memory of a key that one thread removes while
  another copies it in a rehash; the tests.
\<close>

end
